(* ===== verification/Prelude.thy ===== *)
theory Prelude
  imports "HOL-Library.Word" "HOL-Library.Multiset"
begin

unbundle bit_operations_syntax

text \<open>
  Shared vocabulary of the development: the machine word types of the C code, the result
  type of operations that may report an error and exit, and generic lemmas on lists, maps
  and words that several components use.

  The C code reports an error by calling a function that never returns (\<open>yyerror\<close>,
  \<open>errorf\<close>, \<open>lerror\<close>, \<open>abort\<close>, a failed \<open>assert\<close>). Such a call is the value
  \<open>Inl e\<close> of a sum; \<open>E_undef\<close> marks an execution the C standard leaves undefined
  (division by zero, a null dereference, an out-of-range conversion).
\<close>

type_synonym u32 = "32 word"
type_synonym u64 = "64 word"

datatype error =
    E_yyerror string
  | E_lerror string
  | E_errorf string
  | E_abort
  | E_assert
  | E_undef string

type_synonym 'a result = "error + 'a"

named_theorems sem_simps \<open>evaluation rules of the expression semantics\<close>
named_theorems pass_simps \<open>rewrite rules for the expression passes on well-formed input\<close>

section \<open>Chaining of results\<close>

fun rbind :: "'a result \<Rightarrow> ('a \<Rightarrow> 'b result) \<Rightarrow> 'b result" where
  "rbind (Inl e) f = Inl e"
| "rbind (Inr x) f = f x"

lemma rbind_cong [fundef_cong]:
  "m = n \<Longrightarrow> (\<And>x. n = Inr x \<Longrightarrow> f x = g x) \<Longrightarrow> rbind m f = rbind n g"
  by (cases n) auto

lemma rbind_Inr_iff: "rbind m f = Inr y \<longleftrightarrow> (\<exists>x. m = Inr x \<and> f x = Inr y)"
  by (cases m) auto

lemma rbind_Inl_iff:
  "rbind m f = Inl e \<longleftrightarrow> m = Inl e \<or> (\<exists>x. m = Inr x \<and> f x = Inl e)"
  by (cases m) auto

lemma rbind_assoc: "rbind (rbind m f) g = rbind m (\<lambda>x. rbind (f x) g)"
  by (cases m) auto

lemma rbind_split:
  "P (rbind m f) \<longleftrightarrow> (\<forall>e. m = Inl e \<longrightarrow> P (Inl e)) \<and> (\<forall>x. m = Inr x \<longrightarrow> P (f x))"
  by (cases m) auto

section \<open>Words\<close>

lemma uint_lt_32: "uint (x :: u32) < 4294967296"
  using uint_lt2p [of x] by (simp only: len_of_numeral_defs) simp

lemma uint_ge_0_32: "0 \<le> uint (x :: u32)"
  by (rule uint_ge_0)

lemma unat_lt_32: "unat (x :: u32) < 4294967296"
  using unsigned_less [of x, where ?'a = nat] by simp

lemma uint_add_32:
  fixes a b :: u32
  shows "uint (a + b) =
    (if uint a + uint b < 4294967296 then uint a + uint b else uint a + uint b - 4294967296)"
  using uint_plus_if' [of a b] by (simp only: len_of_numeral_defs) simp

lemma uint_sub_32:
  fixes a b :: u32
  shows "uint (a - b) = (if uint b \<le> uint a then uint a - uint b else uint a - uint b + 4294967296)"
  using uint_sub_if' [of a b] by (simp only: len_of_numeral_defs) simp

lemma word_add_less_iff:
  fixes a b :: u32
  shows "a + b < b \<longleftrightarrow> 4294967296 \<le> uint a + uint b"
proof -
  have "a + b < b \<longleftrightarrow> uint (a + b) < uint b"
    by (rule word_less_def)
  also have "\<dots> \<longleftrightarrow> 4294967296 \<le> uint a + uint b"
    using uint_lt_32 [of a] uint_lt_32 [of b] uint_add_32 [of a b]
    by (simp split: if_split_asm)
  finally show ?thesis .
qed

lemma bit_32_high: "bit (x :: u32) n \<Longrightarrow> n < 32"
  using bit_imp_le_length [of x n] by simp

lemma plus_1_eq_0_32: "a + 1 = 0 \<longleftrightarrow> uint (a :: u32) = 4294967295"
  using uint_lt_32 [of a] uint_add_32 [of a 1]
  by (auto simp: word_uint_eq_iff split: if_splits) (use uint_ge_0_32 [of a] in linarith)

lemma uint_plus_1_32: "uint (a + 1) = (if a + 1 = 0 then 0 else uint (a :: u32) + 1)"
  using plus_1_eq_0_32 [of a] uint_lt_32 [of a] uint_add_32 [of a 1] by (auto split: if_splits)

lemma uint_minus_1_32: "uint (a - 1) = (if a = 0 then 4294967295 else uint (a :: u32) - 1)"
  using uint_sub_32 [of a 1]
  by (auto simp: word_uint_eq_iff split: if_splits) (use uint_ge_0_32 [of a] in linarith)+

lemma uint_not_32: "uint (NOT (a :: u32)) = 4294967295 - uint a"
  proof -
  have "uint (- 1 :: u32) = 4294967295" using uint_minus_1_32 [of 0] by simp
  moreover have "NOT a = - 1 - a" by (simp add: not_eq_complement)
  ultimately show ?thesis using uint_sub_32 [of "- 1" a] uint_lt_32 [of a] by simp
qed

lemma less_4_cases: "i < 4 \<Longrightarrow> i = 0 \<or> i = 1 \<or> i = 2 \<or> i = (3 :: nat)"
  by presburger

lemma div_mod_32: "k < 32 \<Longrightarrow> (32 * q + k) div 32 = q" "k < 32 \<Longrightarrow> (32 * q + k) mod 32 = (k :: nat)"
  by simp_all

lemma word_pos_128: "k < 32 \<Longrightarrow> 32 * q + k < 128 \<longleftrightarrow> q < (4 :: nat)"
  by auto

section \<open>Strings\<close>

text \<open>The sign of the standard \<^verbatim>\<open>strcmp\<close>: bytes compare as unsigned values.\<close>

fun strcmp :: "string \<Rightarrow> string \<Rightarrow> int" where
  "strcmp [] [] = 0"
| "strcmp [] (b # bs) = -1"
| "strcmp (a # as) [] = 1"
| "strcmp (a # as) (b # bs) =
     (if a = b then strcmp as bs
      else if (of_char a :: nat) < of_char b then -1 else 1)"

lemma strcmp_0 [simp]: "strcmp a b = 0 \<longleftrightarrow> a = b"
  by (induction a b rule: strcmp.induct) auto

lemma strcmp_antisym: "strcmp b a = - strcmp a b"
proof (induction a b rule: strcmp.induct)
  case (4 a as b bs)
  have "(of_char a :: nat) = of_char b \<longleftrightarrow> a = b" by simp
  with 4 show ?case by auto
qed simp_all

end
