(* ===== verification/U128.thy ===== *)
theory U128
  imports Prelude
begin

text \<open>
  \<^verbatim>\<open>shared/u128.c\<close>: 128-bit integers as four 32-bit words, least significant word
  first. Every loop over the four words is unrolled; its body is a step function that
  threads the carry. The specification is arithmetic on \<^typ>\<open>128 word\<close>:
  \<open>u128_word\<close> is the abstraction, and each operation is shown to refine the word
  operation.
\<close>

section \<open>Representation\<close>

datatype u128 = U128 u32 u32 u32 u32

fun word_v :: "u128 \<Rightarrow> nat \<Rightarrow> u32" where
  "word_v (U128 a0 a1 a2 a3) i =
     (if i = 0 then a0 else if i = 1 then a1 else if i = 2 then a2 else if i = 3 then a3 else 0)"

fun u128_word :: "u128 \<Rightarrow> 128 word" where
  "u128_word (U128 a0 a1 a2 a3) =
     ucast a0 OR push_bit 32 (ucast a1) OR push_bit 64 (ucast a2) OR push_bit 96 (ucast a3)"

fun u128_val :: "u128 \<Rightarrow> int" where
  "u128_val (U128 a0 a1 a2 a3) =
     uint a0 + 4294967296 * uint a1 + 18446744073709551616 * uint a2
       + 79228162514264337593543950336 * uint a3"

section \<open>Basic 128 bit operations\<close>

definition u128_add_step :: "bool \<Rightarrow> u32 \<Rightarrow> u32 \<Rightarrow> u32 \<times> bool" where
  "u128_add_step carry a b =
     (let (a', carry') = (if carry then (a + 1, a + 1 = 0) else (a, carry));
          r = a' + b
      in (r, if r < b then True else carry'))"

fun u128_add :: "u128 \<Rightarrow> u128 \<Rightarrow> u128" where
  "u128_add (U128 a0 a1 a2 a3) (U128 b0 b1 b2 b3) =
     (let (r0, c0) = u128_add_step False a0 b0;
          (r1, c1) = u128_add_step c0 a1 b1;
          (r2, c2) = u128_add_step c1 a2 b2;
          (r3, c3) = u128_add_step c2 a3 b3
      in U128 r0 r1 r2 r3)"

definition u128_sub_step :: "bool \<Rightarrow> u32 \<Rightarrow> u32 \<Rightarrow> u32 \<times> bool" where
  "u128_sub_step borrow a b =
     (let (a', borrow') = (if borrow then (a - 1, a = 0) else (a, borrow))
      in (a' - b, if a' < b then True else borrow'))"

fun u128_sub :: "u128 \<Rightarrow> u128 \<Rightarrow> u128" where
  "u128_sub (U128 a0 a1 a2 a3) (U128 b0 b1 b2 b3) =
     (let (r0, c0) = u128_sub_step False a0 b0;
          (r1, c1) = u128_sub_step c0 a1 b1;
          (r2, c2) = u128_sub_step c1 a2 b2;
          (r3, c3) = u128_sub_step c2 a3 b3
      in U128 r0 r1 r2 r3)"

definition u128_minus_step :: "bool \<Rightarrow> u32 \<Rightarrow> u32 \<times> bool" where
  "u128_minus_step carry a =
     (let n = NOT a in if carry then (n + 1, n + 1 = 0) else (n, carry))"

fun u128_minus :: "u128 \<Rightarrow> u128" where
  "u128_minus (U128 a0 a1 a2 a3) =
     (let (r0, c0) = u128_minus_step True a0;
          (r1, c1) = u128_minus_step c0 a1;
          (r2, c2) = u128_minus_step c1 a2;
          (r3, c3) = u128_minus_step c2 a3
      in U128 r0 r1 r2 r3)"

fun u128_and :: "u128 \<Rightarrow> u128 \<Rightarrow> u128" where
  "u128_and (U128 a0 a1 a2 a3) (U128 b0 b1 b2 b3) =
     U128 (a0 AND b0) (a1 AND b1) (a2 AND b2) (a3 AND b3)"

fun u128_or :: "u128 \<Rightarrow> u128 \<Rightarrow> u128" where
  "u128_or (U128 a0 a1 a2 a3) (U128 b0 b1 b2 b3) =
     U128 (a0 OR b0) (a1 OR b1) (a2 OR b2) (a3 OR b3)"

fun u128_xor :: "u128 \<Rightarrow> u128 \<Rightarrow> u128" where
  "u128_xor (U128 a0 a1 a2 a3) (U128 b0 b1 b2 b3) =
     U128 (a0 XOR b0) (a1 XOR b1) (a2 XOR b2) (a3 XOR b3)"

fun u128_not :: "u128 \<Rightarrow> u128" where
  "u128_not (U128 a0 a1 a2 a3) = U128 (NOT a0) (NOT a1) (NOT a2) (NOT a3)"

text \<open>
  \<open>u128_shift_left\<close> walks down from word 3: word \<open>i \<ge> words\<close> takes the bits of word
  \<open>i - words\<close> and, when the bit shift is not zero and \<open>i > words\<close>, the high bits of
  word \<open>i - words - 1\<close>; the remaining words become 0. The loop reads only words below
  the one it writes, so every read sees the original value.
\<close>

definition u128_shl_word :: "u128 \<Rightarrow> nat \<Rightarrow> nat \<Rightarrow> nat \<Rightarrow> u32" where
  "u128_shl_word a words bits i =
     (if i < words then 0
      else push_bit bits (word_v a (i - words)) OR
           (if bits \<noteq> 0 \<and> i > words then drop_bit (32 - bits) (word_v a (i - words - 1)) else 0))"

definition u128_shift_left :: "u128 \<Rightarrow> u32 \<Rightarrow> u128" where
  "u128_shift_left a b =
     (let words = unat b div 32; bits = unat b mod 32
      in U128 (u128_shl_word a words bits 0) (u128_shl_word a words bits 1)
              (u128_shl_word a words bits 2) (u128_shl_word a words bits 3))"

definition u128_shr_word :: "u128 \<Rightarrow> nat \<Rightarrow> nat \<Rightarrow> nat \<Rightarrow> u32" where
  "u128_shr_word a words bits i =
     (if i + words < 4
      then drop_bit bits (word_v a (i + words)) OR
           (if bits \<noteq> 0 \<and> i + words + 1 < 4 then push_bit (32 - bits) (word_v a (i + words + 1)) else 0)
      else 0)"

definition u128_shift_right :: "u128 \<Rightarrow> u32 \<Rightarrow> u128" where
  "u128_shift_right a b =
     (let words = unat b div 32; bits = unat b mod 32
      in U128 (u128_shr_word a words bits 0) (u128_shr_word a words bits 1)
              (u128_shr_word a words bits 2) (u128_shr_word a words bits 3))"

section \<open>128 bit and 32 bit mixed\<close>

definition u128_from_32 :: "u32 \<Rightarrow> u128" where
  "u128_from_32 a = U128 a 0 0 0"

fun u128_to_32 :: "u128 \<Rightarrow> u32 result" where
  "u128_to_32 (U128 a0 a1 a2 a3) =
     (if a1 \<noteq> 0 \<or> a2 \<noteq> 0 \<or> a3 \<noteq> 0
      then Inl (E_yyerror ''128 bit value is too large for 32 bits'') else Inr a0)"

fun u128_is_32 :: "u128 \<Rightarrow> bool" where
  "u128_is_32 (U128 a0 a1 a2 a3) = (a1 = 0 \<and> a2 = 0 \<and> a3 = 0)"

fun u128_add_32 :: "u128 \<Rightarrow> u32 \<Rightarrow> u128" where
  "u128_add_32 (U128 a0 a1 a2 a3) b =
     (let r0 = a0 + b
      in if r0 < b
         then if a1 + 1 = 0
              then if a2 + 1 = 0 then U128 r0 (a1 + 1) (a2 + 1) (a3 + 1)
                   else U128 r0 (a1 + 1) (a2 + 1) a3
              else U128 r0 (a1 + 1) a2 a3
         else U128 r0 a1 a2 a3)"

fun u128_sub_32 :: "u128 \<Rightarrow> u32 \<Rightarrow> u128" where
  "u128_sub_32 (U128 a0 a1 a2 a3) b =
     (if a0 < b
      then if a1 \<noteq> 0 then U128 (a0 - b) (a1 - 1) a2 a3
           else if a2 \<noteq> 0 then U128 (a0 - b) (a1 - 1) (a2 - 1) a3
           else U128 (a0 - b) (a1 - 1) (a2 - 1) (a3 - 1)
      else U128 (a0 - b) a1 a2 a3)"

definition u128_sub_from_32 :: "u32 \<Rightarrow> u128 \<Rightarrow> u128" where
  "u128_sub_from_32 a b = u128_add_32 (u128_minus b) a"

fun u128_and_32 :: "u128 \<Rightarrow> u32 \<Rightarrow> u128" where
  "u128_and_32 (U128 a0 a1 a2 a3) b = U128 (a0 AND b) a1 a2 a3"

fun u128_or_32 :: "u128 \<Rightarrow> u32 \<Rightarrow> u128" where
  "u128_or_32 (U128 a0 a1 a2 a3) b = U128 (a0 OR b) a1 a2 a3"

fun u128_xor_32 :: "u128 \<Rightarrow> u32 \<Rightarrow> u128" where
  "u128_xor_32 (U128 a0 a1 a2 a3) b = U128 (a0 XOR b) a1 a2 a3"

section \<open>Comparison\<close>

text \<open>\<open>u128_cmp\<close> compares from index 0, the least significant word, upwards.\<close>

fun u128_cmp :: "u128 \<Rightarrow> u128 \<Rightarrow> int" where
  "u128_cmp (U128 a0 a1 a2 a3) (U128 b0 b1 b2 b3) =
     (if a0 \<noteq> b0 then if a0 < b0 then -1 else 1
      else if a1 \<noteq> b1 then if a1 < b1 then -1 else 1
      else if a2 \<noteq> b2 then if a2 < b2 then -1 else 1
      else if a3 \<noteq> b3 then if a3 < b3 then -1 else 1
      else 0)"

fun u128_is_zero :: "u128 \<Rightarrow> bool" where
  "u128_is_zero (U128 a0 a1 a2 a3) = (a0 = 0 \<and> a1 = 0 \<and> a2 = 0 \<and> a3 = 0)"

section \<open>Bits and value of the abstraction\<close>

lemma bit_u128_word_gen:
  "bit (u128_word (U128 a0 a1 a2 a3)) n \<longleftrightarrow>
     bit a0 n \<or> 32 \<le> n \<and> bit a1 (n - 32) \<or> 64 \<le> n \<and> bit a2 (n - 64) \<or> 96 \<le> n \<and> bit a3 (n - 96)"
  by (auto simp: bit_or_iff bit_push_bit_iff bit_ucast_iff dest: bit_32_high)

lemma bit_u128_word:
  "bit (u128_word a) n \<longleftrightarrow> n < 128 \<and> bit (word_v a (n div 32)) (n mod 32)"
proof (cases a)
  case (U128 a0 a1 a2 a3)
  have "n < 32 \<or> (\<exists>m<32. n = m + 32) \<or> (\<exists>m<32. n = m + 64) \<or> (\<exists>m<32. n = m + 96) \<or> 128 \<le> n"
    by presburger
  moreover have "(m + 32) mod 32 = m \<and> (m + 64) mod 32 = m \<and> (m + 96) mod 32 = m" if "m < 32" for m :: nat
    using that mod_mult_self2 [of m 32 1] mod_mult_self2 [of m 32 2] mod_mult_self2 [of m 32 3] by simp
  ultimately show ?thesis
    by (elim disjE exE conjE)
      (auto simp: U128 bit_u128_word_gen simp del: u128_word.simps dest: bit_32_high)
qed

lemma add_step_val: "u128_add_step c a b = (r, c') \<Longrightarrow>
   uint r + 4294967296 * of_bool c' = uint a + uint b + of_bool c"
  using plus_1_eq_0_32 [of a] uint_plus_1_32 [of a] uint_lt_32 [of b]
  by (auto simp: u128_add_step_def Let_def uint_add_32 [of _ b] word_add_less_iff split: if_splits)

lemma sub_step_val:
  assumes "u128_sub_step c a b = (r, c')"
  shows "uint r - 4294967296 * of_bool c' = uint a - uint b - of_bool c"
proof (cases c)
  case True
  with assms show ?thesis
    using uint_minus_1_32 [of a] uint_lt_32 [of b] uint_lt_32 [of a] uint_sub_32 [of "a - 1" b]
    by (auto simp: u128_sub_step_def Let_def word_less_def split: if_splits)
next
  case False
  with assms show ?thesis
    by (auto simp: u128_sub_step_def Let_def uint_sub_32 [of a b] word_less_def split: if_splits)
qed

lemma minus_step_val: "u128_minus_step c a = (r, c') \<Longrightarrow>
   uint r + 4294967296 * of_bool c' = 4294967295 - uint a + of_bool c"
  using plus_1_eq_0_32 [of "NOT a"] uint_plus_1_32 [of "NOT a"] uint_not_32 [of a]
  by (auto simp: u128_minus_step_def Let_def split: if_splits)
lemma uint_u128_word: "uint (u128_word a) = u128_val a"
proof (cases a)
  case (U128 a0 a1 a2 a3)
  have d: "x OR y = x + y" if "\<And>n. bit x n \<Longrightarrow> bit y n \<Longrightarrow> False" for x y :: "128 word"
    using that by (intro disjunctive_add_eq_or [symmetric]) (auto simp: bit_eq_iff bit_and_iff)
  let ?p1 = "push_bit 32 (ucast a1) :: 128 word" and ?p2 = "push_bit 64 (ucast a2) :: 128 word"
    and ?p3 = "push_bit 96 (ucast a3) :: 128 word"
  have "u128_word a = ucast a0 OR (?p1 OR (?p2 OR ?p3))"
    by (simp only: U128 u128_word.simps)
  also have "\<dots> = ucast a0 + (?p1 OR (?p2 OR ?p3))"
    by (rule d) (auto simp: bit_or_iff bit_push_bit_iff bit_ucast_iff dest: bit_32_high)
  also have "?p1 OR (?p2 OR ?p3) = ?p1 + (?p2 OR ?p3)"
    by (rule d) (auto simp: bit_or_iff bit_push_bit_iff bit_ucast_iff dest: bit_32_high)
  also have "?p2 OR ?p3 = ?p2 + ?p3"
    by (rule d) (auto simp: bit_push_bit_iff bit_ucast_iff dest: bit_32_high)
  finally have w: "u128_word a = ucast a0 + (?p1 + (?p2 + ?p3))" .
  have p: "push_bit k (ucast x) = (word_of_int (2 ^ k * uint x) :: 128 word)" for k and x :: u32
    by (simp only: push_bit_eq_mult ucast_eq of_int_mult of_int_power of_int_numeral mult.commute)
  have "?p1 = word_of_int (4294967296 * uint a1)"
    unfolding p by (rule arg_cong [where f = word_of_int]) simp
  moreover have "?p2 = word_of_int (18446744073709551616 * uint a2)"
    unfolding p by (rule arg_cong [where f = word_of_int]) simp
  moreover have "?p3 = word_of_int (79228162514264337593543950336 * uint a3)"
    unfolding p by (rule arg_cong [where f = word_of_int]) simp
  ultimately have "u128_word a = word_of_int (u128_val a)"
    unfolding w by (simp only: U128 u128_val.simps of_int_add ucast_eq add.assoc)
  moreover have "0 \<le> u128_val a \<and> u128_val a < 340282366920938463463374607431768211456"
   using uint_lt_32 [of a0] uint_lt_32 [of a1] uint_lt_32 [of a2] uint_lt_32 [of a3]
     uint_ge_0_32 [of a0] uint_ge_0_32 [of a1] uint_ge_0_32 [of a2] uint_ge_0_32 [of a3]
    unfolding U128 u128_val.simps by linarith
  ultimately show ?thesis
    by (simp add: uint_word_of_int mod_pos_pos_trivial)
qed

lemma u128_val_range: "0 \<le> u128_val a \<and> u128_val a < 340282366920938463463374607431768211456"
  using uint_lt2p [of "u128_word a"] uint_ge_0 [of "u128_word a"] unfolding uint_u128_word
  by (simp only: len_of_numeral_defs) simp

lemma u128_word_eq_of_int: "u128_word a = word_of_int (u128_val a)"
  by (simp only: uint_u128_word [symmetric] word_of_int_uint)

lemma word_of_int_shift_128: "word_of_int (x + 340282366920938463463374607431768211456 * y) = (word_of_int x :: 128 word)"
  by (rule word_uint_eqI) (simp only: uint_word_of_int len_of_numeral_defs, simp)

lemma u128_add_word: "u128_word (u128_add a b) = u128_word a + u128_word b"
proof (cases a; cases b)
  fix a0 a1 a2 a3 b0 b1 b2 b3
  assume ab: "a = U128 a0 a1 a2 a3" "b = U128 b0 b1 b2 b3"
  obtain r0 c0 where 0: "u128_add_step False a0 b0 = (r0, c0)" by force
  obtain r1 c1 where 1: "u128_add_step c0 a1 b1 = (r1, c1)" by force
  obtain r2 c2 where 2: "u128_add_step c1 a2 b2 = (r2, c2)" by force
  obtain r3 c3 where 3: "u128_add_step c2 a3 b3 = (r3, c3)" by force
  have "u128_val a + u128_val b = u128_val (u128_add a b) + 340282366920938463463374607431768211456 * of_bool c3"
    using add_step_val [OF 0] add_step_val [OF 1] add_step_val [OF 2] add_step_val [OF 3] by (simp add: ab 0 1 2 3)
  then show ?thesis
    by (simp only: u128_word_eq_of_int of_int_add [symmetric] word_of_int_shift_128)
qed

lemma u128_sub_word: "u128_word (u128_sub a b) = u128_word a - u128_word b"
proof (cases a; cases b)
  fix a0 a1 a2 a3 b0 b1 b2 b3
  assume ab: "a = U128 a0 a1 a2 a3" "b = U128 b0 b1 b2 b3"
  obtain r0 c0 where 0: "u128_sub_step False a0 b0 = (r0, c0)" by force
  obtain r1 c1 where 1: "u128_sub_step c0 a1 b1 = (r1, c1)" by force
  obtain r2 c2 where 2: "u128_sub_step c1 a2 b2 = (r2, c2)" by force
  obtain r3 c3 where 3: "u128_sub_step c2 a3 b3 = (r3, c3)" by force
  have "u128_val a - u128_val b = u128_val (u128_sub a b) + 340282366920938463463374607431768211456 * (- of_bool c3)"
    using sub_step_val [OF 0] sub_step_val [OF 1] sub_step_val [OF 2] sub_step_val [OF 3] by (simp add: ab 0 1 2 3)
  then show ?thesis
    by (simp only: u128_word_eq_of_int of_int_diff [symmetric] word_of_int_shift_128)
qed

lemma u128_minus_word: "u128_word (u128_minus a) = - u128_word a"
proof (cases a)
  fix a0 a1 a2 a3
  assume ab: "a = U128 a0 a1 a2 a3"
  obtain r0 c0 where 0: "u128_minus_step True a0 = (r0, c0)" by force
  obtain r1 c1 where 1: "u128_minus_step c0 a1 = (r1, c1)" by force
  obtain r2 c2 where 2: "u128_minus_step c1 a2 = (r2, c2)" by force
  obtain r3 c3 where 3: "u128_minus_step c2 a3 = (r3, c3)" by force
  have "- u128_val a = u128_val (u128_minus a) + 340282366920938463463374607431768211456 * (of_bool c3 - 1)"
    using minus_step_val [OF 0] minus_step_val [OF 1] minus_step_val [OF 2] minus_step_val [OF 3] by (simp add: ab 0 1 2 3)
  then show ?thesis
    by (simp only: u128_word_eq_of_int of_int_minus [symmetric] word_of_int_shift_128)
qed

lemma u128_and_word: "u128_word (u128_and a b) = u128_word a AND u128_word b"
  by (cases a; cases b; rule bit_word_eqI)
     (auto simp: bit_u128_word bit_and_iff simp del: u128_word.simps)

lemma u128_or_word: "u128_word (u128_or a b) = u128_word a OR u128_word b"
  by (cases a; cases b; rule bit_word_eqI)
     (auto simp: bit_u128_word bit_or_iff simp del: u128_word.simps)

lemma u128_xor_word: "u128_word (u128_xor a b) = u128_word a XOR u128_word b"
  by (cases a; cases b; rule bit_word_eqI)
     (auto simp: bit_u128_word bit_xor_iff simp del: u128_word.simps)

lemma word_v_u128_not: "i < 4 \<Longrightarrow> word_v (u128_not a) i = NOT (word_v a i)"
  by (cases a) (auto dest: less_4_cases)

lemma u128_not_word: "u128_word (u128_not a) = NOT (u128_word a)"
proof (rule bit_word_eqI)
  fix n assume n: "n < LENGTH(128)"
  then have n': "n < 128" by simp
  then have "n div 32 < 4" by (intro less_mult_imp_div_less) simp
  from word_v_u128_not [OF this, of a] n n'
  show "bit (u128_word (u128_not a)) n = bit (NOT (u128_word a)) n"
    by (simp only: bit_u128_word bit_not_iff) (simp add: bit_not_iff)
qed

lemma word_v_high: "4 \<le> i \<Longrightarrow> word_v a i = 0"
  by (cases a) simp

lemma word_v_build: "i < 4 \<Longrightarrow> word_v (U128 (f 0) (f 1) (f 2) (f 3)) i = f i"
  by (auto dest: less_4_cases)

text \<open>Both shifts, for every shift count, including counts of 128 and more.\<close>

lemma u128_shift_left_word: "u128_word (u128_shift_left a b) = push_bit (unat b) (u128_word a)"
proof (rule bit_word_eqI)
  fix n assume "n < LENGTH(128)"
  then have n: "n < 128" by simp
  define w r where "w = unat b div 32" and "r = unat b mod 32"
  define m k where "m = n div 32" and "k = n mod 32"
  have b: "unat b = 32 * w + r" "r < 32" and nn: "n = 32 * m + k" "k < 32"
    by (simp_all add: w_def r_def m_def k_def)
  have m: "m < 4" using n nn by linarith
  have "bit (u128_word (u128_shift_left a b)) n = bit (u128_shl_word a w r m) k"
    using n word_v_build [OF m, of "u128_shl_word a w r"]
    by (simp only: bit_u128_word u128_shift_left_def Let_def w_def r_def m_def k_def simp_thms)
  moreover have "bit (push_bit (unat b) (u128_word a)) n \<longleftrightarrow> 32 * w + r \<le> n \<and> bit (word_v a ((n - (32 * w + r)) div 32)) ((n - (32 * w + r)) mod 32)"
    using n by (auto simp: bit_push_bit_iff bit_u128_word b(1))
  moreover have "bit (u128_shl_word a w r m) k \<longleftrightarrow> 32 * w + r \<le> n \<and> bit (word_v a ((n - (32 * w + r)) div 32)) ((n - (32 * w + r)) mod 32)"
  proof (cases "32 * w + r \<le> n")
    case True
    show ?thesis
    proof (cases "r \<le> k")
      case True
      have wm: "w \<le> m" using nn \<open>32 * w + r \<le> n\<close> by linarith
      then have e: "n - (32 * w + r) = 32 * (m - w) + (k - r)"
        using nn \<open>32 * w + r \<le> n\<close> True by linarith
      have "(n - (32 * w + r)) div 32 = m - w" "(n - (32 * w + r)) mod 32 = k - r"
        unfolding e using nn(2) by (simp_all add: div_mod_32)
      then show ?thesis using True \<open>32 * w + r \<le> n\<close> wm nn(2)
        by (auto simp: u128_shl_word_def bit_or_iff bit_push_bit_iff bit_drop_bit_eq dest: bit_32_high)
    next
      case False
      have wm: "w < m" using False nn \<open>32 * w + r \<le> n\<close> by linarith
      then have e: "n - (32 * w + r) = 32 * (m - w - 1) + (k + 32 - r)"
        using nn \<open>32 * w + r \<le> n\<close> b(2) False by linarith
      have "k + 32 - r < 32" using False by simp
      then have "(n - (32 * w + r)) div 32 = m - w - 1" "(n - (32 * w + r)) mod 32 = k + 32 - r"
        unfolding e by (simp_all add: div_mod_32)
      then show ?thesis using False \<open>32 * w + r \<le> n\<close> wm nn(2) b(2)
        by (auto simp: u128_shl_word_def bit_or_iff bit_push_bit_iff bit_drop_bit_eq add.commute)
    qed
  next
    case False
    then have "m < w \<or> m = w \<and> k < r" using nn b(2) by linarith
    with False show ?thesis by (auto simp: u128_shl_word_def bit_or_iff bit_push_bit_iff)
  qed
  ultimately show "bit (u128_word (u128_shift_left a b)) n = bit (push_bit (unat b) (u128_word a)) n"
    by simp
qed

lemma u128_shift_right_word: "u128_word (u128_shift_right a b) = drop_bit (unat b) (u128_word a)"
proof (rule bit_word_eqI)
  fix n assume "n < LENGTH(128)"
  then have n: "n < 128" by simp
  define w r where "w = unat b div 32" and "r = unat b mod 32"
  define m k where "m = n div 32" and "k = n mod 32"
  have b: "unat b = 32 * w + r" "r < 32" and nn: "n = 32 * m + k" "k < 32"
    by (simp_all add: w_def r_def m_def k_def)
  have m: "m < 4" using n nn by linarith
  have "bit (u128_word (u128_shift_right a b)) n = bit (u128_shr_word a w r m) k"
    using n word_v_build [OF m, of "u128_shr_word a w r"]
    by (simp only: bit_u128_word u128_shift_right_def Let_def w_def r_def m_def k_def simp_thms)
  moreover obtain q where q: "q = n + (32 * w + r)" by blast
  have "bit (drop_bit (unat b) (u128_word a)) n \<longleftrightarrow> q < 128 \<and> bit (word_v a (q div 32)) (q mod 32)"
    by (simp add: bit_drop_bit_eq bit_u128_word b(1) q add.commute)
  moreover have "bit (u128_shr_word a w r m) k \<longleftrightarrow> q < 128 \<and> bit (word_v a (q div 32)) (q mod 32)"
  proof (cases "k + r < 32")
    case True
    have e: "q = 32 * (m + w) + (k + r)" using nn q by simp
    have "q div 32 = m + w" "q mod 32 = k + r"
      unfolding e using True by (simp_all only: div_mod_32)
    moreover have "q < 128 \<longleftrightarrow> m + w < 4" unfolding e using True by (rule word_pos_128)
    ultimately show ?thesis using True
      by (auto simp: u128_shr_word_def bit_or_iff bit_push_bit_iff bit_drop_bit_eq add.commute)
  next
    case False
    have e: "q = 32 * (m + w + 1) + (k + r - 32)" using nn False q by simp
    have l: "k + r - 32 < 32" using nn(2) b(2) by linarith
    then have "q div 32 = m + w + 1" "q mod 32 = k + r - 32"
      unfolding e by (simp_all only: div_mod_32)
    moreover have "q < 128 \<longleftrightarrow> m + w + 1 < 4" unfolding e using l by (rule word_pos_128)
    ultimately show ?thesis using False l nn(2) b(2)
      by (auto simp: u128_shr_word_def bit_or_iff bit_push_bit_iff bit_drop_bit_eq dest: bit_32_high)
  qed
  ultimately show "bit (u128_word (u128_shift_right a b)) n = bit (drop_bit (unat b) (u128_word a)) n"
    by simp
qed


lemma u128_word_inj: "u128_word a = u128_word b \<longleftrightarrow> a = b"
proof
  assume eq: "u128_word a = u128_word b"
  have "word_v a i = word_v b i" if "i < 4" for i
  proof (rule bit_word_eqI)
    fix n assume "n < LENGTH(32)"
    then have n: "n < 32" by simp
    have "bit (u128_word a) (32 * i + n) = bit (u128_word b) (32 * i + n)" by (simp only: eq)
    moreover have "32 * i + n < 128" using n that by linarith
    ultimately show "bit (word_v a i) n = bit (word_v b i) n"
      using n by (simp only: bit_u128_word div_mod_32 simp_thms)
  qed
  then have "word_v a 0 = word_v b 0" "word_v a 1 = word_v b 1" "word_v a 2 = word_v b 2" "word_v a 3 = word_v b 3" by simp_all
  then show "a = b" by (cases a; cases b) simp
qed simp

lemma u128_from_32_word: "u128_word (u128_from_32 a) = ucast a"
  by (simp add: u128_from_32_def)

lemma u128_is_zero_word: "u128_is_zero a \<longleftrightarrow> u128_word a = 0"
proof -
  have "u128_is_zero a \<longleftrightarrow> a = U128 0 0 0 0" by (cases a) auto
  also have "\<dots> \<longleftrightarrow> u128_word a = u128_word (U128 0 0 0 0)" by (simp only: u128_word_inj)
  finally show ?thesis by simp
qed

lemma u128_cmp_0: "u128_cmp a b = 0 \<longleftrightarrow> a = b"
  by (cases a; cases b) auto

lemma u128_is_32_word: "u128_is_32 a \<longleftrightarrow> (\<exists>x. a = u128_from_32 x)"
  by (cases a) (auto simp: u128_from_32_def)

lemma u128_to_32_Inr: "u128_to_32 a = Inr x \<longleftrightarrow> a = u128_from_32 x"
  by (cases a) (auto simp: u128_from_32_def)

lemma u128_add_32_eq: "u128_add_32 a b = u128_add a (u128_from_32 b)"
  by (cases a) (auto simp: u128_from_32_def u128_add_step_def Let_def)

lemma u128_sub_32_eq: "u128_sub_32 a b = u128_sub a (u128_from_32 b)"
  by (cases a) (auto simp: u128_from_32_def u128_sub_step_def Let_def)


section \<open>The arithmetic interface\<close>

text \<open>
  What the expression passes rely on: an implementation of 128-bit unsigned arithmetic,
  seen through its abstraction to machine words. The facts about masks and single bits that
  the passes of \<^verbatim>\<open>iflib_arith.c\<close> build from these operations follow from the laws alone.
\<close>

locale word128_arith =
  fixes to_word :: "'a \<Rightarrow> 128 word"
    and from32 :: "u32 \<Rightarrow> 'a"
    and add :: "'a \<Rightarrow> 'a \<Rightarrow> 'a"
    and sub :: "'a \<Rightarrow> 'a \<Rightarrow> 'a"
    and conj :: "'a \<Rightarrow> 'a \<Rightarrow> 'a"
    and compl :: "'a \<Rightarrow> 'a"
    and shl :: "'a \<Rightarrow> u32 \<Rightarrow> 'a"
    and shr :: "'a \<Rightarrow> u32 \<Rightarrow> 'a"
    and is0 :: "'a \<Rightarrow> bool"
  assumes from32_law: "to_word (from32 x) = ucast x"
    and add_law: "to_word (add a b) = to_word a + to_word b"
    and sub_law: "to_word (sub a b) = to_word a - to_word b"
    and conj_law: "to_word (conj a b) = to_word a AND to_word b"
    and compl_law: "to_word (compl a) = NOT (to_word a)"
    and shl_law: "to_word (shl a n) = push_bit (unat n) (to_word a)"
    and shr_law: "to_word (shr a n) = drop_bit (unat n) (to_word a)"
    and is0_law: "is0 a \<longleftrightarrow> to_word a = 0"
begin

lemma low_mask: "to_word (sub (shl (from32 1) n) (from32 1)) = mask (unat n)"
  by (simp add: sub_law shl_law from32_law mask_eq_exp_minus_1 push_bit_eq_mult)

lemma all_ones: "to_word (compl (from32 0)) = - 1"
  by (simp add: compl_law from32_law)

lemma high_mask: "to_word (shl (compl (from32 0)) n) = NOT (mask (unat n))"
  by (rule bit_word_eqI) (simp add: shl_law all_ones bit_push_bit_iff bit_not_iff bit_mask_iff not_less)

lemma no_bits_lost:
  "is0 (conj a (sub (shl (from32 1) n) (from32 1))) \<longleftrightarrow> take_bit (unat n) (to_word a) = 0"
  by (simp add: is0_law conj_law low_mask take_bit_eq_mask)

lemma bit_test: "is0 (conj a (shl (from32 1) n)) \<longleftrightarrow> \<not> bit (to_word a) (unat n)"
  by (simp add: is0_law conj_law shl_law from32_law bit_iff_and_push_bit_not_eq_0)

end

interpretation w128: word128_arith u128_word u128_from_32 u128_add u128_sub u128_and u128_not
    u128_shift_left u128_shift_right u128_is_zero
  by unfold_locales
    (simp_all only: u128_from_32_word u128_add_word u128_sub_word u128_and_word u128_not_word
      u128_shift_left_word u128_shift_right_word u128_is_zero_word)

end
