(* ===== verification/Float64.thy ===== *)
theory Float64
  imports Complex_Main Prelude
begin

text \<open>
  The C type \<^verbatim>\<open>double\<close> as the programs use it: IEEE 754 binary64 with
  round-to-nearest-even, and the conversions between \<^verbatim>\<open>double\<close> and
  \<^verbatim>\<open>uint32_t\<close>. A finite non-zero value is the rational number it denotes; signed
  zeros, infinities and NaN are constructors of their own. An operation computes the exact
  rational result and rounds it once.
\<close>

section \<open>Values and rounding\<close>

datatype f64 = F_nan | F_inf bool | F_zero bool | F_num rat

fun bitlen :: "nat \<Rightarrow> nat" where
  "bitlen n = (if n = 0 then 0 else Suc (bitlen (n div 2)))"

declare bitlen.simps [simp del]

definition pow2 :: "int \<Rightarrow> rat" where
  "pow2 e = (if 0 \<le> e then 2 ^ nat e else 1 / 2 ^ nat (- e))"

text \<open>The exponent of the leading bit of a non-zero rational.\<close>

definition f64_exp :: "rat \<Rightarrow> int" where
  "f64_exp q =
     (let (n, d) = quotient_of \<bar>q\<bar>;
          e = int (bitlen (nat n)) - int (bitlen (nat d))
      in if pow2 e \<le> \<bar>q\<bar> then e else e - 1)"

definition round_half_even :: "rat \<Rightarrow> int" where
  "round_half_even q =
     (let f = \<lfloor>q\<rfloor>; r = q - of_int f
      in if r < 1 / 2 then f else if 1 / 2 < r then f + 1 else if even f then f else f + 1)"

definition f64_round :: "rat \<Rightarrow> f64" where
  "f64_round q =
     (if q = 0 then F_zero False
      else let u = max (f64_exp q - 52) (- 1074);
               m = round_half_even (\<bar>q\<bar> / pow2 u);
               r = of_int m * pow2 u
           in if m = 0 then F_zero (q < 0)
              else if 2 ^ 1024 \<le> r then F_inf (q < 0)
              else F_num (if q < 0 then - r else r))"

fun f64_negative :: "f64 \<Rightarrow> bool" where
  "f64_negative F_nan = False"
| "f64_negative (F_inf s) = s"
| "f64_negative (F_zero s) = s"
| "f64_negative (F_num q) = (q < 0)"

fun f64_val :: "f64 \<Rightarrow> rat" where
  "f64_val (F_num q) = q"
| "f64_val _ = 0"

section \<open>Arithmetic and comparison\<close>

fun f64_neg :: "f64 \<Rightarrow> f64" where
  "f64_neg F_nan = F_nan"
| "f64_neg (F_inf s) = F_inf (\<not> s)"
| "f64_neg (F_zero s) = F_zero (\<not> s)"
| "f64_neg (F_num q) = F_num (- q)"

fun f64_add :: "f64 \<Rightarrow> f64 \<Rightarrow> f64" where
  "f64_add F_nan _ = F_nan"
| "f64_add _ F_nan = F_nan"
| "f64_add (F_inf s) (F_inf t) = (if s = t then F_inf s else F_nan)"
| "f64_add (F_inf s) _ = F_inf s"
| "f64_add _ (F_inf t) = F_inf t"
| "f64_add a b =
     (let q = f64_val a + f64_val b
      in if q = 0 then F_zero (f64_negative a \<and> f64_negative b) else f64_round q)"

definition f64_sub :: "f64 \<Rightarrow> f64 \<Rightarrow> f64" where
  "f64_sub a b = f64_add a (f64_neg b)"

fun f64_mul :: "f64 \<Rightarrow> f64 \<Rightarrow> f64" where
  "f64_mul F_nan _ = F_nan"
| "f64_mul _ F_nan = F_nan"
| "f64_mul (F_inf s) (F_zero t) = F_nan"
| "f64_mul (F_zero s) (F_inf t) = F_nan"
| "f64_mul (F_inf s) b = F_inf (s \<noteq> f64_negative b)"
| "f64_mul a (F_inf t) = F_inf (f64_negative a \<noteq> t)"
| "f64_mul (F_num p) (F_num q) = f64_round (p * q)"
| "f64_mul a b = F_zero (f64_negative a \<noteq> f64_negative b)"

fun f64_div :: "f64 \<Rightarrow> f64 \<Rightarrow> f64" where
  "f64_div F_nan _ = F_nan"
| "f64_div _ F_nan = F_nan"
| "f64_div (F_inf s) (F_inf t) = F_nan"
| "f64_div (F_zero s) (F_zero t) = F_nan"
| "f64_div (F_inf s) b = F_inf (s \<noteq> f64_negative b)"
| "f64_div a (F_inf t) = F_zero (f64_negative a \<noteq> t)"
| "f64_div (F_num p) (F_zero t) = F_inf (f64_negative (F_num p) \<noteq> t)"
| "f64_div (F_zero s) (F_num q) = F_zero (s \<noteq> f64_negative (F_num q))"
| "f64_div (F_num p) (F_num q) = f64_round (p / q)"

fun f64_lt :: "f64 \<Rightarrow> f64 \<Rightarrow> bool" where
  "f64_lt F_nan _ = False"
| "f64_lt _ F_nan = False"
| "f64_lt (F_inf s) (F_inf t) = (s \<and> \<not> t)"
| "f64_lt (F_inf s) _ = s"
| "f64_lt _ (F_inf t) = (\<not> t)"
| "f64_lt a b = (f64_val a < f64_val b)"

fun f64_eq :: "f64 \<Rightarrow> f64 \<Rightarrow> bool" where
  "f64_eq F_nan _ = False"
| "f64_eq _ F_nan = False"
| "f64_eq (F_inf s) (F_inf t) = (s = t)"
| "f64_eq (F_inf s) _ = False"
| "f64_eq _ (F_inf t) = False"
| "f64_eq a b = (f64_val a = f64_val b)"

definition f64_le :: "f64 \<Rightarrow> f64 \<Rightarrow> bool" where
  "f64_le a b \<longleftrightarrow> f64_lt a b \<or> f64_eq a b"

section \<open>Conversions\<close>

definition f64_of_u32 :: "u32 \<Rightarrow> f64" where
  "f64_of_u32 x = f64_round (of_int (uint x))"

text \<open>
  The cast to \<^verbatim>\<open>uint32_t\<close> truncates towards zero and is undefined when the
  truncated value does not fit.
\<close>

fun f64_to_u32 :: "f64 \<Rightarrow> u32 result" where
  "f64_to_u32 (F_num q) =
     (let t = (if q < 0 then - \<lfloor>- q\<rfloor> else \<lfloor>q\<rfloor>)
      in if 0 \<le> t \<and> t < 4294967296 then Inr (word_of_int t)
         else Inl (E_undef ''double out of range of uint32_t''))"
| "f64_to_u32 (F_zero s) = Inr 0"
| "f64_to_u32 _ = Inl (E_undef ''double out of range of uint32_t'')"

section \<open>Integers below 2 ^ 53 are exact\<close>

lemma bitlen_le: "n < 2 ^ k \<Longrightarrow> bitlen n \<le> k"
proof (induction k arbitrary: n)
  case 0
  then show ?case by (simp add: bitlen.simps)
next
  case (Suc k)
  from Suc.prems have "n div 2 < 2 ^ k" by simp
  from Suc.IH [OF this] show ?case by (subst bitlen.simps) simp
qed

lemma round_half_even_int: "round_half_even (of_int i) = i"
  by (simp add: round_half_even_def)

lemma f64_exp_int_le:
  assumes "0 < i" "i < 2 ^ 53"
  shows "f64_exp (of_int i) \<le> 52"
proof -
  have "nat i < 2 ^ 53" using assms by (simp add: nat_less_iff)
  then have "bitlen (nat i) \<le> 53" by (rule bitlen_le)
  moreover have "bitlen (nat 1) = 1" by (simp add: bitlen.simps)
  moreover have "quotient_of \<bar>of_int i :: rat\<bar> = (i, 1)"
    using assms by (simp flip: of_int_abs)
  ultimately show ?thesis
    by (simp add: f64_exp_def Let_def)
qed

lemma f64_round_int:
  assumes "0 < i" "i < 2 ^ 53"
  shows "f64_round (of_int i) = F_num (of_int i)"
proof -
  define u where "u = max (f64_exp (of_int i) - 52) (- 1074)"
  have u: "u \<le> 0" using f64_exp_int_le [OF assms] by (simp add: u_def)
  then have p: "pow2 u = 1 / 2 ^ nat (- u)"
    by (cases "u = 0") (auto simp: pow2_def)
  have d: "\<bar>of_int i :: rat\<bar> / pow2 u = of_int (i * 2 ^ nat (- u))"
    using assms by (simp add: p)
  have r: "of_int (i * 2 ^ nat (- u)) * pow2 u = (of_int i :: rat)"
    by (simp add: p)
  have b: "(of_int i :: rat) < 2 ^ 1024"
  proof -
    have "i < 2 ^ 1024" using assms(2) by simp
    then have "(of_int i :: rat) < of_int (2 ^ 1024)" by (simp only: of_int_less_iff)
    then show ?thesis by simp
  qed
  show ?thesis
    using assms b unfolding f64_round_def Let_def u_def [symmetric] d round_half_even_int r
    by (simp add: not_le)
qed

lemma f64_to_of_u32: "f64_to_u32 (f64_of_u32 x) = Inr x"
proof (cases "x = 0")
  case True
  then show ?thesis by (simp add: f64_of_u32_def f64_round_def)
next
  case False
  then have "uint x \<noteq> 0" by (simp add: word_uint_eq_iff)
  with uint_ge_0_32 [of x] have p: "0 < uint x" by linarith
  have b: "uint x < 2 ^ 53" using uint_lt_32 [of x] by simp
  have n: "\<not> (of_int (uint x) :: rat) < 0" using p by (simp only: of_int_less_0_iff)
  show ?thesis
    unfolding f64_of_u32_def f64_round_int [OF p b] f64_to_u32.simps Let_def floor_of_int
    using n p uint_lt_32 [of x] by (simp only: if_False floor_of_int word_of_int_uint, simp)
qed

end
