(* ===== verification/Data.thy ===== *)
theory Data
  imports U128 Float64
begin

text \<open>
  \<^verbatim>\<open>tcc/data.h\<close> and \<^verbatim>\<open>tcc/data.c\<close>: typed data containers. A C \<^verbatim>\<open>DATA\<close> is
  a type tag, an operator pointer and a union: when the operator pointer is set the union is
  invalid and the expression is variable. The model is one tagged union: a constructor for
  every tag, and \<open>D_op\<close> for a \<^verbatim>\<open>DATA\<close> with an operator, which carries its result type,
  the operator descriptor and the three operands of the \<^verbatim>\<open>OP\<close> it points to.

  Trees are values here. Cloning (\<^verbatim>\<open>data_clone\<close>) copies a value and destruction
  (\<^verbatim>\<open>data_destroy\<close>) frees memory, so neither appears in the operations. Pointers to
  devices, qdiscs, filters, policers and fields are identifiers.
\<close>

section \<open>Types\<close>

datatype data_type =
    dt_none | dt_unum | dt_ipv4 | dt_ipv6 | dt_fnum | dt_string | dt_rate | dt_size
  | dt_prate | dt_psize | dt_time | dt_device | dt_qdisc | dt_class | dt_filter | dt_tunnel
  | dt_police | dt_bucket | dt_list | dt_field | dt_field_root | dt_decision | dt_assoc

datatype decision_result = dr_continue | dr_class | dr_drop | dr_reclassify

text \<open>
  \<^verbatim>\<open>CLASS *\<close>: an ordinary class, or one of the two classes of
  \<^verbatim>\<open>tcc/filter.c\<close> that exist only for their address.
\<close>

datatype class_ref = Class nat | class_is_drop | class_is_tunnel

text \<open>The operator descriptors of \<^verbatim>\<open>tcc/op.h\<close>; they are compared by address.\<close>

datatype op_dsc =
    op_plus | op_minus | op_unary_minus | op_mult | op_div | op_mod | op_not | op_and | op_or
  | op_xor | op_mask | op_shift_left | op_shift_right | op_eq | op_ne | op_gt | op_ge | op_lt
  | op_le | op_logical_not | op_logical_or | op_logical_and | op_access | op_offset
  | op_conform | op_count | op_precond | op_precond2 | op_field_root

datatype data =
    D_none
  | D_unum u32
  | D_ipv4 u32
  | D_ipv6 u128
  | D_fnum f64
  | D_string string
  | D_rate f64
  | D_size f64
  | D_prate f64
  | D_psize f64
  | D_time f64
  | D_device nat
  | D_qdisc nat
  | D_class class_ref
  | D_filter nat
  | D_tunnel nat
  | D_police nat
  | D_bucket nat
  | D_list "data list"
  | D_field nat
  | D_field_root nat
  | D_decision decision_result "class_ref option"
  | D_assoc "(string \<times> data) list"
  | D_op data_type op_dsc data data data

fun type_of :: "data \<Rightarrow> data_type" where
  "type_of D_none = dt_none"
| "type_of (D_unum n) = dt_unum"
| "type_of (D_ipv4 n) = dt_ipv4"
| "type_of (D_ipv6 n) = dt_ipv6"
| "type_of (D_fnum x) = dt_fnum"
| "type_of (D_string s) = dt_string"
| "type_of (D_rate x) = dt_rate"
| "type_of (D_size x) = dt_size"
| "type_of (D_prate x) = dt_prate"
| "type_of (D_psize x) = dt_psize"
| "type_of (D_time x) = dt_time"
| "type_of (D_device p) = dt_device"
| "type_of (D_qdisc p) = dt_qdisc"
| "type_of (D_class p) = dt_class"
| "type_of (D_filter p) = dt_filter"
| "type_of (D_tunnel p) = dt_tunnel"
| "type_of (D_police p) = dt_police"
| "type_of (D_bucket p) = dt_bucket"
| "type_of (D_list l) = dt_list"
| "type_of (D_field p) = dt_field"
| "type_of (D_field_root p) = dt_field_root"
| "type_of (D_decision r c) = dt_decision"
| "type_of (D_assoc l) = dt_assoc"
| "type_of (D_op t dsc a b c) = t"

fun is_op :: "data \<Rightarrow> bool" where
  "is_op (D_op t dsc a b c) = True"
| "is_op d = False"

text \<open>\<open>data_typed_fnum\<close>: the caller passes one of the six floating-point tags.\<close>

fun data_typed_fnum :: "f64 \<Rightarrow> data_type \<Rightarrow> data result" where
  "data_typed_fnum x dt_fnum = Inr (D_fnum x)"
| "data_typed_fnum x dt_rate = Inr (D_rate x)"
| "data_typed_fnum x dt_size = Inr (D_size x)"
| "data_typed_fnum x dt_prate = Inr (D_prate x)"
| "data_typed_fnum x dt_psize = Inr (D_psize x)"
| "data_typed_fnum x dt_time = Inr (D_time x)"
| "data_typed_fnum x _ = Inl (E_undef ''union member fnum of a non-float'')"

section \<open>Names of types\<close>

fun type_name :: "data_type \<Rightarrow> string" where
  "type_name dt_none = ''none''"
| "type_name dt_unum = ''integer''"
| "type_name dt_ipv4 = ''IPv4 address''"
| "type_name dt_ipv6 = ''IPv6 address''"
| "type_name dt_fnum = ''floating-point number''"
| "type_name dt_string = ''string''"
| "type_name dt_rate = ''rate''"
| "type_name dt_size = ''size in bytes''"
| "type_name dt_prate = ''packet rate''"
| "type_name dt_psize = ''size in packets''"
| "type_name dt_time = ''time''"
| "type_name dt_device = ''device''"
| "type_name dt_qdisc = ''queuing discipline''"
| "type_name dt_class = ''class''"
| "type_name dt_filter = ''filter''"
| "type_name dt_tunnel = ''tunnel''"
| "type_name dt_police = ''policer''"
| "type_name dt_bucket = ''bucket''"
| "type_name dt_list = ''list''"
| "type_name dt_field = ''field''"
| "type_name dt_field_root = ''field_root''"
| "type_name dt_decision = ''decision''"
| "type_name dt_assoc = ''structure''"

section \<open>Union members\<close>

text \<open>Reading a member of the union that is not the one last stored is undefined.\<close>

fun u_unum :: "data \<Rightarrow> u32 result" where
  "u_unum (D_unum n) = Inr n"
| "u_unum (D_ipv4 n) = Inr n"
| "u_unum _ = Inl (E_undef ''union member unum'')"

fun u_u128 :: "data \<Rightarrow> u128 result" where
  "u_u128 (D_ipv6 n) = Inr n"
| "u_u128 _ = Inl (E_undef ''union member u128'')"

fun u_fnum :: "data \<Rightarrow> f64 result" where
  "u_fnum (D_fnum x) = Inr x"
| "u_fnum (D_rate x) = Inr x"
| "u_fnum (D_size x) = Inr x"
| "u_fnum (D_prate x) = Inr x"
| "u_fnum (D_psize x) = Inr x"
| "u_fnum (D_time x) = Inr x"
| "u_fnum _ = Inl (E_undef ''union member fnum'')"

fun u_string :: "data \<Rightarrow> string result" where
  "u_string (D_string s) = Inr s"
| "u_string _ = Inl (E_undef ''union member string'')"

fun u_decision :: "data \<Rightarrow> (decision_result \<times> class_ref option) result" where
  "u_decision (D_decision r c) = Inr (r, c)"
| "u_decision _ = Inl (E_undef ''union member decision'')"

section \<open>Type conversion\<close>

definition data_convert :: "data \<Rightarrow> data_type \<Rightarrow> data result" where
  "data_convert d ty =
     (if is_op d then Inl (E_yyerror ''constant expression required'')
      else if type_of d = ty then Inr d
      else if type_of d = dt_ipv4 \<and> ty = dt_unum then rbind (u_unum d) (\<lambda>n. Inr (D_unum n))
      else if type_of d = dt_unum \<and> ty = dt_ipv4 then rbind (u_unum d) (\<lambda>n. Inr (D_ipv4 n))
      else if type_of d = dt_ipv6 \<and> ty = dt_unum
        then rbind (u_u128 d) (\<lambda>n. rbind (u128_to_32 n) (\<lambda>x. Inr (D_unum x)))
      else if (type_of d = dt_unum \<or> type_of d = dt_ipv4) \<and> ty = dt_ipv6
        then rbind (u_unum d) (\<lambda>n. Inr (D_ipv6 (u128_from_32 n)))
      else if type_of d = dt_fnum \<and> ty = dt_unum
        then rbind (u_fnum d) (\<lambda>x. rbind (f64_to_u32 x) (\<lambda>n. Inr (D_unum n)))
      else if type_of d = dt_unum \<and> ty = dt_fnum
        then rbind (u_unum d) (\<lambda>n. Inr (D_fnum (f64_of_u32 n)))
      else Inl (E_yyerror ''invalid type conversion''))"

text \<open>
  \<open>data_add_unit\<close> does not look at the operator pointer: a variable expression of number
  type takes the type of the unit and is not scaled.
\<close>

definition data_add_unit :: "data \<Rightarrow> data \<Rightarrow> data result" where
  "data_add_unit d unit =
     (if type_of unit = dt_none then Inr d
      else if type_of d \<noteq> dt_fnum \<and> type_of d \<noteq> dt_unum
        then Inl (E_yyerror ''invalid type conversion'')
      else case d of
        D_op t dsc a b c \<Rightarrow> Inr (D_op (type_of unit) dsc a b c)
      | D_unum n \<Rightarrow> rbind (u_fnum unit)
          (\<lambda>y. data_typed_fnum (f64_mul (f64_of_u32 n) y) (type_of unit))
      | _ \<Rightarrow> rbind (u_fnum d) (\<lambda>x. rbind (u_fnum unit)
          (\<lambda>y. data_typed_fnum (f64_mul x y) (type_of unit))))"

section \<open>Comparison of constants\<close>

text \<open>In the branches of pointer types, equal tags make \<open>x = y\<close> equality of the pointers.\<close>

definition data_equal :: "data \<Rightarrow> data \<Rightarrow> bool result" where
  "data_equal x y =
     (if is_op x \<or> is_op y then Inl E_assert
      else if type_of x \<noteq> type_of y then Inr False
      else case type_of x of
        dt_none \<Rightarrow> Inr True
      | dt_unum \<Rightarrow> rbind (u_unum x) (\<lambda>m. rbind (u_unum y) (\<lambda>n. Inr (m = n)))
      | dt_ipv4 \<Rightarrow> rbind (u_unum x) (\<lambda>m. rbind (u_unum y) (\<lambda>n. Inr (m = n)))
      | dt_ipv6 \<Rightarrow> rbind (u_u128 x) (\<lambda>m. rbind (u_u128 y) (\<lambda>n. Inr (u128_cmp m n = 0)))
      | dt_fnum \<Rightarrow> rbind (u_fnum x) (\<lambda>m. rbind (u_fnum y) (\<lambda>n. Inr (f64_eq m n)))
      | dt_rate \<Rightarrow> rbind (u_fnum x) (\<lambda>m. rbind (u_fnum y) (\<lambda>n. Inr (f64_eq m n)))
      | dt_prate \<Rightarrow> rbind (u_fnum x) (\<lambda>m. rbind (u_fnum y) (\<lambda>n. Inr (f64_eq m n)))
      | dt_size \<Rightarrow> rbind (u_fnum x) (\<lambda>m. rbind (u_fnum y) (\<lambda>n. Inr (f64_eq m n)))
      | dt_psize \<Rightarrow> rbind (u_fnum x) (\<lambda>m. rbind (u_fnum y) (\<lambda>n. Inr (f64_eq m n)))
      | dt_time \<Rightarrow> rbind (u_fnum x) (\<lambda>m. rbind (u_fnum y) (\<lambda>n. Inr (f64_eq m n)))
      | dt_string \<Rightarrow> rbind (u_string x) (\<lambda>m. rbind (u_string y) (\<lambda>n. Inr (strcmp m n = 0)))
      | dt_decision \<Rightarrow> rbind (u_decision x) (\<lambda>(r, m). rbind (u_decision y) (\<lambda>(s, n).
          Inr (r = s \<and> (r \<noteq> dr_class \<and> r \<noteq> dr_reclassify \<or> m = n))))
      | dt_qdisc \<Rightarrow> Inr (x = y) | dt_class \<Rightarrow> Inr (x = y) | dt_filter \<Rightarrow> Inr (x = y)
      | dt_police \<Rightarrow> Inr (x = y) | dt_bucket \<Rightarrow> Inr (x = y) | dt_field_root \<Rightarrow> Inr (x = y)
      | _ \<Rightarrow> Inl (E_errorf ''data_equal can't handle type''))"

text \<open>
  The constants \<open>data_equal\<close> is defined on; it reports an internal error on a device,
  a tunnel, a list, a field or a structure compared with one of the same type.
\<close>

fun comparable :: "data \<Rightarrow> bool" where
  "comparable (D_device p) = False"
| "comparable (D_tunnel p) = False"
| "comparable (D_list l) = False"
| "comparable (D_field p) = False"
| "comparable (D_assoc l) = False"
| "comparable (D_op t dsc a b c) = False"
| "comparable d = True"

lemma data_convert_simps [simp]:
  "data_convert (D_op t dsc a b c) ty = Inl (E_yyerror ''constant expression required'')"
  "data_convert (D_unum n) dt_unum = Inr (D_unum n)"
  "data_convert (D_ipv4 n) dt_unum = Inr (D_unum n)"
  "data_convert (D_unum n) dt_ipv4 = Inr (D_ipv4 n)"
  "data_convert (D_ipv4 n) dt_ipv4 = Inr (D_ipv4 n)"
  "data_convert (D_unum n) dt_ipv6 = Inr (D_ipv6 (u128_from_32 n))"
  "data_convert (D_ipv4 n) dt_ipv6 = Inr (D_ipv6 (u128_from_32 n))"
  "data_convert (D_ipv6 m) dt_ipv6 = Inr (D_ipv6 m)"
  "data_convert (D_ipv6 m) dt_unum = rbind (u128_to_32 m) (\<lambda>x. Inr (D_unum x))"
  "data_convert (D_fnum x) dt_fnum = Inr (D_fnum x)"
  "data_convert (D_unum n) dt_fnum = Inr (D_fnum (f64_of_u32 n))"
  "data_convert (D_fnum x) dt_unum = rbind (f64_to_u32 x) (\<lambda>n. Inr (D_unum n))"
  by (simp_all add: data_convert_def)

lemma type_of_const:
  assumes "\<not> is_op d"
  shows "type_of d = dt_unum \<longleftrightarrow> (\<exists>n. d = D_unum n)"
    and "type_of d = dt_ipv4 \<longleftrightarrow> (\<exists>n. d = D_ipv4 n)"
    and "type_of d = dt_ipv6 \<longleftrightarrow> (\<exists>n. d = D_ipv6 n)"
    and "type_of d = dt_fnum \<longleftrightarrow> (\<exists>n. d = D_fnum n)"
    and "type_of d = dt_rate \<longleftrightarrow> (\<exists>n. d = D_rate n)"
    and "type_of d = dt_size \<longleftrightarrow> (\<exists>n. d = D_size n)"
    and "type_of d = dt_prate \<longleftrightarrow> (\<exists>n. d = D_prate n)"
    and "type_of d = dt_psize \<longleftrightarrow> (\<exists>n. d = D_psize n)"
    and "type_of d = dt_time \<longleftrightarrow> (\<exists>n. d = D_time n)"
    and "type_of d = dt_string \<longleftrightarrow> (\<exists>n. d = D_string n)"
    and "type_of d = dt_decision \<longleftrightarrow> (\<exists>r c. d = D_decision r c)"
    and "type_of d = dt_none \<longleftrightarrow> d = D_none"
  using assms by (cases d; simp)+

fun comparable_type :: "data_type \<Rightarrow> bool" where
  "comparable_type dt_device = False"
| "comparable_type dt_tunnel = False"
| "comparable_type dt_list = False"
| "comparable_type dt_field = False"
| "comparable_type dt_assoc = False"
| "comparable_type t = True"

lemma comparable_iff: "comparable d \<longleftrightarrow> \<not> is_op d \<and> comparable_type (type_of d)"
  by (cases d) simp_all

lemma data_equal_total:
  assumes "comparable x" "comparable y"
  shows "\<exists>r. data_equal x y = Inr r"
proof (cases "type_of y = type_of x")
  case True
  moreover have "\<not> is_op x" "\<not> is_op y" "comparable_type (type_of x)"
    using assms by (simp_all add: comparable_iff)
  ultimately show ?thesis
    by (cases "type_of x") (auto simp: data_equal_def type_of_const)
next
  case False
  then show ?thesis using assms by (auto simp: data_equal_def comparable_iff)
qed

lemma is_op_iff: "is_op d \<longleftrightarrow> (\<exists>t dsc a b c. d = D_op t dsc a b c)"
  by (cases d) simp_all

lemma data_convert_const:
  "data_convert d ty = Inr r \<Longrightarrow> type_of r = ty \<and> \<not> is_op r"
  by (auto simp: data_convert_def rbind_Inr_iff split: if_splits)

text \<open>
  The comment in \<^verbatim>\<open>data.h\<close> keeps integers apart from doubles because a double may not
  preserve a \<^verbatim>\<open>uint32_t\<close>. It does: the round trip is the identity.
\<close>

lemma data_convert_unum_fnum:
  "rbind (data_convert (D_unum n) dt_fnum) (\<lambda>d. data_convert d dt_unum) = Inr (D_unum n)"
  by (simp add: f64_to_of_u32)

lemma data_convert_unum_ipv6:
  "rbind (data_convert (D_unum n) dt_ipv6) (\<lambda>d. data_convert d dt_unum) = Inr (D_unum n)"
  by (simp add: u128_from_32_def)

end
