(* ===== verification/Op.thy ===== *)
theory Op
  imports Data
begin

text \<open>
  \<^verbatim>\<open>tcc/op.c\<close>: construction of operator nodes. \<open>op_unary\<close>, \<open>op_binary\<close> and
  \<open>op_ternary\<close> build a node and evaluate it: the evaluation routine of the operator
  checks the operand types, folds constants, and returns the node itself (\<open>make_op\<close>) when
  an operand is variable. A type error, an overflow or an undefined C operation is the
  corresponding error value.
\<close>

section \<open>Classification of operands\<close>

definition untyped_number :: "data \<Rightarrow> bool" where
  "untyped_number d \<longleftrightarrow> type_of d = dt_unum \<or> type_of d = dt_ipv4 \<or> type_of d = dt_ipv6 \<or> type_of d = dt_fnum"

definition integer_number :: "data \<Rightarrow> bool" where
  "integer_number d \<longleftrightarrow> type_of d = dt_unum \<or> type_of d = dt_ipv4 \<or> type_of d = dt_ipv6"

definition ip_address :: "data \<Rightarrow> bool" where
  "ip_address d \<longleftrightarrow> type_of d = dt_ipv4 \<or> type_of d = dt_ipv6"

definition typed_number :: "data \<Rightarrow> bool" where
  "typed_number d \<longleftrightarrow> type_of d = dt_rate \<or> type_of d = dt_prate \<or> type_of d = dt_size \<or>
     type_of d = dt_psize \<or> type_of d = dt_time"

definition types2 :: "data \<Rightarrow> data \<Rightarrow> data_type \<Rightarrow> data_type \<Rightarrow> bool" where
  "types2 a b t1 t2 \<longleftrightarrow> type_of a = t1 \<and> type_of b = t2 \<or> type_of a = t2 \<and> type_of b = t1"

abbreviation type_error1 :: "'a result" where
  "type_error1 \<equiv> Inl (E_yyerror ''invalid type for operator'')"

abbreviation type_error2 :: "'a result" where
  "type_error2 \<equiv> Inl (E_yyerror ''invalid types for operator'')"

abbreviation type_error3 :: "'a result" where
  "type_error3 \<equiv> Inl (E_yyerror ''invalid types for operator'')"

definition make_op :: "op_dsc \<Rightarrow> data \<Rightarrow> data \<Rightarrow> data \<Rightarrow> data_type \<Rightarrow> data" where
  "make_op dsc a b c ty = D_op ty dsc a b c"

definition all_u32 :: "data \<Rightarrow> data \<Rightarrow> bool" where
  "all_u32 a b \<longleftrightarrow> (type_of a = dt_unum \<or> type_of a = dt_ipv4) \<and> (type_of b = dt_unum \<or> type_of b = dt_ipv4)"

definition mix_types :: "data \<Rightarrow> data \<Rightarrow> data_type result" where
  "mix_types a b =
     (if type_of a = type_of b then Inr (type_of a)
      else if type_of a = dt_unum then Inr (type_of b)
      else if type_of b = dt_unum then Inr (type_of a)
      else type_error2)"

section \<open>The folding macros\<close>

text \<open>
  The macro \<^verbatim>\<open>__OP\<close>: convert both operands, apply the C operator, convert the result to
  the mixed type. The C operator may itself be undefined (division by zero).
\<close>

definition unum_op ::
  "(u32 \<Rightarrow> u32 \<Rightarrow> u32 result) \<Rightarrow> data \<Rightarrow> data \<Rightarrow> data result" where
  "unum_op f a b =
     rbind (data_convert a dt_unum) (\<lambda>x. rbind (u_unum x) (\<lambda>m.
     rbind (data_convert b dt_unum) (\<lambda>y. rbind (u_unum y) (\<lambda>n.
     rbind (f m n) (\<lambda>r. rbind (mix_types a b) (\<lambda>t. data_convert (D_unum r) t))))))"

definition fnum_op :: "(f64 \<Rightarrow> f64 \<Rightarrow> f64) \<Rightarrow> data \<Rightarrow> data \<Rightarrow> data result" where
  "fnum_op f a b =
     rbind (data_convert a dt_fnum) (\<lambda>x. rbind (u_fnum x) (\<lambda>m.
     rbind (data_convert b dt_fnum) (\<lambda>y. rbind (u_fnum y) (\<lambda>n.
     rbind (mix_types a b) (\<lambda>t. data_convert (D_fnum (f m n)) t)))))"

definition anynum_op ::
  "(u32 \<Rightarrow> u32 \<Rightarrow> u32 result) \<Rightarrow> (f64 \<Rightarrow> f64 \<Rightarrow> f64) \<Rightarrow> data \<Rightarrow> data \<Rightarrow> data result" where
  "anynum_op f g a b = (if all_u32 a b then unum_op f a b else fnum_op g a b)"

definition u32_div :: "u32 \<Rightarrow> u32 \<Rightarrow> u32 result" where
  "u32_div m n = (if n = 0 then Inl (E_undef ''division by zero'') else Inr (m div n))"

definition u32_mod :: "u32 \<Rightarrow> u32 \<Rightarrow> u32 result" where
  "u32_mod m n = (if n = 0 then Inl (E_undef ''division by zero'') else Inr (m mod n))"

definition ipv6_op :: "(u128 \<Rightarrow> u128 \<Rightarrow> u128) \<Rightarrow> data \<Rightarrow> data \<Rightarrow> data result" where
  "ipv6_op f a b =
     rbind (data_convert a dt_ipv6) (\<lambda>x. rbind (u_u128 x) (\<lambda>m.
     rbind (data_convert b dt_ipv6) (\<lambda>y. rbind (u_u128 y) (\<lambda>n.
     Inr (D_ipv6 (f m n))))))"

section \<open>Addition and subtraction\<close>

definition additive_eval :: "op_dsc \<Rightarrow> data \<Rightarrow> data \<Rightarrow> data \<Rightarrow> data result" where
  "additive_eval dsc a b c =
     (let plus = (dsc = op_plus)
      in if untyped_number a \<and> b = D_unum 0 then Inr a
         else if plus \<and> untyped_number b \<and> a = D_unum 0 then Inr b
         else if untyped_number a \<and> untyped_number b then
           (if is_op a \<or> is_op b then rbind (mix_types a b) (\<lambda>t. Inr (make_op dsc a b c t))
            else if type_of a = dt_ipv6 \<or> type_of b = dt_ipv6
              then ipv6_op (if plus then u128_add else u128_sub) a b
            else if plus then anynum_op (\<lambda>m n. Inr (m + n)) f64_add a b
            else anynum_op (\<lambda>m n. Inr (m - n)) f64_sub a b)
         else if type_of a = type_of b \<and> typed_number a then
           (if is_op a \<or> is_op b then Inr (make_op dsc a b c (type_of a))
            else rbind (u_fnum a) (\<lambda>m. rbind (u_fnum b) (\<lambda>n.
              data_typed_fnum (if plus then f64_add m n else f64_sub m n) (type_of a))))
         else type_error2)"

definition plus_eval :: "op_dsc \<Rightarrow> data \<Rightarrow> data \<Rightarrow> data \<Rightarrow> data result" where
  "plus_eval dsc a b c =
     (if type_of a \<noteq> dt_string \<or> type_of b \<noteq> dt_string then additive_eval dsc a b c
      else if is_op a \<or> is_op b then Inl (E_yyerror ''string expressions must be constant'')
      else rbind (u_string a) (\<lambda>s. rbind (u_string b) (\<lambda>t. Inr (D_string (s @ t)))))"

section \<open>Multiplication\<close>

text \<open>
  The range check divides \<^verbatim>\<open>0xffffffff\<close> by the first factor, before looking whether it
  is zero.
\<close>

definition mult_eval :: "op_dsc \<Rightarrow> data \<Rightarrow> data \<Rightarrow> data \<Rightarrow> data result" where
  "mult_eval dsc a b c =
     (if ip_address a \<or> ip_address b then type_error2
      else if untyped_number a \<and> untyped_number b then
        (if is_op a \<or> is_op b then rbind (mix_types a b) (\<lambda>t. Inr (make_op dsc a b c t))
         else rbind
           (if type_of a = dt_unum \<and> type_of b = dt_unum
            then rbind (u_unum a) (\<lambda>m. rbind (u_unum b) (\<lambda>n. rbind (u32_div 0xffffffff m)
              (\<lambda>q. if q < n then Inl (E_yyerror ''product exceeds 32 bit range'') else Inr ())))
            else Inr ())
           (\<lambda>_. anynum_op (\<lambda>m n. Inr (m * n)) f64_mul a b))
      else if untyped_number a \<and> typed_number b \<or> untyped_number b \<and> typed_number a then
        (if is_op a \<or> is_op b
         then Inr (make_op dsc a b c (if typed_number a then type_of a else type_of b))
         else if typed_number a
           then rbind (u_fnum a) (\<lambda>m. rbind (data_convert b dt_fnum) (\<lambda>y. rbind (u_fnum y)
             (\<lambda>n. data_typed_fnum (f64_mul m n) (type_of a))))
           else rbind (u_fnum b) (\<lambda>m. rbind (data_convert a dt_fnum) (\<lambda>y. rbind (u_fnum y)
             (\<lambda>n. data_typed_fnum (f64_mul m n) (type_of b)))))
      else if types2 a b dt_rate dt_time then
        (if is_op a \<or> is_op b then Inr (make_op dsc a b c dt_size)
         else rbind (u_fnum a) (\<lambda>m. rbind (u_fnum b)
           (\<lambda>n. Inr (D_size (f64_mul (f64_div m (F_num 8)) n)))))
      else if types2 a b dt_prate dt_time then
        (if is_op a \<or> is_op b then Inr (make_op dsc a b c dt_psize)
         else rbind (u_fnum a) (\<lambda>m. rbind (u_fnum b) (\<lambda>n. Inr (D_psize (f64_mul m n)))))
      else type_error2)"

section \<open>Unary operators\<close>

definition unum1_eval :: "op_dsc \<Rightarrow> data \<Rightarrow> data \<Rightarrow> data \<Rightarrow> data result" where
  "unum1_eval dsc a b c =
     (if \<not> untyped_number a \<and> \<not> typed_number a then type_error1
      else if \<not> integer_number a \<and> dsc \<noteq> op_unary_minus then type_error1
      else if is_op a then Inr (make_op dsc a b c (type_of a))
      else if dsc = op_not then
        (case a of D_unum n \<Rightarrow> Inr (D_unum (NOT n))
         | D_ipv4 n \<Rightarrow> Inr (D_ipv4 (NOT n))
         | D_ipv6 n \<Rightarrow> Inr (D_ipv6 (u128_not n))
         | _ \<Rightarrow> Inl E_abort)
      else if dsc = op_logical_not then
        (case a of D_ipv6 n \<Rightarrow> Inr (D_unum (if u128_is_zero n then 1 else 0))
         | _ \<Rightarrow> rbind (u_unum a) (\<lambda>n. Inr (D_unum (if n = 0 then 1 else 0))))
      else if dsc = op_unary_minus then
        (case a of D_unum n \<Rightarrow> Inr (D_unum (- n))
         | D_ipv4 n \<Rightarrow> Inr (D_ipv4 (- n))
         | D_ipv6 n \<Rightarrow> Inr (D_ipv6 (u128_minus n))
         | _ \<Rightarrow> rbind (u_fnum a) (\<lambda>x. data_typed_fnum (f64_neg x) (type_of a)))
      else Inl E_abort)"

section \<open>Modulo and bitwise operators\<close>

definition unum2_op :: "op_dsc \<Rightarrow> u32 \<Rightarrow> u32 \<Rightarrow> u32 result" where
  "unum2_op dsc m n =
     (if dsc = op_mod then u32_mod m n
      else if dsc = op_and then Inr (m AND n)
      else if dsc = op_or then Inr (m OR n)
      else if dsc = op_xor then Inr (m XOR n)
      else Inl E_abort)"

definition unum2_eval :: "op_dsc \<Rightarrow> data \<Rightarrow> data \<Rightarrow> data \<Rightarrow> data result" where
  "unum2_eval dsc a b c =
     (if \<not> integer_number a then type_error2
      else if \<not> integer_number b then type_error2
      else if (ip_address a \<or> ip_address b) \<and> dsc = op_mod then type_error2
      else if is_op a \<or> is_op b then rbind (mix_types a b) (\<lambda>t. Inr (make_op dsc a b c t))
      else rbind (mix_types a b) (\<lambda>t.
        if t = dt_unum then rbind (u_unum a) (\<lambda>m. rbind (u_unum b) (\<lambda>n.
          rbind (unum2_op dsc m n) (\<lambda>r. Inr (D_unum r))))
        else if t = dt_ipv4 then rbind (u_unum a) (\<lambda>m. rbind (u_unum b) (\<lambda>n.
          rbind (unum2_op dsc m n) (\<lambda>r. Inr (D_ipv4 r))))
        else if t = dt_ipv6 then
          (if dsc = op_and then ipv6_op u128_and a b
           else if dsc = op_or then ipv6_op u128_or a b
           else if dsc = op_xor then ipv6_op u128_xor a b
           else Inl E_abort)
        else Inl E_abort))"

section \<open>The mask operator and division\<close>

text \<open>
  \<open>mask_eval\<close> computes in \<^verbatim>\<open>int\<close>; a shift by a negative or too large count is
  undefined. \<open>bits\<close> and \<open>upper\<close> are the signed readings of 32-bit values.
\<close>

definition mask_len :: "data \<Rightarrow> u32 result" where
  "mask_len d = (if type_of d = dt_none then Inr 0 else u_unum d)"

definition mask_eval :: "data \<Rightarrow> data \<Rightarrow> data \<Rightarrow> data result" where
  "mask_eval a b c =
     (if \<not> integer_number a \<or> type_of b \<noteq> dt_unum \<and> type_of b \<noteq> dt_none \<or>
         type_of c \<noteq> dt_unum \<and> type_of c \<noteq> dt_none then type_error3
      else if is_op b \<or> is_op c then Inr (make_op op_mask a b c (type_of a))
      else rbind (mask_len b) (\<lambda>mb. rbind (mask_len c) (\<lambda>mc.
        rbind (u_unum (if type_of c = dt_unum then c else b)) (\<lambda>up.
        let bits = sint (mb + mc); upper = sint up
        in if type_of a = dt_ipv6 then
             (if bits > 128 then Inl (E_yyerror ''mask exceeds 128 bit range'')
              else let mask = u128_sub_32 (u128_shift_left (u128_from_32 1) up) 1;
                       mask = (if type_of b = dt_unum
                               then u128_shift_left mask (128 - (mb + mc)) else mask)
                   in unum2_eval op_and a (D_ipv6 mask) D_none)
           else if bits > 32 then Inl (E_yyerror ''mask exceeds 32 bit range'')
           else if upper < 0 \<or> 32 < upper then Inl (E_undef ''shift count'')
           else let mask = (if upper = 32 then 0xffffffff else push_bit (nat upper) 1 - 1)
                in if type_of b = dt_unum
                   then if bits \<le> 0 then Inl (E_undef ''shift count'')
                        else unum2_eval op_and a (D_unum (push_bit (nat (32 - bits)) mask)) D_none
                   else unum2_eval op_and a (D_unum mask) D_none))))"

definition div_eval :: "op_dsc \<Rightarrow> data \<Rightarrow> data \<Rightarrow> data \<Rightarrow> data result" where
  "div_eval dsc a b c =
     (if ip_address a \<and> type_of b = dt_unum then mask_eval a b c
      else if ip_address a \<or> ip_address b then type_error2
      else if untyped_number a \<and> untyped_number b then
        (if is_op a \<or> is_op b then rbind (mix_types a b) (\<lambda>t. Inr (make_op dsc a b c t))
         else anynum_op u32_div f64_div a b)
      else if typed_number a \<and> untyped_number b then
        (if is_op a \<or> is_op b then Inr (make_op dsc a b c (type_of a))
         else rbind (u_fnum a) (\<lambda>m. rbind (data_convert b dt_fnum) (\<lambda>y. rbind (u_fnum y)
           (\<lambda>n. data_typed_fnum (f64_div m n) (type_of a)))))
      else if type_of a = dt_size \<and> type_of b = dt_time then
        (if is_op a \<or> is_op b then Inr (make_op dsc a b c dt_rate)
         else rbind (u_fnum a) (\<lambda>m. rbind (u_fnum b)
           (\<lambda>n. Inr (D_rate (f64_div (f64_mul m (F_num 8)) n)))))
      else if type_of a = dt_psize \<and> type_of b = dt_time then
        (if is_op a \<or> is_op b then Inr (make_op dsc a b c dt_prate)
         else rbind (u_fnum a) (\<lambda>m. rbind (u_fnum b) (\<lambda>n. Inr (D_prate (f64_div m n)))))
      else type_error2)"

section \<open>Shifts\<close>

definition shl_u32 :: "u32 \<Rightarrow> u32 \<Rightarrow> u32 result" where
  "shl_u32 m n =
     (if 32 \<le> n \<and> m \<noteq> 0 then Inl (E_yyerror ''left shift overflows 32 bit range'')
      else if 32 \<le> n then Inl (E_undef ''shift count'')
      else if n \<noteq> 0 \<and> drop_bit (32 - unat n) m \<noteq> 0
        then Inl (E_yyerror ''left shift overflows 32 bit range'')
      else Inr (push_bit (unat n) m))"

definition shr_u32 :: "u32 \<Rightarrow> u32 \<Rightarrow> u32" where
  "shr_u32 m n = (if 32 \<le> n then 0 else drop_bit (unat n) m)"

definition shift_eval :: "op_dsc \<Rightarrow> data \<Rightarrow> data \<Rightarrow> data \<Rightarrow> data result" where
  "shift_eval dsc a b c =
     (if \<not> integer_number a then type_error2
      else if \<not> integer_number b then type_error2
      else if ip_address b then type_error2
      else if is_op a \<or> is_op b then Inr (make_op dsc a b c (type_of a))
      else rbind (u_unum b) (\<lambda>n.
        if dsc = op_shift_left then
          (case a of
             D_unum m \<Rightarrow> rbind (shl_u32 m n) (\<lambda>r. Inr (D_unum r))
           | D_ipv4 m \<Rightarrow> rbind (shl_u32 m n) (\<lambda>r. Inr (D_ipv4 r))
           | D_ipv6 m \<Rightarrow>
               if 128 \<le> n \<and> \<not> u128_is_zero m \<or> \<not> u128_is_zero (u128_shift_right m (128 - n))
               then Inl (E_yyerror ''left shift overflows 128 bit range'')
               else Inr (D_ipv6 (u128_shift_left m n))
           | _ \<Rightarrow> Inl E_abort)
        else if dsc = op_shift_right then
          (case a of
             D_unum m \<Rightarrow> Inr (D_unum (shr_u32 m n))
           | D_ipv4 m \<Rightarrow> Inr (D_ipv4 (shr_u32 m n))
           | D_ipv6 m \<Rightarrow> Inr (D_ipv6 (u128_shift_right m n))
           | _ \<Rightarrow> Inl E_abort)
        else Inl E_abort))"

section \<open>Logical and relational operators\<close>

definition truth_of :: "data \<Rightarrow> bool result" where
  "truth_of d =
     (if type_of d \<noteq> dt_ipv6 then rbind (u_unum d) (\<lambda>n. Inr (n \<noteq> 0))
      else rbind (u_u128 d) (\<lambda>n. Inr (\<not> u128_is_zero n)))"

definition bool_unum :: "bool \<Rightarrow> data" where
  "bool_unum b = D_unum (if b then 1 else 0)"

definition and_or_eval :: "op_dsc \<Rightarrow> data \<Rightarrow> data \<Rightarrow> data \<Rightarrow> data result" where
  "and_or_eval dsc a b c =
     (if \<not> integer_number a \<and> type_of a \<noteq> dt_decision then type_error2
      else if \<not> integer_number b \<and> type_of b \<noteq> dt_decision then type_error2
      else if type_of a = dt_decision \<or> type_of b = dt_decision
        then Inr (make_op dsc a b c dt_unum)
      else if is_op a \<or> is_op b then Inr (make_op dsc a b c dt_unum)
      else rbind (truth_of a) (\<lambda>x. rbind (truth_of b) (\<lambda>y.
        Inr (bool_unum (if dsc = op_logical_and then x \<and> y else x \<or> y)))))"

definition rel_unum_op :: "op_dsc \<Rightarrow> u32 \<Rightarrow> u32 \<Rightarrow> bool result" where
  "rel_unum_op dsc m n =
     (if dsc = op_eq then Inr (m = n) else if dsc = op_ne then Inr (m \<noteq> n)
      else if dsc = op_gt then Inr (n < m) else if dsc = op_ge then Inr (n \<le> m)
      else if dsc = op_lt then Inr (m < n) else if dsc = op_le then Inr (m \<le> n)
      else Inl E_abort)"

definition rel_fnum_op :: "op_dsc \<Rightarrow> f64 \<Rightarrow> f64 \<Rightarrow> bool result" where
  "rel_fnum_op dsc m n =
     (if dsc = op_eq then Inr (f64_eq m n) else if dsc = op_ne then Inr (\<not> f64_eq m n)
      else if dsc = op_gt then Inr (f64_lt n m) else if dsc = op_ge then Inr (f64_le n m)
      else if dsc = op_lt then Inr (f64_lt m n) else if dsc = op_le then Inr (f64_le m n)
      else Inl E_abort)"

text \<open>
  \<open>eval_cmp\<close> decides from the spelling of the operator: its first character is \<^verbatim>\<open><\<close>,
  \<^verbatim>\<open>>\<close>, \<^verbatim>\<open>=\<close> or \<^verbatim>\<open>!\<close>, its second may be \<^verbatim>\<open>=\<close>.
\<close>

definition eval_cmp :: "op_dsc \<Rightarrow> int \<Rightarrow> bool" where
  "eval_cmp dsc cmp =
     (if cmp < 0 then dsc = op_lt \<or> dsc = op_le \<or> dsc = op_ne
      else if cmp > 0 then dsc = op_gt \<or> dsc = op_ge \<or> dsc = op_ne
      else dsc = op_eq \<or> dsc = op_le \<or> dsc = op_ge)"

definition rel_eval :: "op_dsc \<Rightarrow> data \<Rightarrow> data \<Rightarrow> data \<Rightarrow> data result" where
  "rel_eval dsc a b c =
     (if untyped_number a \<and> untyped_number b then
        (if is_op a \<or> is_op b then Inr (make_op dsc a b c dt_unum)
         else rbind (mix_types a b) (\<lambda>t.
           if t = dt_unum \<or> t = dt_ipv4 then rbind (u_unum a) (\<lambda>m. rbind (u_unum b) (\<lambda>n.
             rbind (rel_unum_op dsc m n) (\<lambda>r. Inr (bool_unum r))))
           else if t = dt_ipv6 then
             rbind (data_convert a dt_ipv6) (\<lambda>x. rbind (u_u128 x) (\<lambda>m.
             rbind (data_convert b dt_ipv6) (\<lambda>y. rbind (u_u128 y) (\<lambda>n.
             Inr (bool_unum (eval_cmp dsc (u128_cmp m n)))))))
           else if t = dt_fnum then
             rbind (data_convert a dt_fnum) (\<lambda>x. rbind (u_fnum x) (\<lambda>m.
             rbind (data_convert b dt_fnum) (\<lambda>y. rbind (u_fnum y) (\<lambda>n.
             rbind (rel_fnum_op dsc m n) (\<lambda>r. Inr (bool_unum r))))))
           else Inl E_abort))
      else if type_of a = dt_string \<and> type_of b = dt_string then
        (if is_op a \<or> is_op b then Inl (E_yyerror ''string expressions must be constant'')
         else rbind (u_string a) (\<lambda>s. rbind (u_string b) (\<lambda>t.
           Inr (bool_unum (eval_cmp dsc (strcmp s t))))))
      else if type_of a \<noteq> type_of b \<or> \<not> typed_number a then type_error2
      else if is_op a \<or> is_op b then Inr (make_op dsc a b c dt_unum)
      else rbind (u_fnum a) (\<lambda>m. rbind (u_fnum b) (\<lambda>n.
        rbind (rel_fnum_op dsc m n) (\<lambda>r. Inr (bool_unum r)))))"

section \<open>Operators without constant folding\<close>

definition access_eval :: "op_dsc \<Rightarrow> data \<Rightarrow> data \<Rightarrow> data \<Rightarrow> data result" where
  "access_eval dsc a b c = Inr (make_op dsc a b c dt_unum)"

definition offset_eval :: "op_dsc \<Rightarrow> data \<Rightarrow> data \<Rightarrow> data \<Rightarrow> data result" where
  "offset_eval dsc a b c = Inr (make_op dsc a b c (type_of a))"

definition conform_eval :: "op_dsc \<Rightarrow> data \<Rightarrow> data \<Rightarrow> data \<Rightarrow> data result" where
  "conform_eval dsc a b c =
     (if type_of a \<noteq> dt_police \<and> type_of a \<noteq> dt_bucket then type_error1
      else Inr (make_op dsc a b c dt_unum))"

definition count_eval :: "op_dsc \<Rightarrow> data \<Rightarrow> data \<Rightarrow> data \<Rightarrow> data result" where
  "count_eval dsc a b c =
     (if type_of a \<noteq> dt_police \<and> type_of a \<noteq> dt_bucket then type_error1
      else Inr (make_op dsc a b c dt_unum))"

definition precond_eval :: "op_dsc \<Rightarrow> data \<Rightarrow> data \<Rightarrow> data \<Rightarrow> data result" where
  "precond_eval dsc a b c = Inr (make_op dsc a b c dt_unum)"

definition precond2_eval :: "op_dsc \<Rightarrow> data \<Rightarrow> data \<Rightarrow> data \<Rightarrow> data result" where
  "precond2_eval dsc a b c = Inr (make_op dsc a b c (type_of a))"

definition field_root_eval :: "op_dsc \<Rightarrow> data \<Rightarrow> data \<Rightarrow> data \<Rightarrow> data result" where
  "field_root_eval dsc a b c = Inr (make_op dsc a b c (type_of a))"

section \<open>Operator construction\<close>

fun eval_op :: "op_dsc \<Rightarrow> data \<Rightarrow> data \<Rightarrow> data \<Rightarrow> data result" where
  "eval_op op_plus a b c = plus_eval op_plus a b c"
| "eval_op op_minus a b c = additive_eval op_minus a b c"
| "eval_op op_unary_minus a b c = unum1_eval op_unary_minus a b c"
| "eval_op op_mult a b c = mult_eval op_mult a b c"
| "eval_op op_div a b c = div_eval op_div a b c"
| "eval_op op_mod a b c = unum2_eval op_mod a b c"
| "eval_op op_not a b c = unum1_eval op_not a b c"
| "eval_op op_and a b c = unum2_eval op_and a b c"
| "eval_op op_or a b c = unum2_eval op_or a b c"
| "eval_op op_xor a b c = unum2_eval op_xor a b c"
| "eval_op op_mask a b c = mask_eval a b c"
| "eval_op op_shift_left a b c = shift_eval op_shift_left a b c"
| "eval_op op_shift_right a b c = shift_eval op_shift_right a b c"
| "eval_op op_eq a b c = rel_eval op_eq a b c"
| "eval_op op_ne a b c = rel_eval op_ne a b c"
| "eval_op op_gt a b c = rel_eval op_gt a b c"
| "eval_op op_ge a b c = rel_eval op_ge a b c"
| "eval_op op_lt a b c = rel_eval op_lt a b c"
| "eval_op op_le a b c = rel_eval op_le a b c"
| "eval_op op_logical_not a b c = unum1_eval op_logical_not a b c"
| "eval_op op_logical_or a b c = and_or_eval op_logical_or a b c"
| "eval_op op_logical_and a b c = and_or_eval op_logical_and a b c"
| "eval_op op_access a b c = access_eval op_access a b c"
| "eval_op op_offset a b c = offset_eval op_offset a b c"
| "eval_op op_conform a b c = conform_eval op_conform a b c"
| "eval_op op_count a b c = count_eval op_count a b c"
| "eval_op op_precond a b c = precond_eval op_precond a b c"
| "eval_op op_precond2 a b c = precond2_eval op_precond2 a b c"
| "eval_op op_field_root a b c = field_root_eval op_field_root a b c"

definition op_unary :: "op_dsc \<Rightarrow> data \<Rightarrow> data result" where
  "op_unary dsc a = eval_op dsc a D_none D_none"

definition op_binary :: "op_dsc \<Rightarrow> data \<Rightarrow> data \<Rightarrow> data result" where
  "op_binary dsc a b = eval_op dsc a b D_none"

definition op_ternary :: "op_dsc \<Rightarrow> data \<Rightarrow> data \<Rightarrow> data \<Rightarrow> data result" where
  "op_ternary dsc a b c = eval_op dsc a b c"

end
