(* ===== verification/Iflib_Base.thy ===== *)
theory Iflib_Base
  imports Op
begin

text \<open>
  The classification functions the expression passes share: \<open>self_contained\<close>,
  \<open>action_tree\<close> and \<open>side_effect\<close> of \<^verbatim>\<open>tcc/iflib_act.c\<close>, and \<open>expr_equal\<close> of
  \<^verbatim>\<open>tcc/iflib_red.c\<close>.
\<close>

section \<open>Classification\<close>

datatype SELF_CONTAINED = sc_no | sc_no_false | sc_no_true | sc_yes

fun self_contained :: "data \<Rightarrow> SELF_CONTAINED" where
  "self_contained (D_op t dsc a b c) =
     (if dsc = op_conform then sc_no
      else if dsc = op_count then sc_no_true
      else if dsc = op_logical_not then
        (case self_contained a of
           sc_no \<Rightarrow> sc_no | sc_no_true \<Rightarrow> sc_no_false | sc_no_false \<Rightarrow> sc_no_true | sc_yes \<Rightarrow> sc_yes)
      else if dsc = op_logical_and then
        (let sc = self_contained a
         in if sc = sc_yes \<or> sc = sc_no_false then sc
            else if sc = sc_no_true then self_contained b
            else let sc = self_contained b
                 in if sc = sc_yes \<or> sc = sc_no_false then sc_no_false else sc_no)
      else if dsc = op_logical_or then
        (let sc = self_contained a
         in if sc = sc_yes \<or> sc = sc_no_true then sc
            else if sc = sc_no_false then self_contained b
            else let sc = self_contained b
                 in if sc = sc_yes \<or> sc = sc_no_true then sc_no_true else sc_no)
      else sc_no)"
| "self_contained (D_unum n) = (if n \<noteq> 0 then sc_no_true else sc_no_false)"
| "self_contained (D_decision r c) = sc_yes"
| "self_contained d = sc_no"

fun action_tree :: "data \<Rightarrow> bool" where
  "action_tree (D_op t dsc a b c) =
     (if dsc = op_conform \<or> dsc = op_count then True
      else if dsc = op_logical_and \<or> dsc = op_logical_or
        then action_tree a \<and> (self_contained a = sc_yes \<or> action_tree b)
      else False)"
| "action_tree (D_decision r c) = True"
| "action_tree d = False"

fun side_effect :: "data \<Rightarrow> bool" where
  "side_effect (D_op t dsc a b c) =
     (if dsc = op_count then True else side_effect a \<or> side_effect b \<or> side_effect c)"
| "side_effect (D_decision r c) = True"
| "side_effect d = False"

section \<open>Identical expressions\<close>

text \<open>The three operands are compared left to right, and the first difference decides.\<close>

fun expr_equal :: "data \<Rightarrow> data \<Rightarrow> bool result" where
  "expr_equal (D_op t dsc a b c) y =
     (case y of
        D_op t' dsc' a' b' c' \<Rightarrow>
          if dsc \<noteq> dsc' then Inr False
          else rbind (expr_equal a a') (\<lambda>ea. if \<not> ea then Inr False
            else rbind (expr_equal b b') (\<lambda>eb. if \<not> eb then Inr False
              else expr_equal c c'))
      | _ \<Rightarrow> Inr False)"
| "expr_equal x y = (if is_op y then Inr False else data_equal x y)"

end
