(* ===== verification/Expr_Sem.thy ===== *)
theory Expr_Sem
  imports Iflib_Base
begin

text \<open>
  The meaning of an \<^verbatim>\<open>if\<close> expression, which the passes of \<^verbatim>\<open>iflib_*.c\<close> are to
  preserve. Evaluation looks at a packet and at the state of the policers. It yields a
  verdict: true, false, or a decision, which ends the evaluation at once. \<open>count\<close> is true
  and consumes tokens, so evaluation also yields a new policer state; \<open>conform\<close> only looks.
  \<^verbatim>\<open>&&\<close> and \<^verbatim>\<open>||\<close> are short-cut operators.

  The packet and the policers are the environment; nothing is assumed about them.
  Arithmetic is done in 128 bits, the width \<^verbatim>\<open>iflib_arith.c\<close> assumes throughout.
\<close>

section \<open>Environments and verdicts\<close>

record 'st env =
  packet :: "nat \<Rightarrow> 128 word \<Rightarrow> nat \<Rightarrow> 128 word"  \<comment> \<open>field root, offset, size in bits\<close>
  conforms :: "'st \<Rightarrow> data \<Rightarrow> bool"
  counts :: "'st \<Rightarrow> data \<Rightarrow> 'st"

datatype verdict = V_true | V_false | V_decided decision_result "class_ref option"

text \<open>The class of a decision matters for \<open>dr_class\<close> and \<open>dr_reclassify\<close> only.\<close>

definition decide :: "decision_result \<Rightarrow> class_ref option \<Rightarrow> verdict" where
  "decide r c = V_decided r (if r = dr_class \<or> r = dr_reclassify then c else None)"

definition truth :: "bool \<Rightarrow> verdict" where
  "truth b = (if b then V_true else V_false)"

lemma truth_simps [simp]:
  "truth True = V_true" "truth False = V_false"
  "truth b \<noteq> V_decided r c" "decide r c \<noteq> truth b" "decide r c \<noteq> V_true" "decide r c \<noteq> V_false"
  "truth b = V_true \<longleftrightarrow> b" "truth b = V_false \<longleftrightarrow> \<not> b"
  by (auto simp: truth_def decide_def)

lemma truth_exists [simp]: "\<exists>b. V_true = truth b" "\<exists>b. V_false = truth b"
  by (rule exI [of _ True], simp, rule exI [of _ False], simp)

lemma ucast_128_eq_0 [simp]: "(ucast (n :: u32) :: 128 word) = 0 \<longleftrightarrow> n = 0"
  by (auto simp: bit_eq_iff bit_ucast_iff dest: bit_32_high)

section \<open>Numeric evaluation\<close>

text \<open>
  A context is the current field root and the offset added to every access below it, which
  \<open>field_root\<close> and \<open>offset\<close> nodes change.
\<close>

type_synonym ctx = "nat \<times> 128 word"

definition bit_size :: "data \<Rightarrow> nat" where
  "bit_size d = (case d of D_unum n \<Rightarrow> unat n | _ \<Rightarrow> 0)"

fun root_of :: "ctx \<Rightarrow> data \<Rightarrow> nat" where
  "root_of x (D_field_root r) = r"
| "root_of x (D_op t dsc a b c) = (if dsc = op_field_root then root_of x b else fst x)"
| "root_of x d = fst x"

definition of_truth :: "bool \<Rightarrow> 128 word" where
  "of_truth b = (if b then 1 else 0)"

fun num_op :: "op_dsc \<Rightarrow> 128 word \<Rightarrow> 128 word \<Rightarrow> 128 word" where
  "num_op op_plus m n = m + n"
| "num_op op_minus m n = m - n"
| "num_op op_unary_minus m n = - m"
| "num_op op_mult m n = m * n"
| "num_op op_div m n = m div n"
| "num_op op_mod m n = m mod n"
| "num_op op_not m n = NOT m"
| "num_op op_and m n = m AND n"
| "num_op op_or m n = m OR n"
| "num_op op_xor m n = m XOR n"
| "num_op op_shift_left m n = push_bit (unat n) m"
| "num_op op_shift_right m n = drop_bit (unat n) m"
| "num_op op_eq m n = of_truth (m = n)"
| "num_op op_ne m n = of_truth (m \<noteq> n)"
| "num_op op_gt m n = of_truth (n < m)"
| "num_op op_ge m n = of_truth (n \<le> m)"
| "num_op op_lt m n = of_truth (m < n)"
| "num_op op_le m n = of_truth (m \<le> n)"
| "num_op dsc m n = 0"

fun neval :: "'st env \<Rightarrow> ctx \<Rightarrow> data \<Rightarrow> 128 word" where
  "neval E x (D_op t dsc a b c) =
     (if dsc = op_access
      then packet E (root_of x a) (snd x + neval E x b) (bit_size c)
      else if dsc = op_offset then neval E (fst x, snd x + neval E x b) a
      else if dsc = op_field_root then neval E (root_of x b, snd x) a
      else num_op dsc (neval E x a) (neval E x b))"
| "neval E x (D_unum n) = ucast n"
| "neval E x (D_ipv4 n) = ucast n"
| "neval E x (D_ipv6 n) = u128_word n"
| "neval E x d = 0"

section \<open>Evaluation with decisions\<close>

text \<open>
  Sequencing of verdicts: what follows a true, and what follows a false; a decision skips
  both.
\<close>

definition after :: "verdict \<times> 'st \<Rightarrow> ('st \<Rightarrow> verdict \<times> 'st) \<Rightarrow> ('st \<Rightarrow> verdict \<times> 'st) \<Rightarrow> verdict \<times> 'st" where
  "after r yes no = (case fst r of V_true \<Rightarrow> yes (snd r) | V_false \<Rightarrow> no (snd r) | V_decided d c \<Rightarrow> r)"

fun run :: "'st env \<Rightarrow> ctx \<Rightarrow> data \<Rightarrow> 'st \<Rightarrow> verdict \<times> 'st" where
  "run E x (D_op t dsc a b c) s =
     (if dsc = op_logical_and then after (run E x a s) (run E x b) (\<lambda>s. (V_false, s))
      else if dsc = op_logical_or then after (run E x a s) (\<lambda>s. (V_true, s)) (run E x b)
      else if dsc = op_logical_not
        then after (run E x a s) (\<lambda>s. (V_false, s)) (\<lambda>s. (V_true, s))
      else if dsc = op_conform then (truth (conforms E s a), s)
      else if dsc = op_count then (V_true, counts E s a)
      else (truth (neval E x (D_op t dsc a b c) \<noteq> 0), s))"
| "run E x (D_decision r c) s = (decide r c, s)"
| "run E x d s = (truth (neval E x d \<noteq> 0), s)"

lemma after_simps [simp, sem_simps]:
  "after (V_true, s) yes no = yes s"
  "after (V_false, s) yes no = no s"
  "after (V_decided r c, s) yes no = (V_decided r c, s)"
  "after (decide r c, s) yes no = (decide r c, s)"
  "after (truth b, s) yes no = (if b then yes s else no s)"
  by (simp_all add: after_def decide_def truth_def)

lemma after_after:
  "after (after r yes no) yes' no' =
     after r (\<lambda>s. after (yes s) yes' no') (\<lambda>s. after (no s) yes' no')"
  by (auto simp: after_def split: verdict.splits)

lemma after_id [simp]: "after r (\<lambda>s. (V_true, s)) (\<lambda>s. (V_false, s)) = r"
  by (cases r) (auto simp: after_def split: verdict.splits)

lemma after_cong:
  "r = r' \<Longrightarrow> (\<And>s. yes s = yes' s) \<Longrightarrow> (\<And>s. no s = no' s) \<Longrightarrow> after r yes no = after r' yes' no'"
  by (simp add: after_def split: verdict.split)

lemma run_land: "run E x (D_op t op_logical_and a b c) s =
    after (run E x a s) (run E x b) (\<lambda>s. (V_false, s))"
  and run_lor: "run E x (D_op t op_logical_or a b c) s =
    after (run E x a s) (\<lambda>s. (V_true, s)) (run E x b)"
  and run_lnot: "run E x (D_op t op_logical_not a b c) s =
    after (run E x a s) (\<lambda>s. (V_false, s)) (\<lambda>s. (V_true, s))"
  by simp_all

lemmas run_logic = run_land run_lor run_lnot

section \<open>Well-formed conditions\<close>

text \<open>
  \<open>arith\<close> expressions are packet tests and numbers: no logical operator, decision or policer
  occurs in them. \<open>logic\<close> expressions combine them with the logical operators, decisions and
  policer tests. \<^verbatim>\<open>tcc/filter.c:unum_only\<close> admits integer expressions only, and
  \<open>and_or_eval\<close> gives every logical node the type integer.
\<close>

fun arith :: "data \<Rightarrow> bool" where
  "arith (D_op t dsc a b c) \<longleftrightarrow>
     dsc \<notin> {op_logical_and, op_logical_or, op_logical_not, op_conform, op_count, op_precond, op_precond2} \<and>
     arith a \<and> arith b \<and> arith c"
| "arith (D_decision r c) \<longleftrightarrow> False"
| "arith d \<longleftrightarrow> True"

fun logic :: "data \<Rightarrow> bool" where
  "logic (D_op t dsc a b c) \<longleftrightarrow>
     (if dsc = op_logical_and \<or> dsc = op_logical_or
      then t = dt_unum \<and> c = D_none \<and> logic a \<and> logic b
      else if dsc = op_logical_not
        then integer_number (D_op t dsc a b c) \<and> b = D_none \<and> c = D_none \<and> logic a
      else if dsc = op_conform \<or> dsc = op_count
        then t = dt_unum \<and> b = D_none \<and> c = D_none \<and> (type_of a = dt_police \<or> type_of a = dt_bucket)
          \<and> \<not> is_op a
      else integer_number (D_op t dsc a b c) \<and> arith (D_op t dsc a b c))"
| "logic (D_decision r c) \<longleftrightarrow> True"
| "logic d \<longleftrightarrow> integer_number d"

text \<open>No token is consumed anywhere in the expression.\<close>

fun no_count :: "data \<Rightarrow> bool" where
  "no_count (D_op t dsc a b c) \<longleftrightarrow> dsc \<noteq> op_count \<and> no_count a \<and> no_count b \<and> no_count c"
| "no_count d \<longleftrightarrow> True"

lemma logic_cases [consumes 1, case_names land lor lnot police arith decision]:
  assumes "logic d"
  obtains (land) a b where "d = D_op dt_unum op_logical_and a b D_none" "logic a" "logic b"
  | (lor) a b where "d = D_op dt_unum op_logical_or a b D_none" "logic a" "logic b"
  | (lnot) t a where "d = D_op t op_logical_not a D_none D_none" "integer_number d" "logic a"
  | (police) dsc a where "d = D_op dt_unum dsc a D_none D_none" "dsc = op_conform \<or> dsc = op_count"
      "\<not> is_op a" "type_of a = dt_police \<or> type_of a = dt_bucket"
  | (arith) "arith d" "integer_number d"
  | (decision) r c where "d = D_decision r c"
  using assms by (cases d) (auto split: if_splits)

lemma logic_type: "logic d \<Longrightarrow> integer_number d \<or> type_of d = dt_decision"
  by (cases d) (auto simp: integer_number_def split: if_splits)

lemma arith_run: "arith d \<Longrightarrow> run E x d s = (truth (neval E x d \<noteq> 0), s)"
  by (cases d) auto

lemma arith_no_count: "arith d \<Longrightarrow> no_count d"
  by (induction d rule: arith.induct) auto

lemma arith_side_effect: "arith d \<Longrightarrow> \<not> side_effect d"
  by (induction d rule: arith.induct) auto

lemma no_count_state: "no_count d \<Longrightarrow> snd (run E x d s) = s"
  by (induction E x d s rule: run.induct) (auto simp: after_def split: verdict.splits)

lemma no_count_run: "no_count d \<Longrightarrow> run E x d s = (fst (run E x d s), s)"
  using no_count_state [of d E x s] by (metis prod.collapse)

text \<open>Without a side effect there is neither a decision nor a change of state.\<close>

lemma no_side_effect_run:
  "logic d \<Longrightarrow> \<not> side_effect d \<Longrightarrow> \<exists>b. run E x d s = (truth b, s)"
proof (induction E x d s rule: run.induct)
  case (1 E x t dsc a b c s)
  then show ?case
    by (cases "dsc = op_logical_and \<or> dsc = op_logical_or \<or> dsc = op_logical_not")
      (auto split: if_splits)
qed auto

section \<open>Logical nodes built by the passes\<close>

text \<open>
  On well-formed operands \<open>op_binary\<close> cannot fail for a logical operator; \<open>lnode\<close> is the
  expression it returns.
\<close>

definition const_truth :: "data \<Rightarrow> bool" where
  "const_truth d = (case d of D_unum n \<Rightarrow> n \<noteq> 0 | D_ipv4 n \<Rightarrow> n \<noteq> 0 | D_ipv6 n \<Rightarrow> \<not> u128_is_zero n | _ \<Rightarrow> False)"

definition lnode :: "op_dsc \<Rightarrow> data \<Rightarrow> data \<Rightarrow> data" where
  "lnode dsc a b =
     (if type_of a = dt_decision \<or> type_of b = dt_decision \<or> is_op a \<or> is_op b
      then D_op dt_unum dsc a b D_none
      else bool_unum (if dsc = op_logical_and then const_truth a \<and> const_truth b
                      else const_truth a \<or> const_truth b))"

lemma truth_of_const:
  "integer_number d \<Longrightarrow> \<not> is_op d \<Longrightarrow> truth_of d = Inr (const_truth d)"
  by (cases d) (auto simp: truth_of_def const_truth_def integer_number_def)

lemma op_binary_lnode [pass_simps]:
  assumes "logic a" "logic b"
  shows "op_binary op_logical_and a b = Inr (lnode op_logical_and a b)"
    and "op_binary op_logical_or a b = Inr (lnode op_logical_or a b)"
  using logic_type [OF assms(1)] logic_type [OF assms(2)]
  by (auto simp: op_binary_def and_or_eval_def lnode_def make_op_def truth_of_const)

lemma logic_lnode [pass_simps]:
  "dsc = op_logical_and \<or> dsc = op_logical_or \<Longrightarrow> logic a \<Longrightarrow> logic b \<Longrightarrow> logic (lnode dsc a b)"
  by (auto simp: lnode_def bool_unum_def integer_number_def)

lemma const_run:
  "integer_number d \<Longrightarrow> \<not> is_op d \<Longrightarrow> run E x d s = (truth (const_truth d), s)"
  by (cases d) (auto simp: const_truth_def integer_number_def u128_is_zero_word simp del: u128_word.simps)

lemma run_lnode:
  assumes "dsc = op_logical_and \<or> dsc = op_logical_or" "logic a" "logic b"
  shows "run E x (lnode dsc a b) s = run E x (D_op dt_unum dsc a b D_none) s"
proof (cases "type_of a = dt_decision \<or> type_of b = dt_decision \<or> is_op a \<or> is_op b")
  case True
  then show ?thesis by (simp add: lnode_def)
next
  case False
  then have "integer_number a" "integer_number b"
    using logic_type assms by blast+
  then show ?thesis using assms(1) False
    by (auto simp: lnode_def const_run bool_unum_def)
qed

lemma run_lnode_simps [sem_simps]:
  "logic a \<Longrightarrow> logic b \<Longrightarrow> run E x (lnode op_logical_and a b) s =
     after (run E x a s) (run E x b) (\<lambda>s. (V_false, s))"
  "logic a \<Longrightarrow> logic b \<Longrightarrow> run E x (lnode op_logical_or a b) s =
     after (run E x a s) (\<lambda>s. (V_true, s)) (run E x b)"
  by (simp_all add: run_lnode)

lemma no_count_lnode [pass_simps]:
  "dsc \<noteq> op_count \<Longrightarrow> no_count a \<Longrightarrow> no_count b \<Longrightarrow> no_count (lnode dsc a b)"
  by (simp add: lnode_def bool_unum_def)

lemma side_effect_lnode [pass_simps]:
  "dsc \<noteq> op_count \<Longrightarrow> \<not> side_effect a \<Longrightarrow> \<not> side_effect b \<Longrightarrow> \<not> side_effect (lnode dsc a b)"
  by (simp add: lnode_def bool_unum_def)

section \<open>Soundness of the classification\<close>

text \<open>
  \<open>sc_yes\<close>: the expression always decides. \<open>sc_no_true\<close>: it decides or is true.
  \<open>sc_no_false\<close>: it decides or is false.
\<close>

fun sc_sound :: "SELF_CONTAINED \<Rightarrow> verdict \<Rightarrow> bool" where
  "sc_sound sc_yes v = (v \<noteq> V_true \<and> v \<noteq> V_false)"
| "sc_sound sc_no_true v = (v \<noteq> V_false)"
| "sc_sound sc_no_false v = (v \<noteq> V_true)"
| "sc_sound sc_no v = True"

lemma self_contained_sound: "sc_sound (self_contained d) (fst (run E x d s))"
proof (induction d arbitrary: s rule: self_contained.induct)
  case (1 t dsc a b c)
  then show ?case
    by (cases "self_contained a"; cases "self_contained b")
      (auto simp: after_def Let_def split: verdict.splits)
qed (auto split: if_splits)

section \<open>Conditions below a root or an offset\<close>

text \<open>
  After \<^verbatim>\<open>iflib_offset\<close> a field root or an offset may stand above a condition that contains
  decisions. \<open>xrun\<close> evaluates these expressions: the two nodes change the context of all
  accesses below them. It agrees with \<open>run\<close> where they occur in packet tests only.
\<close>

fun xrun :: "'st env \<Rightarrow> ctx \<Rightarrow> data \<Rightarrow> 'st \<Rightarrow> verdict \<times> 'st" where
  "xrun E x (D_op t dsc a b c) s =
     (if dsc = op_logical_and then after (xrun E x a s) (xrun E x b) (\<lambda>s. (V_false, s))
      else if dsc = op_logical_or then after (xrun E x a s) (\<lambda>s. (V_true, s)) (xrun E x b)
      else if dsc = op_logical_not
        then after (xrun E x a s) (\<lambda>s. (V_false, s)) (\<lambda>s. (V_true, s))
      else if dsc = op_conform then (truth (conforms E s a), s)
      else if dsc = op_count then (V_true, counts E s a)
      else if dsc = op_field_root then xrun E (root_of x b, snd x) a s
      else if dsc = op_offset then xrun E (fst x, snd x + neval E x b) a s
      else (truth (neval E x (D_op t dsc a b c) \<noteq> 0), s))"
| "xrun E x (D_decision r c) s = (decide r c, s)"
| "xrun E x d s = (truth (neval E x d \<noteq> 0), s)"

lemma xrun_arith: "arith d \<Longrightarrow> xrun E x d s = (truth (neval E x d \<noteq> 0), s)"
  by (induction E x d s rule: xrun.induct) auto

lemma xrun_run: "logic d \<Longrightarrow> xrun E x d s = run E x d s"
proof (induction E x d s rule: xrun.induct)
  case (1 E x t dsc a b c s)
  consider "dsc = op_logical_and \<or> dsc = op_logical_or \<or> dsc = op_logical_not" | "dsc = op_conform \<or> dsc = op_count"
    | "arith (D_op t dsc a b c)"
    using 1 by (auto split: if_splits)
  then show ?case
  proof cases
    case 1
    then show ?thesis using "1.IH" "1.prems" by (auto simp: after_def split: verdict.splits)
  next
    case 3
    then show ?thesis by (simp only: xrun_arith arith_run)
  qed auto
qed auto

text \<open>An action does not look at the packet, so its context does not matter.\<close>

lemma xrun_self_contained: "sc_sound (self_contained d) (fst (xrun E x d s))"
proof (induction E x d s rule: xrun.induct)
  case (1 E x t dsc a b c s)
  then show ?case
    by (cases "self_contained a"; cases "self_contained b")
      (auto simp: after_def Let_def split: verdict.splits)
qed (auto split: if_splits)

lemma sc_yes_after: "self_contained d = sc_yes \<Longrightarrow> after (xrun E x d s) yes no = xrun E x d s"
  using xrun_self_contained [of d E x s] by (auto simp: after_def split: verdict.splits)

lemma xrun_action: "action_tree d \<Longrightarrow> xrun E x d s = xrun E y d s"
proof (induction d arbitrary: s rule: action_tree.induct)
  case (1 t dsc a b c)
  note sc_yes_after [simp]
  show ?case
  proof (cases "dsc = op_logical_and \<or> dsc = op_logical_or")
    case True
    with "1.prems" have a: "action_tree a" "self_contained a = sc_yes \<or> action_tree b" by auto
    have A: "xrun E x a s = xrun E y a s" for s by (rule "1.IH"(1)) (use "1.prems" True a in auto)
    show ?thesis
    proof (cases "self_contained a = sc_yes")
      case False
      with a have B: "xrun E x b s = xrun E y b s" for s by (intro "1.IH"(2)) (use "1.prems" True in auto)
      have "xrun E x b = xrun E y b" by (rule ext) (rule B)
      with A True show ?thesis by auto
    qed (use True A in \<open>auto simp: sc_yes_after\<close>)
  qed (use "1.prems" in \<open>auto split: if_splits\<close>)
qed auto

section \<open>Passes\<close>

text \<open>
  The contract between the expression passes: on an expression that satisfies \<open>pre\<close>, a pass
  returns an expression that satisfies \<open>pre\<close> again and means the same for every packet and
  every state of the policers. Passes under the same precondition compose.
\<close>

locale sem_pass =
  fixes E :: "'st env"
    and pass :: "data \<Rightarrow> data result"
    and pre :: "data \<Rightarrow> bool"
  assumes pass_returns: "pre d \<Longrightarrow> \<exists>d'. pass d = Inr d'"
    and pass_keeps: "pre d \<Longrightarrow> pass d = Inr d' \<Longrightarrow> pre d'"
    and pass_run: "pre d \<Longrightarrow> pass d = Inr d' \<Longrightarrow> run E x d' s = run E x d s"
begin

lemma pass_ok: "pre d \<Longrightarrow> \<exists>d'. pass d = Inr d' \<and> pre d' \<and> (\<forall>x s. run E x d' s = run E x d s)"
  using pass_returns pass_keeps pass_run by blast

lemma pass_weaken:
  assumes "\<And>d. pre' d \<Longrightarrow> pre d" "\<And>d d'. pre' d \<Longrightarrow> pass d = Inr d' \<Longrightarrow> pre' d'"
  shows "sem_pass E pass pre'"
  using assms pass_returns pass_run by unfold_locales blast+

end

locale two_passes =
  first: sem_pass E pass1 pre + second: sem_pass E pass2 pre
  for E :: "'st env" and pass1 pass2 :: "data \<Rightarrow> data result" and pre

sublocale two_passes \<subseteq> both: sem_pass E "\<lambda>d. rbind (pass1 d) pass2" pre
proof unfold_locales
  fix d assume "pre d"
  then obtain d1 where 1: "pass1 d = Inr d1" by (blast dest: first.pass_returns)
  then have "pre d1" by (rule first.pass_keeps [OF \<open>pre d\<close>])
  with 1 show "\<exists>d'. rbind (pass1 d) pass2 = Inr d'" by (simp add: second.pass_returns)
next
  fix d d' assume "pre d" "rbind (pass1 d) pass2 = Inr d'"
  then obtain d1 where 1: "pass1 d = Inr d1" "pass2 d1 = Inr d'" by (auto simp: rbind_Inr_iff)
  then have "pre d1" by (blast intro: first.pass_keeps [OF \<open>pre d\<close>])
  then show "pre d'" using 1(2) by (rule second.pass_keeps)
next
  fix d d' x s assume "pre d" "rbind (pass1 d) pass2 = Inr d'"
  then obtain d1 where 1: "pass1 d = Inr d1" "pass2 d1 = Inr d'" by (auto simp: rbind_Inr_iff)
  then have "pre d1" by (blast intro: first.pass_keeps [OF \<open>pre d\<close>])
  then show "run E x d' s = run E x d s"
    by (simp add: first.pass_run [OF \<open>pre d\<close> 1(1)] second.pass_run [OF _ 1(2)])
qed

end
