(* ===== verification/Op_Fold.thy ===== *)
theory Op_Fold
  imports Expr_Sem
begin

text \<open>
  Constant folding by the operators of \<^verbatim>\<open>tcc/op.c\<close>: its result agrees with the value the
  expression has at run time, and its type depends on the operand types alone.
\<close>

section \<open>Folding\<close>

definition up :: "u32 \<Rightarrow> 128 word" where
  "up n = ucast n"

lemma uint_up: "uint (up n) = uint n"
  by (simp add: up_def unsigned_ucast_eq take_bit_int_eq_self_iff uint_lt_32 [THEN less_trans])

lemma unat_up: "unat (up n) = unat n"
  by (simp only: unat_eq_nat_uint uint_up)

lemma up_inj: "up m = up n \<longleftrightarrow> m = n"
  by (metis uint_up word_uint_eq_iff)

lemma up_less: "up m < up n \<longleftrightarrow> m < n" "up m \<le> up n \<longleftrightarrow> m \<le> n"
  by (simp_all add: word_less_def word_le_def uint_up)

lemma uint_128: "uint (x :: 128 word) < 340282366920938463463374607431768211456"
  using uint_lt2p [of x] by (simp only: len_of_numeral_defs) simp

lemma up_of_int: "0 \<le> k \<Longrightarrow> k < 4294967296 \<Longrightarrow> uint n = k \<Longrightarrow> up n = word_of_int k"
  by (metis uint_up word_of_int_uint)

lemma up_mult:
  assumes "uint m * uint n < 4294967296"
  shows "up (m * n) = up m * up n"
proof -
  have "uint (m * n) = uint m * uint n"
    using assms by (simp add: uint_word_ariths(3) mod_pos_pos_trivial)
  moreover have "uint (up m * up n) = uint m * uint n"
    using assms by (simp add: uint_word_ariths(3) mod_pos_pos_trivial uint_up)
  ultimately show ?thesis by (simp add: word_uint_eq_iff uint_up)
qed

lemma up_div: "up (m div n) = up m div up n"
  by (simp add: word_uint_eq_iff uint_up uint_div)

lemma up_mod: "up (m mod n) = up m mod up n"
  by (simp add: word_uint_eq_iff uint_up uint_mod)

lemma up_bits: "up (m AND n) = up m AND up n" "up (m OR n) = up m OR up n" "up (m XOR n) = up m XOR up n"
  by (simp_all add: up_def bit_eq_iff bit_simps) 

lemma mult_no_overflow:
  assumes "m \<noteq> 0" "\<not> (0xffffffff :: u32) div m < n"
  shows "uint m * uint n < 4294967296"
proof -
  have "uint n \<le> 4294967295 div uint m"
    using assms(2) by (simp add: word_less_def not_less uint_div)
  then have "uint m * uint n \<le> uint m * (4294967295 div uint m)"
    by (simp add: mult_left_mono)
  also have "\<dots> \<le> 4294967295" 
  proof -
    have "0 < uint m" using assms(1) uint_ge_0 [of m] by (simp add: word_uint_eq_iff order_less_le)
    then show ?thesis by (simp add: minus_mod_eq_mult_div [symmetric])
  qed
  finally show ?thesis by simp
qed

lemma bit_up: "bit (up m) k \<longleftrightarrow> bit m k"
  by (auto simp: up_def bit_simps dest: bit_32_high)

lemma up_shl:
  assumes "unat n < 32" "n \<noteq> 0 \<longrightarrow> drop_bit (32 - unat n) m = 0"
  shows "up (push_bit (unat n) m) = push_bit (unat n) (up m)"
proof (rule bit_word_eqI)
  fix k assume "k < LENGTH(128)"
  have "k < 32" if "unat n \<le> k" "bit m (k - unat n)"
  proof (rule ccontr)
    assume "\<not> k < 32"
    then have "bit (drop_bit (32 - unat n) m) (k - 32)"
      using that assms(1) by (simp add: bit_drop_bit_eq)
    with assms have "n = 0" by auto
    with that \<open>\<not> k < 32\<close> show False by (auto dest: bit_32_high)
  qed
  with \<open>k < LENGTH(128)\<close> show "bit (up (push_bit (unat n) m)) k = bit (push_bit (unat n) (up m)) k"
    by (auto simp: bit_up bit_push_bit_iff)
qed

lemma up_shr: "up (shr_u32 m n) = drop_bit (unat n) (up m)"
proof (rule bit_word_eqI)
  fix k
  have "32 \<le> unat n" if "32 \<le> n" using that by (simp add: word_le_nat_alt)
  then show "bit (up (shr_u32 m n)) k = bit (drop_bit (unat n) (up m)) k"
    by (auto simp: shr_u32_def bit_up bit_drop_bit_eq dest: bit_32_high)
qed


definition exact_op :: "op_dsc \<Rightarrow> bool" where
  "exact_op dsc \<longleftrightarrow> dsc \<in> {op_mult, op_div, op_mod, op_and, op_or, op_xor, op_shift_left, op_shift_right,
     op_eq, op_ne, op_gt, op_ge, op_lt, op_le}"

lemma neval_unum: "neval E x (D_unum n) = up n"
  by (simp add: up_def)

lemma neval_bool_unum: "neval E x (bool_unum p) = of_truth p"
  by (simp add: bool_unum_def of_truth_def)

lemmas number_defs = untyped_number_def integer_number_def ip_address_def typed_number_def

lemmas fold_defs = op_binary_def number_defs rbind_Inr_iff mix_types_def make_op_def

lemma fold_mult:
  assumes "op_binary op_mult (D_unum m) (D_unum n) = Inr d"
  shows "d = D_unum (m * n)" "up (m * n) = up m * up n"
proof -
  have "m \<noteq> 0" "\<not> (0xffffffff :: u32) div m < n" "d = D_unum (m * n)"
    using assms by (auto simp: fold_defs mult_eval_def anynum_op_def all_u32_def unum_op_def u32_div_def
        split: if_splits)
  then show "d = D_unum (m * n)" "up (m * n) = up m * up n"
    by (simp_all add: up_mult mult_no_overflow)
qed

lemma fold_shl:
  assumes "op_binary op_shift_left (D_unum m) (D_unum n) = Inr d"
  shows "d = D_unum (push_bit (unat n) m)" "up (push_bit (unat n) m) = push_bit (unat n) (up m)"
proof -
  have *: "\<not> 32 \<le> n" "n \<noteq> 0 \<longrightarrow> drop_bit (32 - unat n) m = 0" "d = D_unum (push_bit (unat n) m)"
    using assms by (auto simp: fold_defs shift_eval_def shl_u32_def split: if_splits)
  then have "unat n < 32" by (simp add: word_le_nat_alt)
  with * show "d = D_unum (push_bit (unat n) m)" "up (push_bit (unat n) m) = push_bit (unat n) (up m)"
    by (simp_all add: up_shl)
qed

lemma fold_unum_exact:
  assumes "exact_op dsc" "op_binary dsc (D_unum m) (D_unum n) = Inr d"
  shows "neval E x d = num_op dsc (neval E x (D_unum m)) (neval E x (D_unum n))"
proof -
  consider "dsc = op_mult" | "dsc = op_div" | "dsc = op_shift_left" | "dsc = op_shift_right"
    | "dsc \<in> {op_mod, op_and, op_or, op_xor}" | "dsc \<in> {op_eq, op_ne, op_gt, op_ge, op_lt, op_le}"
    using assms(1) by (auto simp: exact_op_def)
  then show ?thesis
  proof cases
    case 1
    then show ?thesis using fold_mult [OF assms(2) [unfolded 1]] by (simp only: neval_unum num_op.simps)
  next
    case 2
    then show ?thesis
      using assms(2) unfolding neval_unum
      by (auto simp: fold_defs div_eval_def anynum_op_def all_u32_def unum_op_def u32_div_def neval_unum up_div
          simp del: neval.simps split: if_splits)
  next
    case 3
    have "unat (up n) = unat n" by (rule unat_up)
    with 3 show ?thesis using fold_shl [OF assms(2) [unfolded 3]] by (simp only: neval_unum num_op.simps)
  next
    case 4
    have "unat (up n) = unat n" by (rule unat_up)
    with 4 show ?thesis
      using assms(2) unfolding neval_unum
      by (auto simp: fold_defs shift_eval_def neval_unum up_shr simp del: neval.simps)
  next
    case 5
    then show ?thesis
      using assms(2) unfolding neval_unum
      by (auto simp: fold_defs unum2_eval_def unum2_op_def u32_mod_def neval_unum up_mod up_bits
          simp del: neval.simps split: if_splits)
  next
    case 6
    then show ?thesis
      using assms(2) unfolding neval_unum
      by (auto simp: fold_defs rel_eval_def rel_unum_op_def neval_bool_unum neval_unum up_inj up_less
          simp del: neval.simps split: if_splits)
  qed
qed

lemma up_add_sub:
  "up (m + n) = take_bit 32 (up m + up n)" "up (m - n) = take_bit 32 (up m - up n)"
proof -
  have t: "uint (take_bit 32 w) = uint w mod 4294967296" for w :: "128 word"
    by (simp add: unsigned_take_bit_eq) (simp add: take_bit_eq_mod)
  show "up (m + n) = take_bit 32 (up m + up n)" "up (m - n) = take_bit 32 (up m - up n)"
    by (simp_all add: word_uint_eq_iff uint_up t uint_word_ariths mod_mod_cancel)
qed


lemma fold_plus: "op_binary op_plus (D_unum m) (D_unum n) = Inr (D_unum (m + n))"
  and fold_minus: "op_binary op_minus (D_unum m) (D_unum n) = Inr (D_unum (m - n))"
  by (auto simp: fold_defs plus_eval_def additive_eval_def anynum_op_def all_u32_def unum_op_def Let_def)

section \<open>Types of results\<close>

text \<open>The signature of the binary operators: the type of the result from the types of the operands.\<close>

definition number_type :: "data_type \<Rightarrow> bool" where
  "number_type t \<longleftrightarrow> t \<in> {dt_unum, dt_ipv4, dt_ipv6, dt_fnum}"

definition integer_type :: "data_type \<Rightarrow> bool" where
  "integer_type t \<longleftrightarrow> t \<in> {dt_unum, dt_ipv4, dt_ipv6}"

definition unit_type :: "data_type \<Rightarrow> bool" where
  "unit_type t \<longleftrightarrow> t \<in> {dt_rate, dt_size, dt_prate, dt_psize, dt_time}"

definition mix_type :: "data_type \<Rightarrow> data_type \<Rightarrow> data_type option" where
  "mix_type s t = (if s = t then Some s else if s = dt_unum then Some t
     else if t = dt_unum then Some s else None)"

definition additive_sig :: "data_type \<Rightarrow> data_type \<Rightarrow> data_type option" where
  "additive_sig s t =
     (if s = dt_ipv6 \<and> t = dt_ipv4 \<or> s = dt_ipv4 \<and> t = dt_ipv6 then Some dt_ipv6
      else if number_type s \<and> number_type t then mix_type s t
      else if s = t \<and> unit_type s then Some s else None)"

definition mult_sig :: "data_type \<Rightarrow> data_type \<Rightarrow> data_type option" where
  "mult_sig s t =
     (if number_type s \<and> number_type t then mix_type s t
      else if unit_type s \<and> number_type t then Some s
      else if number_type s \<and> unit_type t then Some t
      else if s = dt_rate \<and> t = dt_time \<or> s = dt_time \<and> t = dt_rate then Some dt_size
      else if s = dt_prate \<and> t = dt_time \<or> s = dt_time \<and> t = dt_prate then Some dt_psize
      else None)"

definition div_sig :: "data_type \<Rightarrow> data_type \<Rightarrow> data_type option" where
  "div_sig s t =
     (if number_type s \<and> number_type t then mix_type s t
      else if unit_type s \<and> number_type t then Some s
      else if s = dt_size \<and> t = dt_time then Some dt_rate
      else if s = dt_psize \<and> t = dt_time then Some dt_prate
      else None)"

definition bits_sig :: "data_type \<Rightarrow> data_type \<Rightarrow> data_type option" where
  "bits_sig s t = (if integer_type s \<and> integer_type t then mix_type s t else None)"

definition shift_sig :: "data_type \<Rightarrow> data_type \<Rightarrow> data_type option" where
  "shift_sig s t = (if integer_type s \<and> t = dt_unum then Some s else None)"

definition binary_type :: "op_dsc \<Rightarrow> data_type \<Rightarrow> data_type \<Rightarrow> data_type option" where
  "binary_type dsc s t =
     (if dsc = op_plus then if s = dt_string \<and> t = dt_string then Some dt_string else additive_sig s t
      else if dsc = op_minus then additive_sig s t
      else if dsc = op_mult then mult_sig s t
      else if dsc = op_div then div_sig s t
      else if dsc = op_mod \<or> dsc = op_and \<or> dsc = op_or \<or> dsc = op_xor then bits_sig s t
      else if dsc = op_shift_left \<or> dsc = op_shift_right then shift_sig s t
      else Some dt_unum)"

definition arith_op2 :: "op_dsc \<Rightarrow> bool" where
  "arith_op2 dsc \<longleftrightarrow> dsc \<in> {op_plus, op_minus, op_mult, op_div, op_mod, op_and, op_or, op_xor, op_shift_left,
     op_shift_right, op_eq, op_ne, op_gt, op_ge, op_lt, op_le, op_logical_and, op_logical_or}"

lemma mix_types_type: "mix_types a b = Inr t \<Longrightarrow> mix_type (type_of a) (type_of b) = Some t"
  by (auto simp: mix_types_def mix_type_def split: if_splits)

lemma anynum_type: "anynum_op f g a b = Inr d \<Longrightarrow> mix_type (type_of a) (type_of b) = Some (type_of d)"
  by (auto simp: anynum_op_def unum_op_def fnum_op_def rbind_Inr_iff dest!: mix_types_type data_convert_const
      split: if_splits)

lemma typed_fnum_type: "data_typed_fnum x t = Inr d \<Longrightarrow> type_of d = t"
  by (cases t) auto


lemma number_types:
  "untyped_number d \<longleftrightarrow> number_type (type_of d)" "integer_number d \<longleftrightarrow> integer_type (type_of d)"
  "typed_number d \<longleftrightarrow> unit_type (type_of d)" "ip_address d \<longleftrightarrow> type_of d \<in> {dt_ipv4, dt_ipv6}"
  by (auto simp: number_defs number_type_def integer_type_def unit_type_def)

lemma unit_not_number: "unit_type t \<Longrightarrow> \<not> number_type t"
  by (auto simp: number_type_def unit_type_def)

lemma integer_is_number: "integer_type t \<Longrightarrow> number_type t"
  by (auto simp: number_type_def integer_type_def)

lemma ipv6_op_type: "ipv6_op f a b = Inr d \<Longrightarrow> type_of d = dt_ipv6 \<and> type_of a \<in> {dt_unum, dt_ipv4, dt_ipv6}
    \<and> type_of b \<in> {dt_unum, dt_ipv4, dt_ipv6}"
  by (auto simp: ipv6_op_def rbind_Inr_iff data_convert_def split: if_splits)

lemma mix_type_unum [simp]: "mix_type t dt_unum = Some t" "mix_type dt_unum t = Some t" "mix_type t t = Some t"
  by (auto simp: mix_type_def)

lemma sig_nums:
  assumes "mix_type s t = Some r" "number_type s" "number_type t"
  shows "additive_sig s t = Some r" "mult_sig s t = Some r" "div_sig s t = Some r"
  using assms by (auto simp: additive_sig_def mult_sig_def div_sig_def mix_type_def split: if_splits)

lemma sig_ipv6:
  assumes "ipv6_op f a b = Inr d" "type_of a = dt_ipv6 \<or> type_of b = dt_ipv6"
  shows "additive_sig (type_of a) (type_of b) = Some (type_of d)"
  using ipv6_op_type [OF assms(1)] assms(2)
  by (elim conjE insertE disjE emptyE) (simp_all add: additive_sig_def number_type_def)

lemma sig_unit: "unit_type s \<Longrightarrow> additive_sig s s = Some s"
  using unit_not_number [of s] by (auto simp: additive_sig_def unit_type_def)

lemma number_unum: "number_type dt_unum"
  by (simp add: number_type_def)

lemma additive_type:
  assumes "additive_eval dsc a b c = Inr d" "dsc = op_plus \<or> dsc = op_minus"
  shows "additive_sig (type_of a) (type_of b) = Some (type_of d)"
proof -
  let ?A = "untyped_number a \<and> b = D_unum 0" and ?B = "dsc = op_plus \<and> untyped_number b \<and> a = D_unum 0"
    and ?C = "untyped_number a \<and> untyped_number b"
  consider ?A | "\<not> ?A" ?B | "\<not> ?A" "\<not> ?B" ?C | "\<not> ?A" "\<not> ?B" "\<not> ?C" by blast
  then show ?thesis
  proof cases
    case 1
    with assms(1) have "d = a" by (simp add: additive_eval_def)
    with 1 show ?thesis by (simp add: sig_nums number_unum number_types)
  next
    case 2
    with assms(1) have "d = b" by (auto simp: additive_eval_def)
    with 2 show ?thesis by (simp add: sig_nums number_unum number_types)
  next
    case 3
    have eq: "additive_eval dsc a b c =
      (if is_op a \<or> is_op b then rbind (mix_types a b) (\<lambda>t. Inr (make_op dsc a b c t))
       else if type_of a = dt_ipv6 \<or> type_of b = dt_ipv6
         then ipv6_op (if dsc = op_plus then u128_add else u128_sub) a b
       else if dsc = op_plus then anynum_op (\<lambda>m n. Inr (m + n)) f64_add a b
       else anynum_op (\<lambda>m n. Inr (m - n)) f64_sub a b)"
      unfolding additive_eval_def Let_def if_not_P [OF 3(1)] if_not_P [OF 3(2)] if_P [OF 3(3)] ..
    have "mix_type (type_of a) (type_of b) = Some (type_of d)"
      if "\<not> (\<not> is_op a \<and> \<not> is_op b \<and> (type_of a = dt_ipv6 \<or> type_of b = dt_ipv6))"
      using that assms(1) unfolding eq
      by (auto simp: make_op_def rbind_Inr_iff dest: mix_types_type anynum_type split: if_splits)
    then show ?thesis
      using 3 sig_nums(1) sig_ipv6 assms(1) unfolding eq number_types by (metis (full_types))
  next
    case 4
    with assms(1) have "type_of b = type_of a" "unit_type (type_of a)" "type_of d = type_of a"
      unfolding additive_eval_def Let_def if_not_P [OF 4(1)] if_not_P [OF 4(2)] if_not_P [OF 4(3)]
      by (auto simp: number_types make_op_def rbind_Inr_iff dest: typed_fnum_type split: if_splits)
    then show ?thesis by (simp add: sig_unit)
  qed
qed

lemma mult_type:
  assumes "mult_eval dsc a b c = Inr d"
  shows "mult_sig (type_of a) (type_of b) = Some (type_of d)"
proof -
  consider "number_type (type_of a)" "number_type (type_of b)" "mix_type (type_of a) (type_of b) = Some (type_of d)"
    | "unit_type (type_of a)" "number_type (type_of b)" "type_of d = type_of a"
    | "unit_type (type_of b)" "number_type (type_of a)" "type_of d = type_of b"
    | "types2 a b dt_rate dt_time" "type_of d = dt_size"
    | "types2 a b dt_prate dt_time" "type_of d = dt_psize"
    using assms
    by (auto simp: mult_eval_def number_types make_op_def rbind_Inr_iff
        dest: mix_types_type anynum_type typed_fnum_type unit_not_number split: if_splits)
  then show ?thesis
  proof cases
    case 1
    then show ?thesis by (intro sig_nums(2))
  next
    case 2
    then show ?thesis by (simp add: mult_sig_def unit_not_number)
  next
    case 3
    then show ?thesis by (simp add: mult_sig_def unit_not_number)
  next
    case 4
    then show ?thesis
      unfolding types2_def by (elim disjE conjE) (simp_all add: mult_sig_def number_type_def unit_type_def)
  next
    case 5
    then show ?thesis
      unfolding types2_def by (elim disjE conjE) (simp_all add: mult_sig_def number_type_def unit_type_def)
  qed
qed


lemma unum2_type:
  assumes "unum2_eval dsc a b c = Inr d" "dsc \<in> {op_mod, op_and, op_or, op_xor}"
  shows "bits_sig (type_of a) (type_of b) = Some (type_of d)"
proof -
  have i: "integer_type (type_of a)" "integer_type (type_of b)"
    using assms(1) by (auto simp: unum2_eval_def number_types split: if_splits)
  obtain t where t: "mix_types a b = Inr t" "type_of d = t"
    using assms(1) by (auto simp: unum2_eval_def make_op_def rbind_Inr_iff dest: ipv6_op_type split: if_splits)
  with i show ?thesis by (simp add: bits_sig_def mix_types_type)
qed

lemma mask_type:
  assumes "mask_eval a b c = Inr d"
  shows "type_of d = type_of a"
proof -
  have "type_of d' = type_of a" if "unum2_eval op_and a m c' = Inr d'" "type_of m = dt_unum \<or> type_of m = type_of a"
    for m c' d'
    using unum2_type [OF that(1)] that(2) by (auto simp: bits_sig_def split: if_splits)
  with assms show ?thesis
    by (auto simp: mask_eval_def make_op_def rbind_Inr_iff Let_def split: if_splits)
qed

lemma div_type:
  assumes "div_eval dsc a b c = Inr d"
  shows "div_sig (type_of a) (type_of b) = Some (type_of d)"
proof (cases "ip_address a \<and> type_of b = dt_unum")
  case True
  with assms have "type_of d = type_of a" by (auto simp: div_eval_def intro: mask_type)
  with True show ?thesis by (auto simp: div_sig_def number_types number_type_def)
next
  case False
  then consider
      "number_type (type_of a)" "number_type (type_of b)" "mix_type (type_of a) (type_of b) = Some (type_of d)"
    | "unit_type (type_of a)" "number_type (type_of b)" "type_of d = type_of a"
    | "type_of a = dt_size" "type_of b = dt_time" "type_of d = dt_rate"
    | "type_of a = dt_psize" "type_of b = dt_time" "type_of d = dt_prate"
    using assms unfolding div_eval_def if_not_P [OF False]
    by (auto simp: number_types make_op_def rbind_Inr_iff
        dest: mix_types_type anynum_type typed_fnum_type split: if_splits)
  then show ?thesis
  proof cases
    case 1
    then show ?thesis by (intro sig_nums(3))
  next
    case 2
    then show ?thesis by (simp add: div_sig_def unit_not_number)
  qed (simp_all add: div_sig_def number_type_def unit_type_def)
qed

lemma shift_type:
  assumes "shift_eval dsc a b c = Inr d"
  shows "shift_sig (type_of a) (type_of b) = Some (type_of d)"
proof -
  have i: "integer_number a" "integer_number b" "\<not> ip_address b"
    using assms by (auto simp: shift_eval_def split: if_splits)
  have "type_of d = type_of a"
    using assms i by (cases a) (auto simp: shift_eval_def make_op_def rbind_Inr_iff split: if_splits)
  then show ?thesis using i by (auto simp: shift_sig_def number_types integer_type_def)
qed

lemma bool_type:
  "rel_eval dsc a b c = Inr d \<Longrightarrow> type_of d = dt_unum"
  "and_or_eval dsc a b c = Inr d \<Longrightarrow> type_of d = dt_unum"
  by (auto simp: rel_eval_def and_or_eval_def bool_unum_def make_op_def rbind_Inr_iff split: if_splits)

lemma op_binary_type:
  assumes "arith_op2 dsc" "op_binary dsc a b = Inr d"
  shows "binary_type dsc (type_of a) (type_of b) = Some (type_of d)"
proof (cases "dsc = op_plus \<and> type_of a = dt_string \<and> type_of b = dt_string")
  case True
  with assms(2) show ?thesis
    by (auto simp: op_binary_def plus_eval_def binary_type_def rbind_Inr_iff split: if_splits)
next
  case False
  with assms show ?thesis
    unfolding arith_op2_def
    by (elim insertE emptyE)
      (auto simp: op_binary_def binary_type_def plus_eval_def bool_type additive_type mult_type div_type
        unum2_type shift_type split: if_splits)
qed

end
