(* ===== verification/Iflib_Not.thy ===== *)
theory Iflib_Not
  imports Expr_Sem
begin

text \<open>
  \<^verbatim>\<open>tcc/iflib_not.c\<close>: negation expressed with \<^verbatim>\<open>||\<close> and \<^verbatim>\<open>&&\<close>. Every expression has a
  context, what follows it when it is true (\<open>next\<close>) and when it is false (\<open>otherwise\<close>);
  \<^verbatim>\<open>!a\<close> becomes \<^verbatim>\<open>(a && otherwise) || next\<close>. Tests of a single bit are inverted in place.
  The warnings are not modelled; the switch that makes them errors is off.
\<close>

section \<open>Tests of a single bit\<close>

text \<open>The loop shifts the mask right while its lowest bit is clear; on zero it does not end.\<close>

partial_function (option) lowest_bit :: "u128 \<Rightarrow> u128 option" where
  [code]: "lowest_bit tmp =
     (if u128_is_zero (u128_and_32 tmp 1) then lowest_bit (u128_shift_right tmp 1) else Some tmp)"

definition unum_or_ipv6 :: "data \<Rightarrow> bool" where
  "unum_or_ipv6 d \<longleftrightarrow> (type_of d = dt_unum \<or> type_of d = dt_ipv6) \<and> \<not> is_op d"

definition mask_operand :: "data \<Rightarrow> data option" where
  "mask_operand a =
     (case a of
        D_op t dsc p q r \<Rightarrow>
          if dsc \<noteq> op_and then None
          else if unum_or_ipv6 p then Some p
          else if unum_or_ipv6 q then Some q else None
      | _ \<Rightarrow> None)"

text \<open>\<open>single_bit_test\<close> gets the operands of the \<^verbatim>\<open>==\<close> node; the result is the new right operand.\<close>

definition single_bit_test :: "data \<Rightarrow> data \<Rightarrow> data option result" where
  "single_bit_test a b =
     (if \<not> unum_or_ipv6 b then Inl E_assert
      else case mask_operand a of
        None \<Rightarrow> Inr None
      | Some mask_data \<Rightarrow>
          rbind (data_convert mask_data dt_ipv6) (\<lambda>d. rbind (u_u128 d) (\<lambda>mask.
          if u128_is_zero mask then Inr None
          else rbind (data_convert b dt_ipv6) (\<lambda>d. rbind (u_u128 d) (\<lambda>val.
            if \<not> u128_is_zero val \<and> u128_cmp val mask \<noteq> 0 then Inr None
            else case lowest_bit mask of
              None \<Rightarrow> Inl (E_undef ''endless loop'')
            | Some tmp \<Rightarrow>
                if u128_cmp tmp (u128_from_32 1) \<noteq> 0 then Inr None
                else if u128_is_zero val then Inr (Some mask_data)
                else Inr (Some (D_unum 0)))))))"

section \<open>Elimination of negation\<close>

text \<open>
  The temporary \<open>ext\<close> is freed through its operator, so a constant \<open>ext\<close> is a null
  dereference.
\<close>

definition not_ext :: "data \<Rightarrow> data \<Rightarrow> data \<Rightarrow> data result" where
  "not_ext b next otherwise =
     rbind (op_binary op_logical_and b next) (\<lambda>l. rbind (op_binary op_logical_or l otherwise) (\<lambda>ext.
       if is_op ext then Inr ext else Inl (E_undef ''null dereference'')))"

function (sequential) bubble_not :: "data \<Rightarrow> data \<Rightarrow> data \<Rightarrow> data result" where
  "bubble_not (D_op t dsc a b c) next otherwise =
     (if dsc = op_ne then
        rbind (single_bit_test a b) (\<lambda>r. case r of
            Some b' \<Rightarrow> Inr (D_op t op_eq a b' c)
          | None \<Rightarrow> rbind (op_unary op_logical_not (D_op t op_eq a b c)) (\<lambda>d.
              bubble_not d next otherwise))
      else if dsc = op_logical_not then
        (case a of
           D_op t' dsc' a' b' c' \<Rightarrow>
             if dsc' = op_logical_not then bubble_not a' next otherwise
             else if dsc' = op_ne then bubble_not (D_op t' op_eq a' b' c') next otherwise
             else rbind (bubble_not a otherwise next) (\<lambda>a.
                  rbind (op_binary op_logical_and a otherwise) (\<lambda>l. op_binary op_logical_or l next))
         | _ \<Rightarrow> rbind (bubble_not a otherwise next) (\<lambda>a.
                rbind (op_binary op_logical_and a otherwise) (\<lambda>l. op_binary op_logical_or l next)))
      else rbind (bubble_not b next otherwise) (\<lambda>b.
        if dsc = op_logical_or \<or> dsc = op_logical_and then
          rbind (not_ext b next otherwise) (\<lambda>ext.
          rbind (if dsc = op_logical_or then bubble_not a next ext else bubble_not a ext otherwise) (\<lambda>a.
          Inr (D_op t dsc a b c)))
        else rbind (bubble_not a next otherwise) (\<lambda>a.
          rbind (bubble_not c next otherwise) (\<lambda>c. Inr (D_op t dsc a b c)))))"
| "bubble_not d next otherwise = Inr d"
  by pat_completeness auto

fun not_size :: "data \<Rightarrow> nat" where
  "not_size (D_op t dsc a b c) = (if dsc = op_ne then 3 else 1) + not_size a + not_size b + not_size c"
| "not_size d = 0"

lemma op_unary_not_size:
  "op_unary op_logical_not (D_op t dsc a b c) = Inr d \<Longrightarrow> d = D_op t op_logical_not (D_op t dsc a b c) D_none D_none"
  by (auto simp: op_unary_def unum1_eval_def make_op_def split: if_splits)

termination bubble_not
  by (relation "measure (\<lambda>(d, next, otherwise). not_size d)") (auto dest!: op_unary_not_size)

definition iflib_not :: "data \<Rightarrow> data result" where
  "iflib_not d = bubble_not d (D_unum 1) (D_unum 0)"

declare bubble_not.simps [simp del]


section \<open>The loop ends\<close>

lemma u128_and_1_zero:
  assumes "u128_is_zero (u128_and_32 m 1)"
  shows "\<not> bit (u128_word m) 0"
proof (cases m)
  case (U128 a b c d)
  with assms have "\<not> bit a 0" by (auto simp: and_one_eq bit_0 mod_eq_0_iff_dvd)
  then show ?thesis using bit_u128_word [of m 0] by (simp add: U128)
qed

lemma even_drop_bit:
  fixes w :: "128 word"
  assumes "\<not> bit w 0"
  shows "w = push_bit 1 (drop_bit 1 w)"
proof (rule bit_word_eqI)
  fix k assume k: "k < LENGTH(128)"
  then have "bit (push_bit 1 (drop_bit 1 w)) k \<longleftrightarrow> 1 \<le> k \<and> bit w (1 + (k - 1))"
    unfolding bit_push_bit_iff bit_drop_bit_eq o_def by simp
  also have "\<dots> \<longleftrightarrow> bit w k" using assms by (cases k) auto
  finally show "bit w k = bit (push_bit 1 (drop_bit 1 w)) k" by blast
qed

lemma shift_right_1: "u128_word (u128_shift_right m 1) = drop_bit 1 (u128_word m)"
  by (simp add: u128_shift_right_word)

lemma drop_bit_less: "w \<noteq> 0 \<Longrightarrow> unat (drop_bit 1 w) < unat (w :: 128 word)"
  by (simp add: drop_bit_eq_div unat_div unat_gt_0)

lemma lowest_bit_returns:
  "\<not> u128_is_zero m \<Longrightarrow> \<exists>t. lowest_bit m = Some t \<and> (\<exists>k. u128_word m = push_bit k (u128_word t))"
proof (induction "unat (u128_word m)" arbitrary: m rule: less_induct)
  case less
  show ?case
  proof (cases "u128_is_zero (u128_and_32 m 1)")
    case False
    then have "lowest_bit m = Some m" by (simp add: lowest_bit.simps)
    then show ?thesis by (auto intro!: exI [of _ 0])
  next
    case True
    let ?n = "u128_shift_right m 1"
    note eq = even_drop_bit [OF u128_and_1_zero [OF True]]
    have nz: "u128_word m \<noteq> 0" using less.prems by (simp add: u128_is_zero_word)
    then have "\<not> u128_is_zero ?n" using eq by (metis shift_right_1 u128_is_zero_word push_bit_of_0)
    moreover have "unat (u128_word ?n) < unat (u128_word m)"
      unfolding shift_right_1 using nz by (rule drop_bit_less)
    ultimately obtain t k where t: "lowest_bit ?n = Some t" "u128_word ?n = push_bit k (u128_word t)"
      using less.hyps by blast
    have "u128_word m = push_bit (Suc k) (u128_word t)"
      using eq t(2) by (metis shift_right_1 push_bit_push_bit plus_1_eq_Suc)
    moreover have "lowest_bit m = Some t" using t True by (subst lowest_bit.simps) simp
    ultimately show ?thesis by blast
  qed
qed


section \<open>Meaning of a single bit test\<close>

lemma neval_convert:
  assumes "unum_or_ipv6 d"
  shows "\<exists>m. rbind (data_convert d dt_ipv6) u_u128 = Inr m \<and> u128_word m = neval E x d"
proof -
  obtain n where "d = D_unum n \<or> (\<exists>m. d = D_ipv6 m)"
    using assms by (auto simp: unum_or_ipv6_def type_of_const)
  then show ?thesis by (auto simp del: u128_word.simps simp: u128_from_32_word)
qed

lemma neval_convert2:
  assumes "unum_or_ipv6 d" "data_convert d dt_ipv6 = Inr d'" "u_u128 d' = Inr m"
  shows "u128_word m = neval E x d"
  using neval_convert [OF assms(1), of E x] assms(2,3) by auto

lemma and_power:
  fixes w :: "128 word"
  shows "w AND push_bit k 1 = 0 \<or> w AND push_bit k 1 = push_bit k 1"
proof (cases "bit w k")
  case True
  then have "w AND push_bit k 1 = push_bit k 1"
    by (intro bit_word_eqI) (auto simp: bit_simps)
  then show ?thesis ..
next
  case False
  then have "w AND push_bit k 1 = 0"
    by (intro bit_word_eqI) (auto simp: bit_simps)
  then show ?thesis ..
qed

lemma single_bit_test_neval:
  assumes "single_bit_test a b = Inr (Some b')"
  shows "neval E x a = neval E x b' \<longleftrightarrow> neval E x a \<noteq> neval E x b" and "unum_or_ipv6 b'"
proof -
  obtain t p q r md where a: "a = D_op t op_and p q r" and md: "md = p \<or> md = q" "unum_or_ipv6 md"
      "mask_operand a = Some md" and b: "unum_or_ipv6 b"
    using assms by (auto simp: single_bit_test_def mask_operand_def split: if_splits option.splits data.splits)
  from assms b md(3) obtain d1 mask d2 val tmp where
      m: "data_convert md dt_ipv6 = Inr d1" "u_u128 d1 = Inr mask" "\<not> u128_is_zero mask"
    and v: "data_convert b dt_ipv6 = Inr d2" "u_u128 d2 = Inr val" "u128_is_zero val \<or> val = mask"
    and t: "lowest_bit mask = Some tmp" "tmp = u128_from_32 1"
    and b': "b' = (if u128_is_zero val then md else D_unum 0)"
    by (auto simp: single_bit_test_def rbind_Inr_iff u128_cmp_0 split: if_splits option.splits)
  have mw: "u128_word mask = neval E x md" using neval_convert2 [OF md(2) m(1,2)] .
  have vw: "u128_word val = neval E x b" using neval_convert2 [OF b v(1,2)] .
  obtain k where "u128_word mask = push_bit k (u128_word tmp)"
    using lowest_bit_returns [OF m(3)] t(1) by auto
  then have k: "neval E x md = push_bit k 1" using mw t(2) by (simp add: u128_from_32_word)
  obtain w where "neval E x a = w AND push_bit k 1"
    using md(1) k by (auto simp: a and.commute)
  then have "neval E x a = 0 \<or> neval E x a = neval E x md" using and_power k by metis
  moreover have "neval E x md \<noteq> 0" using m(3) mw by (simp add: u128_is_zero_word)
  moreover have "neval E x b = 0 \<or> neval E x b = neval E x md" using v(3) vw mw by (auto simp: u128_is_zero_word)
  ultimately show "neval E x a = neval E x b' \<longleftrightarrow> neval E x a \<noteq> neval E x b"
    using b' vw by (auto simp: u128_is_zero_word)
  show "unum_or_ipv6 b'" using b' md(2) by (auto simp: unum_or_ipv6_def)
qed

lemma single_bit_test_returns:
  assumes "unum_or_ipv6 b"
  shows "\<exists>r. single_bit_test a b = Inr r"
proof (cases "mask_operand a")
  case None
  with assms show ?thesis by (simp add: single_bit_test_def)
next
  case (Some md)
  then have "unum_or_ipv6 md" by (auto simp: mask_operand_def split: data.splits if_splits)
  then obtain d1 mask where m: "data_convert md dt_ipv6 = Inr d1" "u_u128 d1 = Inr mask"
    using neval_convert [of md undefined undefined] by (auto simp: rbind_Inr_iff)
  obtain d2 val where v: "data_convert b dt_ipv6 = Inr d2" "u_u128 d2 = Inr val"
    using neval_convert [OF assms, of undefined undefined] by (auto simp: rbind_Inr_iff)
  show ?thesis
    using assms Some m v lowest_bit_returns [of mask] by (auto simp: single_bit_test_def)
qed


section \<open>Meaning in a context\<close>

text \<open>
  Conditions as the later steps see them: no \<^verbatim>\<open>!=\<close> and no logical operator inside an
  arithmetic expression, and the right operand of \<^verbatim>\<open>!=\<close> a constant.
\<close>

fun plain :: "data \<Rightarrow> bool" where
  "plain (D_op t dsc a b c) \<longleftrightarrow> dsc \<noteq> op_ne \<and>
     dsc \<notin> {op_logical_and, op_logical_or, op_logical_not, op_conform, op_count, op_precond, op_precond2} \<and>
     plain a \<and> plain b \<and> plain c"
| "plain (D_decision r k) \<longleftrightarrow> False"
| "plain d \<longleftrightarrow> True"

fun neg_logic :: "data \<Rightarrow> bool" where
  "neg_logic (D_op t dsc a b c) \<longleftrightarrow>
     (if dsc = op_logical_and \<or> dsc = op_logical_or
      then t = dt_unum \<and> c = D_none \<and> neg_logic a \<and> neg_logic b
      else if dsc = op_logical_not
        then integer_number (D_op t dsc a b c) \<and> b = D_none \<and> c = D_none \<and> neg_logic a
      else if dsc = op_conform \<or> dsc = op_count
        then t = dt_unum \<and> b = D_none \<and> c = D_none \<and> (type_of a = dt_police \<or> type_of a = dt_bucket)
          \<and> \<not> is_op a
      else if dsc = op_ne
        then t = dt_unum \<and> c = D_none \<and> plain a \<and> unum_or_ipv6 b
      else integer_number (D_op t dsc a b c) \<and> plain (D_op t dsc a b c))"
| "neg_logic (D_decision r k) \<longleftrightarrow> True"
| "neg_logic d \<longleftrightarrow> integer_number d"

fun no_negation :: "data \<Rightarrow> bool" where
  "no_negation (D_op t dsc a b c) \<longleftrightarrow>
     dsc \<noteq> op_ne \<and> dsc \<noteq> op_logical_not \<and> no_negation a \<and> no_negation b \<and> no_negation c"
| "no_negation d \<longleftrightarrow> True"

lemma plain_arith: "plain d \<Longrightarrow> arith d \<and> no_negation d"
  by (induction d) auto

lemma unum_or_ipv6_plain: "unum_or_ipv6 d \<Longrightarrow> plain d \<and> \<not> is_op d \<and> integer_number d"
  by (cases d) (auto simp: unum_or_ipv6_def integer_number_def)

lemma neg_logic_logic: "neg_logic d \<Longrightarrow> logic d"
  by (induction d) (auto simp: integer_number_def dest: plain_arith unum_or_ipv6_plain split: if_splits)

lemma bubble_not_leaf: "\<not> is_op d \<Longrightarrow> bubble_not d n z = Inr d"
  by (cases d) (auto simp: bubble_not.simps)

lemma bubble_not_plain: "plain d \<Longrightarrow> bubble_not d n z = Inr d"
  by (induction d arbitrary: n z) (auto simp: bubble_not.simps)

text \<open>A context that always decides, and the verdict of an expression in its context.\<close>

definition decided :: "'st env \<Rightarrow> ctx \<Rightarrow> data \<Rightarrow> bool" where
  "decided E x d \<longleftrightarrow> (\<forall>s. \<exists>r k s'. run E x d s = (V_decided r k, s'))"

definition in_context :: "'st env \<Rightarrow> ctx \<Rightarrow> data \<Rightarrow> data \<Rightarrow> data \<Rightarrow> 'st \<Rightarrow> verdict \<times> 'st" where
  "in_context E x d n z s = after (run E x d s) (run E x n) (run E x z)"

lemma decided_iff: "decided E x d \<longleftrightarrow> (\<forall>s. \<exists>r k. fst (run E x d s) = V_decided r k)"
  unfolding decided_def by (metis fst_conv prod.collapse)

lemma after_decided: "decided E x d \<Longrightarrow> after (run E x d s) f g = run E x d s"
  unfolding decided_def by (metis after_simps(3))

lemma in_context_decided: "decided E x n \<Longrightarrow> decided E x z \<Longrightarrow> \<exists>r k s'. in_context E x d n z s = (V_decided r k, s')"
  unfolding in_context_def decided_def after_def by (cases "run E x d s") (auto split: verdict.split)

lemma lnode_op:
  "is_op (lnode dsc a b) \<longleftrightarrow> type_of a = dt_decision \<or> type_of b = dt_decision \<or> is_op a \<or> is_op b"
  by (simp add: lnode_def bool_unum_def)

lemma no_negation_lnode:
  "dsc \<noteq> op_ne \<Longrightarrow> dsc \<noteq> op_logical_not \<Longrightarrow> no_negation a \<Longrightarrow> no_negation b \<Longrightarrow> no_negation (lnode dsc a b)"
  by (simp add: lnode_def bool_unum_def)

lemma run_decision_or_op:
  assumes "logic d" "decided E x d"
  shows "type_of d = dt_decision \<or> is_op d"
proof (rule ccontr)
  assume "\<not> ?thesis"
  then have "integer_number d" "\<not> is_op d" using logic_type [OF assms(1)] by auto
  then have "run E x d s = (truth (const_truth d), s)" for s by (rule const_run)
  with assms(2) show False by (auto simp: decided_def)
qed

lemma not_ext_ok:
  assumes "logic b" "logic n" "logic z" "decided E x n" "decided E x z"
  shows "\<exists>ext. not_ext b n z = Inr ext \<and> logic ext \<and> decided E x ext \<and>
    (no_negation b \<and> no_negation n \<and> no_negation z \<longrightarrow> no_negation ext) \<and>
    (\<forall>s. run E x ext s = in_context E x b n z s)"
proof -
  let ?ext = "lnode op_logical_or (lnode op_logical_and b n) z"
  have op: "is_op ?ext"
    using run_decision_or_op [OF assms(3,5)] by (auto simp: lnode_op)
  have run: "run E x ?ext s = in_context E x b n z s" for s
  proof -
    have "run E x ?ext s = after (after (run E x b s) (run E x n) (\<lambda>s. (V_false, s))) (\<lambda>s. (V_true, s)) (run E x z)"
      using assms by (simp add: sem_simps pass_simps)
    also have "\<dots> = after (run E x b s) (\<lambda>s. after (run E x n s) (\<lambda>s. (V_true, s)) (run E x z)) (run E x z)"
      by (simp add: after_after)
    finally show ?thesis by (simp add: after_decided [OF assms(4)] in_context_def)
  qed
  have "decided E x ?ext"
    unfolding decided_def run using in_context_decided [OF assms(4,5)] by blast
  then show ?thesis
    using assms op run by (auto simp: not_ext_def pass_simps no_negation_lnode)
qed


text \<open>The specification of a call: the result, in its context, means what the argument meant.\<close>

definition not_spec :: "'st env \<Rightarrow> ctx \<Rightarrow> data \<Rightarrow> data \<Rightarrow> data \<Rightarrow> bool" where
  "not_spec E x d n z \<longleftrightarrow> (\<exists>d'. bubble_not d n z = Inr d' \<and> logic d' \<and>
     (no_negation n \<and> no_negation z \<longrightarrow> no_negation d') \<and>
     (\<forall>s. in_context E x d' n z s = in_context E x d n z s))"

lemma not_spec_negation:
  assumes "bubble_not d n z = rbind (bubble_not a z n) (\<lambda>a.
      rbind (op_binary op_logical_and a z) (\<lambda>l. op_binary op_logical_or l n))"
    and "not_spec E x a z n" "logic n" "logic z" "decided E x n" "decided E x z"
    and "\<And>s. in_context E x d n z s = in_context E x a z n s"
  shows "not_spec E x d n z"
proof -
  from assms(2) obtain a' where a': "bubble_not a z n = Inr a'" "logic a'"
      "no_negation n \<and> no_negation z \<longrightarrow> no_negation a'"
      "\<forall>s. in_context E x a' z n s = in_context E x a z n s"
    by (auto simp: not_spec_def)
  let ?d = "lnode op_logical_or (lnode op_logical_and a' z) n"
  have "run E x ?d s = in_context E x a' z n s" for s
    using a'(2) assms(3,4)
    by (simp add: sem_simps pass_simps after_after after_decided [OF assms(6)] in_context_def)
  then have "in_context E x ?d n z s = in_context E x d n z s" for s
    using a'(4) assms(7) in_context_decided [OF assms(6,5), of a' s]
    by (auto simp: in_context_def [of E x ?d])
  then show ?thesis
    using a' assms(1,3,4) by (simp add: not_spec_def pass_simps no_negation_lnode)
qed

lemma eq_ne_context:
  "in_context E x (D_op t op_ne a b c) n z s = in_context E x (D_op t op_eq a b c) z n s"
  by (simp add: in_context_def of_truth_def)

lemma logic_eq_test: "plain a \<Longrightarrow> unum_or_ipv6 b \<Longrightarrow> logic (D_op dt_unum op_eq a b D_none)"
  using unum_or_ipv6_plain [of b] plain_arith [of a] plain_arith [of b] by (simp add: integer_number_def)

lemma not_spec_ne:
  assumes "neg_logic (D_op t op_ne a b c)" "logic n" "logic z" "decided E x n" "decided E x z"
  shows "not_spec E x (D_op t op_ne a b c) n z"
proof -
  have d: "t = dt_unum" "c = D_none" "plain a" "unum_or_ipv6 b" using assms(1) by simp_all
  obtain r where r: "single_bit_test a b = Inr r" using single_bit_test_returns [OF d(4)] by blast
  have eq: "bubble_not (D_op t op_eq a b c) z n = Inr (D_op t op_eq a b c)"
    using d unum_or_ipv6_plain [OF d(4)] by (intro bubble_not_plain) simp
  show ?thesis
  proof (cases r)
    case (Some b')
    with r have "bubble_not (D_op t op_ne a b c) n z = Inr (D_op t op_eq a b' c)"
      by (simp add: bubble_not.simps)
    moreover have "unum_or_ipv6 b'" using single_bit_test_neval(2) r Some by blast
    moreover have "in_context E x (D_op t op_eq a b' c) n z s = in_context E x (D_op t op_ne a b c) n z s" for s
      using single_bit_test_neval(1) [of a b b' E x] r Some by (simp add: in_context_def of_truth_def)
    ultimately show ?thesis
      using d logic_eq_test [of a b'] plain_arith [of a] unum_or_ipv6_plain [of b'] plain_arith [of b']
      by (auto simp: not_spec_def)
  next
    case None
    have u: "op_unary op_logical_not (D_op t op_eq a b c) = Inr (D_op t op_logical_not (D_op t op_eq a b c) D_none D_none)"
      using d by (simp add: op_unary_def unum1_eval_def integer_number_def untyped_number_def make_op_def)
    have "bubble_not (D_op t op_ne a b c) n z =
        rbind (bubble_not (D_op t op_eq a b c) z n) (\<lambda>a.
          rbind (op_binary op_logical_and a z) (\<lambda>l. op_binary op_logical_or l n))"
      using r None u by (simp add: bubble_not.simps(1) [of t op_ne]
          bubble_not.simps(1) [of t op_logical_not "D_op t op_eq a b c"])
    moreover have "not_spec E x (D_op t op_eq a b c) z n"
      using eq logic_eq_test [OF d(3,4)] d plain_arith [of a] unum_or_ipv6_plain [of b] plain_arith [of b]
      by (simp add: not_spec_def)
    ultimately show ?thesis using assms(2-5) eq_ne_context by (rule not_spec_negation)
  qed
qed


lemma not_spec_binary:
  assumes "dsc = op_logical_or \<or> dsc = op_logical_and" "d = D_op dt_unum dsc a b D_none"
    and "logic a" "logic b" "logic n" "logic z" "decided E x n" "decided E x z"
    and b: "not_spec E x b n z"
    and a: "\<And>b' ext. bubble_not b n z = Inr b' \<Longrightarrow> not_ext b' n z = Inr ext \<Longrightarrow> logic ext \<Longrightarrow>
      decided E x ext \<Longrightarrow> not_spec E x a (if dsc = op_logical_or then n else ext) (if dsc = op_logical_or then ext else z)"
  shows "not_spec E x d n z"
proof -
  from b obtain b' where b': "bubble_not b n z = Inr b'" "logic b'"
      "no_negation n \<and> no_negation z \<longrightarrow> no_negation b'"
      "\<forall>s. in_context E x b' n z s = in_context E x b n z s"
    by (auto simp: not_spec_def)
  obtain ext where ext: "not_ext b' n z = Inr ext" "logic ext" "decided E x ext"
      "no_negation b' \<and> no_negation n \<and> no_negation z \<longrightarrow> no_negation ext"
      "\<forall>s. run E x ext s = in_context E x b' n z s"
    using not_ext_ok [OF b'(2) assms(5-8)] by blast
  let ?n = "if dsc = op_logical_or then n else ext" and ?z = "if dsc = op_logical_or then ext else z"
  obtain a' where a': "bubble_not a ?n ?z = Inr a'" "logic a'" "no_negation ?n \<and> no_negation ?z \<longrightarrow> no_negation a'"
      "\<forall>s. in_context E x a' ?n ?z s = in_context E x a ?n ?z s"
    using a [OF b'(1) ext(1-3)] by (auto simp: not_spec_def)
  have res: "bubble_not d n z = Inr (D_op dt_unum dsc a' b' D_none)"
    using assms(1,2) b'(1) ext(1) a'(1) by (auto simp: bubble_not.simps)
  have unfold: "in_context E x (D_op dt_unum dsc p q D_none) n z s =
      after (run E x p s) (if dsc = op_logical_or then run E x n else in_context E x q n z)
        (if dsc = op_logical_or then in_context E x q n z else run E x z)" for p q s
    using assms(1) by (auto simp: in_context_def [abs_def] after_after)
  have q: "in_context E x b' n z = in_context E x b n z" "run E x ext = in_context E x b' n z"
    using b'(4) ext(5) by auto
  have "in_context E x (D_op dt_unum dsc a' b' D_none) n z s = in_context E x d n z s" for s
    using a'(4) [unfolded in_context_def [of E x _ ?n ?z]] assms(1) unfolding assms(2) unfold
    by (auto simp: q)
  then show ?thesis
    using res a'(2,3) b'(2,3) ext(4) assms(1) by (auto simp: not_spec_def)
qed

lemma not_spec_same: "bubble_not d n z = Inr d \<Longrightarrow> logic d \<Longrightarrow> no_negation d \<Longrightarrow> not_spec E x d n z"
  by (simp add: not_spec_def)

lemma bubble_not_context:
  "neg_logic d \<Longrightarrow> logic n \<Longrightarrow> logic z \<Longrightarrow> decided E x n \<Longrightarrow> decided E x z \<Longrightarrow> not_spec E x d n z"
proof (induction d n z rule: bubble_not.induct)
  case (1 t dsc a b c n z)
  note prems = "1.prems"
  consider "dsc = op_ne" | "dsc = op_logical_not" | "dsc = op_logical_or \<or> dsc = op_logical_and"
    | "dsc \<noteq> op_ne" "\<not> (dsc = op_logical_not)" "\<not> (dsc = op_logical_or \<or> dsc = op_logical_and)" by blast
  then show ?case
  proof cases
    case 1
    with prems show ?thesis by (simp only: not_spec_ne)
  next
    case not: 2
    then have la: "neg_logic a" "b = D_none" "c = D_none" using prems(1) by simp_all
    have ctx: "in_context E x (D_op t dsc a b c) n z s = in_context E x a z n s" for s
      using not by (simp add: in_context_def after_after)
    consider t' a' b' c' where "a = D_op t' op_logical_not a' b' c'" | t' a' b' c' where "a = D_op t' op_ne a' b' c'"
      | "\<forall>t' dsc' a' b' c'. a = D_op t' dsc' a' b' c' \<longrightarrow> dsc' \<noteq> op_logical_not \<and> dsc' \<noteq> op_ne" by blast
    then show ?thesis
    proof cases
      case 1
      then have "neg_logic a'" using la(1) by simp
      then have "not_spec E x a' n z" using "1.IH"(25) [OF _ not 1] not prems by simp
      moreover have "in_context E x (D_op t dsc a b c) n z s = in_context E x a' n z s" for s
      proof -
        have "in_context E x a z n s = in_context E x a' n z s" by (simp add: 1 in_context_def after_after)
        with ctx show ?thesis by simp
      qed
      moreover have "bubble_not (D_op t dsc a b c) n z = bubble_not a' n z"
        using not 1 by (simp add: bubble_not.simps)
      ultimately show ?thesis by (simp add: not_spec_def)
    next
      case 2
      then have d: "t' = dt_unum" "c' = D_none" "plain a'" "unum_or_ipv6 b'" using la(1) by simp_all
      have "plain (D_op t' op_eq a' b' c')" using d unum_or_ipv6_plain by simp
      then have "not_spec E x (D_op t' op_eq a' b' c') n z"
        using logic_eq_test [OF d(3,4)] d bubble_not_plain plain_arith by (intro not_spec_same) auto
      moreover have "bubble_not (D_op t dsc a b c) n z = bubble_not (D_op t' op_eq a' b' c') n z"
        unfolding not 2 by (simp add: bubble_not.simps(1) [of t op_logical_not])
      moreover have "in_context E x (D_op t dsc a b c) n z s = in_context E x (D_op t' op_eq a' b' c') n z s" for s
      proof -
        have "in_context E x a z n s = in_context E x (D_op t' op_eq a' b' c') n z s"
          unfolding 2 by (rule eq_ne_context)
        with ctx show ?thesis by simp
      qed
      ultimately show ?thesis by (simp add: not_spec_def)
    next
      case 3
      have eq: "bubble_not (D_op t dsc a b c) n z = rbind (bubble_not a z n) (\<lambda>a.
          rbind (op_binary op_logical_and a z) (\<lambda>l. op_binary op_logical_or l n))"
        using not 3 by (cases a) (simp_all add: bubble_not.simps(1) [of t op_logical_not])
      have "not_spec E x a z n"
      proof (cases "is_op a")
        case False
        then show ?thesis
          using la(1) neg_logic_logic by (intro not_spec_same) (auto simp: bubble_not_leaf, cases a, auto)
      next
        case True
        then obtain t' dsc' a' b' c' where "a = D_op t' dsc' a' b' c'" by (auto simp: is_op_iff)
        then show ?thesis using "1.IH"(27) [OF _ not] 3 not la prems by blast
      qed
      then show ?thesis using prems(2-5) ctx by (rule not_spec_negation [OF eq])
    qed
  next
    case bin: 3
    then have d: "t = dt_unum" "c = D_none" "neg_logic a" "neg_logic b" using prems(1) by auto
    have b: "not_spec E x b n z" using "1.IH"(28) bin d prems by auto
    show ?thesis
    proof (rule not_spec_binary [OF bin _ neg_logic_logic neg_logic_logic prems(2-5) b])
      fix b' ext assume h: "bubble_not b n z = Inr b'" "not_ext b' n z = Inr ext" "logic ext" "decided E x ext"
      show "not_spec E x a (if dsc = op_logical_or then n else ext) (if dsc = op_logical_or then ext else z)"
        using "1.IH"(29,30) [OF _ _ h(1) bin h(2)] h bin d prems by auto
    qed (use d in auto)
  next
    case 4
    then have "D_op t dsc a b c = D_op t dsc a b c \<and> (plain (D_op t dsc a b c) \<or> \<not> is_op a \<and> b = D_none \<and> c = D_none \<and> dsc \<in> {op_conform, op_count})"
      using prems(1) by (auto split: if_splits)
    then have "bubble_not (D_op t dsc a b c) n z = Inr (D_op t dsc a b c)" "no_negation (D_op t dsc a b c)"
      using plain_arith [of "D_op t dsc a b c"] bubble_not_plain [of "D_op t dsc a b c"]
      by (auto simp: bubble_not.simps bubble_not_leaf) (cases a; simp)+
    then show ?thesis using neg_logic_logic [OF prems(1)] by (intro not_spec_same)
  qed
qed (auto intro!: not_spec_same simp: bubble_not.simps)


section \<open>Rules\<close>

text \<open>
  The expression of a filter is a chain of rules \<^verbatim>\<open>condition && decision\<close> that ends with the
  default decision.
\<close>

fun rules :: "data \<Rightarrow> bool" where
  "rules (D_op t dsc (D_op t' dsc' p (D_decision r k) q) b c) \<longleftrightarrow>
     t = dt_unum \<and> dsc = op_logical_or \<and> c = D_none \<and>
     t' = dt_unum \<and> dsc' = op_logical_and \<and> q = D_none \<and> neg_logic p \<and> rules b"
| "rules (D_decision r k) \<longleftrightarrow> True"
| "rules d \<longleftrightarrow> False"

lemma logic_one: "logic (D_unum 1)" "logic (D_unum 0)" "no_negation (D_unum n)"
  by (simp_all add: integer_number_def)

lemma not_ext_rule:
  assumes "logic b" "decided E x b" "logic z" "no_negation b" "no_negation z"
  shows "\<exists>ext. not_ext b (D_unum 1) z = Inr ext \<and> logic ext \<and> decided E x ext \<and> no_negation ext \<and>
    run E x ext = run E x b"
proof -
  let ?ext = "lnode op_logical_or (lnode op_logical_and b (D_unum 1)) z"
  have "is_op ?ext" using run_decision_or_op [OF assms(1,2)] by (auto simp: lnode_op)
  moreover have "run E x ?ext s = run E x b s" for s
    using assms(1,3) by (simp add: sem_simps pass_simps logic_one after_decided [OF assms(2)] del: logic.simps)
  moreover from this have "decided E x ?ext" using assms(2) unfolding decided_def by simp
  ultimately show ?thesis
    using assms by (auto simp: not_ext_def pass_simps logic_one no_negation_lnode simp del: logic.simps)
qed

lemma rules_decided: "rules d \<Longrightarrow> decided E x d"
proof (induction d rule: rules.induct)
  case (1 t dsc t' dsc' p r k q b c)
  then have "decided E x b" by simp
  then show ?case
    using 1 unfolding decided_iff
    by (auto simp: after_def decide_def split: verdict.split)
qed (auto simp: decided_def decide_def)

lemma bubble_not_rules:
  "rules d \<Longrightarrow> logic z \<Longrightarrow> no_negation z \<Longrightarrow>
   \<exists>d'. bubble_not d (D_unum 1) z = Inr d' \<and> logic d' \<and> no_negation d' \<and> run E x d' = run E x d"
proof (induction d arbitrary: z rule: rules.induct)
  case (1 t dsc t' dsc' p r k q b c)
  let ?k = "D_decision r k"
  have d: "t = dt_unum" "dsc = op_logical_or" "c = D_none" "t' = dt_unum" "dsc' = op_logical_and" "q = D_none"
      "neg_logic p" "rules b"
    using "1.prems"(1) by auto
  have kl: "logic ?k" "no_negation ?k" by simp_all
  have kd: "decided E x ?k" by (simp add: decided_def decide_def)
  obtain b' where b': "bubble_not b (D_unum 1) z = Inr b'" "logic b'" "no_negation b'" "run E x b' = run E x b"
    using "1.IH" [OF d(8) "1.prems"(2,3)] by blast
  have bd: "decided E x b'" using rules_decided [OF d(8), of E x] b'(4) by (simp add: decided_def)
  obtain ext where ext: "not_ext b' (D_unum 1) z = Inr ext" "logic ext" "decided E x ext" "no_negation ext"
      "run E x ext = run E x b'"
    using not_ext_rule [OF b'(2) bd "1.prems"(2) b'(3) "1.prems"(3)] by blast
  obtain ext2 where ext2: "not_ext ?k (D_unum 1) ext = Inr ext2" "logic ext2" "decided E x ext2" "no_negation ext2"
      "run E x ext2 = run E x ?k"
    using not_ext_rule [OF kl(1) kd ext(2) kl(2) ext(4)] by blast
  obtain p' where p': "bubble_not p ext2 ext = Inr p'" "logic p'" "no_negation p'"
      "\<forall>s. in_context E x p' ext2 ext s = in_context E x p ext2 ext s"
    using bubble_not_context [OF d(7) ext2(2) ext(2) ext2(3) ext(3)] ext2(4) ext(4) by (auto simp: not_spec_def)
  have inner: "bubble_not (D_op dt_unum op_logical_and p ?k D_none) (D_unum 1) ext =
      Inr (D_op dt_unum op_logical_and p' ?k D_none)"
    using ext2(1) p'(1) by (simp add: bubble_not.simps(1) [of _ op_logical_and] bubble_not_leaf)
  let ?d' = "D_op dt_unum op_logical_or (D_op dt_unum op_logical_and p' ?k D_none) b' D_none"
  have "bubble_not (D_op t dsc (D_op t' dsc' p ?k q) b c) (D_unum 1) z = Inr ?d'"
    unfolding d using b'(1) ext(1) inner by (simp add: bubble_not.simps(1) [of _ op_logical_or])
  moreover have "run E x ?d' s = run E x (D_op t dsc (D_op t' dsc' p ?k q) b c) s" for s
  proof -
    have *: "run E x (D_op dt_unum op_logical_or (D_op dt_unum op_logical_and m ?k D_none) b1 D_none) s =
        in_context E x m ext2 ext s" if "run E x b1 = run E x b'" for m b1
      using that ext(5) ext2(5) by (simp add: in_context_def after_after cong: after_cong)
    show ?thesis using * [of b' p'] * [of b p] b'(4) p'(4) by (simp only: d)
  qed
  ultimately show ?case using p'(2,3) b'(2,3) by auto
qed (auto simp: bubble_not_leaf)

end
