(* ===== verification/Iflib_Red.thy ===== *)
theory Iflib_Red
  imports Expr_Sem
begin

text \<open>
  \<^verbatim>\<open>tcc/iflib_red.c\<close>: normalisation of an expression to \<^verbatim>\<open>||\<close> over \<^verbatim>\<open>&&\<close>
  (\<open>linearize\<close>, \<open>bubble_or\<close>, \<open>iflib_normalize\<close>) and removal of branches that shortcut
  evaluation makes dead (\<open>prune_shortcuts\<close>).
\<close>

section \<open>Linear chains\<close>

text \<open>
  The loop of \<open>linearize\<close> rotates \<^verbatim>\<open>(a || b) || c\<close> to \<^verbatim>\<open>a || (b || c)\<close> until the left
  operand has another operator. The first argument is the left operand of the node.
\<close>

fun rotate_left :: "data \<Rightarrow> data_type \<Rightarrow> op_dsc \<Rightarrow> data \<Rightarrow> data \<Rightarrow> data" where
  "rotate_left (D_op t' dsc' a' b' c') t dsc b c =
     (if (dsc = op_logical_or \<or> dsc = op_logical_and) \<and> dsc' = dsc
      then rotate_left a' t' dsc' (D_op t dsc b' b c) c'
      else D_op t dsc (D_op t' dsc' a' b' c') b c)"
| "rotate_left a t dsc b c = D_op t dsc a b c"

lemma size_rotate_left: "size (rotate_left a t dsc b c) = size (D_op t dsc a b c)"
  by (induction a t dsc b c rule: rotate_left.induct) auto

lemma rotate_left_op: "\<exists>t' dsc' a' b' c'. rotate_left a t dsc b c = D_op t' dsc' a' b' c'"
  by (induction a t dsc b c rule: rotate_left.induct) auto

function linearize :: "data \<Rightarrow> data" where
  "linearize d =
     (if type_of d = dt_none then d
      else case d of
        D_op t dsc a b c \<Rightarrow>
          (case rotate_left a t dsc b c of
             D_op t dsc a b c \<Rightarrow> D_op t dsc (linearize a) (linearize b) (linearize c)
           | d \<Rightarrow> d)
      | d \<Rightarrow> d)"
  by pat_completeness auto
termination
proof (relation "measure size")
  show "wf (measure size)" by simp
next
  fix d t dsc a b c t' dsc' a' b' c'
  assume "d = D_op t dsc a b c" "rotate_left a t dsc b c = D_op t' dsc' a' b' c'"
  then show "(a', d) \<in> measure size" using size_rotate_left [of a t dsc b c] by simp
next
  fix d t dsc a b c t' dsc' a' b' c'
  assume "d = D_op t dsc a b c" "rotate_left a t dsc b c = D_op t' dsc' a' b' c'"
  then show "(b', d) \<in> measure size" using size_rotate_left [of a t dsc b c] by simp
next
  fix d t dsc a b c t' dsc' a' b' c'
  assume "d = D_op t dsc a b c" "rotate_left a t dsc b c = D_op t' dsc' a' b' c'"
  then show "(c', d) \<in> measure size" using size_rotate_left [of a t dsc b c] by simp
qed

declare linearize.simps [simp del]

section \<open>Normalisation\<close>

text \<open>
  One iteration of the loop of \<open>bubble_or\<close> on an \<^verbatim>\<open>&&\<close> node whose operands are done:
  the expression that replaces the node, or none when the loop ends.
\<close>

definition bubble_or_right :: "data \<Rightarrow> data \<Rightarrow> data option result" where
  "bubble_or_right a b =
     (case b of
        D_op tb dscb b1 b2 b3 \<Rightarrow>
          if dscb \<noteq> op_logical_or then Inr None
          else if action_tree b \<and> self_contained b = sc_yes then Inr None
          else rbind (op_binary op_logical_and a b1) (\<lambda>l.
               rbind (op_binary op_logical_and a b2) (\<lambda>r.
               rbind (op_binary op_logical_or l r) (\<lambda>new. Inr (Some new))))
      | _ \<Rightarrow> Inr None)"

definition bubble_or_step :: "data \<Rightarrow> data \<Rightarrow> data option result" where
  "bubble_or_step a b =
     (if self_contained a = sc_yes \<or> self_contained a = sc_no_false then Inr (Some a)
      else case a of
        D_op ta dsca a1 a2 a3 \<Rightarrow>
          if dsca = op_logical_or \<and>
             (\<not> side_effect a2 \<or> self_contained b = sc_yes \<or>
              self_contained a1 = sc_yes \<or> self_contained a1 = sc_no_true)
          then rbind (op_binary op_logical_and a1 b) (\<lambda>l.
               rbind (op_binary op_logical_and a2 b) (\<lambda>r.
               rbind (op_binary op_logical_or l r) (\<lambda>new. Inr (Some new))))
          else bubble_or_right a b
      | _ \<Rightarrow> bubble_or_right a b)"

function bubble_or :: "data \<Rightarrow> data result" where
  "bubble_or d =
     (if type_of d = dt_none then Inr d
      else case d of
        D_op t dsc a b c \<Rightarrow>
          rbind (bubble_or a) (\<lambda>a. rbind (bubble_or b) (\<lambda>b. rbind (bubble_or c) (\<lambda>c.
            if dsc \<noteq> op_logical_and then Inr (D_op t dsc a b c)
            else rbind (bubble_or_step a b) (\<lambda>r. case r of
                None \<Rightarrow> Inr (D_op t dsc a b c)
              | Some new \<Rightarrow> bubble_or new))))
      | _ \<Rightarrow> Inr d)"
  by pat_completeness auto

text \<open>
  Every iteration makes the tree lighter, where an \<^verbatim>\<open>&&\<close> node weighs the product of its
  operands.
\<close>

fun weight :: "data \<Rightarrow> nat" where
  "weight (D_op t dsc a b c) =
     (if dsc = op_logical_and then weight a * weight b + weight c
      else weight a + weight b + weight c + 1)"
| "weight d = 2"

lemma weight_ge_2: "2 \<le> weight d"
proof (induction d rule: weight.induct)
  case (1 t dsc a b c)
  then show ?case by auto
qed simp_all

lemma and_or_eval_cases:
  "and_or_eval dsc a b c = Inr d \<Longrightarrow> d = D_op dt_unum dsc a b c \<or> (\<exists>n. d = D_unum n)"
  by (auto simp: and_or_eval_def make_op_def bool_unum_def rbind_Inr_iff split: if_splits)

lemma op_binary_logic_cases:
  "op_binary op_logical_and a b = Inr d \<Longrightarrow> d = D_op dt_unum op_logical_and a b D_none \<or> (\<exists>n. d = D_unum n)"
  "op_binary op_logical_or a b = Inr d \<Longrightarrow> d = D_op dt_unum op_logical_or a b D_none \<or> (\<exists>n. d = D_unum n)"
  by (auto simp: op_binary_def dest: and_or_eval_cases)

lemma weight_land: "op_binary op_logical_and a b = Inr d \<Longrightarrow> weight d \<le> weight a * weight b + 2"
  using weight_ge_2 [of a] weight_ge_2 [of b] by (auto dest!: op_binary_logic_cases)

lemma weight_lor: "op_binary op_logical_or a b = Inr d \<Longrightarrow> weight d \<le> weight a + weight b + 3"
  by (auto dest!: op_binary_logic_cases)

lemma weight_node:
  assumes "weight a \<le> weight a'" "weight b \<le> weight b'" "weight c \<le> weight c'"
  shows "weight (D_op t dsc a b c) \<le> weight (D_op t dsc a' b' c')"
  using assms mult_le_mono [OF assms(1,2)] by auto

lemma weight_split:
  assumes "op_binary op_logical_and p q = Inr l" "op_binary op_logical_and p' q' = Inr r"
    "op_binary op_logical_or l r = Inr new"
  shows "weight new \<le> weight p * weight q + weight p' * weight q' + 7"
  using weight_land [OF assms(1)] weight_land [OF assms(2)] weight_lor [OF assms(3)] by linarith

lemma bubble_or_right_cases [consumes 1, case_names right]:
  assumes "bubble_or_right a b = Inr (Some new)"
  obtains tb b1 b2 b3 l r where "b = D_op tb op_logical_or b1 b2 b3"
    "op_binary op_logical_and a b1 = Inr l" "op_binary op_logical_and a b2 = Inr r"
    "op_binary op_logical_or l r = Inr new"
  using assms by (cases b) (auto simp: bubble_or_right_def rbind_Inr_iff split: if_splits)

lemma bubble_or_step_cases [consumes 1, case_names absorb left right]:
  assumes "bubble_or_step a b = Inr (Some new)"
  obtains "new = a" "self_contained a = sc_yes \<or> self_contained a = sc_no_false"
  | ta a1 a2 a3 l r where "a = D_op ta op_logical_or a1 a2 a3"
    "\<not> side_effect a2 \<or> self_contained b = sc_yes \<or>
     self_contained a1 = sc_yes \<or> self_contained a1 = sc_no_true"
    "op_binary op_logical_and a1 b = Inr l" "op_binary op_logical_and a2 b = Inr r"
    "op_binary op_logical_or l r = Inr new"
  | tb b1 b2 b3 l r where "b = D_op tb op_logical_or b1 b2 b3"
    "op_binary op_logical_and a b1 = Inr l" "op_binary op_logical_and a b2 = Inr r"
    "op_binary op_logical_or l r = Inr new"
proof (cases "self_contained a = sc_yes \<or> self_contained a = sc_no_false")
  case True
  with assms that(1) show thesis by (simp add: bubble_or_step_def)
next
  case False
  consider (R) "bubble_or_right a b = Inr (Some new)"
    | (L) ta a1 a2 a3 where "a = D_op ta op_logical_or a1 a2 a3"
      "\<not> side_effect a2 \<or> self_contained b = sc_yes \<or>
       self_contained a1 = sc_yes \<or> self_contained a1 = sc_no_true"
    using assms False by (cases a) (auto simp del: self_contained.simps simp: bubble_or_step_def split: if_splits)
  then show thesis
  proof cases
    case R
    then show thesis by (cases rule: bubble_or_right_cases) (rule that(3))
  next
    case L
    with assms False that(2) show thesis
      by (auto simp del: self_contained.simps simp: bubble_or_step_def rbind_Inr_iff)
  qed
qed

lemma bubble_or_step_weight:
  assumes "bubble_or_step a b = Inr (Some new)"
  shows "weight new < weight (D_op t op_logical_and a b c)"
proof -
  note ge = weight_ge_2 [of a] weight_ge_2 [of b] weight_ge_2 [of c]
  have self: "weight a < weight a * weight b + weight c"
    using ge mult_le_mono2 [OF ge(2), of "weight a"] by linarith
  have *: "weight a1 * weight b + weight a2 * weight b + 7 < weight a * weight b + weight c"
    if "a = D_op ta op_logical_or a1 a2 a3" for ta a1 a2 a3
    using that ge(2,3) mult_le_mono [OF weight_ge_2 [of a3] ge(2)] by (simp add: algebra_simps)
  have **: "weight a * weight b1 + weight a * weight b2 + 7 < weight a * weight b + weight c"
    if "b = D_op tb op_logical_or b1 b2 b3" for tb b1 b2 b3
    using that ge(1,3) mult_le_mono [OF ge(1) weight_ge_2 [of b3]] by (simp add: algebra_simps)
  from assms show ?thesis
  proof (cases rule: bubble_or_step_cases)
    case absorb
    with self show ?thesis by simp
  next
    case (left ta a1 a2 a3 l r)
    with weight_split [OF left(3-5)] * show ?thesis by simp
  next
    case (right tb b1 b2 b3 l r)
    with weight_split [OF right(2-4)] ** show ?thesis by simp
  qed
qed

lemma bubble_or_weight:
  "bubble_or_dom d \<Longrightarrow> bubble_or d = Inr d' \<Longrightarrow> weight d' \<le> weight d"
proof (induction d arbitrary: d' rule: bubble_or.pinduct)
  case (1 d)
  note eq = bubble_or.psimps [OF "1.hyps", symmetric]
  show ?case
  proof (cases "type_of d \<noteq> dt_none \<and> is_op d")
    case False
    with "1.prems" eq show ?thesis by (cases d) auto
  next
    case True
    then obtain t dsc a b c where d: "d = D_op t dsc a b c" by (auto simp: is_op_iff)
    with True "1.prems" obtain a' b' c' where abc: "bubble_or a = Inr a'" "bubble_or b = Inr b'" "bubble_or c = Inr c'"
      using eq by (auto simp: rbind_Inr_iff)
    from True d abc "1.IH"(1,2,3) have "weight a' \<le> weight a" "weight b' \<le> weight b" "weight c' \<le> weight c"
      by auto
    then have node: "weight (D_op t dsc a' b' c') \<le> weight (D_op t dsc a b c)" by (rule weight_node)
    consider "d' = D_op t dsc a' b' c'"
      | new where "dsc = op_logical_and" "bubble_or_step a' b' = Inr (Some new)" "bubble_or new = Inr d'"
      using "1.prems" True d abc eq
      by (auto simp: rbind_Inr_iff split: if_splits option.splits)
    then show ?thesis
    proof cases
      case 1
      with node d show ?thesis by simp
    next
      case 2
      with True d abc "1.IH"(4) have "weight d' \<le> weight new" by auto
      also have "weight new < weight (D_op t dsc a' b' c')"
        unfolding 2(1) by (rule bubble_or_step_weight [OF 2(2)])
      finally show ?thesis using node d by simp
    qed
  qed
qed

lemma weight_operands:
  "weight a < weight (D_op t dsc a b c)" "weight b < weight (D_op t dsc a b c)"
  "weight c < weight (D_op t dsc a b c)"
proof -
  note ge = weight_ge_2 [of a] weight_ge_2 [of b] weight_ge_2 [of c]
  show "weight a < weight (D_op t dsc a b c)" "weight b < weight (D_op t dsc a b c)"
    "weight c < weight (D_op t dsc a b c)"
    using ge mult_le_mono2 [OF ge(2), of "weight a"] mult_le_mono1 [OF ge(1), of "weight b"]
    by (cases "dsc = op_logical_and"; simp; linarith)+
qed

termination bubble_or
proof (relation "measure weight")
  show "wf (measure weight)" by simp
next
  fix d t dsc a b c a' b' c' r new
  assume *: "d = D_op t dsc a b c" "bubble_or a = Inr a'" "bubble_or b = Inr b'" "bubble_or c = Inr c'"
    "bubble_or_dom a" "bubble_or_dom b" "bubble_or_dom c"
    "\<not> dsc \<noteq> op_logical_and" "bubble_or_step a' b' = Inr r" "r = Some new"
  have "weight new < weight (D_op t dsc a' b' c')"
    using * bubble_or_step_weight by simp
  also have "\<dots> \<le> weight d"
    unfolding *(1) using * by (intro weight_node bubble_or_weight)
  finally show "(new, d) \<in> measure weight" by simp
next
  fix d t dsc a b c
  assume d: "d = D_op t dsc a b c"
  show "(a, d) \<in> measure weight" and "(b, d) \<in> measure weight" and "(c, d) \<in> measure weight"
    unfolding d by (simp_all del: weight.simps add: weight_operands)
qed

declare bubble_or.simps [simp del]


section \<open>Meaning of a normalised expression\<close>

text \<open>
  \<open>bubble_or\<close> duplicates operands and evaluates the left operand of \<^verbatim>\<open>&&\<close> again when the
  first attempt fails, so tokens may not be consumed and the left operands may not decide.
\<close>

fun static_left :: "data \<Rightarrow> bool" where
  "static_left (D_op t dsc a b c) \<longleftrightarrow>
     (dsc = op_logical_and \<longrightarrow> \<not> side_effect a) \<and> static_left a \<and> static_left b \<and> static_left c"
| "static_left d \<longleftrightarrow> True"

definition static_logic :: "data \<Rightarrow> bool" where
  "static_logic d \<longleftrightarrow> logic d \<and> no_count d \<and> static_left d"

lemma static_logic_logicD: "static_logic d \<Longrightarrow> logic d"
  by (simp add: static_logic_def)

lemma static_logic_land:
  "static_logic (D_op t op_logical_and a b c) \<longleftrightarrow>
     t = dt_unum \<and> c = D_none \<and> static_logic a \<and> static_logic b \<and> \<not> side_effect a"
  by (auto simp: static_logic_def)

lemma static_logic_lor:
  "static_logic (D_op t op_logical_or a b c) \<longleftrightarrow>
     t = dt_unum \<and> c = D_none \<and> static_logic a \<and> static_logic b"
  by (auto simp: static_logic_def)

lemma static_logic_lnot:
  "static_logic (D_op t op_logical_not a b c) \<longleftrightarrow>
     integer_number (D_op t op_logical_not a b c) \<and> b = D_none \<and> c = D_none \<and> static_logic a"
  by (auto simp: static_logic_def)

lemmas static_logic_simps = static_logic_land static_logic_lor static_logic_lnot

lemma static_left_bool_unum [simp]: "static_left (bool_unum b)" "no_count (bool_unum b)"
    "\<not> side_effect (bool_unum b)" "logic (bool_unum b)"
  by (simp_all add: bool_unum_def integer_number_def)

lemma static_lnode [pass_simps]:
  "static_logic a \<Longrightarrow> static_logic b \<Longrightarrow> \<not> side_effect a \<Longrightarrow> static_logic (lnode op_logical_and a b)"
  "static_logic a \<Longrightarrow> static_logic b \<Longrightarrow> static_logic (lnode op_logical_or a b)"
  by (auto simp: static_logic_def lnode_def integer_number_def)

lemma op_binary_static [pass_simps]:
  assumes "static_logic a" "static_logic b"
  shows "op_binary op_logical_and a b = Inr (lnode op_logical_and a b)"
    and "op_binary op_logical_or a b = Inr (lnode op_logical_or a b)"
  using assms by (simp_all add: op_binary_lnode static_logic_def)

lemma side_effect_lor: "side_effect (D_op t op_logical_or a b D_none) \<longleftrightarrow> side_effect a \<or> side_effect b"
  by simp

lemma run_distrib_right:
  assumes "static_logic a1" "static_logic a2" "static_logic b" "\<not> side_effect a1" "\<not> side_effect a2"
  shows "run E x (lnode op_logical_or (lnode op_logical_and a1 b) (lnode op_logical_and a2 b)) s =
    run E x (D_op t op_logical_and (D_op t' op_logical_or a1 a2 c') b c) s"
proof -
  obtain p where p: "run E x a1 s = (truth p, s)"
    using no_side_effect_run [OF static_logic_logicD [OF assms(1)] assms(4)] by metis
  obtain q where q: "run E x a2 s = (truth q, s)"
    using no_side_effect_run [OF static_logic_logicD [OF assms(2)] assms(5)] by metis
  have "no_count b" using assms by (simp add: static_logic_def)
  then show ?thesis
    using p q no_count_run [of b E x s] assms
    by (cases "fst (run E x b s)")
      (simp_all add: sem_simps pass_simps static_logic_logicD)
qed

lemma run_distrib_left:
  assumes "static_logic a" "static_logic b1" "static_logic b2" "\<not> side_effect a"
  shows "run E x (lnode op_logical_or (lnode op_logical_and a b1) (lnode op_logical_and a b2)) s =
    run E x (D_op t op_logical_and a (D_op t' op_logical_or b1 b2 c') c) s"
proof -
  obtain p where p: "run E x a s = (truth p, s)"
    using no_side_effect_run [OF static_logic_logicD [OF assms(1)] assms(4)] by metis
  have "no_count b1" using assms by (simp add: static_logic_def)
  then show ?thesis
    using p no_count_run [of b1 E x s] assms
    by (cases "fst (run E x b1 s)")
      (simp_all add: sem_simps pass_simps static_logic_logicD)
qed

lemma run_absorb:
  assumes "self_contained a = sc_yes \<or> self_contained a = sc_no_false"
  shows "run E x (D_op t op_logical_and a b c) s = run E x a s"
  using self_contained_sound [of a E x s] assms
  by (cases "run E x a s") (auto simp: after_def split: verdict.split)

lemma bubble_or_step_static:
  assumes "static_logic a" "static_logic b" "\<not> side_effect a"
  shows "\<exists>r. bubble_or_step a b = Inr r \<and> (\<forall>new. r = Some new \<longrightarrow> static_logic new \<and>
    (\<not> side_effect b \<longrightarrow> \<not> side_effect new) \<and>
    (\<forall>x t c s. run E x new s = run E x (D_op t op_logical_and a b c) s))"
proof -
  have right: "\<exists>r. bubble_or_right a b = Inr r \<and> (\<forall>new. r = Some new \<longrightarrow> static_logic new \<and>
    (\<not> side_effect b \<longrightarrow> \<not> side_effect new) \<and>
    (\<forall>x t c s. run E x new s = run E x (D_op t op_logical_and a b c) s))"
  proof (cases "\<exists>tb b1 b2 b3. b = D_op tb op_logical_or b1 b2 b3")
    case True
    then obtain tb b1 b2 b3 where b: "b = D_op tb op_logical_or b1 b2 b3" by blast
    then have "static_logic b1" "static_logic b2" "\<not> side_effect b \<longrightarrow> \<not> side_effect b1 \<and> \<not> side_effect b2"
      using assms by (simp_all add: static_logic_simps)
    with assms show ?thesis
      by (simp add: bubble_or_right_def b pass_simps run_distrib_left del: run.simps side_effect.simps)
  next
    case False
    then show ?thesis by (cases b) (auto simp: bubble_or_right_def)
  qed
  show ?thesis
  proof (cases "self_contained a = sc_yes \<or> self_contained a = sc_no_false")
    case True
    then show ?thesis using assms by (simp add: bubble_or_step_def run_absorb del: run.simps)
  next
    case absorb: False
    show ?thesis
    proof (cases "\<exists>ta a1 a2 a3. a = D_op ta op_logical_or a1 a2 a3")
      case True
      then obtain ta a1 a2 a3 where a: "a = D_op ta op_logical_or a1 a2 a3" by blast
      then have "static_logic a1" "static_logic a2" "\<not> side_effect a1" "\<not> side_effect a2"
        using assms by (simp_all add: static_logic_simps)
      with assms absorb show ?thesis
        by (simp add: bubble_or_step_def a pass_simps run_distrib_right
            del: run.simps self_contained.simps)
    next
      case False
      with absorb have "bubble_or_step a b = bubble_or_right a b"
        by (cases a) (auto simp: bubble_or_step_def)
      with right show ?thesis by simp
    qed
  qed
qed

lemma bubble_or_leaf: "\<not> is_op d \<Longrightarrow> bubble_or d = Inr d"
  by (subst bubble_or.simps) (cases d; simp)

lemma bubble_or_arith: "arith d \<Longrightarrow> bubble_or d = Inr d"
proof (induction d rule: arith.induct)
  case (1 t dsc a b c)
  then show ?case by (subst bubble_or.simps) simp
qed (simp_all add: bubble_or_leaf)

lemma bubble_or_other:
  assumes "logic d" "\<nexists>t dsc a b c. d = D_op t dsc a b c \<and>
      (dsc = op_logical_and \<or> dsc = op_logical_or \<or> dsc = op_logical_not)"
  shows "bubble_or d = Inr d"
  using assms(1)
proof (cases rule: logic_cases)
  case (police dsc a)
  then show ?thesis by (subst bubble_or.simps) (auto simp: bubble_or_leaf)
qed (use assms(2) in \<open>simp_all add: bubble_or_arith bubble_or_leaf\<close>)

lemma bubble_or_static:
  "static_logic d \<Longrightarrow> \<exists>d'. bubble_or d = Inr d' \<and> static_logic d' \<and>
     (\<not> side_effect d \<longrightarrow> \<not> side_effect d') \<and> (\<forall>x s. run E x d' s = run E x d s)"
proof (induction d rule: bubble_or.induct)
  case (1 d)
  show ?case
  proof (cases "\<exists>t dsc a b c. d = D_op t dsc a b c \<and>
      (dsc = op_logical_and \<or> dsc = op_logical_or \<or> dsc = op_logical_not)")
    case False
    then have "bubble_or d = Inr d" by (rule bubble_or_other [OF static_logic_logicD [OF "1.prems"]])
    with "1.prems" show ?thesis by simp
  next
    case True
    then obtain t dsc a b c where d: "d = D_op t dsc a b c"
      and dsc: "dsc = op_logical_and \<or> dsc = op_logical_or \<or> dsc = op_logical_not" by blast
    have t: "type_of d \<noteq> dt_none" and ab: "static_logic a" "c = D_none"
        "dsc = op_logical_not \<Longrightarrow> b = D_none" "dsc \<noteq> op_logical_not \<Longrightarrow> static_logic b"
      using "1.prems" dsc by (auto simp: d static_logic_simps integer_number_def)
    obtain a' where a': "bubble_or a = Inr a'" "static_logic a'"
        "\<not> side_effect a \<longrightarrow> \<not> side_effect a'" "\<forall>x s. run E x a' s = run E x a s"
      using "1.IH"(1) [OF t d] ab by blast
    show ?thesis
    proof (cases "dsc = op_logical_not")
      case True
      then have "bubble_or d = Inr (D_op t dsc a' b c)"
        using t a' ab unfolding d by (subst bubble_or.simps) (simp add: bubble_or_leaf)
      then show ?thesis using "1.prems" a' True by (auto simp: d static_logic_simps integer_number_def)
    next
      case False
      then obtain b' where b': "bubble_or b = Inr b'" "static_logic b'"
          "\<not> side_effect b \<longrightarrow> \<not> side_effect b'" "\<forall>x s. run E x b' s = run E x b s"
        using "1.IH"(2) [OF t d a'(1)] ab by blast
      have node: "\<And>x s. run E x (D_op t dsc a' b' c) s = run E x d s"
        using a' b' False dsc by (auto simp: d intro!: after_cong)
      have eff: "\<not> side_effect d \<longrightarrow> \<not> side_effect (D_op t dsc a' b' c)"
        using a' b' False dsc by (auto simp: d)
      have keep: "static_logic (D_op t dsc a' b' c)"
        using "1.prems" a' b' False dsc by (auto simp: d static_logic_simps)
      have c: "bubble_or c = Inr c" by (simp add: ab bubble_or_leaf)
      show ?thesis
      proof (cases "dsc = op_logical_and")
        case False
        then have "bubble_or d = Inr (D_op t dsc a' b' c)"
          using t a' b' c unfolding d by (subst bubble_or.simps) simp
        with keep eff node show ?thesis by blast
      next
        case True
        with "1.prems" a' have "\<not> side_effect a'" by (auto simp: d static_logic_simps)
        then obtain r where r: "bubble_or_step a' b' = Inr r"
          "\<forall>new. r = Some new \<longrightarrow> static_logic new \<and> (\<not> side_effect b' \<longrightarrow> \<not> side_effect new) \<and>
             (\<forall>x t c s. run E x new s = run E x (D_op t op_logical_and a' b' c) s)"
          using bubble_or_step_static [OF a'(2) b'(2), where E = E] by metis
        show ?thesis
        proof (cases r)
          case None
          then have "bubble_or d = Inr (D_op t dsc a' b' c)"
            using t a' b' c r True unfolding d by (subst bubble_or.simps) simp
          with keep eff node show ?thesis by blast
        next
          case (Some new)
          have "bubble_or d = bubble_or new"
            using t a' b' c r True Some unfolding d by (subst bubble_or.simps) simp
          moreover obtain d' where "bubble_or new = Inr d'" "static_logic d'"
              "\<not> side_effect new \<longrightarrow> \<not> side_effect d'" "\<forall>x s. run E x d' s = run E x new s"
            using "1.IH"(4) [OF t d a'(1) b'(1) c _ r(1) Some] r(2) True Some by blast
          moreover have "\<not> side_effect d \<longrightarrow> \<not> side_effect new"
            using r(2) Some b' True by (auto simp: d)
          ultimately show ?thesis using node r(2) Some True by metis
        qed
      qed
    qed
  qed
qed


section \<open>The normal form\<close>

text \<open>
  What holds where \<open>bubble_or\<close> stops: no step applies at any \<^verbatim>\<open>&&\<close> node. On static
  conditions no \<^verbatim>\<open>||\<close> is left below an \<^verbatim>\<open>&&\<close>, except in action trees, which always
  decide and are left alone.
\<close>

fun bubbled :: "data \<Rightarrow> bool" where
  "bubbled (D_op t dsc a b c) \<longleftrightarrow> t = dt_none \<or>
     bubbled a \<and> bubbled b \<and> bubbled c \<and>
     (dsc = op_logical_and \<longrightarrow> bubble_or_step a b = Inr None)"
| "bubbled d \<longleftrightarrow> True"

lemma bubble_or_node:
  "t \<noteq> dt_none \<Longrightarrow> bubble_or (D_op t dsc a b c) =
     rbind (bubble_or a) (\<lambda>a. rbind (bubble_or b) (\<lambda>b. rbind (bubble_or c) (\<lambda>c.
       if dsc \<noteq> op_logical_and then Inr (D_op t dsc a b c)
       else rbind (bubble_or_step a b) (\<lambda>r. case r of
           None \<Rightarrow> Inr (D_op t dsc a b c) | Some new \<Rightarrow> bubble_or new))))"
  by (subst bubble_or.simps) simp

lemma bubble_or_bubbled: "bubble_or d = Inr d' \<Longrightarrow> bubbled d'"
proof (induction d arbitrary: d' rule: bubble_or.induct)
  case (1 d)
  note eq = bubble_or.simps [of d]
  show ?case
  proof (cases "type_of d \<noteq> dt_none \<and> is_op d")
    case False
    with "1.prems" eq show ?thesis by (cases d) auto
  next
    case True
    then obtain t dsc a b c where d: "d = D_op t dsc a b c" by (auto simp: is_op_iff)
    with True "1.prems" obtain a' b' c'
      where abc: "bubble_or a = Inr a'" "bubble_or b = Inr b'" "bubble_or c = Inr c'"
      by (auto simp: bubble_or_node rbind_Inr_iff)
    from True d abc "1.IH"(1,2,3) have ih: "bubbled a'" "bubbled b'" "bubbled c'" by auto
    consider "dsc \<noteq> op_logical_and" "d' = D_op t dsc a' b' c'"
      | "bubble_or_step a' b' = Inr None" "d' = D_op t dsc a' b' c'"
      | new where "dsc = op_logical_and" "bubble_or_step a' b' = Inr (Some new)" "bubble_or new = Inr d'"
    proof (cases "dsc = op_logical_and")
      case False
      then show thesis using that(1) "1.prems" True abc by (auto simp: d bubble_or_node)
    next
      case land: True
      then obtain r where "bubble_or_step a' b' = Inr r"
          "(case r of None \<Rightarrow> Inr (D_op t dsc a' b' c') | Some new \<Rightarrow> bubble_or new) = Inr d'"
        using "1.prems" True abc by (auto simp: d bubble_or_node rbind_Inr_iff)
      then show thesis using that(2,3) land by (cases r) auto
    qed
    then show ?thesis
    proof cases
      case 3
      with True d abc "1.IH"(4) show ?thesis by auto
    qed (use ih in auto)
  qed
qed

fun or_above_and :: "data \<Rightarrow> bool" where
  "or_above_and (D_op t dsc a b c) \<longleftrightarrow>
     or_above_and a \<and> or_above_and b \<and> or_above_and c \<and>
     (dsc = op_logical_and \<longrightarrow>
        (\<forall>ta a1 a2 a3. a \<noteq> D_op ta op_logical_or a1 a2 a3) \<and>
        ((\<forall>tb b1 b2 b3. b \<noteq> D_op tb op_logical_or b1 b2 b3) \<or>
         action_tree b \<and> self_contained b = sc_yes))"
| "or_above_and d \<longleftrightarrow> True"

lemma bubble_or_step_None:
  assumes "bubble_or_step a b = Inr None" "\<not> side_effect a"
  shows "a \<noteq> D_op ta op_logical_or a1 a2 a3"
    and "b = D_op tb op_logical_or b1 b2 b3 \<Longrightarrow> action_tree b \<and> self_contained b = sc_yes"
proof -
  show a: "a \<noteq> D_op ta op_logical_or a1 a2 a3" for ta a1 a2 a3
    using assms by (auto simp del: self_contained.simps simp: bubble_or_step_def rbind_Inr_iff split: if_splits)
  have "bubble_or_right a b = Inr None"
    using assms(1) a by (cases a) (auto simp del: self_contained.simps simp: bubble_or_step_def split: if_splits)
  then show "action_tree b \<and> self_contained b = sc_yes" if "b = D_op tb op_logical_or b1 b2 b3"
    using that by (auto simp del: self_contained.simps action_tree.simps
        simp: bubble_or_right_def rbind_Inr_iff split: if_splits)
qed

lemma arith_or_above_and: "arith d \<Longrightarrow> or_above_and d"
  by (induction d rule: arith.induct) auto

lemma bubbled_or_above_and: "static_logic d \<Longrightarrow> bubbled d \<Longrightarrow> or_above_and d"
proof (induction d)
  case (D_op t dsc a b c)
  from static_logic_logicD [OF D_op.prems(1)] show ?case
  proof (cases rule: logic_cases)
    case (land a' b')
    then have s: "static_logic a" "static_logic b" "\<not> side_effect a" "t \<noteq> dt_none"
      using D_op.prems(1) by (auto simp: static_logic_simps)
    with land D_op.prems(2) have "bubble_or_step a b = Inr None" "bubbled a" "bubbled b" by auto
    with s D_op.IH(1,2) bubble_or_step_None [OF \<open>bubble_or_step a b = Inr None\<close>] land
    show ?thesis by auto
  next
    case (lor a' b')
    with D_op show ?thesis by (auto simp: static_logic_simps)
  next
    case (lnot t' a')
    with D_op show ?thesis by (auto simp: static_logic_simps integer_number_def)
  next
    case (police dsc' a')
    then show ?thesis by (cases a) auto
  next
    case arith
    then show ?thesis using arith_or_above_and by blast
  qed simp
qed simp_all


section \<open>Linear chains keep the meaning\<close>

lemma run_fun:
  "run E x (D_op t op_logical_and a b c) = (\<lambda>s. after (run E x a s) (run E x b) (\<lambda>s. (V_false, s)))"
  "run E x (D_op t op_logical_or a b c) = (\<lambda>s. after (run E x a s) (\<lambda>s. (V_true, s)) (run E x b))"
  by (rule ext, simp)+

lemma rotate_left_logic:
  "dsc = op_logical_or \<or> dsc = op_logical_and \<Longrightarrow> logic (D_op t dsc a b c) \<Longrightarrow>
   logic (rotate_left a t dsc b c)"
  by (induction a t dsc b c rule: rotate_left.induct) auto

lemma rotate_left_run:
  "run E x (rotate_left a t dsc b c) s = run E x (D_op t dsc a b c) s"
  by (induction a t dsc b c arbitrary: s rule: rotate_left.induct) (auto simp: run_fun after_after)

lemma rotate_left_static:
  "static_logic (D_op t dsc a b c) \<Longrightarrow> static_logic (rotate_left a t dsc b c)"
  by (induction a t dsc b c rule: rotate_left.induct) (auto simp: static_logic_simps)

lemma rotate_left_side_effect: "side_effect (rotate_left a t dsc b c) \<longleftrightarrow> side_effect (D_op t dsc a b c)"
  by (induction a t dsc b c rule: rotate_left.induct) auto

lemma rotate_left_other:
  "dsc \<noteq> op_logical_and \<Longrightarrow> dsc \<noteq> op_logical_or \<Longrightarrow> rotate_left a t dsc b c = D_op t dsc a b c"
  by (cases a) auto

lemma rotate_left_head:
  assumes "rotate_left a t dsc b c = D_op t' dsc' a' b' c'"
  shows "dsc' = dsc"
    and "dsc = op_logical_or \<or> dsc = op_logical_and \<Longrightarrow> a' \<noteq> D_op t1 dsc a1 a2 a3"
  using assms by (induction a t dsc b c rule: rotate_left.induct) (auto split: if_splits)

lemma linearize_leaf: "\<not> is_op d \<Longrightarrow> linearize d = d"
  by (subst linearize.simps) (cases d; simp)

lemma linearize_node:
  "t \<noteq> dt_none \<Longrightarrow> rotate_left a t dsc b c = D_op t' dsc' a' b' c' \<Longrightarrow>
   linearize (D_op t dsc a b c) = D_op t' dsc' (linearize a') (linearize b') (linearize c')"
  by (subst linearize.simps) simp

lemma linearize_other:
  assumes "dsc \<noteq> op_logical_and" "dsc \<noteq> op_logical_or"
  shows "linearize (D_op t dsc a b c) =
    (if t = dt_none then D_op t dsc a b c else D_op t dsc (linearize a) (linearize b) (linearize c))"
  using assms by (subst linearize.simps) (simp add: rotate_left_other)

lemma linearize_arith: "arith d \<Longrightarrow> linearize d = d"
  by (induction d rule: arith.induct) (auto simp: linearize_leaf linearize_other)

text \<open>An induction over the calls of \<open>linearize\<close> on a condition.\<close>

definition logical :: "data \<Rightarrow> bool" where
  "logical d = (case d of D_op t dsc a b c \<Rightarrow> dsc = op_logical_and \<or> dsc = op_logical_or \<or> dsc = op_logical_not
    | _ \<Rightarrow> False)"

lemma logical_simps [simp]:
  "logical (D_op t dsc a b c) \<longleftrightarrow> dsc = op_logical_and \<or> dsc = op_logical_or \<or> dsc = op_logical_not"
  "\<not> is_op d \<Longrightarrow> \<not> logical d"
  by (simp add: logical_def) (cases d; simp add: logical_def)

lemma arith_not_logical: "arith d \<Longrightarrow> \<not> logical d"
  by (cases d) auto

lemma linearize_induct [consumes 1, case_names node lnot other]:
  assumes "logic d"
    and node: "\<And>d dsc a b a' b'. dsc = op_logical_or \<or> dsc = op_logical_and \<Longrightarrow>
      d = D_op dt_unum dsc a b D_none \<Longrightarrow> logic d \<Longrightarrow>
      rotate_left a dt_unum dsc b D_none = D_op dt_unum dsc a' b' D_none \<Longrightarrow> logic a' \<Longrightarrow> logic b' \<Longrightarrow>
      linearize d = D_op dt_unum dsc (linearize a') (linearize b') D_none \<Longrightarrow> P a' \<Longrightarrow> P b' \<Longrightarrow> P d"
    and lnot: "\<And>d t a. d = D_op t op_logical_not a D_none D_none \<Longrightarrow> logic d \<Longrightarrow> logic a \<Longrightarrow>
      linearize d = D_op t op_logical_not (linearize a) D_none D_none \<Longrightarrow> P a \<Longrightarrow> P d"
    and other: "\<And>d. logic d \<Longrightarrow> \<not> logical d \<Longrightarrow> linearize d = d \<Longrightarrow> P d"
  shows "P d"
  using \<open>logic d\<close>
proof (induction d rule: linearize.induct)
  case (1 d)
  have binary: "P d" if d: "d = D_op dt_unum dsc a b D_none" and dsc: "dsc = op_logical_or \<or> dsc = op_logical_and"
    for dsc a b
  proof -
    obtain t' dsc' a' b' c' where r: "rotate_left a dt_unum dsc b D_none = D_op t' dsc' a' b' c'"
      using rotate_left_op by blast
    have "logic (D_op t' dsc' a' b' c')"
      using rotate_left_logic [OF dsc, of dt_unum a b D_none] "1.prems" unfolding d r by blast
    moreover have "dsc' = dsc" by (rule rotate_left_head(1) [OF r])
    ultimately have l: "logic a'" "logic b'" "t' = dt_unum" "c' = D_none" using dsc by auto
    then have "P a'" "P b'" using "1.IH"(1,2) [OF _ d r] d by auto
    moreover have "linearize d = D_op dt_unum dsc (linearize a') (linearize b') D_none"
      using linearize_node [OF _ r] l \<open>dsc' = dsc\<close> by (simp add: d linearize_leaf)
    ultimately show ?thesis using node [OF dsc d "1.prems"] r l \<open>dsc' = dsc\<close> by simp
  qed
  from "1.prems" show ?case
  proof (cases rule: logic_cases)
    case (lnot t a)
    then have t: "t \<noteq> dt_none" by (auto simp: integer_number_def)
    have "P a" using "1.IH"(1) [OF _ lnot(1)] t lnot by (simp add: rotate_left_other)
    then show ?thesis
      using assms(3) [OF lnot(1) "1.prems" lnot(3)] t lnot by (simp add: linearize_other linearize_leaf)
  next
    case (police dsc a)
    then show ?thesis using other [OF "1.prems"] by (auto simp: linearize_other linearize_leaf)
  next
    case arith
    then show ?thesis using other [OF "1.prems"] by (simp add: linearize_arith arith_not_logical)
  qed (use binary other "1.prems" in \<open>auto simp: linearize_leaf\<close>)
qed

lemma linearize_logic: "logic d \<Longrightarrow> logic (linearize d)"
  by (induction d rule: linearize_induct) (auto simp: integer_number_def)

lemma linearize_run: "logic d \<Longrightarrow> run E x (linearize d) s = run E x d s"
proof (induction d arbitrary: s rule: linearize_induct)
  case (node d dsc a b a' b')
  have "run E x (linearize d) s = run E x (D_op dt_unum dsc a' b' D_none) s"
    using node(1,8,9) by (auto simp: node(7) intro!: after_cong)
  also have "\<dots> = run E x d s"
    unfolding node(2) node(4) [symmetric] by (rule rotate_left_run)
  finally show ?case .
qed auto

lemma linearize_side_effect: "logic d \<Longrightarrow> side_effect (linearize d) \<longleftrightarrow> side_effect d"
proof (induction d rule: linearize_induct)
  case (node d dsc a b a' b')
  then show ?case using rotate_left_side_effect [of a dt_unum dsc b D_none] by auto
qed auto

lemma linearize_static: "logic d \<Longrightarrow> static_logic d \<Longrightarrow> static_logic (linearize d)"
proof (induction d rule: linearize_induct)
  case (node d dsc a b a' b')
  then have "static_logic (D_op dt_unum dsc a' b' D_none)" using rotate_left_static by metis
  with node show ?case by (auto simp: static_logic_simps linearize_side_effect)
qed (auto simp: static_logic_simps integer_number_def)

text \<open>The chain form: no \<^verbatim>\<open>||\<close> (\<^verbatim>\<open>&&\<close>) is the left operand of an \<^verbatim>\<open>||\<close> (\<^verbatim>\<open>&&\<close>).\<close>

fun right_linear :: "data \<Rightarrow> bool" where
  "right_linear (D_op t dsc a b c) \<longleftrightarrow>
     right_linear a \<and> right_linear b \<and> right_linear c \<and>
     (dsc = op_logical_or \<or> dsc = op_logical_and \<longrightarrow> (\<forall>ta a1 a2 a3. a \<noteq> D_op ta dsc a1 a2 a3))"
| "right_linear d \<longleftrightarrow> True"

lemma arith_right_linear: "arith d \<Longrightarrow> right_linear d"
  by (induction d rule: arith.induct) auto

lemma linearize_head:
  "logic a \<Longrightarrow> linearize a = D_op t dsc a1 a2 a3 \<Longrightarrow> \<exists>t a1 a2 a3. a = D_op t dsc a1 a2 a3"
  by (induction a rule: linearize_induct) auto

lemma linearize_right_linear: "logic d \<Longrightarrow> right_linear (linearize d)"
proof (induction d rule: linearize_induct)
  case (node d dsc a b a' b')
  have "linearize a' \<noteq> D_op ta dsc a1 a2 a3" for ta a1 a2 a3
    using linearize_head [OF node(5)] rotate_left_head(2) [OF node(4) node(1)] by blast
  with node show ?case by simp
next
  case (other d)
  from other(1) show ?case
  proof (cases rule: logic_cases)
    case (police dsc a)
    then show ?thesis using other(3) by (cases a) auto
  qed (use other in \<open>auto simp: arith_right_linear\<close>)
qed auto

end
