(* ===== verification/Iflib_Prune.thy ===== *)
theory Iflib_Prune
  imports Iflib_Red
begin

text \<open>
  The rest of \<^verbatim>\<open>tcc/iflib_red.c\<close>: removal of branches that shortcut evaluation makes dead
  (\<open>prune_shortcuts\<close>) and of repeated operands in a chain (\<open>common_subexpressions\<close>).
\<close>

declare split_paired_All [simp del]

lemma Ex_Not [simp]: "Ex Not"
  by (rule exI [of _ False]) simp

section \<open>Dead branches\<close>

definition const_unum :: "data \<Rightarrow> u32 option" where
  "const_unum d = (case d of D_unum n \<Rightarrow> Some n | _ \<Rightarrow> None)"

lemma const_unum_simps [simp]:
  "const_unum (D_unum n) = Some n" "const_unum (D_op t dsc a b c) = None"
  "const_unum (D_decision r k) = None" "const_unum d = Some n \<longleftrightarrow> d = D_unum n"
  by (simp_all add: const_unum_def split: data.split)

definition prune_node :: "data_type \<Rightarrow> op_dsc \<Rightarrow> data \<Rightarrow> data \<Rightarrow> data \<Rightarrow> data" where
  "prune_node t dsc a b c =
     (if (dsc = op_logical_or \<or> dsc = op_logical_and) \<and> type_of a = dt_decision then a
      else if dsc = op_logical_and then
        (case const_unum a of
           Some n \<Rightarrow> if n = 0 then D_unum 0 else b
         | None \<Rightarrow>
             (case const_unum b of
                Some n \<Rightarrow>
                  if n = 0 \<and> \<not> side_effect a then D_unum 0
                  else if n \<noteq> 0 then a else D_op t dsc a b c
              | None \<Rightarrow> D_op t dsc a b c))
      else if dsc = op_logical_or then
        (case const_unum a of
           Some n \<Rightarrow> if n \<noteq> 0 then D_unum 1 else b
         | None \<Rightarrow>
             (case const_unum b of
                Some n \<Rightarrow>
                  if n \<noteq> 0 \<and> \<not> side_effect a then D_unum 1
                  else if n = 0 then a else D_op t dsc a b c
              | None \<Rightarrow> D_op t dsc a b c))
      else D_op t dsc a b c)"

fun prune_shortcuts :: "data \<Rightarrow> data" where
  "prune_shortcuts (D_op t dsc a b c) =
     prune_node t dsc (prune_shortcuts a) (prune_shortcuts b) (prune_shortcuts c)"
| "prune_shortcuts d = d"

lemma prune_node_other:
  "dsc \<noteq> op_logical_or \<Longrightarrow> dsc \<noteq> op_logical_and \<Longrightarrow> prune_node t dsc a b c = D_op t dsc a b c"
  by (simp add: prune_node_def)

lemma prune_arith: "arith d \<Longrightarrow> prune_shortcuts d = d"
  by (induction d rule: arith.induct) (auto simp: prune_node_other)

lemma prune_leaf: "\<not> is_op d \<Longrightarrow> prune_shortcuts d = d"
  by (cases d) simp_all

lemma logic_decision: "logic d \<Longrightarrow> type_of d = dt_decision \<longleftrightarrow> (\<exists>r c. d = D_decision r c)"
  by (cases d) (auto simp: integer_number_def split: if_splits)

lemma prune_induct [consumes 1, case_names node lnot other]:
  assumes "logic d"
    and "\<And>dsc a b. dsc = op_logical_or \<or> dsc = op_logical_and \<Longrightarrow> logic a \<Longrightarrow> logic b \<Longrightarrow>
      P a \<Longrightarrow> P b \<Longrightarrow> P (D_op dt_unum dsc a b D_none)"
    and "\<And>t a. integer_number (D_op t op_logical_not a D_none D_none) \<Longrightarrow> logic a \<Longrightarrow> P a \<Longrightarrow>
      P (D_op t op_logical_not a D_none D_none)"
    and "\<And>d. logic d \<Longrightarrow> \<not> logical d \<Longrightarrow> prune_shortcuts d = d \<Longrightarrow> P d"
  shows "P d"
  using assms(1)
proof (induction d)
  case (D_op t dsc a b c)
  from D_op.prems show ?case
  proof (cases rule: logic_cases)
    case (police dsc' a')
    then show ?thesis using assms(4) D_op.prems by (auto simp: prune_node_other prune_leaf)
  next
    case arith
    then show ?thesis using assms(4) [OF D_op.prems arith_not_logical prune_arith] by simp
  qed (use assms(2,3) D_op.IH in auto)
qed (rule assms(4); simp)+

lemma prune_node_logic:
  "dsc = op_logical_or \<or> dsc = op_logical_and \<Longrightarrow> logic a \<Longrightarrow> logic b \<Longrightarrow>
   logic (prune_node dt_unum dsc a b D_none)"
  by (auto simp: prune_node_def integer_number_def split: option.split)

lemma run_unum: "run E x (D_unum n) = (\<lambda>s. (truth (n \<noteq> 0), s))"
  by (rule ext) simp

lemma prune_node_run:
  assumes "dsc = op_logical_or \<or> dsc = op_logical_and" "logic a" "logic b"
  shows "run E x (prune_node dt_unum dsc a b D_none) s = run E x (D_op dt_unum dsc a b D_none) s"
proof -
  have pure: "\<exists>v. run E x a s = (truth v, s)" if "\<not> side_effect a"
    by (rule no_side_effect_run [OF assms(2) that])
  show ?thesis
    using assms pure
    by (auto simp: prune_node_def logic_decision run_unum split: option.split)
qed

lemma prune_logic: "logic d \<Longrightarrow> logic (prune_shortcuts d)"
  by (induction d rule: prune_induct)
    (auto simp: prune_node_logic prune_node_other integer_number_def)

lemma prune_run: "logic d \<Longrightarrow> run E x (prune_shortcuts d) s = run E x d s"
proof (induction d arbitrary: s rule: prune_induct)
  case (node dsc a b)
  have "run E x (prune_shortcuts (D_op dt_unum dsc a b D_none)) s =
      run E x (D_op dt_unum dsc (prune_shortcuts a) (prune_shortcuts b) D_none) s"
    using prune_node_run [OF node(1) prune_logic [OF node(2)] prune_logic [OF node(3)]]
    by (simp del: run.simps)
  also have "\<dots> = run E x (D_op dt_unum dsc a b D_none) s"
    using node by (auto intro!: after_cong)
  finally show ?case .
qed (auto simp: prune_node_other)

lemma prune_no_count: "no_count d \<Longrightarrow> no_count (prune_shortcuts d)"
  by (induction d) (auto simp: prune_node_def split: option.split)

lemma prune_side_effect: "\<not> side_effect d \<Longrightarrow> \<not> side_effect (prune_shortcuts d)"
  by (induction d) (auto simp: prune_node_def split: option.split if_splits)

lemma prune_static_left: "static_left d \<Longrightarrow> static_left (prune_shortcuts d)"
  by (induction d) (auto simp: prune_node_def prune_side_effect split: option.split)

lemma prune_static: "static_logic d \<Longrightarrow> static_logic (prune_shortcuts d)"
  by (simp add: static_logic_def prune_logic prune_no_count prune_static_left)

text \<open>
  What is left: the left operand of \<^verbatim>\<open>&&\<close> and \<^verbatim>\<open>||\<close> is neither an integer constant nor a
  decision, and the right operand is an integer constant only where the left operand has a
  side effect.
\<close>

fun pruned :: "data \<Rightarrow> bool" where
  "pruned (D_op t dsc a b c) \<longleftrightarrow>
     pruned a \<and> pruned b \<and> pruned c \<and>
     (dsc = op_logical_or \<or> dsc = op_logical_and \<longrightarrow>
        const_unum a = None \<and> type_of a \<noteq> dt_decision \<and>
        (const_unum b = None \<or> side_effect a))"
| "pruned d \<longleftrightarrow> True"

lemma prune_pruned: "pruned (prune_shortcuts d)"
  by (induction d) (auto simp: prune_node_def split: option.split)

section \<open>Repeated operands\<close>

text \<open>
  The inner loop walks the rest \<open>w\<close> of a chain whose first operand is \<open>a\<close>. It returns
  the changed rest and the flag \<^verbatim>\<open>again\<close>.
\<close>

fun cse_scan :: "op_dsc \<Rightarrow> data \<Rightarrow> data \<Rightarrow> (data \<times> bool) result" where
  "cse_scan dsc a (D_op t' dsc' wa wb wc) =
     (if dsc' \<noteq> dsc then Inr (D_op t' dsc' wa wb wc, False)
      else rbind (expr_equal a wa) (\<lambda>eq.
        if eq then Inr (wb, True)
        else rbind (expr_equal a wb) (\<lambda>eq.
          if eq then Inr (wa, False)
          else rbind (cse_scan dsc a wb) (\<lambda>(w, again). Inr (D_op t' dsc' wa w wc, again)))))"
| "cse_scan dsc a w = Inr (w, False)"

lemma cse_scan_size: "cse_scan dsc a w = Inr (w', again) \<Longrightarrow> size w' \<le> size w \<and> (again \<longrightarrow> size w' < size w)"
  by (induction dsc a w arbitrary: w' rule: cse_scan.induct)
    (auto simp: rbind_Inr_iff split: if_splits prod.splits)

text \<open>The outer loop on the rest of the chain.\<close>

definition chain_op :: "op_dsc \<Rightarrow> bool" where
  "chain_op dsc \<longleftrightarrow> dsc = op_or \<or> dsc = op_and \<or> dsc = op_logical_or \<or> dsc = op_logical_and"

function cse_loop :: "op_dsc \<Rightarrow> data \<Rightarrow> data \<Rightarrow> data result" where
  "cse_loop dsc a b =
     (if chain_op dsc
      then rbind (cse_scan dsc a b) (\<lambda>(b, again). if again then cse_loop dsc a b else Inr b)
      else Inr b)"
  by pat_completeness auto
termination
proof (relation "measure (\<lambda>(dsc, a, b). size b)")
  show "wf (measure (\<lambda>(dsc :: op_dsc, a :: data, b :: data). size b))" by simp
qed (auto dest: cse_scan_size)

declare cse_loop.simps [simp del]

lemma cse_loop_size: "cse_loop dsc a b = Inr b' \<Longrightarrow> size b' \<le> size b"
proof (induction dsc a b rule: cse_loop.induct)
  case (1 dsc a b)
  show ?case
  proof (cases "chain_op dsc")
    case True
    with "1.prems" obtain b1 again where scan: "cse_scan dsc a b = Inr (b1, again)"
      and rest: "(if again then cse_loop dsc a b1 else Inr b1) = Inr b'"
      by (auto simp: cse_loop.simps [of dsc a b] rbind_Inr_iff)
    have "size b' \<le> size b1"
      using "1.IH" [OF True scan refl] rest by (cases again) simp_all
    with cse_scan_size [OF scan] show ?thesis by simp
  next
    case False
    with "1.prems" show ?thesis by (simp add: cse_loop.simps)
  qed
qed

function common_subexpressions :: "data \<Rightarrow> data result" where
  "common_subexpressions (D_op t dsc a b c) =
     rbind (cse_loop dsc a b) (\<lambda>b.
     rbind (common_subexpressions a) (\<lambda>a.
     rbind (common_subexpressions b) (\<lambda>b.
     rbind (common_subexpressions c) (\<lambda>c. Inr (D_op t dsc a b c)))))"
| "\<not> is_op d \<Longrightarrow> common_subexpressions d = Inr d"
  by (metis is_op_iff) auto
termination
  by (relation "measure size") (auto dest: cse_loop_size)

section \<open>Identical expressions mean the same\<close>

lemma data_equal_sem:
  assumes "data_equal p q = Inr True"
  shows "neval E x p = neval E x q" "root_of x p = root_of x q" "bit_size p = bit_size q"
    "run E x p s = run E x q s" "type_of p = dt_police \<or> type_of p = dt_bucket \<Longrightarrow> p = q"
    "\<not> is_op q"
proof -
  have c: "\<not> is_op p" "\<not> is_op q" and t: "type_of q = type_of p"
    using assms by (auto simp: data_equal_def split: if_splits)
  have "neval E x p = neval E x q \<and> root_of x p = root_of x q \<and> bit_size p = bit_size q \<and>
    run E x p s = run E x q s \<and> (type_of p = dt_police \<or> type_of p = dt_bucket \<longrightarrow> p = q)"
    using assms c t
    by (cases "type_of p")
      (auto simp: data_equal_def type_of_const u128_cmp_0 bit_size_def decide_def
        simp del: u128_word.simps)
  with c show "neval E x p = neval E x q" "root_of x p = root_of x q" "bit_size p = bit_size q"
    "run E x p s = run E x q s" "type_of p = dt_police \<or> type_of p = dt_bucket \<Longrightarrow> p = q"
    "\<not> is_op q"
    by blast+
qed

lemma expr_equal_op:
  "expr_equal (D_op t dsc a b c) q = Inr True \<Longrightarrow>
   \<exists>t' a' b' c'. q = D_op t' dsc a' b' c' \<and> expr_equal a a' = Inr True \<and>
     expr_equal b b' = Inr True \<and> expr_equal c c' = Inr True"
  by (cases q) (auto simp: rbind_Inr_iff split: if_splits)

lemma expr_equal_leaf: "\<not> is_op p \<Longrightarrow> expr_equal p q = (if is_op q then Inr False else data_equal p q)"
  by (cases p) simp_all

lemma expr_equal_leaf_neval:
  "\<not> is_op p \<Longrightarrow> expr_equal p q = Inr True \<Longrightarrow>
   neval E x p = neval E x q \<and> root_of x p = root_of x q \<and> bit_size p = bit_size q"
  by (auto simp: expr_equal_leaf dest: data_equal_sem split: if_splits)

lemma expr_equal_neval:
  "expr_equal p q = Inr True \<Longrightarrow>
   neval E x p = neval E x q \<and> root_of x p = root_of x q \<and> bit_size p = bit_size q"
proof (induction p arbitrary: q x)
  case (D_op t dsc a b c)
  from expr_equal_op [OF D_op.prems] obtain t' a' b' c' where
    q: "q = D_op t' dsc a' b' c'" "expr_equal a a' = Inr True" "expr_equal b b' = Inr True"
       "expr_equal c c' = Inr True" by blast
  show ?case
    using D_op.IH(1) [OF q(2)] D_op.IH(2) [OF q(3)] D_op.IH(3) [OF q(4)]
    by (simp add: q(1) bit_size_def)
qed (rule expr_equal_leaf_neval; simp)+

lemma expr_equal_run: "logic p \<Longrightarrow> expr_equal p q = Inr True \<Longrightarrow> run E x p s = run E x q s"
proof (induction p arbitrary: q s)
  case (D_op t dsc a b c)
  from expr_equal_op [OF D_op.prems(2)] obtain t' a' b' c' where
    q: "q = D_op t' dsc a' b' c'" "expr_equal a a' = Inr True" "expr_equal b b' = Inr True"
       "expr_equal c c' = Inr True" by blast
  from D_op.prems(1) show ?case
  proof (cases rule: logic_cases)
    case (land a1 b1)
    then show ?thesis
      using D_op.IH(1) [OF _ q(2)] D_op.IH(2) [OF _ q(3)] by (auto simp: q(1) intro!: after_cong)
  next
    case (lor a1 b1)
    then show ?thesis
      using D_op.IH(1) [OF _ q(2)] D_op.IH(2) [OF _ q(3)] by (auto simp: q(1) intro!: after_cong)
  next
    case (lnot t1 a1)
    then show ?thesis
      using D_op.IH(1) [OF _ q(2)] by (auto simp: q(1) intro!: after_cong)
  next
    case (police dsc1 a1)
    then have "a' = a"
      using q(2) data_equal_sem(5) by (auto simp: expr_equal_leaf split: if_splits)
    with police show ?thesis by (auto simp: q(1))
  next
    case arith
    then show ?thesis
      using expr_equal_neval [OF D_op.prems(2), of E x] by (auto simp: q(1) simp del: neval.simps)
  qed simp
qed (auto simp: expr_equal_leaf dest: data_equal_sem split: if_splits)

fun comparable_leaves :: "data \<Rightarrow> bool" where
  "comparable_leaves (D_op t dsc a b c) \<longleftrightarrow> comparable_leaves a \<and> comparable_leaves b \<and> comparable_leaves c"
| "comparable_leaves d \<longleftrightarrow> comparable d"

lemma comparable_leaves_leaf: "\<not> is_op d \<Longrightarrow> comparable_leaves d = comparable d"
  by (cases d) simp_all

lemma expr_equal_returns:
  "comparable_leaves p \<Longrightarrow> comparable_leaves q \<Longrightarrow> \<exists>r. expr_equal p q = Inr r"
proof (induction p arbitrary: q)
  case (D_op t dsc a b c)
  show ?case
  proof (cases "\<exists>t' a' b' c'. q = D_op t' dsc a' b' c'")
    case True
    then obtain t' a' b' c' where q: "q = D_op t' dsc a' b' c'" by blast
    with D_op.prems obtain ra rb rc where "expr_equal a a' = Inr ra" "expr_equal b b' = Inr rb"
      "expr_equal c c' = Inr rc" using D_op.IH by (auto simp: q) metis
    then show ?thesis by (cases ra; cases rb) (auto simp: q)
  next
    case False
    then show ?thesis by (cases q) auto
  qed
qed (auto simp: expr_equal_leaf comparable_leaves_leaf data_equal_total)

section \<open>Meaning of an expression without repetitions\<close>

lemma cse_scan_returns:
  "comparable_leaves a \<Longrightarrow> comparable_leaves w \<Longrightarrow>
   \<exists>w' again. cse_scan dsc a w = Inr (w', again) \<and> comparable_leaves w'"
proof (induction dsc a w rule: cse_scan.induct)
  case (1 dsc a t' dsc' wa wb wc)
  then obtain ea eb where e: "expr_equal a wa = Inr ea" "expr_equal a wb = Inr eb"
    using expr_equal_returns by (meson comparable_leaves.simps(1))
  show ?case
  proof (cases "dsc' = dsc \<and> \<not> ea \<and> \<not> eb")
    case True
    then obtain w' again where "cse_scan dsc a wb = Inr (w', again)" "comparable_leaves w'"
      using "1.IH" [of False False] "1.prems" e by auto
    with True e "1.prems" show ?thesis by simp
  next
    case False
    with e "1.prems" show ?thesis by (cases ea; cases eb) auto
  qed
qed simp_all

lemma cse_scan_arith: "cse_scan dsc a w = Inr (w', again) \<Longrightarrow> arith w \<Longrightarrow> arith w'"
  by (induction dsc a w arbitrary: w' again rule: cse_scan.induct)
    (auto simp: rbind_Inr_iff split: if_splits prod.splits)

lemma cse_scan_neval:
  "cse_scan dsc a w = Inr (w', again) \<Longrightarrow> dsc = op_or \<or> dsc = op_and \<Longrightarrow>
   num_op dsc (neval E x a) (neval E x w') = num_op dsc (neval E x a) (neval E x w)"
proof (induction dsc a w arbitrary: w' again rule: cse_scan.induct)
  case (1 dsc a t' dsc' wa wb wc)
  have dup: "num_op dsc m (num_op dsc m n) = num_op dsc m n"
    "num_op dsc m (num_op dsc n m) = num_op dsc m n"
    "num_op dsc m (num_op dsc n k) = num_op dsc n (num_op dsc m k)" for m n k
    using "1.prems"(2) by (auto simp: ac_simps)
  have node: "neval E x (D_op t dsc p q r) = num_op dsc (neval E x p) (neval E x q)" for t p q r
    using "1.prems"(2) by auto
  consider "dsc' \<noteq> dsc" "w' = D_op t' dsc' wa wb wc"
    | "dsc' = dsc" "expr_equal a wa = Inr True" "w' = wb"
    | "dsc' = dsc" "expr_equal a wb = Inr True" "w' = wa"
    | w1 where "dsc' = dsc" "expr_equal a wa = Inr False" "expr_equal a wb = Inr False"
        "cse_scan dsc a wb = Inr (w1, again)" "w' = D_op t' dsc wa w1 wc"
    using "1.prems"(1) by (auto simp: rbind_Inr_iff split: if_splits prod.splits)
  then show ?case
  proof cases
    case 2
    then show ?thesis using expr_equal_neval [of a wa E x] by (simp only: node dup)
  next
    case 3
    then show ?thesis using expr_equal_neval [of a wb E x] by (simp only: node dup)
  next
    case 4
    then have "num_op dsc (neval E x a) (neval E x w1) = num_op dsc (neval E x a) (neval E x wb)"
      using "1.IH" [of False False w1 again] "1.prems" by simp
    then show ?thesis using 4 by (simp only: node dup(3) [of "neval E x a" "neval E x wa"])
  qed simp
qed simp_all

text \<open>In a chain of \<^verbatim>\<open>&&\<close> (\<^verbatim>\<open>||\<close>) the rest is only evaluated when the first operand is true (false).\<close>

lemma cse_scan_run:
  assumes "cse_scan dsc a w = Inr (w', again)" "dsc = op_logical_and \<or> dsc = op_logical_or"
    "logic a" "logic w" "no_count w" "run E x a s = (truth (dsc = op_logical_and), s)"
  shows "run E x w' s = run E x w s \<and> logic w' \<and> no_count w'"
  using assms
proof (induction dsc a w arbitrary: w' again rule: cse_scan.induct)
  case (1 dsc a t' dsc' wa wb wc)
  consider "dsc' \<noteq> dsc" "w' = D_op t' dsc' wa wb wc"
    | "dsc' = dsc" "expr_equal a wa = Inr True" "w' = wb"
    | "dsc' = dsc" "expr_equal a wb = Inr True" "w' = wa"
    | w1 where "dsc' = dsc" "expr_equal a wa = Inr False" "expr_equal a wb = Inr False"
        "cse_scan dsc a wb = Inr (w1, again)" "w' = D_op t' dsc wa w1 wc"
    using "1.prems"(1) by (auto simp: rbind_Inr_iff split: if_splits prod.splits)
  then show ?case
  proof cases
    case 2
    then show ?thesis
      using expr_equal_run [OF "1.prems"(3), of wa E x s, symmetric] "1.prems" by auto
  next
    case 3
    then show ?thesis
      using expr_equal_run [OF "1.prems"(3), of wb E x s] "1.prems" no_count_run [of wa E x s]
      by (cases "fst (run E x wa s)") auto
  next
    case 4
    have "logic wb" "no_count wb" "no_count wa" using "1.prems" 4 by auto
    with 4 have "run E x w1 s = run E x wb s \<and> logic w1 \<and> no_count w1"
      using "1.IH" [of False False w1 again] "1.prems" by simp
    then show ?thesis
      using 4 "1.prems" no_count_run [OF \<open>no_count wa\<close>, of E x s]
      by (cases "fst (run E x wa s)") auto
  qed (use "1.prems" in simp)
qed simp_all


lemma cse_loop_returns:
  "comparable_leaves a \<Longrightarrow> comparable_leaves b \<Longrightarrow> \<exists>b'. cse_loop dsc a b = Inr b' \<and> comparable_leaves b'"
proof (induction dsc a b rule: cse_loop.induct)
  case (1 dsc a b)
  obtain b1 again where s: "cse_scan dsc a b = Inr (b1, again)" "comparable_leaves b1"
    using cse_scan_returns [OF "1.prems"] by blast
  show ?case
  proof (cases "chain_op dsc \<and> again")
    case True
    then show ?thesis
      using "1.IH" [OF _ s(1) refl] s "1.prems" by (simp add: cse_loop.simps [of dsc a b])
  next
    case False
    then show ?thesis using s "1.prems" by (auto simp: cse_loop.simps [of dsc a b])
  qed
qed

text \<open>A property of the rest of the chain that one scan keeps is kept by the loop.\<close>

lemma cse_loop_induct:
  assumes "\<And>w w' again. chain_op dsc \<Longrightarrow> cse_scan dsc a w = Inr (w', again) \<Longrightarrow> P w \<Longrightarrow> P w'"
  shows "cse_loop dsc a b = Inr b' \<Longrightarrow> P b \<Longrightarrow> P b'"
proof (induction "size b" arbitrary: b rule: less_induct)
  case less
  show ?case
  proof (cases "chain_op dsc")
    case True
    then obtain b1 again where s: "cse_scan dsc a b = Inr (b1, again)"
      and rest: "(if again then cse_loop dsc a b1 else Inr b1) = Inr b'"
      using less.prems by (auto simp: cse_loop.simps [of dsc a b] rbind_Inr_iff)
    have "P b1" by (rule assms [OF True s less.prems(2)])
    then show ?thesis
      using less.hyps [of b1] rest cse_scan_size [OF s] by (cases again) simp_all
  next
    case False
    with less.prems show ?thesis by (simp add: cse_loop.simps)
  qed
qed

lemma cse_loop_other: "\<not> chain_op dsc \<Longrightarrow> cse_loop dsc a b = Inr b"
  by (simp add: cse_loop.simps)

lemma cse_loop_arith: "cse_loop dsc a b = Inr b' \<Longrightarrow> arith b \<Longrightarrow> arith b'"
  by (rule cse_loop_induct [where P = arith]) (auto intro: cse_scan_arith)

lemma cse_loop_neval:
  assumes "cse_loop dsc a b = Inr b'" "dsc = op_or \<or> dsc = op_and"
  shows "num_op dsc (neval E x a) (neval E x b') = num_op dsc (neval E x a) (neval E x b)"
  by (rule cse_loop_induct [OF _ assms(1), where
        P = "\<lambda>w. num_op dsc (neval E x a) (neval E x w) = num_op dsc (neval E x a) (neval E x b)"])
    (use cse_scan_neval [OF _ assms(2), where E = E and x = x] in auto)

lemma cse_loop_run:
  assumes "cse_loop dsc a b = Inr b'" "dsc = op_logical_and \<or> dsc = op_logical_or"
    "logic a" "logic b" "no_count b" "run E x a s = (truth (dsc = op_logical_and), s)"
  shows "run E x b' s = run E x b s"
proof -
  have "run E x b' s = run E x b s \<and> logic b' \<and> no_count b'"
    by (rule cse_loop_induct [OF _ assms(1), where P = "\<lambda>w. run E x w s = run E x b s \<and> logic w \<and> no_count w"])
      (use assms cse_scan_run [OF _ assms(2,3) _ _ assms(6)] in auto)
  then show ?thesis by blast
qed

lemma cse_scan_keeps:
  "cse_scan dsc a w = Inr (w', again) \<Longrightarrow> dsc = op_logical_and \<or> dsc = op_logical_or \<Longrightarrow>
   logic w \<Longrightarrow> no_count w \<Longrightarrow> logic w' \<and> no_count w'"
  by (induction dsc a w arbitrary: w' again rule: cse_scan.induct)
    (auto simp: rbind_Inr_iff split: if_splits prod.splits)

lemma cse_loop_keeps:
  assumes "cse_loop dsc a b = Inr b'" "dsc = op_logical_and \<or> dsc = op_logical_or" "logic b" "no_count b"
  shows "logic b' \<and> no_count b'"
  by (rule cse_loop_induct [OF _ assms(1), where P = "\<lambda>w. logic w \<and> no_count w"])
    (use assms cse_scan_keeps [OF _ assms(2)] in auto)

lemma cse_arith:
  "arith d \<Longrightarrow> comparable_leaves d \<Longrightarrow> \<exists>d'. common_subexpressions d = Inr d' \<and> arith d' \<and>
     comparable_leaves d' \<and> type_of d' = type_of d \<and>
     (\<forall>x. neval E x d' = neval E x d \<and> root_of x d' = root_of x d) \<and> bit_size d' = bit_size d"
proof (induction d rule: common_subexpressions.induct)
  case (1 t dsc a b c)
  obtain b1 where b1: "cse_loop dsc a b = Inr b1" "comparable_leaves b1"
    using cse_loop_returns "1.prems" by (metis comparable_leaves.simps(1))
  have "arith b1" using cse_loop_arith [OF b1(1)] "1.prems" by simp
  obtain a' where a': "common_subexpressions a = Inr a'" "arith a'" "comparable_leaves a'"
      "\<forall>x. neval E x a' = neval E x a \<and> root_of x a' = root_of x a"
    using "1.IH"(1) [OF b1(1)] "1.prems" by auto
  obtain b' where b': "common_subexpressions b1 = Inr b'" "arith b'" "comparable_leaves b'"
      "\<forall>x. neval E x b' = neval E x b1 \<and> root_of x b' = root_of x b1"
    using "1.IH"(2) [OF b1(1) a'(1) \<open>arith b1\<close> b1(2)] by auto
  obtain c' where c': "common_subexpressions c = Inr c'" "arith c'" "comparable_leaves c'"
      "bit_size c' = bit_size c"
    using "1.IH"(3) [OF b1(1) a'(1) b'(1)] "1.prems" by auto
  have b1b: "b1 = b" if "\<not> (dsc = op_or \<or> dsc = op_and)"
    using that b1(1) "1.prems"(1) by (auto simp: cse_loop_other chain_op_def)
  then have n: "neval E x (D_op t dsc a' b' c') = neval E x (D_op t dsc a b c)" for x
    using a'(4) b'(4) c'(4) cse_loop_neval [OF b1(1), of E x]
    by (cases "dsc = op_or \<or> dsc = op_and") auto
  have "root_of x (D_op t dsc a' b' c') = root_of x (D_op t dsc a b c)" for x
    using b1b b'(4) by auto
  then show ?case using n a'(1-3) b'(1-3) c'(1-3) b1 "1.prems" by (simp add: bit_size_def del: neval.simps root_of.simps)
qed (auto simp: comparable_leaves_leaf)


lemma cse_returns:
  "comparable_leaves d \<Longrightarrow> \<exists>d'. common_subexpressions d = Inr d' \<and> comparable_leaves d' \<and> (\<not> is_op d \<longrightarrow> d' = d)"
proof (induction d rule: common_subexpressions.induct)
  case (1 t dsc a b c)
  obtain b1 where b1: "cse_loop dsc a b = Inr b1" "comparable_leaves b1"
    using cse_loop_returns "1.prems" by (metis comparable_leaves.simps(1))
  then obtain a' where a': "common_subexpressions a = Inr a'" "comparable_leaves a'"
    using "1.IH"(1) "1.prems" by auto
  then obtain b' where b': "common_subexpressions b1 = Inr b'" "comparable_leaves b'"
    using "1.IH"(2) b1 by auto
  then obtain c' where c': "common_subexpressions c = Inr c'" "comparable_leaves c'"
    using "1.IH"(3) [OF b1(1) a'(1)] "1.prems" by auto
  show ?case using a' b' c' b1 by simp
qed simp

lemma cse_run:
  "logic d \<Longrightarrow> no_count d \<Longrightarrow> comparable_leaves d \<Longrightarrow> common_subexpressions d = Inr d' \<Longrightarrow>
   logic d' \<and> no_count d' \<and> (\<forall>s. run E x d' s = run E x d s)"
proof (induction d arbitrary: d' rule: common_subexpressions.induct)
  case (1 t dsc a b c)
  have binary: ?case if dsc: "dsc = op_logical_and \<or> dsc = op_logical_or"
  proof -
    have l: "logic a" "logic b" "no_count a" "no_count b" "c = D_none" "t = dt_unum"
        "comparable_leaves a" "comparable_leaves b"
      using "1.prems" dsc by auto
    obtain b1 a' b' where b1: "cse_loop dsc a b = Inr b1" and a': "common_subexpressions a = Inr a'"
      and b': "common_subexpressions b1 = Inr b'" and d': "d' = D_op t dsc a' b' c"
      using "1.prems"(4) l(5) by (auto simp: rbind_Inr_iff)
    have k: "logic b1" "no_count b1" using cse_loop_keeps [OF b1 dsc l(2,4)] by auto
    have kc: "comparable_leaves b1" using cse_loop_returns [of a b dsc] b1 l by auto
    have ra: "logic a'" "no_count a'" "\<forall>s. run E x a' s = run E x a s"
      using "1.IH"(1) [OF b1 _ _ _ a'] l by auto
    have rb: "logic b'" "no_count b'" "\<forall>s. run E x b' s = run E x b1 s"
      using "1.IH"(2) [OF b1 a' k kc b'] by auto
    have "run E x d' s = run E x (D_op t dsc a b c) s" for s
      using cse_loop_run [OF b1 dsc l(1,2,4), of E x s] no_count_run [OF l(3), of E x s] dsc ra rb
      by (cases "fst (run E x a s)") (auto simp: d' truth_def)
    then show ?thesis using dsc ra rb l by (auto simp: d')
  qed
  from "1.prems"(1) show ?case
  proof (cases rule: logic_cases)
    case (lnot t' a')
    then obtain a1 where "common_subexpressions a = Inr a1" "d' = D_op t dsc a1 D_none D_none"
      using "1.prems"(4) by (auto simp: rbind_Inr_iff cse_loop_other chain_op_def)
    then show ?thesis using "1.IH"(1) "1.prems" lnot
      by (auto simp: integer_number_def cse_loop_other chain_op_def intro!: after_cong)
  next
    case (police dsc' a')
    then have "d' = D_op t dsc a b c"
      using "1.prems"(4) by (auto simp: rbind_Inr_iff cse_loop_other chain_op_def)
    then show ?thesis using "1.prems" by simp
  next
    case arith
    then obtain e where "common_subexpressions (D_op t dsc a b c) = Inr e" "arith e"
      "type_of e = t" "neval E x e = neval E x (D_op t dsc a b c)"
      using cse_arith [OF arith(1) "1.prems"(3), of E] by auto
    moreover have "e = d'" using "1.prems"(4) calculation(1) by simp
    ultimately have "arith d'" "run E x d' s = run E x (D_op t dsc a b c) s" for s
      using arith by (simp_all add: arith_run del: run.simps neval.simps)
    moreover have "logic d'" 
      using \<open>arith e\<close> \<open>e = d'\<close> \<open>type_of e = t\<close> arith by (cases e) (auto simp: integer_number_def)
    ultimately show ?thesis by (auto simp: arith_no_count)
  qed (use binary in auto)
qed simp

end
