(* ===== verification/Iflib_Bundle.thy ===== *)
theory Iflib_Bundle
  imports Iflib_Prune
begin

text \<open>
  The bundling step of \<^verbatim>\<open>tcc/iflib_red.c\<close>, \<^verbatim>\<open>(a && b) || (a && c)\<close> to
  \<^verbatim>\<open>a && (b || c)\<close>, and \<open>iflib_reduce\<close>, which runs the steps of the file. The
  matrix of the C code, a view of the \<^verbatim>\<open>||\<close>-then-\<^verbatim>\<open>&&\<close> structure, is a list of rows,
  each a list of cells.
\<close>

section \<open>The matrix\<close>

fun or_rows :: "data \<Rightarrow> data list" where
  "or_rows (D_op t dsc a b c) = (if dsc = op_logical_or then a # or_rows b else [D_op t dsc a b c])"
| "or_rows d = [d]"

fun and_cells :: "data \<Rightarrow> data list" where
  "and_cells (D_op t dsc a b c) = (if dsc = op_logical_and then a # and_cells b else [D_op t dsc a b c])"
| "and_cells d = [d]"

definition bundle_make_matrix :: "data \<Rightarrow> data list list" where
  "bundle_make_matrix d = map and_cells (or_rows d)"

section \<open>The largest common block\<close>

text \<open>Comparison of the first \<open>n\<close> cells of two rows.\<close>

fun cells_equal :: "nat \<Rightarrow> data list \<Rightarrow> data list \<Rightarrow> bool result" where
  "cells_equal (Suc n) (p # ps) (q # qs) =
     rbind (expr_equal p q) (\<lambda>eq. if eq then cells_equal n ps qs else Inr False)"
| "cells_equal n ps qs = Inr True"

fun rows_equal :: "nat \<Rightarrow> data list \<Rightarrow> data list list \<Rightarrow> bool result" where
  "rows_equal n p (q # rows) = rbind (cells_equal n p q) (\<lambda>eq. if eq then rows_equal n p rows else Inr False)"
| "rows_equal n p [] = Inr True"

text \<open>A block: its first row, its number of rows and its number of columns.\<close>

type_synonym block = "nat \<times> nat \<times> nat"

fun area :: "block \<Rightarrow> nat" where
  "area (first, ors, ands) = ors * ands"

text \<open>The loop over \<open>ands\<close>, with \<open>k\<close> values left to try.\<close>

fun best_ands :: "nat \<Rightarrow> nat \<Rightarrow> data list list \<Rightarrow> nat \<Rightarrow> nat \<Rightarrow> block \<Rightarrow> block result" where
  "best_ands first ors rows 0 ands best = Inr best"
| "best_ands first ors rows (Suc k) ands best =
     rbind (rows_equal ands (hd rows) (tl rows)) (\<lambda>eq.
       if eq
       then best_ands first ors rows k (ands + 1)
              (if area best < ors * ands then (first, ors, ands) else best)
       else Inr best)"

text \<open>The loop over \<open>ors\<close>, with \<open>k\<close> values left to try; \<open>m\<close> starts at the first row of the block.\<close>

fun best_ors :: "nat \<Rightarrow> data list list \<Rightarrow> nat \<Rightarrow> nat \<Rightarrow> block \<Rightarrow> block result" where
  "best_ors first m 0 ors best = Inr best"
| "best_ors first m (Suc k) ors best =
     (let rows = take ors m; min_ands = Min (length ` set rows)
      in if ors * min_ands < area best then best_ors first m k (ors + 1) best
         else rbind (best_ands first ors rows min_ands 1 best) (best_ors first m k (ors + 1)))"

fun best_first :: "nat \<Rightarrow> data list list \<Rightarrow> block \<Rightarrow> block result" where
  "best_first first [] best = Inr best"
| "best_first first (row # m) best =
     rbind (best_ors first (row # m) (length m) 2 best) (best_first (first + 1) m)"

definition bundle_find_best :: "data list list \<Rightarrow> block result" where
  "bundle_find_best m = best_first 0 m (0, 0, 0)"

section \<open>The new tree\<close>

text \<open>
  \<open>bundle_ands\<close> and \<open>bundle_ors\<close> get the cells (rows) from \<open>from\<close> on, all of them or the
  number given.
\<close>

fun and_chain :: "data list \<Rightarrow> data \<Rightarrow> data result" where
  "and_chain [] tmp = Inr tmp"
| "and_chain (p # ps) tmp = rbind (and_chain ps tmp) (op_binary op_logical_and p)"

definition bundle_ands :: "data list \<Rightarrow> data \<Rightarrow> data result" where
  "bundle_ands cells add =
     (if type_of add = dt_none
      then if cells = [] then Inr D_none else and_chain (butlast cells) (last cells)
      else and_chain cells add)"

fun or_chain :: "nat \<Rightarrow> data list list \<Rightarrow> data \<Rightarrow> data result" where
  "or_chain from_ands [] tmp = Inr tmp"
| "or_chain from_ands (r # rows) tmp =
     rbind (or_chain from_ands rows tmp) (\<lambda>tmp.
       if type_of tmp = dt_none then Inr tmp
       else rbind (bundle_ands (drop from_ands r) D_none) (\<lambda>d. op_binary op_logical_or d tmp))"

definition bundle_ors :: "data list list \<Rightarrow> nat \<Rightarrow> data \<Rightarrow> data result" where
  "bundle_ors rows from_ands add =
     (if type_of add = dt_none
      then if rows = [] then Inr D_none
           else rbind (bundle_ands (drop from_ands (last rows)) D_none) (or_chain from_ands (butlast rows))
      else or_chain from_ands rows add)"

definition bundle_rebuild :: "data list list \<Rightarrow> nat \<Rightarrow> nat \<Rightarrow> nat \<Rightarrow> data result" where
  "bundle_rebuild m from ors ands =
     rbind (bundle_ors (take ors (drop from m)) ands D_none) (\<lambda>new.
     rbind (bundle_ands (take ands (m ! from)) new) (\<lambda>new.
     rbind (if from + ors = length m then Inr new
            else rbind (bundle_ors (drop (from + ors) m) 0 D_none) (op_binary op_logical_or new)) (\<lambda>d.
     if from = 0 then Inr d else bundle_ors (take from m) 0 d)))"

definition BUNDLE_THRESHOLD :: nat where
  "BUNDLE_THRESHOLD = 2"

function (sequential) bundle_red :: "data \<Rightarrow> data result" where
  "bundle_red (D_op t dsc a b c) =
     rbind (if dsc \<noteq> op_logical_or then Inr None
            else rbind (bundle_find_best (bundle_make_matrix (D_op t dsc a b c))) (\<lambda>(from, ors, ands).
              if ors * ands < BUNDLE_THRESHOLD then Inr None
              else rbind (bundle_rebuild (bundle_make_matrix (D_op t dsc a b c)) from ors ands)
                (\<lambda>d. Inr (Some d)))) (\<lambda>r.
     case r of
       Some d \<Rightarrow> bundle_red d
     | None \<Rightarrow> rbind (bundle_red a) (\<lambda>a. rbind (bundle_red b) (\<lambda>b. rbind (bundle_red c) (\<lambda>c.
         Inr (D_op t dsc a b c)))))"
| "bundle_red d = Inr d"
  by pat_completeness auto

section \<open>Bundling ends\<close>

text \<open>Every round removes cells: the number of nodes is the sum over the cells of the matrix.\<close>

abbreviation nodes :: "data \<Rightarrow> nat" where
  "nodes d \<equiv> Suc (size d)"

definition cell_nodes :: "data list \<Rightarrow> nat" where
  "cell_nodes cells = sum_list (map nodes cells)"

definition row_nodes :: "data list list \<Rightarrow> nat" where
  "row_nodes rows = sum_list (map cell_nodes rows)"

lemma node_sum_simps [simp]:
  "cell_nodes [] = 0" "cell_nodes (p # ps) = nodes p + cell_nodes ps"
  "row_nodes [] = 0" "row_nodes (r # rs) = cell_nodes r + row_nodes rs"
  "cell_nodes (ps @ qs) = cell_nodes ps + cell_nodes qs"
  "row_nodes (rs @ ss) = row_nodes rs + row_nodes ss"
  by (simp_all add: cell_nodes_def row_nodes_def)

lemma and_cells_nodes: "cell_nodes (and_cells d) \<le> nodes d"
  by (induction d rule: and_cells.induct) auto

lemma make_matrix_nodes: "row_nodes (bundle_make_matrix d) \<le> nodes d"
proof (induction d rule: or_rows.induct)
  case (1 t dsc a b c)
  then show ?case
    using and_cells_nodes [of a] and_cells_nodes [of "D_op t dsc a b c"]
    by (auto simp: bundle_make_matrix_def)
qed (auto simp: bundle_make_matrix_def)

lemma op_binary_nodes:
  "op_binary op_logical_and a b = Inr d \<Longrightarrow> nodes d \<le> nodes a + nodes b"
  "op_binary op_logical_or a b = Inr d \<Longrightarrow> nodes d \<le> nodes a + nodes b"
  by (auto dest!: op_binary_logic_cases)

lemma and_chain_nodes: "and_chain ps tmp = Inr d \<Longrightarrow> nodes d \<le> cell_nodes ps + nodes tmp"
  by (induction ps arbitrary: d) (fastforce simp: rbind_Inr_iff dest: op_binary_nodes(1))+

lemma cell_nodes_last: "cells \<noteq> [] \<Longrightarrow> cell_nodes (butlast cells) + nodes (last cells) = cell_nodes cells"
  by (induction cells rule: rev_induct) auto

lemma row_nodes_last: "rows \<noteq> [] \<Longrightarrow> row_nodes (butlast rows) + cell_nodes (last rows) = row_nodes rows"
  by (induction rows rule: rev_induct) auto


lemma bundle_ands_nodes:
  assumes "bundle_ands cells add = Inr d" "cells \<noteq> [] \<or> type_of add \<noteq> dt_none"
  shows "nodes d \<le> cell_nodes cells + (if type_of add = dt_none then 0 else nodes add)"
  using assms and_chain_nodes [of "butlast cells" "last cells" d] and_chain_nodes [of cells add d]
    cell_nodes_last [of cells]
  by (auto simp: bundle_ands_def split: if_splits)

lemma bundle_ands_nodes_le:
  "bundle_ands cells D_none = Inr d \<Longrightarrow> nodes d \<le> Suc (cell_nodes cells)"
  using bundle_ands_nodes [of cells D_none d] by (cases "cells = []") (auto simp: bundle_ands_def)

text \<open>A row that is used up leaves \<open>D_none\<close>, or makes \<open>op_binary\<close> fail.\<close>

lemma op_binary_none: "op_binary op_logical_or D_none d \<noteq> Inr r"
  by (simp add: op_binary_def and_or_eval_def integer_number_def)

lemma or_chain_nodes:
  "or_chain n rows tmp = Inr d \<Longrightarrow> nodes d \<le> row_nodes (map (drop n) rows) + nodes tmp"
proof (induction rows arbitrary: d)
  case (Cons r rows)
  from Cons.prems obtain d1 where d1: "or_chain n rows tmp = Inr d1"
    and rest: "(if type_of d1 = dt_none then Inr d1
      else rbind (bundle_ands (drop n r) D_none) (\<lambda>d. op_binary op_logical_or d d1)) = Inr d"
    by (auto simp: rbind_Inr_iff)
  note ih = Cons.IH [OF d1]
  show ?case
  proof (cases "type_of d1 = dt_none")
    case True
    with rest ih show ?thesis by simp
  next
    case False
    with rest obtain e where e: "bundle_ands (drop n r) D_none = Inr e" "op_binary op_logical_or e d1 = Inr d"
      by (auto simp: rbind_Inr_iff)
    have "drop n r \<noteq> []" using e op_binary_none by (auto simp: bundle_ands_def)
    then have "nodes e \<le> cell_nodes (drop n r)" using bundle_ands_nodes [OF e(1)] by simp
    with op_binary_nodes(2) [OF e(2)] ih show ?thesis by simp
  qed
qed simp

lemma row_nodes_map_last:
  "rows \<noteq> [] \<Longrightarrow> row_nodes (map f rows) = row_nodes (map f (butlast rows)) + cell_nodes (f (last rows))"
  by (induction rows rule: rev_induct) auto

lemma or_chain_none: "or_chain n rows D_none = Inr D_none"
  by (induction rows) auto

lemma bundle_ors_nodes:
  assumes "bundle_ors rows n add = Inr d"
  shows "d = D_none \<or>
    nodes d \<le> row_nodes (map (drop n) rows) + (if type_of add = dt_none then 0 else nodes add)"
proof (cases "type_of add = dt_none")
  case False
  with assms show ?thesis using or_chain_nodes [of n rows add d] by (simp add: bundle_ors_def)
next
  case True
  show ?thesis
  proof (cases "rows = []")
    case ne: False
    with True assms(1) obtain e where e: "bundle_ands (drop n (last rows)) D_none = Inr e"
      "or_chain n (butlast rows) e = Inr d" by (auto simp: bundle_ors_def rbind_Inr_iff)
    show ?thesis
    proof (cases "drop n (last rows) = []")
      case True
      with e show ?thesis by (simp add: bundle_ands_def or_chain_none)
    next
      case False
      then have "nodes e \<le> cell_nodes (drop n (last rows))" using bundle_ands_nodes [OF e(1)] by simp
      with or_chain_nodes [OF e(2)] True show ?thesis by (simp add: row_nodes_map_last [OF ne])
    qed
  qed (use True assms in \<open>auto simp: bundle_ors_def\<close>)
qed

text \<open>What \<open>bundle_find_best\<close> finds is a block of rows with the same cells at the start.\<close>

fun common_block :: "data list list \<Rightarrow> block \<Rightarrow> bool" where
  "common_block m (first, ors, ands) \<longleftrightarrow>
     2 \<le> ors \<and> 1 \<le> ands \<and> first + ors \<le> length m \<and>
     (\<forall>r \<in> set (take ors (drop first m)). ands \<le> length r) \<and>
     rows_equal ands (m ! first) (tl (take ors (drop first m))) = Inr True"

definition no_block :: block where
  "no_block = (0, 0, 0)"

lemma best_ands_common:
  assumes "best_ands first ors (take ors (drop first m)) k ands best = Inr best'"
    "best = no_block \<or> common_block m best" "2 \<le> ors" "1 \<le> ands" "first + ors \<le> length m"
    "\<forall>r \<in> set (take ors (drop first m)). ands + k \<le> length r + 1"
  shows "best' = no_block \<or> common_block m best'"
  using assms
proof (induction k arbitrary: ands best)
  case (Suc k)
  let ?rows = "take ors (drop first m)"
  have hd: "hd ?rows = m ! first" using Suc.prems(3,5) by (simp add: hd_drop_conv_nth)
  from Suc.prems(1) obtain eq where eq: "rows_equal ands (m ! first) (tl ?rows) = Inr eq"
    and rest: "(if eq then best_ands first ors ?rows k (ands + 1)
      (if area best < ors * ands then (first, ors, ands) else best) else Inr best) = Inr best'"
    by (auto simp: rbind_Inr_iff hd simp del: Suc_eq_plus1)
  have "common_block m (first, ors, ands)" if eq
    using that eq Suc.prems by auto
  then show ?case
    using Suc.IH [of "ands + 1"] rest Suc.prems by (cases eq) (auto split: if_splits)
qed simp

lemma best_ors_common:
  assumes "best_ors first (drop first m) k ors best = Inr best'"
    "best = no_block \<or> common_block m best" "2 \<le> ors" "k + ors + first \<le> length m + 1"
  shows "best' = no_block \<or> common_block m best'"
  using assms
proof (induction k arbitrary: ors best)
  case (Suc k)
  let ?rows = "take ors (drop first m)"
  define n where "n = Min (length ` set ?rows)"
  have n: "n \<le> length r" if "r \<in> set ?rows" for r
    using that by (simp add: n_def)
  show ?case
  proof (cases "ors * n < area best")
    case True
    then show ?thesis using Suc.IH [of "ors + 1" best] Suc.prems by (simp add: Let_def n_def)
  next
    case False
    with Suc.prems(1) obtain best1 where b1: "best_ands first ors ?rows n 1 best = Inr best1"
      "best_ors first (drop first m) k (ors + 1) best1 = Inr best'"
      by (auto simp: Let_def n_def rbind_Inr_iff)
    have "best1 = no_block \<or> common_block m best1"
      using best_ands_common [OF b1(1) Suc.prems(2,3)] Suc.prems n by simp
    then show ?thesis using Suc.IH [OF b1(2)] Suc.prems by simp
  qed
qed simp

lemma best_first_common:
  assumes "best_first first (drop first m) best = Inr best'" "best = no_block \<or> common_block m best"
  shows "best' = no_block \<or> common_block m best'"
  using assms
proof (induction "length m - first" arbitrary: first best)
  case 0
  then show ?case by simp
next
  case (Suc k)
  then have lt: "first < length m" by simp
  then have d: "drop first m = m ! first # drop (Suc first) m" by (simp add: Cons_nth_drop_Suc)
  from Suc.prems(1) obtain best1 where
    b1: "best_ors first (drop first m) (length m - Suc first) 2 best = Inr best1"
      "best_first (Suc first) (drop (Suc first) m) best1 = Inr best'"
    by (auto simp: d rbind_Inr_iff)
  have "best1 = no_block \<or> common_block m best1"
    using best_ors_common [OF b1(1) Suc.prems(2)] lt by simp
  then show ?case using Suc.hyps(1) [of "Suc first" best1] Suc.hyps(2) b1(2) lt by simp
qed

lemma bundle_find_best_common:
  "bundle_find_best m = Inr best \<Longrightarrow> best = no_block \<or> common_block m best"
  using best_first_common [of 0 m no_block best] by (simp add: bundle_find_best_def no_block_def)


lemma cell_nodes_split: "cell_nodes (take n r) + cell_nodes (drop n r) = cell_nodes r"
  by (metis append_take_drop_id node_sum_simps(5))

lemma cell_nodes_pos: "r \<noteq> [] \<Longrightarrow> 0 < cell_nodes r"
  by (cases r) simp_all

lemma row_nodes_drop:
  "\<forall>r \<in> set rows. 1 \<le> n \<and> n \<le> length r \<Longrightarrow> row_nodes (map (drop n) rows) + length rows \<le> row_nodes rows"
proof (induction rows)
  case (Cons r rows)
  then have "0 < cell_nodes (take n r)" by (intro cell_nodes_pos) auto
  with Cons cell_nodes_split [of n r] show ?case by simp
qed simp

lemma op_binary_lor_none: "op_binary op_logical_or a b = Inr d \<Longrightarrow> type_of b \<noteq> dt_none \<and> d \<noteq> D_none"
  by (auto simp: op_binary_def and_or_eval_def integer_number_def make_op_def bool_unum_def
      rbind_Inr_iff split: if_splits)

lemma split3: "take i m @ take j (drop i m) @ drop (i + j) m = m"
  by (metis append_take_drop_id drop_drop add.commute)

lemma bundle_rebuild_nodes:
  assumes "common_block m (first, ors, ands)" "bundle_rebuild m first ors ands = Inr d"
  shows "nodes d < row_nodes m"
proof -
  let ?group = "take ors (drop first m)"
  obtain n1 n2 n3 where n1: "bundle_ors ?group ands D_none = Inr n1"
    and n2: "bundle_ands (take ands (m ! first)) n1 = Inr n2"
    and n3: "(if first + ors = length m then Inr n2
       else rbind (bundle_ors (drop (first + ors) m) 0 D_none) (op_binary op_logical_or n2)) = Inr n3"
    and d: "(if first = 0 then Inr n3 else bundle_ors (take first m) 0 n3) = Inr d"
    using assms(2) by (auto simp: bundle_rebuild_def rbind_Inr_iff)
  have g: "?group = m ! first # tl ?group"
    using assms(1) by (cases ?group) (auto simp: hd_drop_conv_nth dest: arg_cong [where f = hd])
  have len: "length ?group = ors" using assms(1) by auto
  have "m ! first \<in> set ?group" using g by (metis list.set_intros(1))
  then have row: "1 \<le> ands" "ands \<le> length (m ! first)" using assms(1) by auto
  have tl: "row_nodes (map (drop ands) (tl ?group)) + (ors - 1) \<le> row_nodes (tl ?group)"
    using row_nodes_drop [of "tl ?group" ands] assms(1) len g by (metis (no_types, lifting) length_tl list.distinct(1) list.set_sel(2) common_block.simps)
  have split: "row_nodes ?group = cell_nodes (m ! first) + row_nodes (tl ?group)"
    "row_nodes (map (drop ands) ?group) = cell_nodes (drop ands (m ! first)) + row_nodes (map (drop ands) (tl ?group))"
    by (subst g, simp)+
  have "nodes n2 \<le> cell_nodes (take ands (m ! first)) + row_nodes (map (drop ands) ?group)"
  proof -
    have "take ands (m ! first) \<noteq> []" using row by auto
    then have "nodes n2 \<le> cell_nodes (take ands (m ! first)) + (if type_of n1 = dt_none then 0 else nodes n1)"
      using bundle_ands_nodes [OF n2] by blast
    with bundle_ors_nodes [OF n1] show ?thesis by (auto split: if_splits)
  qed
  with tl split cell_nodes_split [of ands "m ! first"] have lt: "nodes n2 < row_nodes ?group"
    using assms(1) by auto
  have m: "row_nodes m = row_nodes (take first m) + row_nodes ?group + row_nodes (drop (first + ors) m)"
  proof -
    have "row_nodes m = row_nodes (take first m @ ?group @ drop (first + ors) m)" by (simp only: split3)
    then show ?thesis by simp
  qed
  have n3': "nodes n3 < row_nodes ?group + row_nodes (drop (first + ors) m)"
  proof (cases "first + ors = length m")
    case False
    with n3 obtain e where e: "bundle_ors (drop (first + ors) m) 0 D_none = Inr e"
      "op_binary op_logical_or n2 e = Inr n3" by (auto simp: rbind_Inr_iff)
    then have "nodes e \<le> row_nodes (drop (first + ors) m)"
      using bundle_ors_nodes [OF e(1)] op_binary_lor_none [OF e(2)] by (auto simp: drop_0 [abs_def])
    with op_binary_nodes(2) [OF e(2)] lt show ?thesis by simp
  qed (use n3 lt in auto)
  show ?thesis
  proof (cases "first = 0")
    case False
    then have "d = D_none \<or> nodes d \<le> row_nodes (take first m) + nodes n3"
      using bundle_ors_nodes [of "take first m" 0 n3 d] d by (auto simp: drop_0 [abs_def] split: if_splits)
    with n3' lt m show ?thesis by auto
  qed (use d n3' m in auto)
qed

termination bundle_red
proof (relation "measure size")
  fix t dsc a b c r d
  assume "(if dsc \<noteq> op_logical_or then Inr None
      else rbind (bundle_find_best (bundle_make_matrix (D_op t dsc a b c))) (\<lambda>(from, ors, ands).
        if ors * ands < BUNDLE_THRESHOLD then Inr None
        else rbind (bundle_rebuild (bundle_make_matrix (D_op t dsc a b c)) from ors ands)
          (\<lambda>d. Inr (Some d)))) = Inr r" "r = Some d"
  then obtain first ors ands where
    f: "bundle_find_best (bundle_make_matrix (D_op t dsc a b c)) = Inr (first, ors, ands)"
      "\<not> ors * ands < BUNDLE_THRESHOLD"
      "bundle_rebuild (bundle_make_matrix (D_op t dsc a b c)) first ors ands = Inr d"
    by (auto simp: rbind_Inr_iff split: if_splits)
  then have "common_block (bundle_make_matrix (D_op t dsc a b c)) (first, ors, ands)"
    using bundle_find_best_common by (fastforce simp: no_block_def BUNDLE_THRESHOLD_def)
  from bundle_rebuild_nodes [OF this f(3)] make_matrix_nodes [of "D_op t dsc a b c"]
  show "(d, D_op t dsc a b c) \<in> measure size" by simp
qed auto


section \<open>Meaning of a bundled expression\<close>

fun run_cells :: "'st env \<Rightarrow> ctx \<Rightarrow> data list \<Rightarrow> 'st \<Rightarrow> verdict \<times> 'st" where
  "run_cells E x [] s = (V_true, s)"
| "run_cells E x (p # ps) s = after (run E x p s) (run_cells E x ps) (\<lambda>s. (V_false, s))"

fun run_rows :: "'st env \<Rightarrow> ctx \<Rightarrow> data list list \<Rightarrow> 'st \<Rightarrow> verdict \<times> 'st" where
  "run_rows E x [] s = (V_false, s)"
| "run_rows E x (r # rs) s = after (run_cells E x r s) (\<lambda>s. (V_true, s)) (run_rows E x rs)"

definition ok_cells :: "data list \<Rightarrow> bool" where
  "ok_cells r \<longleftrightarrow> (\<forall>p \<in> set r. logic p \<and> no_count p)"

lemma ok_cells_simps [simp]:
  "ok_cells []" "ok_cells (p # ps) \<longleftrightarrow> logic p \<and> no_count p \<and> ok_cells ps"
  "ok_cells (ps @ qs) \<longleftrightarrow> ok_cells ps \<and> ok_cells qs"
  by (auto simp: ok_cells_def)

lemma ok_cells_take_drop: "ok_cells r \<Longrightarrow> ok_cells (take n r) \<and> ok_cells (drop n r)"
  by (auto simp: ok_cells_def dest: in_set_takeD in_set_dropD)

lemma run_cells_append:
  "run_cells E x (ps @ qs) s = after (run_cells E x ps s) (run_cells E x qs) (\<lambda>s. (V_false, s))"
  by (induction ps arbitrary: s) (auto simp: after_after intro!: after_cong)

lemma run_rows_append:
  "run_rows E x (rs @ ss) s = after (run_rows E x rs s) (\<lambda>s. (V_true, s)) (run_rows E x ss)"
  by (induction rs arbitrary: s) (auto simp: after_after intro!: after_cong)

lemma run_cells_state: "ok_cells r \<Longrightarrow> snd (run_cells E x r s) = s"
  by (induction r arbitrary: s) (auto simp: after_def no_count_state split: verdict.split)

lemma run_cells_single: "run_cells E x [d] s = run E x d s"
  by (simp add: run_cells.simps [abs_def])

lemma run_rows_single: "run_rows E x [r] s = run_cells E x r s"
  by (simp add: run_rows.simps [abs_def])

lemma and_cells_run: "run_cells E x (and_cells d) s = run E x d s"
proof (induction d arbitrary: s rule: and_cells.induct)
  case (1 t dsc a b c)
  show ?case
  proof (cases "dsc = op_logical_and")
    case True
    with 1 show ?thesis by (auto intro!: after_cong)
  next
    case False
    then have "and_cells (D_op t dsc a b c) = [D_op t dsc a b c]" by simp
    then show ?thesis by (simp only: run_cells_single)
  qed
qed (simp_all only: and_cells.simps run_cells_single)

lemma and_cells_ok: "logic d \<Longrightarrow> no_count d \<Longrightarrow> ok_cells (and_cells d)"
  by (induction d rule: and_cells.induct) auto

lemma make_matrix_run: "run_rows E x (bundle_make_matrix d) s = run E x d s"
proof (induction d arbitrary: s rule: or_rows.induct)
  case (1 t dsc a b c)
  show ?case
  proof (cases "dsc = op_logical_or")
    case True
    with 1 show ?thesis by (auto simp: bundle_make_matrix_def and_cells_run intro!: after_cong)
  next
    case False
    then have "or_rows (D_op t dsc a b c) = [D_op t dsc a b c]" by simp
    then show ?thesis
      by (simp only: bundle_make_matrix_def list.map run_rows_single and_cells_run)
  qed
qed (simp_all only: bundle_make_matrix_def or_rows.simps list.map run_rows_single and_cells_run)

lemma make_matrix_ok: "logic d \<Longrightarrow> no_count d \<Longrightarrow> r \<in> set (bundle_make_matrix d) \<Longrightarrow> ok_cells r"
proof (induction d rule: or_rows.induct)
  case (1 t dsc a b c)
  then show ?case
    using and_cells_ok [of a] and_cells_ok [of "D_op t dsc a b c"]
    by (cases "dsc = op_logical_or") (auto simp: bundle_make_matrix_def)
qed (auto simp: bundle_make_matrix_def)

lemma logic_not_none: "logic d \<Longrightarrow> type_of d \<noteq> dt_none"
  using logic_type [of d] by (auto simp: integer_number_def)

lemma and_chain_ok:
  "ok_cells ps \<Longrightarrow> logic tmp \<Longrightarrow> no_count tmp \<Longrightarrow> \<exists>d. and_chain ps tmp = Inr d \<and> logic d \<and> no_count d \<and>
     (\<forall>s. run E x d s = after (run_cells E x ps s) (run E x tmp) (\<lambda>s. (V_false, s)))"
proof (induction ps)
  case (Cons p ps)
  then obtain d where d: "and_chain ps tmp = Inr d" "logic d" "no_count d"
    "\<forall>s. run E x d s = after (run_cells E x ps s) (run E x tmp) (\<lambda>s. (V_false, s))" by auto
  with Cons.prems show ?case by (auto simp: pass_simps sem_simps after_after intro!: after_cong)
qed simp

lemma bundle_ands_ok:
  assumes "ok_cells cells" "cells \<noteq> []"
  shows "\<exists>d. bundle_ands cells D_none = Inr d \<and> logic d \<and> no_count d \<and>
    (\<forall>s. run E x d s = run_cells E x cells s)"
proof -
  have c: "butlast cells @ [last cells] = cells" using assms(2) by simp
  then have ok: "ok_cells (butlast cells)" "logic (last cells)" "no_count (last cells)"
    using assms(1) ok_cells_simps(3) [of "butlast cells" "[last cells]"] by simp_all
  have "run_cells E x cells s = after (run_cells E x (butlast cells) s) (run E x (last cells)) (\<lambda>s. (V_false, s))" for s
    using run_cells_append [of E x "butlast cells" "[last cells]" s] c by (simp cong: after_cong)
  then show ?thesis using and_chain_ok [OF ok, of E x] assms(2) by (auto simp: bundle_ands_def)
qed

lemma or_chain_ok:
  assumes "\<forall>r \<in> set rows. ok_cells r \<and> n < length r" "logic tmp" "no_count tmp"
  shows "\<exists>d. or_chain n rows tmp = Inr d \<and> logic d \<and> no_count d \<and>
     (\<forall>s. run E x d s = after (run_rows E x (map (drop n) rows) s) (\<lambda>s. (V_true, s)) (run E x tmp))"
  using assms
proof (induction rows)
  case (Cons r rows)
  then obtain d where d: "or_chain n rows tmp = Inr d" "logic d" "no_count d"
    "\<forall>s. run E x d s = after (run_rows E x (map (drop n) rows) s) (\<lambda>s. (V_true, s)) (run E x tmp)" by auto
  obtain e where "bundle_ands (drop n r) D_none = Inr e" "logic e" "no_count e"
    "\<forall>s. run E x e s = run_cells E x (drop n r) s"
    using bundle_ands_ok [of "drop n r" E x] Cons.prems(1) ok_cells_take_drop [of r n] by auto
  with d show ?case
    by (auto simp: pass_simps sem_simps after_after logic_not_none intro!: after_cong)
qed simp


lemma bundle_ors_ok:
  assumes "\<forall>r \<in> set rows. ok_cells r \<and> n < length r" "rows \<noteq> []"
  shows "\<exists>d. bundle_ors rows n D_none = Inr d \<and> logic d \<and> no_count d \<and>
     (\<forall>s. run E x d s = run_rows E x (map (drop n) rows) s)"
proof -
  have rows: "butlast rows @ [last rows] = rows" using assms(2) by simp
  have ok: "\<forall>r \<in> set (butlast rows). ok_cells r \<and> n < length r" "ok_cells (drop n (last rows))"
      "drop n (last rows) \<noteq> []"
    using assms(1) bspec [OF assms(1) last_in_set [OF assms(2)]] ok_cells_take_drop [of "last rows" n]
    by (auto dest: in_set_butlastD)
  obtain e where e: "bundle_ands (drop n (last rows)) D_none = Inr e" "logic e" "no_count e"
    "\<forall>s. run E x e s = run_cells E x (drop n (last rows)) s"
    using bundle_ands_ok [OF ok(2,3), of E x] by blast
  obtain d where d: "or_chain n (butlast rows) e = Inr d" "logic d" "no_count d"
    "\<forall>s. run E x d s = after (run_rows E x (map (drop n) (butlast rows)) s) (\<lambda>s. (V_true, s)) (run E x e)"
    using or_chain_ok [OF ok(1) e(2,3), of E x] by blast
  have "run_rows E x (map (drop n) rows) s =
      after (run_rows E x (map (drop n) (butlast rows)) s) (\<lambda>s. (V_true, s))
        (run_rows E x [drop n (last rows)])" for s
    by (subst rows [symmetric]) (simp only: map_append run_rows_append list.map)
  with d e have "\<forall>s. run E x d s = run_rows E x (map (drop n) rows) s"
    by (auto simp: run_rows_single simp del: run_rows.simps intro!: after_cong)
  with d e assms(2) show ?thesis by (auto simp: bundle_ors_def)
qed

lemma cells_equal_run:
  "cells_equal n p q = Inr True \<Longrightarrow> n \<le> length p \<Longrightarrow> n \<le> length q \<Longrightarrow> ok_cells p \<Longrightarrow>
   run_cells E x (take n q) s = run_cells E x (take n p) s"
proof (induction n p q arbitrary: s rule: cells_equal.induct)
  case (1 n p ps q qs)
  then have "expr_equal p q = Inr True" "cells_equal n ps qs = Inr True"
    by (auto simp: rbind_Inr_iff split: if_splits)
  then show ?case
    using 1 expr_equal_run [of p q E x s] by (auto intro!: after_cong)
qed auto

lemma rows_equal_run:
  "rows_equal n p rows = Inr True \<Longrightarrow> q \<in> set rows \<Longrightarrow> n \<le> length p \<Longrightarrow> n \<le> length q \<Longrightarrow> ok_cells p \<Longrightarrow>
   run_cells E x (take n q) s = run_cells E x (take n p) s"
proof (induction n p rows rule: rows_equal.induct)
  case (1 n p r rows)
  from "1.prems"(1) have r: "cells_equal n p r = Inr True" "rows_equal n p rows = Inr True"
    by (auto simp: rbind_Inr_iff split: if_splits)
  show ?case
  proof (cases "q = r")
    case True
    with "1.prems" r(1) show ?thesis by (simp add: cells_equal_run)
  next
    case False
    with 1 r show ?thesis by simp
  qed
qed simp

lemma run_group:
  assumes "rows \<noteq> []" "ok_cells p"
    "\<forall>r \<in> set rows. ok_cells r \<and> (\<forall>s. run_cells E x (take n r) s = run_cells E x p s)"
  shows "run_rows E x rows s = after (run_cells E x p s) (run_rows E x (map (drop n) rows)) (\<lambda>s. (V_false, s))"
  using assms
proof (induction rows rule: list_nonempty_induct)
  case (single r)
  then show ?case
    using run_cells_append [of E x "take n r" "drop n r" s] by (simp add: run_rows_single cong: after_cong)
next
  case (cons r rows)
  have "run_cells E x r s = after (run_cells E x p s) (run_cells E x (drop n r)) (\<lambda>s. (V_false, s))"
    using run_cells_append [of E x "take n r" "drop n r" s] cons.prems(2) by simp
  moreover have "snd (run_cells E x p s) = s" "snd (run_cells E x (drop n r) s) = s"
    using cons.prems run_cells_state ok_cells_take_drop by (metis list.set_intros(1))+
  ultimately show ?case
    using cons by (cases "run_cells E x p s"; cases "run_cells E x (drop n r) s")
      (auto simp: after_def split: verdict.split)
qed

text \<open>
  The rebuilt expression means what the matrix meant, when no row of the block is used up by
  the common cells.
\<close>

lemma bundle_rebuild_run:
  assumes "common_block m (first, ors, ands)" "\<forall>r \<in> set m. ok_cells r \<and> r \<noteq> []"
    "\<forall>r \<in> set (take ors (drop first m)). ands < length r"
  shows "\<exists>d. bundle_rebuild m first ors ands = Inr d \<and> logic d \<and> no_count d \<and>
    (\<forall>s. run E x d s = run_rows E x m s)"
proof -
  let ?group = "take ors (drop first m)" and ?p = "take ands (m ! first)" and ?rest = "drop (first + ors) m"
  have ok: "ok_cells r" "r \<noteq> []" if "r \<in> set m" for r using assms(2) that by auto
  have g: "?group = m ! first # tl ?group"
    using assms(1) by (cases ?group) (auto simp: hd_drop_conv_nth dest: arg_cong [where f = hd])
  have ne: "?group \<noteq> []" using g by (metis list.distinct(1))
  have p: "ok_cells (m ! first)" "ok_cells ?p"
    using assms(1) ok(1) [of "m ! first"] ok_cells_take_drop by auto
  have group: "\<forall>r \<in> set ?group. ok_cells r \<and> ands < length r"
    using assms(3) ok(1) by (auto dest: in_set_takeD in_set_dropD)
  have same: "run_cells E x (take ands r) s = run_cells E x ?p s" if "r \<in> set ?group" for r s
  proof (cases "r = m ! first")
    case False
    then have "r \<in> set (tl ?group)" using that g by (metis set_ConsD)
    then show ?thesis
      using rows_equal_run [of ands "m ! first" "tl ?group" r] assms(1) p(1) that g
      by (metis common_block.simps list.set_intros(1))
  qed simp
  obtain n1 where n1: "bundle_ors ?group ands D_none = Inr n1" "logic n1" "no_count n1"
      "\<forall>s. run E x n1 s = run_rows E x (map (drop ands) ?group) s"
    using bundle_ors_ok [OF group ne, of E x] by blast
  obtain n2 where n2: "bundle_ands ?p n1 = Inr n2" "logic n2" "no_count n2"
      "\<forall>s. run E x n2 s = after (run_cells E x ?p s) (run E x n1) (\<lambda>s. (V_false, s))"
    using and_chain_ok [OF p(2) n1(2,3), of E x] logic_not_none [OF n1(2)] by (auto simp: bundle_ands_def)
  have r2: "run E x n2 s = run_rows E x ?group s" for s
    using run_group [OF ne p(2), of E x ands s] group same n2(4) n1(4) by (auto intro!: after_cong)
  obtain n3 where n3: "(if first + ors = length m then Inr n2
       else rbind (bundle_ors ?rest 0 D_none) (op_binary op_logical_or n2)) = Inr n3"
      "logic n3" "no_count n3" "\<forall>s. run E x n3 s = run_rows E x (?group @ ?rest) s"
  proof (cases "first + ors = length m")
    case True
    then show thesis using that [of n2] n2 r2 by simp
  next
    case False
    then have "?rest \<noteq> []" using assms(1) by auto
    moreover have "\<forall>r \<in> set ?rest. ok_cells r \<and> 0 < length r" using ok by (auto dest: in_set_dropD)
    ultimately obtain e where "bundle_ors ?rest 0 D_none = Inr e" "logic e" "no_count e"
      "\<forall>s. run E x e s = run_rows E x (map (drop 0) ?rest) s"
      using bundle_ors_ok [of ?rest 0 E x] by blast
    then show thesis
      using that [of "lnode op_logical_or n2 e"] False n2 r2
      by (auto simp: pass_simps sem_simps run_rows_append drop_0 [abs_def] intro!: after_cong)
  qed
  show ?thesis
  proof (cases "first = 0")
    case True
    then have "?group @ ?rest = m" by simp
    with True n1 n2 n3 show ?thesis by (auto simp: bundle_rebuild_def)
  next
    case False
    have "\<forall>r \<in> set (take first m). ok_cells r \<and> 0 < length r" using ok by (auto dest: in_set_takeD)
    then obtain d where "or_chain 0 (take first m) n3 = Inr d" "logic d" "no_count d"
      "\<forall>s. run E x d s = after (run_rows E x (map (drop 0) (take first m)) s) (\<lambda>s. (V_true, s)) (run E x n3)"
      using or_chain_ok [OF _ n3(2,3), of _ 0 E x] by blast
    moreover have "run_rows E x m s =
        after (run_rows E x (take first m) s) (\<lambda>s. (V_true, s)) (run_rows E x (?group @ ?rest))" for s
      using run_rows_append [of E x "take first m" "?group @ ?rest" s] by (simp only: split3)
    ultimately show ?thesis using False n1(1) n2(1) n3(1,4) logic_not_none [OF n3(2)]
      by (auto simp: bundle_rebuild_def bundle_ors_def [of "take first m"] drop_0 [abs_def] intro!: after_cong)
  qed
qed


section \<open>The passes in sequence\<close>

text \<open>
  \<open>iflib_normalize\<close> and \<open>iflib_reduce\<close>. The flag \<open>cse\<close> is the optimisation switch of that
  name with \<^verbatim>\<open>alg_mode\<close> off.
\<close>

definition iflib_normalize :: "data \<Rightarrow> data result" where
  "iflib_normalize d = rbind (bubble_or d) (\<lambda>d. Inr (linearize d))"

definition iflib_reduce :: "bool \<Rightarrow> data \<Rightarrow> data result" where
  "iflib_reduce cse d =
     (let d = prune_shortcuts (linearize d)
      in if \<not> cse then iflib_normalize d
         else rbind (bundle_red d) (\<lambda>d.
              rbind (iflib_normalize d) (\<lambda>d.
              rbind (common_subexpressions d) (\<lambda>d.
              rbind (bundle_red d) (\<lambda>d. Inr (prune_shortcuts d))))))"

interpretation linearize_pass: sem_pass E "\<lambda>d. Inr (linearize d)" static_logic for E :: "'st env"
  by unfold_locales (auto simp: linearize_static linearize_run static_logic_logicD)

interpretation prune_pass: sem_pass E "\<lambda>d. Inr (prune_shortcuts d)" static_logic for E :: "'st env"
  by unfold_locales (auto simp: prune_static prune_run dest: static_logic_logicD)

interpretation bubble_or_pass: sem_pass E bubble_or static_logic for E :: "'st env"
  using bubble_or_static [where E = E] by unfold_locales fastforce+

interpretation normalize_passes: two_passes E bubble_or "\<lambda>d. Inr (linearize d)" static_logic for E :: "'st env" ..

interpretation clean_passes: two_passes E "\<lambda>d. Inr (linearize d)" "\<lambda>d. Inr (prune_shortcuts d)" static_logic
  for E :: "'st env" ..

interpretation normalize_pass: sem_pass E iflib_normalize static_logic for E :: "'st env"
  using normalize_passes.both.sem_pass_axioms unfolding iflib_normalize_def [abs_def] .

interpretation reduce_passes: two_passes E "\<lambda>d. rbind (Inr (linearize d)) (\<lambda>d. Inr (prune_shortcuts d))"
    iflib_normalize static_logic for E :: "'st env" ..

text \<open>A condition that may occur in the argument of \<open>common_subexpressions\<close>.\<close>

definition countless :: "data \<Rightarrow> bool" where
  "countless d \<longleftrightarrow> logic d \<and> no_count d \<and> comparable_leaves d"

interpretation cse_pass: sem_pass E common_subexpressions countless for E :: "'st env"
  using cse_run [where E = E] cse_returns unfolding countless_def by unfold_locales (blast, metis Inr_inject, blast)

end
