(* ===== verification/Iflib_Act.thy ===== *)
theory Iflib_Act
  imports Iflib_Not Iflib_Bundle
begin

text \<open>
  \<^verbatim>\<open>tcc/iflib_act.c\<close>: rearrangement of actions (policing and decisions) to the end of
  \<^verbatim>\<open>&&\<close> chains, and the check for expensive actions of \<^verbatim>\<open>tcc/iflib_cheap.c\<close> that it calls.
\<close>

section \<open>Trimming\<close>

definition trim_node :: "data_type \<Rightarrow> op_dsc \<Rightarrow> data \<Rightarrow> data \<Rightarrow> data \<Rightarrow> data" where
  "trim_node t dsc a b c =
     (if (dsc = op_logical_and \<or> dsc = op_logical_or) \<and> self_contained a = sc_yes then a
      else D_op t dsc a b c)"

fun trim_self_contained :: "data \<Rightarrow> data" where
  "trim_self_contained (D_op t dsc a b c) =
     trim_node t dsc (trim_self_contained a) (trim_self_contained b) (trim_self_contained c)"
| "trim_self_contained d = d"

section \<open>Expensive policing\<close>

text \<open>
  \<open>refuse_static_after_policing\<close> with the static variable \<^verbatim>\<open>do_report\<close> threaded through;
  \<open>exp_error\<close> is the switch that turns the warning into an error.
\<close>

definition report_policing :: "bool \<Rightarrow> bool \<Rightarrow> (bool \<times> bool) result" where
  "report_policing exp_error do_report =
     (if do_report \<and> exp_error
      then Inl (E_lerror ''policing expressions not always leading to a decision are expensive'')
      else Inr (False, False))"

fun refuse_static_after_policing ::
  "bool \<Rightarrow> data \<Rightarrow> bool \<Rightarrow> bool \<Rightarrow> bool \<Rightarrow> (bool \<times> bool) result" where
  "refuse_static_after_policing exp_error (D_op t dsc a b c) next_ok otherwise_ok do_report =
     (if dsc = op_logical_and then
        rbind (refuse_static_after_policing exp_error b next_ok otherwise_ok do_report) (\<lambda>(ok, rep).
          refuse_static_after_policing exp_error a ok otherwise_ok rep)
      else if dsc = op_logical_or then
        rbind (refuse_static_after_policing exp_error b next_ok otherwise_ok do_report) (\<lambda>(ok, rep).
          refuse_static_after_policing exp_error a next_ok ok rep)
      else if dsc = op_logical_not then
        refuse_static_after_policing exp_error a otherwise_ok next_ok do_report
      else if dsc = op_conform then
        (if next_ok \<and> otherwise_ok then Inr (True, do_report)
         else report_policing exp_error do_report)
      else if dsc = op_count then
        (if next_ok then Inr (True, do_report) else report_policing exp_error do_report)
      else Inr (False, do_report))"
| "refuse_static_after_policing exp_error d next_ok otherwise_ok do_report =
     Inr (type_of d = dt_decision, do_report)"

text \<open>\<open>iflib_cheap_actions\<close>; \<open>enabled\<close> stands for the switches that turn the check on.\<close>

definition iflib_cheap_actions :: "bool \<Rightarrow> bool \<Rightarrow> bool \<Rightarrow> data \<Rightarrow> bool result" where
  "iflib_cheap_actions enabled exp_error do_report d =
     (if \<not> enabled then Inr do_report
      else rbind (refuse_static_after_policing exp_error d False False do_report) (\<lambda>(ok, rep). Inr rep))"

text \<open>
  \<open>refuse_expensive_ops\<close>. Each operator is reported once: \<open>report\<close> stands for the static variables
  \<^verbatim>\<open>report_not\<close>, \<^verbatim>\<open>report_ne\<close>, \<^verbatim>\<open>report_gt\<close> and \<^verbatim>\<open>report_ge\<close>. \<open>post_opt\<close> is the switch \<^verbatim>\<open>warn_exp_post_opt\<close>.
\<close>

definition expensive_op :: "op_dsc \<Rightarrow> bool" where
  "expensive_op dsc \<longleftrightarrow> dsc = op_logical_not \<or> dsc = op_ne \<or> dsc = op_gt \<or> dsc = op_ge"

definition report_op :: "bool \<Rightarrow> bool \<Rightarrow> op_dsc \<Rightarrow> (op_dsc \<Rightarrow> bool) \<Rightarrow> (op_dsc \<Rightarrow> bool) result" where
  "report_op post_opt exp_error dsc report =
     (if \<not> post_opt \<and> expensive_op dsc \<and> report dsc
      then if exp_error then Inl (E_lerror ''expensive operation'') else Inr (report(dsc := False))
      else Inr report)"

fun refuse_expensive_ops :: "bool \<Rightarrow> bool \<Rightarrow> data \<Rightarrow> (op_dsc \<Rightarrow> bool) \<Rightarrow> (op_dsc \<Rightarrow> bool) result" where
  "refuse_expensive_ops post_opt exp_error (D_op t dsc a b c) report =
     rbind (report_op post_opt exp_error dsc report) (\<lambda>report.
     rbind (refuse_expensive_ops post_opt exp_error a report) (\<lambda>report.
     rbind (refuse_expensive_ops post_opt exp_error b report) (refuse_expensive_ops post_opt exp_error c)))"
| "refuse_expensive_ops post_opt exp_error d report = Inr report"

definition iflib_cheap_ops :: "bool \<Rightarrow> bool \<Rightarrow> bool \<Rightarrow> (op_dsc \<Rightarrow> bool) \<Rightarrow> data \<Rightarrow> (op_dsc \<Rightarrow> bool) result" where
  "iflib_cheap_ops enabled post_opt exp_error report d =
     (if \<not> enabled then Inr report else refuse_expensive_ops post_opt exp_error d report)"

fun all_ops :: "(op_dsc \<Rightarrow> bool) \<Rightarrow> data \<Rightarrow> bool" where
  "all_ops P (D_op t dsc a b c) \<longleftrightarrow> P dsc \<and> all_ops P a \<and> all_ops P b \<and> all_ops P c"
| "all_ops P d \<longleftrightarrow> True"

text \<open>When the warnings are errors, exactly the expressions without an expensive operator pass, as a warning never is given.\<close>

lemma expensive_ops_refused:
  assumes "\<And>dsc. expensive_op dsc \<Longrightarrow> report dsc"
  shows "refuse_expensive_ops False True d report = (if all_ops (\<lambda>dsc. \<not> expensive_op dsc) d then Inr report
    else Inl (E_lerror ''expensive operation''))"
  using assms
proof (induction d)
  case (D_op t dsc a b c)
  then show ?case by (auto simp: report_op_def)
qed simp_all

text \<open>Without that switch nothing is refused, and what was reported stays reported.\<close>

lemma expensive_ops_returns:
  "\<exists>report'. refuse_expensive_ops post_opt False d report = Inr report' \<and> (\<forall>dsc. report' dsc \<longrightarrow> report dsc)"
proof (induction d arbitrary: report)
  case (D_op t dsc a b c)
  have "\<exists>r0. report_op post_opt False dsc report = Inr r0 \<and> (\<forall>dsc. r0 dsc \<longrightarrow> report dsc)"
    by (auto simp: report_op_def)
  then obtain r0 where r0: "report_op post_opt False dsc report = Inr r0" "\<forall>dsc. r0 dsc \<longrightarrow> report dsc" by blast
  obtain r1 where r1: "refuse_expensive_ops post_opt False a r0 = Inr r1" "\<forall>dsc. r1 dsc \<longrightarrow> r0 dsc" using D_op.IH(1) by blast
  obtain r2 where r2: "refuse_expensive_ops post_opt False b r1 = Inr r2" "\<forall>dsc. r2 dsc \<longrightarrow> r1 dsc" using D_op.IH(2) by blast
  obtain r3 where "refuse_expensive_ops post_opt False c r2 = Inr r3" "\<forall>dsc. r3 dsc \<longrightarrow> r2 dsc" using D_op.IH(3) by blast
  with r0 r1 r2 show ?case by auto
qed auto

section \<open>Pushing actions\<close>

text \<open>
  \<open>bubble_and\<close>. When the left operand always decides, the node is replaced by it and the
  function goes on; as a decision is a side effect, it then reports an error.
\<close>

definition bubble_and :: "data_type \<Rightarrow> data \<Rightarrow> data \<Rightarrow> data \<Rightarrow> data result" where
  "bubble_and t a b c =
     (if \<not> action_tree a \<or> action_tree b then Inr (D_op t op_logical_and a b c)
      else if side_effect a then Inl (E_errorf ''too many side effects'')
      else if self_contained a = sc_yes then Inl (E_undef ''use of a freed expression'')
      else if side_effect b then Inl (E_errorf ''too many side effects'')
      else Inr (D_op t op_logical_and b a c))"

fun attach_prev :: "data \<Rightarrow> data \<Rightarrow> data result" where
  "attach_prev (D_op t dsc a b c) attach =
     (if action_tree (D_op t dsc a b c) then
        if self_contained attach \<noteq> sc_yes then op_binary op_logical_or attach (D_op t dsc a b c)
        else Inr attach
      else rbind (attach_prev a attach) (\<lambda>a. rbind (attach_prev b attach) (\<lambda>b.
           rbind (attach_prev c attach) (\<lambda>c. Inr (D_op t dsc a b c)))))"
| "attach_prev d attach =
     (if action_tree d then
        if self_contained attach \<noteq> sc_yes then op_binary op_logical_or attach d
        else Inr attach
      else Inr d)"

text \<open>
  The pointer \<open>cut\<close> walks down the \<^verbatim>\<open>&&\<close> chain on the left to the first action tree, or to
  the end. \<open>cut_of\<close> is the expression there, \<open>put_cut\<close> stores another one.
\<close>

fun cut_of :: "data \<Rightarrow> data" where
  "cut_of (D_op t dsc a b c) =
     (if dsc = op_logical_and \<and> \<not> action_tree (D_op t dsc a b c) then cut_of b else D_op t dsc a b c)"
| "cut_of d = d"

fun put_cut :: "data \<Rightarrow> data \<Rightarrow> data" where
  "put_cut (D_op t dsc a b c) e =
     (if dsc = op_logical_and \<and> \<not> action_tree (D_op t dsc a b c)
      then D_op t dsc a (put_cut b e) c else e)"
| "put_cut d e = e"

fun precondition_or :: "data \<Rightarrow> data \<Rightarrow> data" where
  "precondition_or (D_op t dsc a b c) cond =
     (if dsc = op_logical_or \<and> \<not> action_tree (D_op t dsc a b c)
      then D_op t dsc (put_cut cond a) (precondition_or b cond) c
      else put_cut cond (D_op t dsc a b c))"
| "precondition_or d cond = put_cut cond d"

fun append_or :: "data \<Rightarrow> data \<Rightarrow> data result" where
  "append_or (D_op t dsc a b c) x =
     (if dsc = op_logical_or then rbind (append_or b x) (\<lambda>b. Inr (D_op t dsc a b c))
      else op_binary op_logical_or (D_op t dsc a b c) x)"
| "append_or d x = op_binary op_logical_or d x"

definition act_bubble_or :: "data_type \<Rightarrow> data \<Rightarrow> data \<Rightarrow> data \<Rightarrow> data result" where
  "act_bubble_or t a b c =
     (if self_contained (cut_of a) = sc_yes then Inr (D_op t op_logical_or a b c)
      else rbind (attach_prev (precondition_or b a) (cut_of a)) (\<lambda>d.
        if self_contained d = sc_yes then Inr d else append_or d b))"

fun push_action :: "data \<Rightarrow> data result" where
  "push_action (D_op t dsc a b c) =
     rbind (push_action a) (\<lambda>a. rbind (push_action b) (\<lambda>b. rbind (push_action c) (\<lambda>c.
       if dsc = op_logical_and then bubble_and t a b c
       else if dsc = op_logical_or then act_bubble_or t a b c
       else Inr (D_op t dsc a b c))))"
| "push_action d = Inr d"

definition iflib_actions :: "bool \<Rightarrow> bool \<Rightarrow> bool \<Rightarrow> bool \<Rightarrow> data \<Rightarrow> data result" where
  "iflib_actions cse enabled exp_error do_report d =
     (let d = trim_self_contained d
      in rbind (iflib_cheap_actions enabled exp_error do_report d) (\<lambda>_.
         rbind (push_action d) (\<lambda>d.
         rbind (iflib_reduce cse d) (\<lambda>d.
         rbind (iflib_normalize d) push_action))))"

section \<open>Trimming keeps the meaning\<close>

lemma trim_other: "dsc \<noteq> op_logical_and \<Longrightarrow> dsc \<noteq> op_logical_or \<Longrightarrow> trim_node t dsc a b c = D_op t dsc a b c"
  by (simp add: trim_node_def)

lemma trim_arith: "arith d \<Longrightarrow> trim_self_contained d = d"
  by (induction d) (auto simp: trim_other)

lemma run_self_contained:
  assumes "self_contained a = sc_yes"
  shows "run E x (D_op t op_logical_and a b c) s = run E x a s" "run E x (D_op t op_logical_or a b c) s = run E x a s"
  using self_contained_sound [of a E x s] assms
  by (cases "run E x a s"; auto simp: after_def split: verdict.split)+

lemma trim_logic_run:
  "logic d \<Longrightarrow> logic (trim_self_contained d) \<and> (\<forall>s. run E x (trim_self_contained d) s = run E x d s)"
proof (induction d)
  case (D_op t dsc a b c)
  from D_op.prems show ?case
  proof (cases rule: logic_cases)
    case (land a' b')
    then have ih: "logic (trim_self_contained a)" "logic (trim_self_contained b)"
      "\<And>s. run E x (trim_self_contained a) s = run E x a s" "\<And>s. run E x (trim_self_contained b) s = run E x b s"
      using D_op.IH by auto
    have "run E x (trim_self_contained (D_op t dsc a b c)) s =
        run E x (D_op t dsc (trim_self_contained a) (trim_self_contained b) c) s" for s
      using land by (auto simp: trim_node_def run_self_contained(1) simp del: run.simps)
    moreover have "run E x (D_op t dsc (trim_self_contained a) (trim_self_contained b) c) s =
        run E x (D_op t dsc a b c) s" for s
      using land ih by (auto intro!: after_cong)
    ultimately show ?thesis using land ih by (simp add: trim_node_def)
  next
    case (lor a' b')
    then have ih: "logic (trim_self_contained a)" "logic (trim_self_contained b)"
      "\<And>s. run E x (trim_self_contained a) s = run E x a s" "\<And>s. run E x (trim_self_contained b) s = run E x b s"
      using D_op.IH by auto
    have "run E x (trim_self_contained (D_op t dsc a b c)) s =
        run E x (D_op t dsc (trim_self_contained a) (trim_self_contained b) c) s" for s
      using lor by (auto simp: trim_node_def run_self_contained(2) simp del: run.simps)
    moreover have "run E x (D_op t dsc (trim_self_contained a) (trim_self_contained b) c) s =
        run E x (D_op t dsc a b c) s" for s
      using lor ih by (auto intro!: after_cong)
    ultimately show ?thesis using lor ih by (simp add: trim_node_def)
  next
    case (lnot t' a')
    then show ?thesis using D_op.IH(1) by (auto simp: trim_other integer_number_def)
  next
    case (police dsc' a')
    then have "trim_self_contained (D_op t dsc a b c) = D_op t dsc a b c"
      by (cases a) (auto simp: trim_other)
    with D_op.prems show ?thesis by simp
  next
    case arith
    then show ?thesis using D_op.prems by (simp only: trim_arith simp_thms)
  qed simp
qed simp_all


text \<open>No \<^verbatim>\<open>&&\<close> or \<^verbatim>\<open>||\<close> is left whose left operand always decides.\<close>

fun trimmed :: "data \<Rightarrow> bool" where
  "trimmed (D_op t dsc a b c) \<longleftrightarrow> trimmed a \<and> trimmed b \<and> trimmed c \<and>
     (dsc = op_logical_and \<or> dsc = op_logical_or \<longrightarrow> self_contained a \<noteq> sc_yes)"
| "trimmed d \<longleftrightarrow> True"

lemma trim_trimmed: "trimmed (trim_self_contained d)"
  by (induction d) (auto simp: trim_node_def)

lemma trimmed_id: "trimmed d \<Longrightarrow> trim_self_contained d = d"
  by (induction d) (auto simp: trim_node_def)

section \<open>Swapped operands\<close>

lemma self_contained_side_effect: "self_contained d = sc_yes \<Longrightarrow> side_effect d"
proof (induction d)
  case (D_op t dsc a b c)
  have "self_contained a = sc_yes \<or> self_contained b = sc_yes"
    using D_op.prems by (simp add: Let_def split: if_splits SELF_CONTAINED.splits)
  with D_op.IH(1,2) show ?case by auto
qed (simp_all split: if_splits)

lemma bubble_and_run:
  assumes "bubble_and t a b c = Inr d" "logic a" "logic b"
  shows "run E x d s = run E x (D_op t op_logical_and a b c) s"
proof (cases "\<not> action_tree a \<or> action_tree b")
  case True
  with assms(1) show ?thesis by (simp add: bubble_and_def)
next
  case False
  with assms(1) have "\<not> side_effect a" "\<not> side_effect b" "d = D_op t op_logical_and b a c"
    by (auto simp: bubble_and_def split: if_splits)
  moreover obtain v w where "run E x a s = (truth v, s)" "run E x b s = (truth w, s)"
    using calculation assms(2,3) no_side_effect_run by metis
  ultimately show ?thesis by simp
qed

text \<open>The undefined use of a freed expression is never reached: the error is reported first.\<close>

lemma bubble_and_defined: "bubble_and t a b c \<noteq> Inl (E_undef m)"
  using self_contained_side_effect [of a] by (auto simp: bubble_and_def)

section \<open>The check for expensive policing\<close>

lemma refuse_static_sound:
  "refuse_static_after_policing ee d n_ok z_ok rep = Inr (True, rep') \<Longrightarrow>
   (n_ok \<Longrightarrow> \<forall>s. \<exists>r k. fst (yes s) = V_decided r k) \<Longrightarrow>
   (z_ok \<Longrightarrow> \<forall>s. \<exists>r k. fst (no s) = V_decided r k) \<Longrightarrow>
   \<exists>r k. fst (after (run E x d s) yes no) = V_decided r k"
proof (induction ee d n_ok z_ok rep arbitrary: rep' yes no s rule: refuse_static_after_policing.induct)
  case (1 ee t dsc a b c n_ok z_ok rep)
  consider "dsc = op_logical_and" | "dsc = op_logical_or" | "dsc = op_logical_not" | "dsc = op_conform"
    | "dsc = op_count"
    using "1.prems"(1) by (auto split: if_splits)
  then show ?case
  proof cases
    case 1
    then obtain ok r where r: "refuse_static_after_policing ee b n_ok z_ok rep = Inr (ok, r)"
      "refuse_static_after_policing ee a ok z_ok r = Inr (True, rep')"
      using "1.prems"(1) by (auto simp: rbind_Inr_iff)
    have "\<exists>r k. fst (after (run E x a s) (\<lambda>s. after (run E x b s) yes no) no) = V_decided r k"
    proof (rule "1.IH"(2) [OF 1 r(1) refl r(2)])
      assume ok
      then show "\<forall>s. \<exists>r k. fst (after (run E x b s) yes no) = V_decided r k"
        using "1.IH"(1) [OF 1, of r yes no] r(1) "1.prems"(2,3) by auto
    qed (rule "1.prems"(3))
    then show ?thesis using 1 by (simp add: after_after)
  next
    case 2
    then have n: "dsc \<noteq> op_logical_and" by simp
    obtain ok r where r: "refuse_static_after_policing ee b n_ok z_ok rep = Inr (ok, r)"
      "refuse_static_after_policing ee a n_ok ok r = Inr (True, rep')"
      using "1.prems"(1) 2 by (auto simp: rbind_Inr_iff)
    have "\<exists>r k. fst (after (run E x a s) yes (\<lambda>s. after (run E x b s) yes no)) = V_decided r k"
    proof (rule "1.IH"(4) [OF n 2 r(1) refl r(2) "1.prems"(2)])
      assume ok
      then show "\<forall>s. \<exists>r k. fst (after (run E x b s) yes no) = V_decided r k"
        using "1.IH"(3) [OF n 2, of r yes no] r(1) "1.prems"(2,3) by auto
    qed
    then show ?thesis using 2 by (simp add: after_after)
  next
    case 3
    then have "\<exists>r k. fst (after (run E x a s) no yes) = V_decided r k"
      using "1.IH"(5) [OF _ _ 3, of rep' no yes] "1.prems" by simp
    then show ?thesis using 3 by (simp add: after_after)
  next
    case 4
    then have "n_ok" "z_ok" using "1.prems"(1) by (auto simp: report_policing_def split: if_splits)
    then show ?thesis using 4 "1.prems"(2,3) by (simp add: truth_def)
  next
    case 5
    then have "n_ok" using "1.prems"(1) by (auto simp: report_policing_def split: if_splits)
    then show ?thesis using 5 "1.prems"(2) by simp
  qed
qed (auto simp: decide_def)

end
