(* ===== verification/Iflib_Comb.thy ===== *)
theory Iflib_Comb
  imports Expr_Sem
begin

text \<open>
  \<^verbatim>\<open>tcc/iflib_comb.c\<close>: all \<^verbatim>\<open>if\<close> elements of a qdisc become one expression, an
  \<^verbatim>\<open>||\<close> chain of \<^verbatim>\<open>condition && decision\<close>. Of the records of \<^verbatim>\<open>tree.h\<close> the model keeps
  what the functions read: of an element its condition and the class it selects, of a filter
  whether it is an \<^verbatim>\<open>if\<close> filter and its elements, of a class its filters and its children.
\<close>

section \<open>The hierarchy\<close>

record element =
  if_expr :: data
  parent_class :: class_ref

record filter_rec =
  is_if :: bool
  elements :: "element list"

datatype class_rec = Class_rec (class_filters: "filter_rec list") (class_children: "class_rec list")

record qdisc_rec =
  qdisc_filters :: "filter_rec list"
  qdisc_classes :: "class_rec list"

text \<open>The order in which the callback sees the elements.\<close>

definition if_iterate_filters :: "filter_rec list \<Rightarrow> element list" where
  "if_iterate_filters fs = concat (map elements (filter is_if fs))"

fun if_iterate_class :: "class_rec \<Rightarrow> element list" where
  "if_iterate_class (Class_rec fs cs) = if_iterate_filters fs @ concat (map if_iterate_class cs)"

definition if_iterate_classes :: "class_rec list \<Rightarrow> element list" where
  "if_iterate_classes cs = concat (map if_iterate_class cs)"

definition iflib_comb_iterate :: "qdisc_rec \<Rightarrow> element list" where
  "iflib_comb_iterate q = if_iterate_filters (qdisc_filters q) @ if_iterate_classes (qdisc_classes q)"

section \<open>Decisions\<close>

fun complement_leaf_decisions :: "data \<Rightarrow> class_ref \<Rightarrow> data" where
  "complement_leaf_decisions (D_op t dsc a b c) k =
     D_op t dsc (complement_leaf_decisions a k) (complement_leaf_decisions b k) (complement_leaf_decisions c k)"
| "complement_leaf_decisions (D_decision r c) k = D_decision (if k = class_is_drop then dr_drop else r) (Some k)"
| "complement_leaf_decisions d k = d"

definition class_decision :: "class_ref \<Rightarrow> data" where
  "class_decision k = D_decision (if k = class_is_drop then dr_drop else dr_class) (Some k)"

definition complement_decisions :: "data \<Rightarrow> class_ref \<Rightarrow> data result" where
  "complement_decisions d k =
     rbind (op_binary op_logical_and d (class_decision k)) (\<lambda>d. Inr (complement_leaf_decisions d k))"

definition iflib_combine_callback :: "element \<Rightarrow> data \<Rightarrow> data result" where
  "iflib_combine_callback e expr0 =
     rbind (complement_decisions (if_expr e) (parent_class e)) (\<lambda>expr.
       if type_of expr0 = dt_none then Inr expr else op_binary op_logical_or expr0 expr)"

fun combine_all :: "element list \<Rightarrow> data \<Rightarrow> data result" where
  "combine_all [] expr0 = Inr expr0"
| "combine_all (e # es) expr0 = rbind (iflib_combine_callback e expr0) (combine_all es)"

definition iflib_combine :: "qdisc_rec \<Rightarrow> data result" where
  "iflib_combine q = combine_all (iflib_comb_iterate q) D_none"

section \<open>The first match decides\<close>

text \<open>The specification: the elements in order, the first one whose condition holds selects its class.\<close>

fun first_match :: "'st env \<Rightarrow> ctx \<Rightarrow> element list \<Rightarrow> 'st \<Rightarrow> verdict \<times> 'st" where
  "first_match E x [] s = (V_false, s)"
| "first_match E x (e # es) s =
     (if fst (run E x (if_expr e) s) = V_true
      then run E x (class_decision (parent_class e)) s
      else first_match E x es s)"

definition static_element :: "element \<Rightarrow> bool" where
  "static_element e \<longleftrightarrow> logic (if_expr e) \<and> \<not> side_effect (if_expr e)"

lemma complement_static: "\<not> side_effect d \<Longrightarrow> complement_leaf_decisions d k = d"
  by (induction d) (auto split: if_splits)

lemma complement_decisions_static:
  assumes "logic d" "\<not> side_effect d"
  shows "complement_decisions d k = Inr (D_op dt_unum op_logical_and d (class_decision k) D_none)"
proof -
  have "op_binary op_logical_and d (class_decision k) = Inr (D_op dt_unum op_logical_and d (class_decision k) D_none)"
    using op_binary_lnode(1) [OF assms(1), of "class_decision k"] by (simp add: class_decision_def lnode_def)
  then show ?thesis
    by (simp add: complement_decisions_def complement_static [OF assms(2)] class_decision_def)
qed

lemma callback_static:
  assumes "static_element e" "expr0 = D_none \<or> logic expr0"
  shows "\<exists>d. iflib_combine_callback e expr0 = Inr d \<and> logic d \<and>
    (\<forall>s. run E x d s = (if expr0 = D_none then (\<lambda>no. no s) else after (run E x expr0 s) (\<lambda>s. (V_true, s)))
       (\<lambda>s. first_match E x [e] s))"
proof -
  let ?n = "D_op dt_unum op_logical_and (if_expr e) (class_decision (parent_class e)) D_none"
  have n: "complement_decisions (if_expr e) (parent_class e) = Inr ?n" "logic ?n"
    using assms(1) complement_decisions_static by (auto simp: static_element_def class_decision_def)
  have run: "run E x ?n s = first_match E x [e] s" for s
    using no_side_effect_run [of "if_expr e" E x s] assms(1) by (auto simp: static_element_def truth_def)
  show ?thesis
  proof (cases "expr0 = D_none")
    case True
    then show ?thesis using n run by (simp add: iflib_combine_callback_def del: run.simps first_match.simps)
  next
    case False
    then have l: "logic expr0" "type_of expr0 \<noteq> dt_none"
      using assms(2) logic_type [of expr0] by (auto simp: integer_number_def)
    then show ?thesis
      using n run False
      by (simp add: iflib_combine_callback_def op_binary_lnode logic_lnode run_lnode_simps cong: after_cong
          del: run.simps first_match.simps logic.simps)
  qed
qed

lemma first_match_append:
  assumes "\<forall>e \<in> set es. static_element e"
  shows "first_match E x (es @ fs) s = after (first_match E x es s) (\<lambda>s. (V_true, s)) (first_match E x fs)"
  using assms by (induction es) (auto simp: class_decision_def)

lemma combine_all_static:
  assumes "\<forall>e \<in> set es. static_element e" "logic expr0"
  shows "\<exists>d. combine_all es expr0 = Inr d \<and> logic d \<and>
    (\<forall>s. run E x d s = after (run E x expr0 s) (\<lambda>s. (V_true, s)) (first_match E x es))"
  using assms
proof (induction es arbitrary: expr0)
  case Nil
  then show ?case by (simp add: first_match.simps [abs_def])
next
  case (Cons e es)
  then have "expr0 \<noteq> D_none" by (auto simp: integer_number_def)
  with Cons.prems obtain d where d: "iflib_combine_callback e expr0 = Inr d" "logic d"
    "\<forall>s. run E x d s = after (run E x expr0 s) (\<lambda>s. (V_true, s)) (first_match E x [e])"
    using callback_static [of e expr0 E x] by (auto simp del: first_match.simps)
  obtain d' where "combine_all es d = Inr d'" "logic d'"
    "\<forall>s. run E x d' s = after (run E x d s) (\<lambda>s. (V_true, s)) (first_match E x es)"
    using Cons.IH [OF _ d(2)] Cons.prems(1) by auto
  moreover have "after (after (run E x expr0 s) (\<lambda>s. (V_true, s)) (first_match E x [e])) (\<lambda>s. (V_true, s)) (first_match E x es) =
      after (run E x expr0 s) (\<lambda>s. (V_true, s)) (first_match E x (e # es))" for s
    using first_match_append [of "[e]" E x es] Cons.prems(1)
    by (simp add: after_after cong: after_cong del: first_match.simps)
  ultimately show ?case using d by (simp del: first_match.simps)
qed

lemma iflib_combine_first_match:
  assumes "\<forall>e \<in> set (iflib_comb_iterate q). static_element e" "iflib_comb_iterate q \<noteq> []"
  shows "\<exists>d. iflib_combine q = Inr d \<and> logic d \<and> (\<forall>s. run E x d s = first_match E x (iflib_comb_iterate q) s)"
proof -
  obtain e es where es: "iflib_comb_iterate q = e # es" using assms(2) by (cases "iflib_comb_iterate q") auto
  obtain d where d: "iflib_combine_callback e D_none = Inr d" "logic d" "\<forall>s. run E x d s = first_match E x [e] s"
    using callback_static [of e D_none E x] assms(1) es by auto
  then obtain d' where "combine_all es d = Inr d'" "logic d'"
    "\<forall>s. run E x d' s = after (run E x d s) (\<lambda>s. (V_true, s)) (first_match E x es)"
    using combine_all_static [of es d E x] assms(1) es by auto
  then show ?thesis
    using d first_match_append [of "[e]" E x es] assms(1) es by (simp add: iflib_combine_def del: first_match.simps)
qed

end
