(* ===== verification/Field.thy ===== *)
theory Field
  imports Op
begin

text \<open>
  \<^verbatim>\<open>tcc/field.c\<close>: the table of packet fields with nested scopes, the field roots, and the
  reduction of nested accesses. A \<^verbatim>\<open>FIELD *\<close> is the number a field got when it was created.
  The chain of outer definitions of a field is a list, newest first. Expansion of fields
  and the extraction of preconditions are not modelled.
\<close>

section \<open>The table\<close>

record field_def =
  access :: data
  condition :: data
  def_level :: nat

record field =
  fid :: nat
  fname :: string
  current :: field_def
  outer :: "field_def list"

record field_state =
  field_list :: "field list"
  level :: nat
  next_fid :: nat
  field_roots :: "nat list"

text \<open>Field roots are found by their offset group, and created when there is none.\<close>

definition field_root :: "nat \<Rightarrow> field_state \<Rightarrow> nat \<times> field_state" where
  "field_root g st =
     (g, if g \<in> set (field_roots st) then st else st\<lparr>field_roots := g # field_roots st\<rparr>)"

definition offset_group_taken :: "nat \<Rightarrow> field_state \<Rightarrow> bool" where
  "offset_group_taken g st \<longleftrightarrow> g \<in> set (field_roots st)"

definition field_begin_scope :: "field_state \<Rightarrow> field_state" where
  "field_begin_scope st = st\<lparr>level := level st + 1\<rparr>"

text \<open>What the loop of \<open>field_end_scope\<close> leaves of one field.\<close>

definition end_field :: "nat \<Rightarrow> field \<Rightarrow> field list" where
  "end_field l f =
     (if def_level (current f) = l
      then case outer f of [] \<Rightarrow> [] | d # ds \<Rightarrow> [f\<lparr>current := d, outer := ds\<rparr>]
      else [f])"

definition field_end_scope :: "field_state \<Rightarrow> field_state" where
  "field_end_scope st =
     st\<lparr>field_list := concat (map (end_field (level st)) (field_list st)), level := level st - 1\<rparr>"

definition field_find :: "string \<Rightarrow> field_state \<Rightarrow> field option" where
  "field_find name st = find (\<lambda>f. fname f = name) (field_list st)"

definition field_set :: "string \<Rightarrow> data \<Rightarrow> data \<Rightarrow> field_state \<Rightarrow> field_state result" where
  "field_set name acc cond st =
     (if field_find name st \<noteq> None then Inl (E_yyerror ''field already exists'')
      else Inr (st\<lparr>field_list := \<lparr>fid = next_fid st, fname = name,
                     current = \<lparr>access = acc, condition = cond, def_level = level st\<rparr>, outer = []\<rparr> # field_list st,
                   next_fid := next_fid st + 1\<rparr>))"

fun is_known :: "data \<Rightarrow> nat list \<Rightarrow> unit result" where
  "is_known (D_op t dsc a b c) horizon =
     (if t = dt_field then Inl (E_undef ''union member field'')
      else rbind (is_known a horizon) (\<lambda>_. rbind (is_known b horizon) (\<lambda>_. is_known c horizon)))"
| "is_known (D_field p) horizon =
     (if p \<in> set horizon then Inr () else Inl (E_yyerror ''field defined after redefined field''))"
| "is_known d horizon = Inr ()"

definition redefine :: "nat \<Rightarrow> data \<Rightarrow> data \<Rightarrow> field \<Rightarrow> field" where
  "redefine l acc cond f =
     f\<lparr>current := \<lparr>access = acc, condition = cond, def_level = l\<rparr>,
       outer := (if def_level (current f) = l then outer f else current f # outer f)\<rparr>"

text \<open>The fields after the redefined one in the list are the ones the new definition may use.\<close>

fun redefine_in :: "nat \<Rightarrow> nat \<Rightarrow> data \<Rightarrow> data \<Rightarrow> field list \<Rightarrow> field list result" where
  "redefine_in p l acc cond (f # fs) =
     (if fid f = p then
        rbind (is_known acc (map fid fs)) (\<lambda>_. rbind (is_known cond (map fid fs)) (\<lambda>_.
          Inr (redefine l acc cond f # fs)))
      else rbind (redefine_in p l acc cond fs) (\<lambda>fs. Inr (f # fs)))"
| "redefine_in p l acc cond [] = Inl (E_undef ''no such field'')"

definition field_redefine :: "nat \<Rightarrow> data \<Rightarrow> data \<Rightarrow> field_state \<Rightarrow> field_state result" where
  "field_redefine p acc cond st =
     rbind (redefine_in p (level st) acc cond (field_list st)) (\<lambda>fs. Inr (st\<lparr>field_list := fs\<rparr>))"

section \<open>Nested accesses\<close>

text \<open>
  \<open>reduce_access\<close>. The size operand of an access is always an integer constant, its offset
  absent (type none) or an expression; the loop looks at one access at a time.
\<close>

definition acc_size :: "data \<Rightarrow> u32 result" where
  "acc_size c = (if is_op c then Inl (E_undef ''union member unum'') else u_unum c)"

function reduce_chain :: "data_type \<Rightarrow> data \<Rightarrow> data \<Rightarrow> data \<Rightarrow> data result" where
  "reduce_chain t a b c =
     rbind (acc_size c) (\<lambda>n.
       let c8 = D_unum (if n = 0 then 8 else n)
       in if type_of a = dt_field_root \<and> type_of b = dt_none then Inr (D_op t op_access a b c8)
          else if type_of b = dt_none \<and> n = 0 then
            (case a of
               D_op t' dsc' a' b' c' \<Rightarrow>
                 if dsc' = op_access then reduce_chain t' a' b' c' else Inr a
             | _ \<Rightarrow> Inr a)
          else case a of
            D_op t' dsc' a' b' c' \<Rightarrow>
              if dsc' \<noteq> op_access then Inr (D_op t op_access a b c8)
              else rbind (if type_of b = dt_none then Inr b'
                          else if type_of b' \<noteq> dt_none then op_binary op_plus b b' else Inr b) (\<lambda>b.
                   rbind (if n \<noteq> 0 then Inr n else acc_size c') (\<lambda>n.
                     reduce_chain t a' b (D_unum (if n = 0 then 8 else n))))
          | _ \<Rightarrow> Inr (D_op t op_access a b c8))"
  by pat_completeness auto
termination
  by (relation "measure (\<lambda>(t, a, b, c). size a)") auto

declare reduce_chain.simps [simp del]

definition offset_0 :: "data \<Rightarrow> data" where
  "offset_0 d = (case d of
     D_op t dsc a b c \<Rightarrow> if dsc = op_access \<and> type_of b = dt_none then D_op t dsc a (D_unum 0) c else d
   | _ \<Rightarrow> d)"

lemma size_const: "\<not> is_op d \<Longrightarrow> type_of d \<noteq> dt_list \<Longrightarrow> type_of d \<noteq> dt_assoc \<Longrightarrow> size d = 0"
  by (cases d) simp_all

lemma convert_size: "data_convert (D_unum n) t = Inr d \<Longrightarrow> size d = 0" "data_convert (D_fnum x) t = Inr d \<Longrightarrow> size d = 0"
  by (auto simp: data_convert_def rbind_Inr_iff split: if_splits)

lemma typed_fnum_size: "data_typed_fnum x t = Inr d \<Longrightarrow> size d = 0"
  by (cases t) auto

lemma plus_size: "op_binary op_plus a b = Inr d \<Longrightarrow> size d \<le> size a + size b + 1"
  by (auto simp: op_binary_def plus_eval_def additive_eval_def make_op_def anynum_op_def unum_op_def
      fnum_op_def ipv6_op_def Let_def rbind_Inr_iff dest: convert_size typed_fnum_size split: if_splits)

lemma reduce_chain_other:
  assumes "\<nexists>t' a' b' c'. a = D_op t' op_access a' b' c'"
  shows "reduce_chain t a b c = rbind (acc_size c) (\<lambda>n.
    Inr (if \<not> (type_of a = dt_field_root \<and> type_of b = dt_none) \<and> type_of b = dt_none \<and> n = 0 then a
         else D_op t op_access a b (D_unum (if n = 0 then 8 else n))))"
  using assms by (subst reduce_chain.simps) (cases "acc_size c"; cases a; simp add: Let_def)

lemma reduce_chain_access:
  "reduce_chain t (D_op t' op_access a' b' c') b c = rbind (acc_size c) (\<lambda>n.
     if t' = dt_field_root \<and> type_of b = dt_none
       then Inr (D_op t op_access (D_op t' op_access a' b' c') b (D_unum (if n = 0 then 8 else n)))
     else if type_of b = dt_none \<and> n = 0 then reduce_chain t' a' b' c'
     else rbind (if type_of b = dt_none then Inr b'
                 else if type_of b' \<noteq> dt_none then op_binary op_plus b b' else Inr b) (\<lambda>b.
          rbind (if n \<noteq> 0 then Inr n else acc_size c') (\<lambda>n.
            reduce_chain t a' b (D_unum (if n = 0 then 8 else n)))))"
  by (subst reduce_chain.simps) (cases "acc_size c"; simp add: Let_def)

lemma reduce_chain_size:
  "reduce_chain t a b c = Inr d \<Longrightarrow> size d \<le> size (D_op t op_access a b c)"
proof (induction t a b c arbitrary: d rule: reduce_chain.induct)
  case (1 t a b c)
  show ?case
  proof (cases "\<exists>t' a' b' c'. a = D_op t' op_access a' b' c'")
    case False
    then show ?thesis using "1.prems" by (auto simp: reduce_chain_other rbind_Inr_iff split: if_splits)
  next
    case True
    then obtain t' a' b' c' where a: "a = D_op t' op_access a' b' c'" by blast
    obtain n where n: "acc_size c = Inr n" using "1.prems" by (auto simp: a reduce_chain_access rbind_Inr_iff)
    let ?b = "if type_of b = dt_none then Inr b'
      else if type_of b' \<noteq> dt_none then op_binary op_plus b b' else Inr b"
    consider "d = D_op t op_access a b (D_unum (if n = 0 then 8 else n))"
      | "type_of b = dt_none" "n = 0" "\<not> (type_of a = dt_field_root \<and> type_of b = dt_none)"
          "reduce_chain t' a' b' c' = Inr d"
      | b1 m where "\<not> (type_of b = dt_none \<and> n = 0)" "\<not> (type_of a = dt_field_root \<and> type_of b = dt_none)"
          "?b = Inr b1" "(if n \<noteq> 0 then Inr n else acc_size c') = Inr m"
          "reduce_chain t a' b1 (D_unum (if m = 0 then 8 else m)) = Inr d"
    proof (cases "t' = dt_field_root \<and> type_of b = dt_none")
      case True
      then show thesis using that(1) "1.prems" n by (simp add: a reduce_chain_access)
    next
      case nf: False
      show thesis
      proof (cases "type_of b = dt_none \<and> n = 0")
        case True
        then show thesis using that(2) "1.prems" n nf by (simp add: a reduce_chain_access)
      next
        case False
        have "rbind ?b (\<lambda>b. rbind (if n \<noteq> 0 then Inr n else acc_size c') (\<lambda>n.
            reduce_chain t a' b (D_unum (if n = 0 then 8 else n)))) = Inr d"
          using "1.prems" n nf False by (simp only: a reduce_chain_access rbind.simps if_False)
        then show thesis using that(3) [OF False] nf unfolding rbind_Inr_iff by (auto simp: a)
      qed
    qed
    then show ?thesis
    proof cases
      case 2
      then show ?thesis using "1.IH"(1) [OF n refl _ _ a] by (auto simp: a)
    next
      case 3
      have "size b1 \<le> size b + size b' + 1"
        using 3(3) plus_size [of b b' b1] by (auto split: if_splits)
      moreover have "size d \<le> size (D_op t op_access a' b1 (D_unum (if m = 0 then 8 else m)))"
        using "1.IH"(2) [OF n refl 3(2) 3(1) a _ 3(3) 3(4)] 3(5) by simp
      ultimately show ?thesis by (simp add: a)
    qed simp
  qed
qed

lemma offset_0_size: "size (offset_0 d) \<le> size d"
  by (auto simp: offset_0_def split: data.split)

text \<open>The whole function: the loop on the node, then the operands of what it left.\<close>

definition reduce_head :: "data \<Rightarrow> data result" where
  "reduce_head d = (case d of
     D_op t dsc a b c \<Rightarrow>
       if dsc = op_access then rbind (reduce_chain t a b c) (\<lambda>d. Inr (offset_0 d)) else Inr d
   | _ \<Rightarrow> Inr d)"

lemma reduce_head_size: "reduce_head d = Inr d' \<Longrightarrow> size d' \<le> size d"
  by (cases d) (auto simp: reduce_head_def rbind_Inr_iff intro: order_trans [OF offset_0_size]
      dest!: reduce_chain_size split: if_splits)

function reduce_access :: "data \<Rightarrow> data result" where
  "reduce_access d =
     rbind (reduce_head d) (\<lambda>d. case d of
       D_op t dsc a b c \<Rightarrow>
         rbind (reduce_access a) (\<lambda>a. rbind (reduce_access b) (\<lambda>b. rbind (reduce_access c) (\<lambda>c.
           Inr (D_op t dsc a b c))))
     | _ \<Rightarrow> Inr d)"
  by pat_completeness auto
termination
  by (relation "measure size") (auto dest!: reduce_head_size)

declare reduce_access.simps [simp del]

section \<open>Scopes\<close>

text \<open>What can happen inside one scope: definitions, redefinitions and complete inner scopes.\<close>

inductive scope_run :: "field_state \<Rightarrow> field_state \<Rightarrow> bool" where
  scope_refl: "scope_run st st"
| scope_set: "scope_run st st1 \<Longrightarrow> field_set name acc cond st1 = Inr st2 \<Longrightarrow> scope_run st st2"
| scope_redefine: "scope_run st st1 \<Longrightarrow> field_redefine p acc cond st1 = Inr st2 \<Longrightarrow> scope_run st st2"
| scope_nested: "scope_run st st1 \<Longrightarrow> scope_run (field_begin_scope st1) st2 \<Longrightarrow>
    scope_run st (field_end_scope st2)"
| scope_root: "scope_run st st1 \<Longrightarrow> scope_run st (snd (field_root g st1))"

text \<open>The levels of the definitions of a field decrease outwards and do not exceed the current one.\<close>

fun levels_from :: "nat \<Rightarrow> field_def list \<Rightarrow> bool" where
  "levels_from l [] \<longleftrightarrow> True"
| "levels_from l (d # ds) \<longleftrightarrow> def_level d < l \<and> levels_from (def_level d) ds"

definition field_ok :: "nat \<Rightarrow> field \<Rightarrow> bool" where
  "field_ok l f \<longleftrightarrow> levels_from (l + 1) (current f # outer f)"

definition levels_ok :: "field_state \<Rightarrow> bool" where
  "levels_ok st \<longleftrightarrow> (\<forall>f \<in> set (field_list st). field_ok (level st) f)"

lemma levels_from_mono: "levels_from l ds \<Longrightarrow> l \<le> m \<Longrightarrow> levels_from m ds"
  by (cases ds) auto

lemma end_field_outside: "field_ok l f \<Longrightarrow> end_field (l + 1) f = [f]"
  by (simp add: end_field_def field_ok_def)

lemma end_fields_outside: "\<forall>f \<in> set fs. field_ok l f \<Longrightarrow> concat (map (end_field (l + 1)) fs) = fs"
  using end_field_outside [of l] by (induction fs) auto

lemma redefine_ok: "field_ok l f \<Longrightarrow> field_ok l (redefine l acc cond f)"
  by (auto simp: field_ok_def redefine_def)

lemma end_redefine: "field_ok l f \<Longrightarrow> end_field l (redefine l acc cond f) = end_field l f"
  by (cases f) (auto simp: end_field_def redefine_def split: list.split)

lemma redefine_in_ok:
  "redefine_in p l acc cond fs = Inr fs' \<Longrightarrow> \<forall>f \<in> set fs. field_ok l f \<Longrightarrow>
   (\<forall>f \<in> set fs'. field_ok l f) \<and> concat (map (end_field l) fs') = concat (map (end_field l) fs)"
  by (induction p l acc cond fs arbitrary: fs' rule: redefine_in.induct)
    (auto simp: rbind_Inr_iff redefine_ok end_redefine split: if_splits)

lemma scope_run_invariant:
  "scope_run st st' \<Longrightarrow> levels_ok st \<Longrightarrow>
   levels_ok st' \<and> level st' = level st \<and>
   concat (map (end_field (level st)) (field_list st')) = concat (map (end_field (level st)) (field_list st))"
proof (induction rule: scope_run.induct)
  case (scope_set st st1 name acc cond st2)
  then show ?case
    by (auto simp: field_set_def levels_ok_def field_ok_def end_field_def split: if_splits)
next
  case (scope_redefine st st1 p acc cond st2)
  then obtain fs where "redefine_in p (level st1) acc cond (field_list st1) = Inr fs" "st2 = st1\<lparr>field_list := fs\<rparr>"
    by (auto simp: field_redefine_def rbind_Inr_iff)
  with scope_redefine redefine_in_ok [of p "level st1" acc cond "field_list st1" fs] show ?case
    by (auto simp: levels_ok_def)
next
  case (scope_nested st st1 st2)
  have ok1: "levels_ok (field_begin_scope st1)"
    using scope_nested.IH(1) scope_nested.prems
    by (auto simp: levels_ok_def field_begin_scope_def field_ok_def intro: less_SucI)
  then have "level st2 = level st1 + 1"
    "concat (map (end_field (level st1 + 1)) (field_list st2)) = concat (map (end_field (level st1 + 1)) (field_list st1))"
    using scope_nested.IH(2) by (auto simp: field_begin_scope_def)
  moreover have "concat (map (end_field (level st1 + 1)) (field_list st1)) = field_list st1"
    using scope_nested.IH(1) scope_nested.prems by (intro end_fields_outside) (auto simp: levels_ok_def)
  ultimately have "field_list (field_end_scope st2) = field_list st1" "level (field_end_scope st2) = level st1"
    by (simp_all add: field_end_scope_def)
  then show ?case using scope_nested.IH(1) scope_nested.prems by (auto simp: levels_ok_def)
next
  case (scope_root st st1 g)
  then show ?case by (auto simp: field_root_def levels_ok_def)
qed simp

lemma scope_restores:
  assumes "levels_ok st" "scope_run (field_begin_scope st) st'"
  shows "field_list (field_end_scope st') = field_list st \<and> level (field_end_scope st') = level st"
proof -
  have "levels_ok (field_begin_scope st)"
    using assms(1) by (auto simp: levels_ok_def field_begin_scope_def field_ok_def intro: less_SucI)
  from scope_run_invariant [OF assms(2) this]
  have "level st' = level st + 1"
    "concat (map (end_field (level st + 1)) (field_list st')) = concat (map (end_field (level st + 1)) (field_list st))"
    by (simp_all add: field_begin_scope_def)
  moreover have "concat (map (end_field (level st + 1)) (field_list st)) = field_list st"
    using assms(1) by (intro end_fields_outside) (simp add: levels_ok_def)
  ultimately show ?thesis by (simp add: field_end_scope_def)
qed

end
