(* ===== verification/Iflib_Off.thy ===== *)
theory Iflib_Off
  imports Expr_Sem
begin

text \<open>
  \<^verbatim>\<open>tcc/iflib_off.c\<close>: variable offsets of accesses become \<open>offset\<close> nodes, field roots
  and common offsets are pulled up the tree, constant offsets are pushed down to the
  accesses.
\<close>

section \<open>Offsets out of accesses\<close>

fun use_offset :: "data \<Rightarrow> data result" where
  "use_offset (D_op t dsc a b c) =
     (if dsc = op_access then
        if type_of a \<noteq> dt_field_root then Inl E_abort
        else if type_of b \<noteq> dt_unum then Inl E_abort
        else if is_op b then
          rbind (use_offset b) (\<lambda>b. Inr (D_op t op_offset (D_op t op_access a (D_unum 0) c) b D_none))
        else Inr (D_op t dsc a b c)
      else rbind (use_offset a) (\<lambda>a. rbind (use_offset b) (\<lambda>b. rbind (use_offset c) (\<lambda>c.
           Inr (D_op t dsc a b c)))))"
| "use_offset d = Inr d"

section \<open>Common offsets\<close>

fun have_offset :: "data \<Rightarrow> bool" where
  "have_offset (D_op t dsc a b c) =
     (if dsc = op_access then False
      else if dsc = op_field_root then True
      else if dsc = op_offset then True
      else have_offset a \<or> have_offset b \<or> have_offset c)"
| "have_offset d = False"

fun offset_in_sum :: "data \<Rightarrow> data \<Rightarrow> nat result" where
  "offset_in_sum (D_op t dsc a b c) off =
     rbind (expr_equal (D_op t dsc a b c) off) (\<lambda>eq.
       if eq then Inr 1
       else if dsc \<noteq> op_plus then Inr 0
       else rbind (offset_in_sum a off) (\<lambda>m. rbind (offset_in_sum b off) (\<lambda>n. Inr (m + n))))"
| "offset_in_sum d off = rbind (expr_equal d off) (\<lambda>eq. Inr (if eq then 1 else 0))"

fun have_common_offset :: "data \<Rightarrow> data \<Rightarrow> bool result" where
  "have_common_offset (D_op t dsc a b c) off =
     rbind (expr_equal (D_op t dsc a b c) off) (\<lambda>eq.
       if eq then Inr True
       else if dsc = op_access then Inr False
       else if dsc = op_field_root then Inr False
       else if dsc = op_offset then
         rbind (have_common_offset b off) (\<lambda>ok.
           if \<not> ok then Inr False
           else rbind (offset_in_sum b off) (\<lambda>terms.
             Inr (terms = 1 \<or> terms > 1 \<and> \<not> have_offset off)))
       else rbind (have_common_offset a off) (\<lambda>ok. if \<not> ok then Inr False
         else rbind (have_common_offset b off) (\<lambda>ok. if \<not> ok then Inr False
           else have_common_offset c off)))"
| "have_common_offset d off = Inr True"

text \<open>\<open>remove_offset_from_sum\<close> returns the changed sum, or none when it did not find the offset.\<close>

fun remove_offset_from_sum :: "data \<Rightarrow> data \<Rightarrow> data option result" where
  "remove_offset_from_sum (D_op t dsc a b c) off =
     (if dsc \<noteq> op_plus then Inr None
      else rbind (expr_equal a off) (\<lambda>eq. if eq then Inr (Some b)
        else rbind (expr_equal b off) (\<lambda>eq. if eq then Inr (Some a)
          else rbind (remove_offset_from_sum a off) (\<lambda>r. case r of
              Some a' \<Rightarrow> Inr (Some (D_op t dsc a' b c))
            | None \<Rightarrow> rbind (remove_offset_from_sum b off) (\<lambda>r. case r of
                Some b' \<Rightarrow> Inr (Some (D_op t dsc a b' c))
              | None \<Rightarrow> Inr None)))))"
| "remove_offset_from_sum d off = Inr None"

lemma remove_from_sum_size: "remove_offset_from_sum d off = Inr (Some d') \<Longrightarrow> size d' < size d"
proof (induction d arbitrary: d')
  case (D_op t dsc a b c)
  consider "d' = b" | "d' = a" | a' where "remove_offset_from_sum a off = Inr (Some a')" "d' = D_op t dsc a' b c"
    | b' where "remove_offset_from_sum b off = Inr (Some b')" "d' = D_op t dsc a b' c"
    using D_op.prems by (auto simp: rbind_Inr_iff split: if_splits option.split_asm)
  then show ?case
  proof cases
    case 3
    with D_op.IH(1) show ?thesis by simp
  next
    case 4
    with D_op.IH(2) show ?thesis by simp
  qed simp_all
qed simp_all

text \<open>The changed right operand of an \<open>offset\<close> node.\<close>

definition drop_from_sum :: "op_dsc \<Rightarrow> data \<Rightarrow> data \<Rightarrow> data result" where
  "drop_from_sum dsc b off =
     (if dsc = op_offset
      then rbind (remove_offset_from_sum b off) (\<lambda>r. Inr (case r of Some b' \<Rightarrow> b' | None \<Rightarrow> b))
      else Inr b)"

lemma drop_from_sum_size: "drop_from_sum dsc b off = Inr b' \<Longrightarrow> size b' \<le> size b"
  by (auto simp: drop_from_sum_def rbind_Inr_iff split: if_splits option.splits dest!: remove_from_sum_size)

function (sequential) remove_offset :: "data \<Rightarrow> data \<Rightarrow> data result" where
  "remove_offset (D_op t dsc a b c) off =
     (if dsc = op_access then Inr (D_op t dsc a b c)
      else rbind (if dsc = op_offset then expr_equal b off else Inr False) (\<lambda>eq.
        if eq then Inr a
        else rbind (drop_from_sum dsc b off) (\<lambda>b.
             rbind (remove_offset a off) (\<lambda>a. rbind (remove_offset b off) (\<lambda>b.
             rbind (remove_offset c off) (\<lambda>c. Inr (D_op t dsc a b c)))))))"
| "remove_offset d off = Inr d"
  by pat_completeness auto
termination
  by (relation "measure (\<lambda>(d, off). size d)") (auto dest!: drop_from_sum_size)

fun look_for_offset_in_sum :: "data \<Rightarrow> data \<Rightarrow> data result" where
  "look_for_offset_in_sum (D_op t dsc a b c) expr0 =
     rbind (if dsc = op_plus
            then rbind (look_for_offset_in_sum a expr0) (\<lambda>tmp.
              if type_of tmp \<noteq> dt_none then Inr tmp else look_for_offset_in_sum b expr0)
            else Inr D_none) (\<lambda>tmp.
       if type_of tmp \<noteq> dt_none then Inr tmp
       else rbind (have_common_offset expr0 (D_op t dsc a b c)) (\<lambda>ok.
         Inr (if ok then D_op t dsc a b c else D_none)))"
| "look_for_offset_in_sum d expr0 = Inr D_none"

text \<open>
  \<open>look_for_offset_to_pull\<close> finds the offset; its caller at the top removes the offset from
  the whole expression.
\<close>

fun look_for_offset_to_pull :: "data \<Rightarrow> data \<Rightarrow> data result" where
  "look_for_offset_to_pull (D_op t dsc a b c) expr0 =
     (if dsc = op_access then Inr D_none
      else rbind (look_for_offset_to_pull a expr0) (\<lambda>tmp. if type_of tmp \<noteq> dt_none then Inr tmp
        else rbind (look_for_offset_to_pull b expr0) (\<lambda>tmp. if type_of tmp \<noteq> dt_none then Inr tmp
          else rbind (look_for_offset_to_pull c expr0) (\<lambda>tmp. if type_of tmp \<noteq> dt_none then Inr tmp
            else if dsc = op_offset then look_for_offset_in_sum b expr0 else Inr D_none))))"
| "look_for_offset_to_pull d expr0 = Inr D_none"

section \<open>Field roots\<close>

text \<open>
  The inner option is the variable \<open>common_root\<close>; the outer one tells whether the operand
  agrees with it.
\<close>

definition have_common_root :: "data \<Rightarrow> nat option \<Rightarrow> (bool \<times> nat option) result" where
  "have_common_root d common =
     (case d of
        D_op t dsc a b c \<Rightarrow>
          if \<not> have_offset d then Inr (True, common)
          else if dsc \<noteq> op_field_root then Inr (False, common)
          else (case b of
              D_field_root r \<Rightarrow>
                Inr (case common of Some r' \<Rightarrow> (r = r', common) | None \<Rightarrow> (True, Some r))
            | _ \<Rightarrow> Inl (E_undef ''union member field_root''))
      | _ \<Rightarrow> Inr (True, common))"

definition pull_root :: "data \<Rightarrow> data" where
  "pull_root d =
     (case d of D_op t dsc a b c \<Rightarrow> if dsc = op_field_root then a else d | _ \<Rightarrow> d)"

text \<open>The part of \<open>bubble_roots\<close> after the operands have been done.\<close>

definition wrap_root :: "bool \<Rightarrow> data_type \<Rightarrow> op_dsc \<Rightarrow> data \<Rightarrow> data \<Rightarrow> data \<Rightarrow> nat \<Rightarrow> data result" where
  "wrap_root limit t dsc a b c r =
     (if limit \<and> (dsc = op_logical_and \<or> dsc = op_logical_or) then Inr (D_op t dsc a b c)
      else op_binary op_field_root (D_op t dsc (pull_root a) b c) (D_field_root r))"

definition bubble_node :: "bool \<Rightarrow> data_type \<Rightarrow> op_dsc \<Rightarrow> data \<Rightarrow> data \<Rightarrow> data \<Rightarrow> data result" where
  "bubble_node limit t dsc a b c =
     rbind (have_common_root a None) (\<lambda>(oka, ra).
       if \<not> oka then Inr (D_op t dsc a b c)
       else rbind (have_common_root b ra) (\<lambda>(okb, rb).
         if \<not> okb then
           (case rb of None \<Rightarrow> Inr (D_op t dsc a b c) | Some r \<Rightarrow> wrap_root limit t dsc a b c r)
         else rbind (have_common_root c rb) (\<lambda>(okc, rc).
           if \<not> okc then Inr (D_op t dsc a b c)
           else case rc of
               None \<Rightarrow> Inr (D_op t dsc a b c)
             | Some r \<Rightarrow> wrap_root limit t dsc a (if limit then b else pull_root b)
                 (if limit then c else pull_root c) r)))"

fun bubble_roots :: "bool \<Rightarrow> data \<Rightarrow> data result" where
  "bubble_roots limit (D_op t dsc a b c) =
     rbind (bubble_roots limit a) (\<lambda>a. rbind (bubble_roots limit b) (\<lambda>b. rbind (bubble_roots limit c) (\<lambda>c.
       bubble_node limit t dsc a b c)))"
| "bubble_roots limit (D_field_root r) = op_binary op_field_root D_none (D_field_root r)"
| "bubble_roots limit d = Inr d"

text \<open>\<open>trim_roots\<close>; the second argument is the root in force.\<close>

fun trim_roots :: "data \<Rightarrow> nat \<Rightarrow> data result" where
  "trim_roots (D_op t dsc a b c) r =
     (if dsc = op_field_root then
        (case b of
           D_field_root r' \<Rightarrow>
             if r' = r then trim_roots a r
             else rbind (trim_roots a r') (\<lambda>a. rbind (trim_roots c r') (\<lambda>c. Inr (D_op t dsc a b c)))
         | _ \<Rightarrow> Inl (E_undef ''union member field_root''))
      else rbind (trim_roots a r) (\<lambda>a. rbind (trim_roots b r) (\<lambda>b. rbind (trim_roots c r) (\<lambda>c.
        Inr (D_op t dsc a b c)))))"
| "trim_roots d r = Inr d"

section \<open>Constant offsets into accesses\<close>

text \<open>
  The sums are C \<^verbatim>\<open>int\<close>s that are added to 32-bit offsets; both wrap at 32 bits here.
\<close>

fun extract_sum :: "data \<Rightarrow> u32 \<times> data" where
  "extract_sum (D_op t dsc a b c) =
     (if dsc = op_offset then (let (s, a') = extract_sum a in (s, D_op t dsc a' b c))
      else if dsc \<noteq> op_plus then (0, D_op t dsc a b c)
      else let (m, a') = extract_sum a; (n, b') = extract_sum b
           in case (a', b') of
                (D_unum i, D_unum j) \<Rightarrow> (m + n + (i + j), D_unum 0)
              | (D_unum i, _) \<Rightarrow> (m + n + i, b')
              | (_, D_unum j) \<Rightarrow> (m + n + j, a')
              | _ \<Rightarrow> (m + n, D_op t dsc a' b' c))"
| "extract_sum d = (0, d)"

lemma extract_sum_size: "extract_sum d = (s, d') \<Longrightarrow> size d' \<le> size d"
  by (induction d arbitrary: s d' rule: extract_sum.induct)
    (fastforce simp: Let_def split: if_splits prod.splits data.splits)+


definition add_to_offset :: "data \<Rightarrow> u32 \<Rightarrow> data result" where
  "add_to_offset b base =
     (if is_op b then Inr b
      else case b of
        D_unum n \<Rightarrow> Inr (D_unum (n + base))
      | D_ipv4 n \<Rightarrow> Inr (D_ipv4 (n + base))
      | _ \<Rightarrow> Inl (E_undef ''union member unum''))"

function (sequential) do_push_offset :: "data \<Rightarrow> u32 \<Rightarrow> data result" where
  "do_push_offset (D_op t dsc a b c) base =
     (let (s, b1) = (if dsc = op_offset then extract_sum b else (0, b)); new_base = base + s
      in case (if dsc = op_offset then b1 else D_none) of
           D_unum n \<Rightarrow> do_push_offset a (new_base + n)
         | _ \<Rightarrow>
             if dsc = op_access then rbind (add_to_offset b base) (\<lambda>b. Inr (D_op t dsc a b c))
             else rbind (do_push_offset a new_base) (\<lambda>a. rbind (do_push_offset b1 base) (\<lambda>b.
                  rbind (do_push_offset c base) (\<lambda>c. Inr (D_op t dsc a b c)))))"
| "do_push_offset d base = Inr d"
  by pat_completeness auto
termination
  by (relation "measure (\<lambda>(d, base). size d)") (auto dest!: extract_sum_size [OF sym] split: if_splits)

definition push_offset :: "data \<Rightarrow> data result" where
  "push_offset d = do_push_offset d 0"

text \<open>
  \<open>pull_offset\<close>, with a bound on the number of nested calls; \<open>None\<close> is an exhausted bound.
\<close>

fun pull_offset :: "nat \<Rightarrow> data \<Rightarrow> data result option" where
  "pull_offset 0 d = None"
| "pull_offset (Suc n) d =
     (case (case d of D_op t op_offset a b c \<Rightarrow> Inr d | _ \<Rightarrow>
          rbind (look_for_offset_to_pull d d) (\<lambda>found.
            if type_of found \<noteq> dt_none
            then rbind (remove_offset d found) (\<lambda>d. op_binary op_offset d found) else Inr d)) of
        Inl e \<Rightarrow> Some (Inl e)
      | Inr (D_op t dsc a b c) \<Rightarrow>
          (case (pull_offset n a, pull_offset n b, pull_offset n c) of
             (Some ra, Some rb, Some rc) \<Rightarrow>
               Some (rbind ra (\<lambda>a. rbind rb (\<lambda>b. rbind rc (\<lambda>c. Inr (D_op t dsc a b c)))))
           | _ \<Rightarrow> None)
      | Inr d \<Rightarrow> Some (Inr d))"

section \<open>The pass\<close>

text \<open>
  The pass without the debugging output. The root the context starts with is \<open>field_root(0)\<close>;
  only the u32 target (\<open>for_u32\<close>) limits the bubbling of roots and pulls offsets up.
\<close>

definition iflib_offset :: "nat \<Rightarrow> bool \<Rightarrow> data \<Rightarrow> data result option" where
  "iflib_offset n for_u32 d =
     (case rbind (use_offset d) (\<lambda>d. rbind (bubble_roots for_u32 d) (\<lambda>d. trim_roots d 0)) of
        Inl e \<Rightarrow> Some (Inl e)
      | Inr d \<Rightarrow>
          (case (if for_u32 then pull_offset n d else Some (Inr d)) of
             None \<Rightarrow> None
           | Some r \<Rightarrow> Some (rbind r push_offset)))"


section \<open>The value of an access\<close>

text \<open>Accesses as the parser leaves them: a root, an offset and a constant size.\<close>

fun accesses_ok :: "data \<Rightarrow> bool" where
  "accesses_ok (D_op t dsc a b c) \<longleftrightarrow>
     (if dsc = op_access
      then (\<exists>r. a = D_field_root r) \<and> type_of b = dt_unum \<and> accesses_ok b \<and> (\<exists>n. c = D_unum n)
      else dsc \<noteq> op_field_root \<and> accesses_ok a \<and> accesses_ok b \<and> accesses_ok c)"
| "accesses_ok (D_field_root r) \<longleftrightarrow> False"
| "accesses_ok d \<longleftrightarrow> True"

text \<open>The same, when only constant offsets are left in accesses.\<close>

fun const_accesses :: "data \<Rightarrow> bool" where
  "const_accesses (D_op t dsc a b c) \<longleftrightarrow>
     (if dsc = op_access
      then (\<exists>r. a = D_field_root r) \<and> (\<exists>n. b = D_unum n) \<and> (\<exists>n. c = D_unum n)
      else dsc \<noteq> op_field_root \<and> const_accesses a \<and> const_accesses b \<and> const_accesses c)"
| "const_accesses (D_field_root r) \<longleftrightarrow> False"
| "const_accesses d \<longleftrightarrow> True"

lemma unum_leaf: "type_of b = dt_unum \<Longrightarrow> \<not> is_op b \<Longrightarrow> \<exists>n. b = D_unum n"
  by (cases b) auto

lemma use_offset_neval:
  "accesses_ok d \<Longrightarrow> \<exists>d'. use_offset d = Inr d' \<and> const_accesses d' \<and> (\<forall>x. neval E x d' = neval E x d)"
proof (induction d)
  case (D_op t dsc a b c)
  show ?case
  proof (cases "dsc = op_access")
    case True
    then obtain r n where a: "a = D_field_root r" "c = D_unum n" and b: "type_of b = dt_unum" "accesses_ok b"
      using D_op.prems by auto
    show ?thesis
    proof (cases "is_op b")
      case op: True
      obtain b' where b': "use_offset b = Inr b'" "const_accesses b'" "\<forall>x. neval E x b' = neval E x b"
        using D_op.IH(2) b by auto
      then show ?thesis using True a b op by simp
    next
      case False
      then show ?thesis using unum_leaf [OF b(1)] True a by auto
    qed
  next
    case False
    then obtain a' b' c' where
      "use_offset a = Inr a'" "const_accesses a'" "\<forall>x. neval E x a' = neval E x a"
      "use_offset b = Inr b'" "const_accesses b'" "\<forall>x. neval E x b' = neval E x b"
      "use_offset c = Inr c'" "const_accesses c'"
      using D_op by auto
    then show ?thesis using False D_op.prems by auto
  qed
qed auto


section \<open>Pulled roots\<close>

text \<open>
  After \<open>bubble_roots\<close> every access is below a root of its own, so the value no longer
  depends on the root the context has.
\<close>

definition root_free :: "'st env \<Rightarrow> data \<Rightarrow> bool" where
  "root_free E d \<longleftrightarrow> (\<forall>r r' off. neval E (r, off) d = neval E (r', off) d)"

fun rooted :: "data \<Rightarrow> bool" where
  "rooted (D_op t dsc a b c) \<longleftrightarrow> (dsc = op_access \<longrightarrow> \<not> is_op a \<and> \<not> is_op c) \<and> rooted a \<and> (if dsc = op_field_root then \<exists>r. b = D_field_root r else rooted b) \<and> rooted c"
| "rooted (D_field_root r) \<longleftrightarrow> False"
| "rooted d \<longleftrightarrow> True"

definition bubbled_as :: "'st env \<Rightarrow> data \<Rightarrow> data \<Rightarrow> bool" where
  "bubbled_as E d d' \<longleftrightarrow> rooted d' \<and> root_free E d' \<and> (\<forall>x. neval E x d' = neval E x d)"

lemma have_common_root_ok:
  assumes "rooted d" "root_free E d"
  obtains ok common' where "have_common_root d common = Inr (ok, common')"
    "common \<noteq> None \<Longrightarrow> common' = common" "ok \<Longrightarrow> common' = None \<Longrightarrow> pull_root d = d"
    "\<And>r f off. ok \<Longrightarrow> common' = Some r \<Longrightarrow> neval E (r, off) (pull_root d) = neval E (f, off) d"
    "rooted (pull_root d)"
proof (cases "\<exists>t a b c. d = D_op t op_field_root a b c")
  case True
  then obtain t a r c where d: "d = D_op t op_field_root a (D_field_root r) c" using assms(1) by auto
  show thesis
  proof (cases common)
    case None
    then show thesis
      using assms(1) by (intro that [of True "Some r"]) (auto simp: d have_common_root_def pull_root_def)
  next
    case (Some r')
    then show thesis
      using assms(1) by (intro that [of "r = r'" common]) (auto simp: d have_common_root_def pull_root_def)
  qed
next
  case False
  then have p: "pull_root d = d" by (auto simp: pull_root_def split: data.split)
  have "have_common_root d common = Inr (True, common) \<or> have_common_root d common = Inr (False, common)"
    using False by (auto simp: have_common_root_def split: data.split)
  moreover have "neval E (r, off) d = neval E (f, off) d" for r f off
    using assms(2) by (simp add: root_free_def)
  ultimately show thesis using that p assms(1) by metis
qed

lemma neval_node_cong:
  assumes "dsc \<noteq> op_access" "dsc \<noteq> op_field_root"
    and "\<And>off. neval E (r, off) a = neval E (f, off) a'" "\<And>off. neval E (r, off) b = neval E (f, off) b'"
  shows "neval E (r, off) (D_op t dsc a b c) = neval E (f, off) (D_op t' dsc a' b' c')"
  using assms by simp

lemma wrap_root_neval:
  assumes "dsc \<noteq> op_access" "dsc \<noteq> op_field_root"
    and "\<And>off f. neval E (r, off) (pull_root a) = neval E (f, off) a'" "\<And>off f. neval E (r, off) b = neval E (f, off) b'"
    and "rooted (pull_root a)" "rooted b" "rooted c" "\<not> (limit \<and> (dsc = op_logical_and \<or> dsc = op_logical_or))"
  shows "\<exists>d. wrap_root limit t dsc a b c r = Inr d \<and> bubbled_as E (D_op t dsc a' b' c') d"
proof -
  let ?d = "D_op t op_field_root (D_op t dsc (pull_root a) b c) (D_field_root r) D_none"
  have "wrap_root limit t dsc a b c r = Inr ?d"
    using assms(8) by (auto simp: wrap_root_def op_binary_def field_root_eval_def make_op_def)
  moreover have "neval E (f, off) ?d = neval E (f', off) (D_op t dsc a' b' c')" for f f' off
    using neval_node_cong [OF assms(1,2), of E r "pull_root a" f' a' b b' off t c t c'] assms(3,4) by simp
  then have "root_free E ?d" "\<forall>x. neval E x ?d = neval E x (D_op t dsc a' b' c')"
    unfolding root_free_def by (metis, metis surj_pair)
  ultimately show ?thesis using assms(1,2,5-7) by (auto simp: bubbled_as_def simp del: neval.simps)
qed

lemma root_free_node:
  assumes "dsc \<noteq> op_access" "dsc \<noteq> op_field_root" "root_free E a" "root_free E b"
  shows "root_free E (D_op t dsc a b c)"
  using assms neval_node_cong [OF assms(1,2), of E] unfolding root_free_def by metis

lemma bubble_node_neval:
  assumes "dsc \<noteq> op_access" "dsc \<noteq> op_field_root"
    and a: "rooted a" "root_free E a" and b: "rooted b" "root_free E b" and c: "rooted c" "root_free E c"
  shows "\<exists>d. bubble_node limit t dsc a b c = Inr d \<and> bubbled_as E (D_op t dsc a b c) d"
proof -
  obtain oka ra where A: "have_common_root a None = Inr (oka, ra)" "oka \<Longrightarrow> ra = None \<Longrightarrow> pull_root a = a"
      "\<And>r f off. oka \<Longrightarrow> ra = Some r \<Longrightarrow> neval E (r, off) (pull_root a) = neval E (f, off) a" "rooted (pull_root a)"
    using have_common_root_ok [OF a, of None] by metis
  obtain okb rb where B: "have_common_root b ra = Inr (okb, rb)" "ra \<noteq> None \<Longrightarrow> rb = ra" "okb \<Longrightarrow> rb = None \<Longrightarrow> pull_root b = b"
      "\<And>r f off. okb \<Longrightarrow> rb = Some r \<Longrightarrow> neval E (r, off) (pull_root b) = neval E (f, off) b" "rooted (pull_root b)"
    using have_common_root_ok [OF b, of ra] by metis
  obtain okc rc where C: "have_common_root c rb = Inr (okc, rc)" "rb \<noteq> None \<Longrightarrow> rc = rb" "rooted (pull_root c)"
    using have_common_root_ok [OF c, of rb] by metis
  have free: "neval E (r, off) d = neval E (f, off) d" if "root_free E d" for d r f off
    using that by (simp add: root_free_def)
  have same: "bubbled_as E (D_op t dsc a b c) (D_op t dsc a b c)"
    using assms by (auto simp: bubbled_as_def root_free_node simp del: neval.simps)
  have pa: "neval E (r, off) (pull_root a) = neval E (f, off) a" if oka "ra = None \<or> ra = Some r" for r f off
    using that A(2,3) free [OF a(2)] by metis
  have pb: "neval E (r, off) (pull_root b) = neval E (f, off) b" if okb "rb = None \<or> rb = Some r" for r f off
    using that B(3,4) free [OF b(2)] by metis
  have wrap: "\<exists>d. wrap_root limit t dsc a b' c' r = Inr d \<and> bubbled_as E (D_op t dsc a b c) d"
    if "oka" "ra = None \<or> ra = Some r" "rooted b'" "rooted c'" "\<And>off f. neval E (r, off) b' = neval E (f, off) b"
      "limit \<and> (dsc = op_logical_and \<or> dsc = op_logical_or) \<Longrightarrow> b' = b \<and> c' = c" for r b' c'
  proof (cases "limit \<and> (dsc = op_logical_and \<or> dsc = op_logical_or)")
    case True
    then show ?thesis using same that(6) by (simp add: wrap_root_def)
  next
    case False
    show ?thesis by (rule wrap_root_neval) (use that pa A(4) assms(1,2) False in auto)
  qed
  consider "\<not> oka" | "oka" "\<not> okb" "rb = None" | r where "oka" "\<not> okb" "rb = Some r"
    | "oka" "okb" "\<not> okc" | "oka" "okb" "okc" "rc = None" | r where "oka" "okb" "okc" "rc = Some r"
    by (cases rb; cases rc) auto
  then show ?thesis
  proof cases
    case 3
    have "ra = None \<or> ra = Some r" using 3 B(2) by (cases ra) auto
    with 3 wrap [OF 3(1) this b(1) c(1)] free [OF b(2)] show ?thesis
      using A(1) B(1) by (auto simp: bubble_node_def)
  next
    case 6
    have r: "rb = None \<or> rb = Some r" "ra = None \<or> ra = Some r" using 6 B(2) C(2) by (cases ra; cases rb; auto)+
    have "\<exists>d. wrap_root limit t dsc a (if limit then b else pull_root b) (if limit then c else pull_root c) r = Inr d
        \<and> bubbled_as E (D_op t dsc a b c) d"
      by (rule wrap [OF 6(1) r(2)]) (use pb [OF 6(2) r(1)] free [OF b(2)] b(1) c(1) B(5) C(3) in auto)
    then show ?thesis using 6 A(1) B(1) C(1) by (auto simp: bubble_node_def)
  qed (use A(1) B(1) C(1) same in \<open>auto simp: bubble_node_def\<close>)
qed


lemma bubble_roots_neval:
  "const_accesses d \<Longrightarrow> \<exists>d'. bubble_roots limit d = Inr d' \<and> bubbled_as E d d'"
proof (induction d)
  case (D_op t dsc a b c)
  show ?case
  proof (cases "dsc = op_access")
    case True
    then obtain r m n where abc: "a = D_field_root r" "b = D_unum m" "c = D_unum n" using D_op.prems by auto
    let ?a = "D_op dt_none op_field_root D_none (D_field_root r) D_none"
    have "bubble_roots limit (D_op t dsc a b c) = bubble_node limit t op_access ?a b c"
      using True by (simp add: abc op_binary_def field_root_eval_def make_op_def)
    also have "\<dots> = Inr (D_op t op_field_root (D_op t op_access D_none b c) (D_field_root r) D_none)"
      by (simp add: abc bubble_node_def have_common_root_def wrap_root_def pull_root_def op_binary_def
          field_root_eval_def make_op_def)
    finally show ?thesis using True by (auto simp: abc bubbled_as_def root_free_def)
  next
    case False
    then have "dsc \<noteq> op_field_root" "const_accesses a" "const_accesses b" "const_accesses c"
      using D_op.prems by auto
    then obtain a' b' c' where
      a': "bubble_roots limit a = Inr a'" "bubbled_as E a a'" and
      b': "bubble_roots limit b = Inr b'" "bubbled_as E b b'" and
      c': "bubble_roots limit c = Inr c'" "bubbled_as E c c'"
      using D_op.IH by blast
    then obtain d where d: "bubble_node limit t dsc a' b' c' = Inr d" "bubbled_as E (D_op t dsc a' b' c') d"
      using bubble_node_neval [where dsc = dsc and E = E and a = a' and b = b' and c = c' and limit = limit and t = t] False \<open>dsc \<noteq> op_field_root\<close> by (auto simp: bubbled_as_def)
    moreover have "neval E x (D_op t dsc a' b' c') = neval E x (D_op t dsc a b c)" for x
      using a'(2) b'(2) False \<open>dsc \<noteq> op_field_root\<close> unfolding bubbled_as_def by (cases x) simp
    ultimately show ?thesis using a'(1) b'(1) c'(1) by (auto simp: bubbled_as_def)
  qed
qed (auto simp: bubbled_as_def root_free_def)

section \<open>Redundant roots\<close>

lemma trim_roots_leaf: "\<not> is_op d \<Longrightarrow> trim_roots d r = Inr d"
  by (cases d) auto

lemma trim_roots_neval:
  "rooted d \<Longrightarrow> \<exists>d'. trim_roots d r = Inr d' \<and> (\<forall>off. neval E (r, off) d' = neval E (r, off) d)"
proof (induction d arbitrary: r)
  case (D_op t dsc a b c)
  show ?case
  proof (cases "dsc = op_field_root")
    case True
    then obtain r' where b: "b = D_field_root r'" "rooted a" "rooted c" using D_op.prems by auto
    obtain c' where "trim_roots c r' = Inr c'" using D_op.IH(3) b by blast
    then show ?thesis using D_op.IH(1) [OF b(2), of r'] True b by auto
  next
    case False
    then obtain a' b' c' where
      "trim_roots a r = Inr a'" "\<forall>off. neval E (r, off) a' = neval E (r, off) a"
      "trim_roots b r = Inr b'" "\<forall>off. neval E (r, off) b' = neval E (r, off) b" "trim_roots c r = Inr c'"
      using D_op.IH(1) [of r] D_op.IH(2) [of r] D_op.IH(3) [of r] D_op.prems by auto
    moreover from this have "dsc = op_access \<Longrightarrow> a' = a \<and> c' = c"
      using D_op.prems False trim_roots_leaf by auto
    ultimately show ?thesis using False by auto
  qed
qed auto

end
