(* ===== verification/Iflib_Arith.thy ===== *)
theory Iflib_Arith
  imports Op_Fold Iflib_Prune
begin

text \<open>
  \<^verbatim>\<open>tcc/iflib_arith.c\<close>: arithmetic is rewritten until only comparisons of masked accesses with
  constants are left, and these become tests of single bits or of prefixes. An update of an
  operator node in place is a new node; the debugging output is left out.
\<close>

section \<open>Logarithms\<close>

text \<open>The loop of \<open>log_2\<close>; it is entered with numbers other than zero only.\<close>

function strip_zeros :: "u32 \<Rightarrow> int \<Rightarrow> u32 \<times> int" where
  "strip_zeros v ld = (if v = 0 \<or> bit v 0 then (v, ld) else strip_zeros (drop_bit 1 v) (ld + 1))"
  by pat_completeness auto
termination
proof (relation "measure (\<lambda>(v, ld). unat v)")
  fix v :: u32 and ld :: int
  assume "\<not> (v = 0 \<or> bit v 0)"
  then have "0 < unat v" by (simp add: unat_gt_0)
  then show "((drop_bit 1 v, ld + 1), v, ld) \<in> measure (\<lambda>(v, ld). unat v)"
    by (simp add: drop_bit_eq_div unat_div)
qed simp

declare strip_zeros.simps [simp del]

definition log_2 :: "u32 \<Rightarrow> int" where
  "log_2 v = (if v = 0 then -1 else let (v, ld) = strip_zeros v 0 in if v = 1 then ld else -1)"

text \<open>
  \<open>log_2_any\<close>. The first loop tests \<^verbatim>\<open>v[i]\<close> before it tests \<^verbatim>\<open>i < 4\<close>, so for zero it reads behind
  the array.
\<close>

fun log_2_any :: "data \<Rightarrow> bool \<Rightarrow> int result" where
  "log_2_any (D_unum n) increment =
     (let n = (if increment then n + 1 else n)
      in if increment \<and> n = 0 then Inr 32 else Inr (log_2 n))"
| "log_2_any (D_ipv6 u) increment =
     (let u = (if increment then u128_add_32 u 1 else u)
      in if increment \<and> u128_is_zero u then Inr 128
         else case u of U128 a0 a1 a2 a3 \<Rightarrow>
           if a0 \<noteq> 0 then Inr (if log_2 a0 = -1 \<or> a1 \<noteq> 0 \<or> a2 \<noteq> 0 \<or> a3 \<noteq> 0 then -1 else log_2 a0)
           else if a1 \<noteq> 0 then Inr (if log_2 a1 = -1 \<or> a2 \<noteq> 0 \<or> a3 \<noteq> 0 then -1 else log_2 a1 + 32)
           else if a2 \<noteq> 0 then Inr (if log_2 a2 = -1 \<or> a3 \<noteq> 0 then -1 else log_2 a2 + 64)
           else if a3 \<noteq> 0 then Inr (if log_2 a3 = -1 then -1 else log_2 a3 + 96)
           else Inl (E_undef ''read behind v[3]''))"
| "log_2_any d increment = Inl E_abort"

section \<open>Multiplication, division and remainder\<close>

text \<open>
  The constant is passed as \<^verbatim>\<open>uint8_t\<close>, which keeps its lowest 8 bits. A result \<open>None\<close> stands for
  the return value 0, nothing was done.
\<close>

definition as_u8 :: "u32 \<Rightarrow> u32" where
  "as_u8 n = take_bit 8 n"

definition mul_opt :: "data \<Rightarrow> u32 \<Rightarrow> data option result" where
  "mul_opt x val =
     (if val = 0 then Inr (Some (D_unum 0))
      else let ld = log_2 val
           in if ld = -1 then Inr None
              else if ld = 0 then Inr (Some x)
              else rbind (op_binary op_shift_left x (D_unum (word_of_int ld))) (\<lambda>d. Inr (Some d)))"

definition div_l_opt :: "u32 \<Rightarrow> data option" where
  "div_l_opt val = (if val \<noteq> 0 then None else Some (D_unum 0))"

definition div_r_opt :: "data \<Rightarrow> u32 \<Rightarrow> data option result" where
  "div_r_opt x val =
     (let ld = log_2 val
      in if ld = -1 then Inr None
         else if ld = 0 then Inr (Some x)
         else rbind (op_binary op_shift_right x (D_unum (word_of_int ld))) (\<lambda>d. Inr (Some d)))"

definition mod_opt :: "data_type \<Rightarrow> data \<Rightarrow> data \<Rightarrow> u32 \<Rightarrow> u32 \<Rightarrow> data option" where
  "mod_opt t x c n val =
     (if val = 1 then Some (D_unum 0)
      else if log_2 val = -1 then None
      else Some (D_op t op_and x (D_unum (n - 1)) c))"

text \<open>
  One node whose operands were processed already. The result says whether the new expression is
  processed again.
\<close>

definition opt_result :: "data \<Rightarrow> data option \<Rightarrow> bool \<times> data" where
  "opt_result d r = (case r of None \<Rightarrow> (False, d) | Some d' \<Rightarrow> (True, d'))"

fun unum_const :: "data \<Rightarrow> u32 option" where
  "unum_const (D_unum n) = Some n"
| "unum_const d = None"

lemma unum_const_Some [simp]: "unum_const d = Some n \<longleftrightarrow> d = D_unum n"
  by (cases d) auto

definition mul_div_mod_node :: "data_type \<Rightarrow> op_dsc \<Rightarrow> data \<Rightarrow> data \<Rightarrow> data \<Rightarrow> (bool \<times> data) result" where
  "mul_div_mod_node t dsc a b c =
     (let d = D_op t dsc a b c
      in if dsc = op_mult then
           (case unum_const a of
              Some n \<Rightarrow> rbind (mul_opt b (as_u8 n)) (\<lambda>r. Inr (opt_result d r))
            | None \<Rightarrow>
                (case unum_const b of
                   Some n \<Rightarrow> rbind (mul_opt a (as_u8 n)) (\<lambda>r. Inr (opt_result d r))
                 | None \<Rightarrow> Inr (False, d)))
         else if dsc = op_div then
           (case unum_const a of
              Some n \<Rightarrow> Inr (opt_result d (div_l_opt (as_u8 n)))
            | None \<Rightarrow>
                (case unum_const b of
                   Some n \<Rightarrow> rbind (div_r_opt a (as_u8 n)) (\<lambda>r. Inr (opt_result d r))
                 | None \<Rightarrow> rbind (expr_equal a b) (\<lambda>eq. Inr (False, if eq then D_unum 1 else d))))
         else if dsc = op_mod then
           (case unum_const b of
              Some n \<Rightarrow> Inr (opt_result d (mod_opt t a c n (as_u8 n)))
            | None \<Rightarrow> rbind (expr_equal a b) (\<lambda>eq. Inr (False, if eq then D_unum 0 else d)))
         else Inr (False, d))"

text \<open>The number of operators the pass looks for; processing an expression again has fewer.\<close>

fun mdm_count :: "data \<Rightarrow> nat" where
  "mdm_count (D_op t dsc a b c) =
     (if dsc = op_mult \<or> dsc = op_div \<or> dsc = op_mod then 1 else 0) + mdm_count a + mdm_count b + mdm_count c"
| "mdm_count d = 0"

lemma shift_count:
  "op_binary op_shift_left x (D_unum n) = Inr d \<Longrightarrow> mdm_count d \<le> mdm_count x"
  "op_binary op_shift_right x (D_unum n) = Inr d \<Longrightarrow> mdm_count d \<le> mdm_count x"
  by (cases x; auto simp: op_binary_def shift_eval_def make_op_def rbind_Inr_iff split: if_splits)+

lemma mul_opt_count: "mul_opt x v = Inr (Some d) \<Longrightarrow> mdm_count d \<le> mdm_count x"
  by (auto simp: mul_opt_def Let_def rbind_Inr_iff shift_count split: if_splits)

lemma div_r_opt_count: "div_r_opt x v = Inr (Some d) \<Longrightarrow> mdm_count d \<le> mdm_count x"
  by (auto simp: div_r_opt_def Let_def rbind_Inr_iff shift_count split: if_splits)

lemma div_l_opt_count: "div_l_opt v = Some d \<Longrightarrow> mdm_count d = 0"
  by (auto simp: div_l_opt_def split: if_splits)

lemma mod_opt_count: "mod_opt t x c n v = Some d \<Longrightarrow> mdm_count d \<le> mdm_count x + mdm_count c"
  by (auto simp: mod_opt_def split: if_splits)

text \<open>What the node function makes is not larger, and smaller when it is processed again.\<close>

definition shrinks :: "data \<Rightarrow> bool \<times> data \<Rightarrow> bool" where
  "shrinks d r \<longleftrightarrow> mdm_count (snd r) \<le> mdm_count d \<and> (fst r \<longrightarrow> mdm_count (snd r) < mdm_count d)"

lemma shrinks_opt: "(\<And>e. r = Some e \<Longrightarrow> mdm_count e < mdm_count d) \<Longrightarrow> shrinks d (opt_result d r)"
  by (cases r) (auto simp: shrinks_def opt_result_def less_imp_le)

lemma mul_div_mod_node_shrinks:
  assumes "mul_div_mod_node t dsc a b c = Inr r"
  shows "shrinks (D_op t dsc a b c) r"
proof -
  let ?d = "D_op t dsc a b c"
  consider n o' where "dsc = op_mult" "a = D_unum n" "mul_opt b (as_u8 n) = Inr o'" "r = opt_result ?d o'"
    | n o' where "dsc = op_mult" "b = D_unum n" "mul_opt a (as_u8 n) = Inr o'" "r = opt_result ?d o'"
    | n where "dsc = op_div" "a = D_unum n" "r = opt_result ?d (div_l_opt (as_u8 n))"
    | n o' where "dsc = op_div" "b = D_unum n" "div_r_opt a (as_u8 n) = Inr o'" "r = opt_result ?d o'"
    | n where "dsc = op_mod" "b = D_unum n" "r = opt_result ?d (mod_opt t a c n (as_u8 n))"
    | e where "r = (False, e)" "mdm_count e \<le> mdm_count ?d"
    using assms unfolding mul_div_mod_node_def Let_def
    by (cases "unum_const a"; cases "unum_const b") (auto simp: rbind_Inr_iff split: if_splits)
  then show ?thesis
  proof cases
    case 1
    then show ?thesis using mul_opt_count [of b] by (force intro!: shrinks_opt simp: less_Suc_eq_le)
  next
    case 2
    then show ?thesis using mul_opt_count [of a] by (force intro!: shrinks_opt simp: less_Suc_eq_le)
  next
    case 3
    then show ?thesis using div_l_opt_count by (auto intro!: shrinks_opt)
  next
    case 4
    then show ?thesis using div_r_opt_count [of a] by (force intro!: shrinks_opt simp: less_Suc_eq_le)
  next
    case 5
    then show ?thesis using mod_opt_count [of t a c] by (auto intro!: shrinks_opt simp: less_Suc_eq_le)
  qed (simp add: shrinks_def)
qed

function (sequential) mul_div_mod :: "data \<Rightarrow> data result" where
  "mul_div_mod (D_op t dsc a b c) =
     rbind (mul_div_mod a) (\<lambda>a. rbind (mul_div_mod b) (\<lambda>b. rbind (mul_div_mod c) (\<lambda>c.
       rbind (mul_div_mod_node t dsc a b c) (\<lambda>(again, d). if again then mul_div_mod d else Inr d))))"
| "mul_div_mod d = Inr d"
  by pat_completeness auto

lemma mul_div_mod_count:
  "mul_div_mod_dom d \<Longrightarrow> mul_div_mod d = Inr d' \<Longrightarrow> mdm_count d' \<le> mdm_count d"
proof (induction arbitrary: d' rule: mul_div_mod.pinduct)
  case (1 t dsc a b c)
  from "1.prems" obtain a' b' c' again e where
    a: "mul_div_mod a = Inr a'" and b: "mul_div_mod b = Inr b'" and c: "mul_div_mod c = Inr c'" and
    n: "mul_div_mod_node t dsc a' b' c' = Inr (again, e)" "(if again then mul_div_mod e else Inr e) = Inr d'"
    by (auto simp: mul_div_mod.psimps(1) [OF "1.hyps"] rbind_Inr_iff)
  have "mdm_count a' \<le> mdm_count a" "mdm_count b' \<le> mdm_count b" "mdm_count c' \<le> mdm_count c"
    using "1.IH"(1) [OF a] "1.IH"(2) [OF a b] "1.IH"(3) [OF a b c] by simp_all
  moreover have "mdm_count e \<le> mdm_count (D_op t dsc a' b' c')"
    using mul_div_mod_node_shrinks [OF n(1)] by (simp add: shrinks_def)
  moreover have "mdm_count d' \<le> mdm_count e"
    using n "1.IH"(4) [OF a b c n(1)] by (auto split: if_splits)
  ultimately show ?case by auto
qed (simp_all add: mul_div_mod.psimps)

termination mul_div_mod
  by (relation "inv_image (less_than <*lex*> less_than) (\<lambda>d. (mdm_count d, size d))")
    (auto dest!: mul_div_mod_count mul_div_mod_node_shrinks simp: shrinks_def)

section \<open>Constants in comparisons\<close>

definition is_relop :: "op_dsc \<Rightarrow> bool" where
  "is_relop dsc \<longleftrightarrow> dsc \<in> {op_eq, op_ne, op_gt, op_ge, op_lt, op_le}"

text \<open>A constant of type \<open>dt_unum\<close> or \<open>dt_ipv6\<close>, the test that all these functions repeat.\<close>

fun num_const :: "data \<Rightarrow> bool" where
  "num_const (D_unum n) = True"
| "num_const (D_ipv6 u) = True"
| "num_const d = False"

text \<open>\<^verbatim>\<open>data_convert(d,dt_ipv6).u.u128\<close>\<close>

definition const_u128 :: "data \<Rightarrow> u128 result" where
  "const_u128 d = rbind (data_convert d dt_ipv6) u_u128"

text \<open>The two ways a constant is combined: 32 bits when both are \<open>dt_unum\<close>, otherwise 128 bits.\<close>

definition combine_const ::
  "(u32 \<Rightarrow> u32 \<Rightarrow> u32) \<Rightarrow> (u128 \<Rightarrow> u128 \<Rightarrow> u128) \<Rightarrow> data \<Rightarrow> data \<Rightarrow> data result" where
  "combine_const f g p q =
     (case (unum_const p, unum_const q) of
        (Some m, Some n) \<Rightarrow> Inr (D_unum (f m n))
      | _ \<Rightarrow> rbind (const_u128 p) (\<lambda>u. rbind (const_u128 q) (\<lambda>v. Inr (D_ipv6 (g u v)))))"

text \<open>Both return the new operands of the comparison; \<open>p\<close> and \<open>q\<close> are the operands of the sum.\<close>

definition rel_plus :: "data \<Rightarrow> data \<Rightarrow> data \<Rightarrow> data \<Rightarrow> (data \<times> data) result" where
  "rel_plus a p q b =
     (if num_const p then rbind (combine_const (-) u128_sub b p) (\<lambda>b. Inr (q, b))
      else if num_const q then rbind (combine_const (-) u128_sub b q) (\<lambda>b. Inr (p, b))
      else Inr (a, b))"

definition rel_minus :: "data \<Rightarrow> data \<Rightarrow> data \<Rightarrow> data \<Rightarrow> (data \<times> data) result" where
  "rel_minus a p q b =
     (if num_const p then rbind (combine_const (-) u128_sub p b) (\<lambda>b. Inr (q, b))
      else if num_const q then rbind (combine_const (+) u128_add b q) (\<lambda>b. Inr (p, b))
      else Inr (a, b))"

fun swap_rel :: "op_dsc \<Rightarrow> op_dsc" where
  "swap_rel op_gt = op_lt"
| "swap_rel op_lt = op_gt"
| "swap_rel op_ge = op_le"
| "swap_rel op_le = op_ge"
| "swap_rel dsc = dsc"

text \<open>
  A comparison is processed at its top only; everything else is searched for comparisons. The
  order of the operands is exchanged when a constant is on the left.
\<close>

fun rel_math :: "data \<Rightarrow> data result" where
  "rel_math (D_op t dsc a b c) =
     (if is_relop dsc \<and> num_const a \<and> num_const b then op_binary dsc a b
      else
        (let swap = (is_relop dsc \<and> num_const a \<and> is_op b);
             dsc' = (if swap then swap_rel dsc else dsc);
             x = (if swap then b else a); y = (if swap then a else b);
             rest = (if swap
               then rbind (rel_math b) (\<lambda>b. rbind (rel_math a) (\<lambda>a. rbind (rel_math c) (\<lambda>c. Inr (D_op t dsc' b a c))))
               else rbind (rel_math a) (\<lambda>a. rbind (rel_math b) (\<lambda>b. rbind (rel_math c) (\<lambda>c. Inr (D_op t dsc' a b c)))))
         in if is_relop dsc \<and> num_const y then
              (case x of
                 D_op t1 dsc1 p q r \<Rightarrow>
                   if dsc1 = op_plus then rbind (rel_plus x p q y) (\<lambda>(x, y). Inr (D_op t dsc' x y c))
                   else if dsc1 = op_minus then rbind (rel_minus x p q y) (\<lambda>(x, y). Inr (D_op t dsc' x y c))
                   else rest
               | _ \<Rightarrow> rest)
            else rest))"
| "rel_math d = Inr d"

section \<open>Masks and shifts\<close>

text \<open>
  The loop of \<open>rel_access\<close>: it takes masks and constant shifts off the left operand. The shift is
  a C \<^verbatim>\<open>int\<close>, kept as a 32-bit word; a shift that empties the mask stops the loop in place.
\<close>

fun peel :: "data \<Rightarrow> u128 \<Rightarrow> u32 \<Rightarrow> (data \<times> u128 \<times> u32) result" where
  "peel (D_op t dsc a b c) m s =
     (if dsc = op_and then
        (if num_const a then rbind (const_u128 a) (\<lambda>u. peel b (u128_and m u) s)
         else if num_const b then rbind (const_u128 b) (\<lambda>u. peel a (u128_and m u) s)
         else Inr (D_op t dsc a b c, m, s))
      else case unum_const b of
        None \<Rightarrow> Inr (D_op t dsc a b c, m, s)
      | Some n \<Rightarrow>
          if dsc = op_shift_left then
            (let m = u128_shift_right m n; s = s - n
             in if u128_is_zero m then Inr (D_op t dsc a b c, m, s) else peel a m s)
          else if dsc = op_shift_right then
            (let m = u128_shift_left m n; s = s + n
             in if u128_is_zero m then Inr (D_op t dsc a b c, m, s) else peel a m s)
          else Inr (D_op t dsc a b c, m, s))"
| "peel d m s = Inr (d, m, s)"

definition access_bits :: "data \<Rightarrow> u32 result" where
  "access_bits x =
     (case x of
        D_op t dsc a b c \<Rightarrow> if dsc = op_access \<and> \<not> is_op c then u_unum c else Inr 0
      | _ \<Rightarrow> Inr 0)"

definition u128_ones :: u128 where
  "u128_ones = u128_not (u128_from_32 0)"

definition low_ones :: "u32 \<Rightarrow> u128" where
  "low_ones n = u128_sub_32 (u128_shift_left (u128_from_32 1) n) 1"

definition small_const :: "u128 \<Rightarrow> data result" where
  "small_const u = (if u128_is_32 u then rbind (u128_to_32 u) (\<lambda>n. Inr (D_unum n)) else Inr (D_ipv6 u))"

text \<open>What is left after the shifts were undone: a comparison of \<open>x & mask\<close> with \<open>k\<close>.\<close>

definition masked_rel :: "op_dsc \<Rightarrow> data \<Rightarrow> u128 \<Rightarrow> u128 \<Rightarrow> data result" where
  "masked_rel dsc x m k =
     (if u128_cmp m k < 0 then op_binary dsc (D_unum 0) (D_unum 1)
      else if u128_is_zero (u128_or m k) then op_binary dsc (D_unum 0) (D_unum 0)
      else if \<not> u128_is_zero (u128_and k (u128_not m)) \<and> (dsc = op_eq \<or> dsc = op_ne)
        then Inr (bool_unum (dsc = op_ne))
      else rbind (small_const k) (\<lambda>dk. rbind (small_const m) (\<lambda>dm.
           rbind (op_binary op_and x dm) (\<lambda>d. op_binary dsc d dk))))"

text \<open>The comparison \<open>x rel k\<close> where the low bits \<open>lost\<close> of the constant were shifted out.\<close>

definition lost_bits :: "op_dsc \<Rightarrow> u128 \<Rightarrow> (data, op_dsc \<times> u128) sum" where
  "lost_bits dsc k =
     (if dsc = op_eq then Inl (D_unum 0)
      else if dsc = op_ne then Inl (D_unum 1)
      else if dsc = op_lt then Inr (op_le, k)
      else if dsc = op_gt then Inr (op_gt, u128_add_32 k 1)
      else if dsc = op_ge then Inr (op_gt, k)
      else Inr (dsc, k))"

definition access_rel :: "op_dsc \<Rightarrow> data \<Rightarrow> data \<Rightarrow> data result" where
  "access_rel dsc a b =
     (if \<not> num_const b then Inl (E_errorf ''rel const expected'')
      else rbind (const_u128 b) (\<lambda>k. rbind (peel a u128_ones 0) (\<lambda>(x, m, s).
        rbind (access_bits x) (\<lambda>bits.
          let m' = (if bits \<noteq> 0 then u128_and m (low_ones bits) else m)
          in if 0 < sint s then
               (if (128 \<le> sint s \<and> \<not> u128_is_zero k) \<or> \<not> u128_is_zero (u128_shift_right k (128 - s))
                then op_binary dsc (D_unum 0) (D_unum 1)
                else masked_rel dsc x m' (u128_shift_left k s))
             else if sint s < 0 then
               (let lost = \<not> u128_is_zero (u128_and k (low_ones (- s)));
                    k = u128_shift_right k (- s)
                in if lost then
                     (case lost_bits dsc k of Inl d \<Rightarrow> Inr d | Inr (dsc, k) \<Rightarrow> masked_rel dsc x m' k)
                   else masked_rel dsc x m' k)
             else masked_rel dsc x m' k))))"

text \<open>The outer function; an expression that is no comparison is compared with 0.\<close>

fun rel_access :: "data \<Rightarrow> data result" where
  "rel_access (D_op t dsc a b c) =
     (if dsc \<in> {op_logical_or, op_logical_and, op_logical_not, op_offset, op_precond} then
        rbind (rel_access a) (\<lambda>a. rbind (rel_access b) (\<lambda>b. Inr (D_op t dsc a b c)))
      else if dsc = op_conform \<or> dsc = op_count then Inr (D_op t dsc a b c)
      else if is_relop dsc then access_rel dsc a b
      else rbind (op_binary op_ne (D_op t dsc a b c) (D_unum 0)) (\<lambda>d.
        case d of D_op t' dsc' a' b' c' \<Rightarrow> access_rel dsc' a' b' | _ \<Rightarrow> Inl (E_undef ''null operator'')))"
| "rel_access d = Inr d"

section \<open>Comparisons as equalities\<close>

text \<open>
  One comparison of \<open>rel_to_eq\<close>: the operator that replaces it, whether the constant is a power of
  two or one less, and whether it is decremented.
\<close>

fun eq_case :: "op_dsc \<Rightarrow> (op_dsc \<times> bool \<times> bool) option" where
  "eq_case op_lt = Some (op_eq, False, True)"
| "eq_case op_le = Some (op_eq, True, False)"
| "eq_case op_gt = Some (op_ne, True, False)"
| "eq_case op_ge = Some (op_ne, False, True)"
| "eq_case dsc = None"

definition eq_mask :: "bool \<Rightarrow> data \<Rightarrow> data result" where
  "eq_mask decrement b =
     (case b of
        D_unum n \<Rightarrow> Inr (D_unum (NOT (if decrement then n - 1 else n)))
      | D_ipv6 u \<Rightarrow> Inr (D_ipv6 (u128_minus (if decrement then u128_sub_32 u 1 else u)))
      | _ \<Rightarrow> Inl E_abort)"

definition rel_to_eq_node :: "data_type \<Rightarrow> op_dsc \<Rightarrow> data \<Rightarrow> data \<Rightarrow> data \<Rightarrow> data result" where
  "rel_to_eq_node t dsc a b c =
     (if is_op a \<and> num_const b then
        (case eq_case dsc of
           None \<Rightarrow> Inr (D_op t dsc a b c)
         | Some (dsc', increment, decrement) \<Rightarrow>
             rbind (log_2_any b increment) (\<lambda>ld.
               if ld = -1 then Inr (D_op t dsc a b c)
               else rbind (eq_mask decrement b) (\<lambda>m. rbind (op_binary op_and a m) (\<lambda>a.
                 Inr (D_op t dsc' a (D_unum 0) c)))))
      else Inr (D_op t dsc a b c))"

fun rel_to_eq :: "data \<Rightarrow> data result" where
  "rel_to_eq (D_op t dsc a b c) =
     rbind (rel_to_eq a) (\<lambda>a. rbind (rel_to_eq b) (\<lambda>b. rbind (rel_to_eq c) (\<lambda>c.
       rel_to_eq_node t dsc a b c)))"
| "rel_to_eq d = Inr d"

text \<open>
  \<open>rel_eq_or\<close> for \<open>x op k == b\<close>, \<open>op\<close> being \<^verbatim>\<open>|\<close> or \<^verbatim>\<open>^\<close>. The inner node \<open>D_op t1 dsc1 p q r\<close> keeps its third
  operand when it is turned into a mask.
\<close>

definition eq_xor :: "data_type \<Rightarrow> data \<Rightarrow> data \<Rightarrow> data \<Rightarrow> data \<Rightarrow> data result" where
  "eq_xor t x k b c = rbind (combine_const (XOR) u128_xor b k) (\<lambda>b. Inr (D_op t op_eq x b c))"

definition eq_or :: "data_type \<Rightarrow> data_type \<Rightarrow> data \<Rightarrow> data \<Rightarrow> data \<Rightarrow> data \<Rightarrow> data \<Rightarrow> data result" where
  "eq_or t t1 x k r b c =
     (case (unum_const b, unum_const k) of
        (Some n, Some m) \<Rightarrow>
          if m AND n \<noteq> m then Inr (D_unum 0)
          else Inr (D_op t op_eq (D_op t1 op_and x (D_unum (NOT m)) r) (D_unum (n AND NOT m)) c)
      | _ \<Rightarrow> rbind (const_u128 b) (\<lambda>n. rbind (const_u128 k) (\<lambda>m.
          if u128_cmp (u128_and m n) m \<noteq> 0 then Inr (D_unum 0)
          else Inr (D_op t op_eq (D_op t1 op_and x (D_ipv6 (u128_not m)) r) (D_ipv6 (u128_and n (u128_not m))) c))))"

definition rel_eq_or_node :: "data_type \<Rightarrow> data \<Rightarrow> data \<Rightarrow> data \<Rightarrow> data result" where
  "rel_eq_or_node t a b c =
     (case a of
        D_op t1 dsc1 p q r \<Rightarrow>
          if \<not> num_const b \<or> (dsc1 \<noteq> op_or \<and> dsc1 \<noteq> op_xor) \<or> (\<not> num_const p \<and> \<not> num_const q)
          then Inr (D_op t op_eq a b c)
          else let k = (if num_const p then p else q); x = (if num_const p then q else p)
               in if dsc1 = op_xor then eq_xor t x k b c else eq_or t t1 x k r b c
      | _ \<Rightarrow> Inr (D_op t op_eq a b c))"

fun rel_eq_or :: "data \<Rightarrow> data result" where
  "rel_eq_or (D_op t dsc a b c) =
     rbind (rel_eq_or a) (\<lambda>a. rbind (rel_eq_or b) (\<lambda>b. rbind (rel_eq_or c) (\<lambda>c.
       if dsc \<noteq> op_eq then Inr (D_op t dsc a b c)
       else rbind (expr_equal a b) (\<lambda>same.
         if same then Inr (D_unum 1) else rel_eq_or_node t a b c))))"
| "rel_eq_or d = Inr d"

section \<open>Bit tests and prefix tests\<close>

definition get_bit :: "u128 \<Rightarrow> nat \<Rightarrow> bool" where
  "get_bit v n = (case u128_shift_right v (of_nat n) of U128 a0 a1 a2 a3 \<Rightarrow> bit a0 0)"

definition bit_mask :: "nat \<Rightarrow> data" where
  "bit_mask n = D_ipv6 (u128_shift_left (u128_not (u128_from_32 0)) (of_nat n))"

definition prefix_and_twist :: "u128 \<Rightarrow> nat \<Rightarrow> data" where
  "prefix_and_twist v n =
     D_ipv6 (u128_xor (u128_and v (u128_shift_left (u128_not (u128_from_32 0)) (of_nat n)))
       (u128_shift_left (u128_from_32 1) (of_nat n)))"

definition set_nth_bit :: "nat \<Rightarrow> data" where
  "set_nth_bit n =
     (if n < 32 then D_unum (push_bit n 1) else D_ipv6 (u128_shift_left (u128_from_32 1) (of_nat n)))"

text \<open>
  \<open>build_le_bit\<close> from bit \<open>i - 1\<close> downwards. The \<open>b\<close> operand of each node is first the constant that
  ends the chain and then the rest of the chain.
\<close>

definition set_b :: "data \<Rightarrow> data \<Rightarrow> data result" where
  "set_b d e = (case d of D_op t dsc a b c \<Rightarrow> Inr (D_op t dsc a e c) | _ \<Rightarrow> Inl (E_undef ''null operator''))"

definition set_a :: "data \<Rightarrow> data \<Rightarrow> data result" where
  "set_a d e = (case d of D_op t dsc a b c \<Rightarrow> Inr (D_op t dsc e b c) | _ \<Rightarrow> Inl (E_undef ''null operator''))"

definition le_bit_test :: "data \<Rightarrow> u128 \<Rightarrow> u128 \<Rightarrow> bool \<Rightarrow> nat \<Rightarrow> data result" where
  "le_bit_test acc k m invert i =
     (let dsc = (if get_bit k i = invert then op_logical_and else op_logical_or);
          stop = bool_unum (\<not> invert)
      in if \<not> get_bit m i then rbind (op_binary dsc acc stop) (\<lambda>d. set_a d stop)
         else rbind (op_binary op_and acc (set_nth_bit i)) (\<lambda>x.
              rbind (op_binary op_eq x (if invert then set_nth_bit i else D_unum 0)) (\<lambda>y.
              op_binary dsc y stop)))"

fun le_bits :: "data \<Rightarrow> u128 \<Rightarrow> u128 \<Rightarrow> bool \<Rightarrow> nat \<Rightarrow> data result" where
  "le_bits acc k m invert 0 = Inr (bool_unum (\<not> invert))"
| "le_bits acc k m invert (Suc i) =
     rbind (le_bit_test acc k m invert i) (\<lambda>d. rbind (le_bits acc k m invert i) (\<lambda>e. set_b d e))"

definition build_le_bit :: "data \<Rightarrow> u128 \<Rightarrow> u128 \<Rightarrow> bool \<Rightarrow> data result" where
  "build_le_bit acc k m invert = le_bits acc k m invert 128"

text \<open>
  The chains \<open>build_lt_prefix\<close>, \<open>build_ne_bit\<close> and \<open>build_ne_prefix\<close> build from the bits they select: tests
  joined by \<^verbatim>\<open>||\<close>, in the order of the list. An empty chain fails the assertion.
\<close>

fun test_chain :: "data list \<Rightarrow> data result" where
  "test_chain [] = Inl E_assert"
| "test_chain [d] = Inr d"
| "test_chain (d # ds) =
     rbind (op_binary op_logical_or d (D_unum 0)) (\<lambda>n. rbind (test_chain ds) (\<lambda>e. set_b n e))"

fun results :: "'a result list \<Rightarrow> 'a list result" where
  "results [] = Inr []"
| "results (r # rs) = rbind r (\<lambda>x. rbind (results rs) (\<lambda>xs. Inr (x # xs)))"

definition mask_eq :: "data \<Rightarrow> data \<Rightarrow> data \<Rightarrow> data result" where
  "mask_eq acc m v = rbind (op_binary op_and acc m) (\<lambda>x. op_binary op_eq x v)"

definition build_lt_prefix :: "data \<Rightarrow> u128 \<Rightarrow> u128 \<Rightarrow> bool \<Rightarrow> data result" where
  "build_lt_prefix acc k m invert =
     rbind (results (map (\<lambda>i. mask_eq acc (bit_mask i) (prefix_and_twist k i))
       (filter (\<lambda>i. get_bit k i \<noteq> invert \<and> (get_bit m i \<or> get_bit k i)) [0..<128]))) test_chain"

definition operand_mask :: "data \<Rightarrow> u128 result" where
  "operand_mask acc =
     (case acc of
        D_op t dsc a b c \<Rightarrow> if dsc = op_and \<and> num_const b then const_u128 b else Inr u128_ones
      | _ \<Rightarrow> Inl (E_undef ''null operator''))"

definition build_ne_bit :: "data \<Rightarrow> data \<Rightarrow> data result" where
  "build_ne_bit acc c =
     rbind (const_u128 c) (\<lambda>k. rbind (operand_mask acc) (\<lambda>m.
       rbind (results (map (\<lambda>i. mask_eq acc (set_nth_bit i) (if get_bit k i then D_unum 0 else set_nth_bit i))
         (filter (get_bit m) [0..<128]))) test_chain))"

definition build_ne_prefix :: "data \<Rightarrow> data \<Rightarrow> data result" where
  "build_ne_prefix acc c =
     rbind (const_u128 c) (\<lambda>k. rbind (operand_mask acc) (\<lambda>m.
       rbind (results (map (\<lambda>i. mask_eq acc (bit_mask i) (prefix_and_twist k i))
         (filter (get_bit m) [0..<128]))) test_chain))"

definition build_ne :: "bool \<Rightarrow> data_type \<Rightarrow> data \<Rightarrow> data \<Rightarrow> data \<Rightarrow> data result" where
  "build_ne prefix t a b c =
     (if \<not> num_const b then Inr (D_op t op_ne a b c)
      else if prefix then build_ne_prefix a b else build_ne_bit a b)"

text \<open>\<open>prefix\<close> is the optimization switch of that name.\<close>

definition build_rel ::
  "bool \<Rightarrow> data_type \<Rightarrow> op_dsc \<Rightarrow> data \<Rightarrow> data \<Rightarrow> data \<Rightarrow> bool \<Rightarrow> bool \<Rightarrow> bool \<Rightarrow> bool \<Rightarrow> data result" where
  "build_rel prefix t dsc a b c invert const_res const_if_zero decrement =
     (if \<not> num_const b then Inr (D_op t dsc a b c)
      else rbind (const_u128 b) (\<lambda>k.
        if (const_if_zero \<and> u128_is_zero k) \<or> (\<not> const_if_zero \<and> u128_cmp k u128_ones = 0)
        then Inr (bool_unum const_res)
        else rbind (operand_mask a) (\<lambda>m.
          if prefix then
            build_lt_prefix a (if const_res then if invert then u128_sub_32 k 1 else u128_add_32 k 1 else k) m invert
          else build_le_bit a (if decrement then u128_sub_32 k 1 else k) m invert)))"

section \<open>The remaining passes\<close>

text \<open>
  \<open>rel_general\<close> and \<open>ne_to_eq\<close> go on into the expression they have just built, which holds many
  copies of the left operand. The nesting of the operators they replace bounds the recursion.
\<close>

fun nesting :: "op_dsc set \<Rightarrow> data \<Rightarrow> nat" where
  "nesting S (D_op t dsc a b c) =
     (if dsc \<in> S then 1 else 0) + max (nesting S a) (max (nesting S b) (nesting S c))"
| "nesting S d = 0"

lemma op_binary_shape:
  assumes "op_binary dsc a b = Inr d" "dsc \<in> {op_and, op_eq, op_logical_and, op_logical_or}"
  shows "\<not> is_op d \<or> (\<exists>t. d = D_op t dsc a b D_none)"
proof -
  have "is_op d \<Longrightarrow> \<exists>t. d = D_op t dsc a b D_none" if "dsc = op_and"
    using assms(1) that
    by (auto simp: op_binary_def unum2_eval_def make_op_def ipv6_op_def rbind_Inr_iff split: if_splits)
  moreover have "is_op d \<Longrightarrow> \<exists>t. d = D_op t dsc a b D_none" if "dsc = op_eq"
    using assms(1) that
    by (auto simp: op_binary_def rel_eval_def make_op_def bool_unum_def rbind_Inr_iff split: if_splits)
  moreover have "is_op d \<Longrightarrow> \<exists>t. d = D_op t dsc a b D_none" if "dsc = op_logical_and \<or> dsc = op_logical_or"
    using assms(1) that
    by (auto simp: op_binary_def and_or_eval_def make_op_def bool_unum_def rbind_Inr_iff split: if_splits)
  ultimately show ?thesis using assms(2) by blast
qed

abbreviation compares :: "op_dsc set" where
  "compares \<equiv> {op_le, op_gt, op_lt, op_ge, op_ne}"

lemma nesting_leaf: "\<not> is_op d \<Longrightarrow> nesting S d = 0"
  by (cases d) auto

lemma nesting_op_binary:
  assumes "op_binary dsc a b = Inr d" "dsc \<in> {op_and, op_eq, op_logical_and, op_logical_or}" "S \<subseteq> compares"
  shows "nesting S d \<le> max (nesting S a) (nesting S b)"
  using op_binary_shape [OF assms(1,2)] assms(2,3) by (auto simp: nesting_leaf)

text \<open>The bound a built expression keeps: no deeper than the operand it was built from.\<close>

definition flat :: "op_dsc set \<Rightarrow> nat \<Rightarrow> data \<Rightarrow> bool" where
  "flat S k d \<longleftrightarrow> nesting S d \<le> k \<and> (case d of D_op t dsc a b c \<Rightarrow> dsc \<notin> S | _ \<Rightarrow> True)"

lemma flat_set: "set_a d e = Inr d' \<Longrightarrow> flat S k d \<Longrightarrow> nesting S e \<le> k \<Longrightarrow> flat S k d'"
  "set_b d e = Inr d' \<Longrightarrow> flat S k d \<Longrightarrow> nesting S e \<le> k \<Longrightarrow> flat S k d'"
  by (auto simp: set_a_def set_b_def flat_def split: data.splits)

lemma flat_op_binary:
  assumes "op_binary dsc a b = Inr d" "dsc \<in> {op_and, op_eq, op_logical_and, op_logical_or}" "S \<subseteq> compares"
    "nesting S a \<le> k" "nesting S b \<le> k"
  shows "flat S k d"
proof -
  have "case d of D_op t dsc a b c \<Rightarrow> dsc \<notin> S | _ \<Rightarrow> True"
    using op_binary_shape [OF assms(1,2)] assms(2,3) by (auto split: data.split)
  then show ?thesis using nesting_op_binary [OF assms(1-3)] assms(4,5) by (simp add: flat_def)
qed

lemma flatD: "flat S k d \<Longrightarrow> nesting S d \<le> k"
  by (simp add: flat_def)

lemma nesting_const [simp]: "nesting S (bool_unum p) = 0" "nesting S (set_nth_bit i) = 0" "nesting S (bit_mask i) = 0"
  "nesting S (prefix_and_twist k i) = 0"
  by (simp_all add: bool_unum_def set_nth_bit_def bit_mask_def prefix_and_twist_def)

lemma mask_eq_flat:
  assumes "mask_eq acc m v = Inr d" "S \<subseteq> compares" "nesting S acc \<le> k" "nesting S m = 0" "nesting S v = 0"
  shows "flat S k d"
proof -
  obtain y where 1: "op_binary op_and acc m = Inr y" "op_binary op_eq y v = Inr d"
    using assms(1) by (auto simp: mask_eq_def rbind_Inr_iff)
  have "flat S k y" by (rule flat_op_binary [OF 1(1)]) (use assms in auto)
  then show ?thesis by (intro flat_op_binary [OF 1(2)]) (use assms in \<open>auto dest: flatD\<close>)
qed

lemma le_bit_test_flat:
  assumes "le_bit_test acc k m invert i = Inr d" "S \<subseteq> compares"
  shows "flat S (nesting S acc) d"
proof -
  let ?dsc = "if get_bit k i = invert then op_logical_and else op_logical_or"
  consider y where "op_binary ?dsc acc (bool_unum (\<not> invert)) = Inr y" "set_a y (bool_unum (\<not> invert)) = Inr d"
    | y where "mask_eq acc (set_nth_bit i) (if invert then set_nth_bit i else D_unum 0) = Inr y"
        "op_binary ?dsc y (bool_unum (\<not> invert)) = Inr d"
    using assms(1) by (auto simp: le_bit_test_def mask_eq_def Let_def rbind_Inr_iff split: if_splits)
  then show ?thesis
  proof cases
    case 1
    have "flat S (nesting S acc) y" by (rule flat_op_binary [OF 1(1) _ assms(2)]) auto
    then show ?thesis by (rule flat_set(1) [OF 1(2)]) simp
  next
    case 2
    have "flat S (nesting S acc) y" by (rule mask_eq_flat [OF 2(1) assms(2)]) auto
    then show ?thesis by (intro flat_op_binary [OF 2(2) _ assms(2)]) (auto dest: flatD)
  qed
qed

lemma le_bits_flat: "le_bits acc k m invert i = Inr d \<Longrightarrow> S \<subseteq> compares \<Longrightarrow> flat S (nesting S acc) d"
proof (induction i arbitrary: d)
  case (Suc i)
  then obtain y e where "le_bit_test acc k m invert i = Inr y" "le_bits acc k m invert i = Inr e" "set_b y e = Inr d"
    by (auto simp: rbind_Inr_iff)
  then show ?case using Suc le_bit_test_flat [of acc k m invert i y S] flat_set(2) flatD by blast
qed (auto simp: flat_def bool_unum_def)

lemma results_all: "results rs = Inr xs \<Longrightarrow> x \<in> set xs \<Longrightarrow> \<exists>r \<in> set rs. r = Inr x"
  by (induction rs arbitrary: xs) (auto simp: rbind_Inr_iff)

lemma test_chain_flat:
  "test_chain ds = Inr d \<Longrightarrow> S \<subseteq> compares \<Longrightarrow> \<forall>e \<in> set ds. flat S k e \<Longrightarrow> flat S k d"
proof (induction ds arbitrary: d rule: test_chain.induct)
  case (3 p q ds)
  then obtain n e where n: "op_binary op_logical_or p (D_unum 0) = Inr n" "test_chain (q # ds) = Inr e" "set_b n e = Inr d"
    by (auto simp: rbind_Inr_iff)
  have "flat S k n" by (rule flat_op_binary [OF n(1) _ "3.prems"(2)]) (use "3.prems" in \<open>auto dest: flatD\<close>)
  moreover have "flat S k e" using "3.IH" [OF n(1) n(2)] "3.prems" by auto
  ultimately show ?case using flat_set(2) [OF n(3)] flatD by blast
qed auto

lemma chain_flat:
  assumes "rbind (results (map (\<lambda>i. mask_eq acc (f i) (g i)) is)) test_chain = Inr d" "S \<subseteq> compares"
    "\<And>i. nesting S (f i) = 0 \<and> nesting S (g i) = 0"
  shows "flat S (nesting S acc) d"
proof -
  obtain ds where ds: "results (map (\<lambda>i. mask_eq acc (f i) (g i)) is) = Inr ds" "test_chain ds = Inr d"
    using assms(1) by (auto simp: rbind_Inr_iff)
  have "flat S (nesting S acc) e" if "e \<in> set ds" for e
    using results_all [OF ds(1) that] mask_eq_flat [OF _ assms(2) order_refl] assms(3) by fastforce
  then show ?thesis using test_chain_flat [OF ds(2) assms(2)] by blast
qed

lemma build_lt_prefix_flat: "build_lt_prefix acc k m invert = Inr d \<Longrightarrow> S \<subseteq> compares \<Longrightarrow> flat S (nesting S acc) d"
  unfolding build_lt_prefix_def by (erule chain_flat) simp_all

lemma build_ne_bit_flat: "build_ne_bit acc c = Inr d \<Longrightarrow> S \<subseteq> compares \<Longrightarrow> flat S (nesting S acc) d"
  unfolding build_ne_bit_def rbind_Inr_iff [of "const_u128 c"] rbind_Inr_iff [of "operand_mask acc"]
  by (elim exE conjE) (erule chain_flat, simp_all)

lemma build_ne_prefix_flat: "build_ne_prefix acc c = Inr d \<Longrightarrow> S \<subseteq> compares \<Longrightarrow> flat S (nesting S acc) d"
  unfolding build_ne_prefix_def rbind_Inr_iff [of "const_u128 c"] rbind_Inr_iff [of "operand_mask acc"]
  by (elim exE conjE) (erule chain_flat, simp_all)

lemma build_rel_flat:
  assumes "build_rel prefix t dsc a b c invert r z e = Inr d" "S \<subseteq> compares" "d \<noteq> D_op t dsc a b c"
  shows "flat S (nesting S a) d"
proof -
  have "d = bool_unum r \<or> (\<exists>k m. build_lt_prefix a k m invert = Inr d) \<or> (\<exists>k m. build_le_bit a k m invert = Inr d)"
    using assms(1,3) unfolding build_rel_def by (auto simp: rbind_Inr_iff split: if_splits)
  then show ?thesis
    using build_lt_prefix_flat [OF _ assms(2)] le_bits_flat [OF _ assms(2)]
    by (auto simp: build_le_bit_def) (simp add: flat_def bool_unum_def)
qed

lemma build_ne_flat:
  assumes "build_ne prefix t a b c = Inr d" "S \<subseteq> compares" "d \<noteq> D_op t op_ne a b c"
  shows "flat S (nesting S a) d"
  using assms(1,3) build_ne_bit_flat [OF _ assms(2)] build_ne_prefix_flat [OF _ assms(2)]
  by (auto simp: build_ne_def split: if_splits)

definition general_node :: "bool \<Rightarrow> data_type \<Rightarrow> op_dsc \<Rightarrow> data \<Rightarrow> data \<Rightarrow> data \<Rightarrow> data result" where
  "general_node prefix t dsc a b c =
     (if dsc = op_le then build_rel prefix t dsc a b c False True False False
      else if dsc = op_gt then build_rel prefix t dsc a b c True False False False
      else if dsc = op_lt then build_rel prefix t dsc a b c False False True True
      else if dsc = op_ge then build_rel prefix t dsc a b c True True True True
      else Inr (D_op t dsc a b c))"

lemma general_node_decreases:
  assumes "general_node prefix t dsc a b c = Inr (D_op t' dsc' a' b' c')" "x \<in> {a', b', c'}"
  shows "(x, D_op t dsc a b c) \<in> measures [nesting {op_le, op_gt, op_lt, op_ge}, size]"
proof (cases "D_op t' dsc' a' b' c' = D_op t dsc a b c")
  case True
  then show ?thesis using assms(2) by (auto simp: le_max_iff_disj)
next
  case False
  let ?S = "{op_le, op_gt, op_lt, op_ge}"
  have d: "dsc \<in> ?S" using assms(1) False by (auto simp: general_node_def split: if_splits)
  have "flat ?S (nesting ?S a) (D_op t' dsc' a' b' c')"
    using assms(1) False build_rel_flat [of prefix t dsc a b c _ _ _ _ "D_op t' dsc' a' b' c'" ?S]
    by (auto simp: general_node_def split: if_splits)
  then have "nesting ?S x \<le> nesting ?S a" using assms(2) by (auto simp: flat_def)
  then show ?thesis using d by (auto simp: less_Suc_eq_le)
qed

lemma ne_node_decreases:
  assumes "(if dsc = op_ne then build_ne prefix t a b c else Inr (D_op t dsc a b c)) = Inr (D_op t' dsc' a' b' c')"
    "x \<in> {a', b', c'}"
  shows "(x, D_op t dsc a b c) \<in> measures [nesting {op_ne}, size]"
proof (cases "D_op t' dsc' a' b' c' = D_op t dsc a b c")
  case True
  then show ?thesis using assms(2) by (auto simp: le_max_iff_disj)
next
  case False
  then have d: "dsc = op_ne" "build_ne prefix t a b c = Inr (D_op t' dsc' a' b' c')"
    using assms(1) by (auto split: if_splits)
  then have "flat {op_ne} (nesting {op_ne} a) (D_op t' dsc' a' b' c')"
    using False by (intro build_ne_flat [OF d(2)]) auto
  then have "nesting {op_ne} x \<le> nesting {op_ne} a" using assms(2) by (auto simp: flat_def)
  then show ?thesis using d(1) by (auto simp: less_Suc_eq_le)
qed

function (sequential) rel_general :: "bool \<Rightarrow> data \<Rightarrow> data result" where
  "rel_general prefix (D_op t dsc a b c) =
     (case general_node prefix t dsc a b c of
        Inr (D_op t' dsc' a' b' c') \<Rightarrow>
          rbind (rel_general prefix a') (\<lambda>a. rbind (rel_general prefix b') (\<lambda>b.
          rbind (rel_general prefix c') (\<lambda>c. Inr (D_op t' dsc' a b c))))
      | r \<Rightarrow> r)"
| "rel_general prefix d = Inr d"
  by pat_completeness auto
termination
  by (relation "inv_image (measures [nesting {op_le, op_gt, op_lt, op_ge}, size]) snd")
    (auto intro: general_node_decreases simp del: in_measures)

function (sequential) ne_to_eq :: "bool \<Rightarrow> data \<Rightarrow> data result" where
  "ne_to_eq prefix (D_op t dsc a b c) =
     (case (if dsc = op_ne then build_ne prefix t a b c else Inr (D_op t dsc a b c)) of
        Inr (D_op t' dsc' a' b' c') \<Rightarrow>
          rbind (ne_to_eq prefix a') (\<lambda>a. rbind (ne_to_eq prefix b') (\<lambda>b.
          rbind (ne_to_eq prefix c') (\<lambda>c. Inr (D_op t' dsc' a b c))))
      | r \<Rightarrow> r)"
| "ne_to_eq prefix d = Inr d"
  by pat_completeness auto
termination
  by (relation "inv_image (measures [nesting {op_ne}, size]) snd")
    (auto intro!: ne_node_decreases simp del: in_measures)

text \<open>\<open>prefix\<close> and \<open>ne\<close> are optimization switches.\<close>

definition iflib_arith :: "bool \<Rightarrow> bool \<Rightarrow> data \<Rightarrow> data result" where
  "iflib_arith prefix ne d =
     rbind (mul_div_mod d) (\<lambda>d. rbind (rel_math d) (\<lambda>d. rbind (rel_eq_or d) (\<lambda>d.
     rbind (rel_access d) (\<lambda>d. rbind (rel_to_eq d) (\<lambda>d. rbind (rel_general prefix d) (\<lambda>d.
       if ne then ne_to_eq prefix d else Inr d))))))"

end
