(* ===== verification/Iflib_Arith_Bits.thy ===== *)
theory Iflib_Arith_Bits
  imports Iflib_Arith
begin

text \<open>
  The comparisons that \<^verbatim>\<open>tcc/iflib_arith.c\<close> turns into tests of single bits and of prefixes mean
  the same: correctness of \<open>log_2\<close>, \<open>build_le_bit\<close>, \<open>build_lt_prefix\<close>, \<open>build_ne_bit\<close> and \<open>build_ne_prefix\<close>, of the
  passes that use them, and of the rewriting of products, quotients and remainders.
\<close>

section \<open>Logarithms\<close>

lemma bit_0_unat: "bit (v :: u32) 0 \<longleftrightarrow> odd (unat v)"
proof -
  have "bit (unat v) 0 \<longleftrightarrow> bit v 0" by (simp only: bit_unsigned_iff possible_bit_0 simp_thms)
  then show ?thesis by (simp only: bit_0)
qed

lemma strip_zeros_spec:
  "v \<noteq> 0 \<Longrightarrow> strip_zeros v ld = (w, k) \<Longrightarrow> \<exists>n. k = ld + int n \<and> odd (unat w) \<and> unat v = 2 ^ n * unat w"
proof (induction v ld arbitrary: w k rule: strip_zeros.induct)
  case (1 v ld)
  show ?case
  proof (cases "bit v 0")
    case True
    then show ?thesis
      using "1.prems"(2) by (auto simp: strip_zeros.simps [of v] bit_0_unat intro!: exI [of _ 0])
  next
    case False
    then have even: "even (unat v)" by (simp add: bit_0_unat)
    have half: "unat (drop_bit 1 v) = unat v div 2" by (simp add: drop_bit_eq_div unat_div)
    have "unat v \<noteq> 0" using "1.prems"(1) by (simp add: unat_eq_0)
    with even half have "unat (drop_bit 1 v) \<noteq> 0" by presburger
    then have "drop_bit 1 v \<noteq> 0" by (metis unat_0)
    moreover have "strip_zeros (drop_bit 1 v) (ld + 1) = (w, k)"
      using "1.prems" False by (simp add: strip_zeros.simps [of v])
    ultimately obtain n where "k = ld + 1 + int n" "odd (unat w)" "unat v div 2 = 2 ^ n * unat w"
      using "1.IH" [of w k] "1.prems"(1) False half by auto
    then show ?thesis using even by (intro exI [of _ "Suc n"]) auto
  qed
qed

lemma odd_times_power:
  assumes "odd u" "2 ^ m * u = (2 :: nat) ^ n"
  shows "u = 1 \<and> m = n"
proof (cases m n rule: linorder_cases)
  case less
  then have "(2 :: nat) ^ n = 2 ^ m * 2 ^ (n - m)" by (simp flip: power_add)
  with assms(2) have "u = 2 ^ (n - m)" by simp
  with assms(1) less show ?thesis by simp
next
  case greater
  then have "(2 :: nat) ^ n < 2 ^ m" by simp
  also have "\<dots> \<le> 2 ^ m * u" using assms(1) by (cases u) auto
  finally show ?thesis using assms(2) by simp
qed (use assms in simp)

lemma log_2_spec: "log_2 v = int n \<longleftrightarrow> unat v = 2 ^ n"
proof (cases "v = 0")
  case False
  obtain w k where w: "strip_zeros v 0 = (w, k)" by fastforce
  with strip_zeros_spec [OF False w] obtain m where m: "k = int m" "odd (unat w)" "unat v = 2 ^ m * unat w" by auto
  have "w = 1 \<longleftrightarrow> unat w = 1" by (metis unat_1 word_unat_eq_iff)
  then have l: "log_2 v = int n \<longleftrightarrow> unat w = 1 \<and> m = n" using False w m(1) by (auto simp: log_2_def)
  show ?thesis unfolding m(3) l using odd_times_power [OF m(2), of m n] by (metis mult_1_right)
qed (simp add: log_2_def)

lemma log_2_cases: "log_2 v = -1 \<or> (\<exists>n. log_2 v = int n)"
proof (cases "v = 0")
  case False
  obtain w k where w: "strip_zeros v 0 = (w, k)" by fastforce
  from strip_zeros_spec [OF False w] show ?thesis using False w by (auto simp: log_2_def)
qed (simp add: log_2_def)

section \<open>Bits of 128-bit numbers\<close>

lemma get_bit_word: "i < 128 \<Longrightarrow> get_bit v i = bit (u128_word v) i"
proof -
  assume i: "i < 128"
  then have u: "unat (of_nat i :: u32) = i" by (simp add: unat_of_nat)
  obtain a0 a1 a2 a3 where s: "u128_shift_right v (of_nat i) = U128 a0 a1 a2 a3" by (rule u128.exhaust)
  have "bit (u128_word v) i = bit (u128_word (u128_shift_right v (of_nat i))) 0"
    by (simp add: u128_shift_right_word u bit_drop_bit_eq)
  also have "\<dots> = bit a0 0" unfolding s bit_u128_word_gen by simp
  finally show ?thesis by (simp add: get_bit_def s)
qed

lemma unat_of_nat_128: "i < 128 \<Longrightarrow> unat (of_nat i :: u32) = i"
  by (simp add: unat_of_nat)

lemma ucast_exp_32: "n < 32 \<Longrightarrow> (ucast (2 ^ n :: u32) :: 128 word) = 2 ^ n"
  by (rule bit_word_eqI) (auto simp: bit_simps)

lemma neval_set_nth_bit: "i < 128 \<Longrightarrow> neval E x (set_nth_bit i) = 2 ^ i"
  by (simp add: set_nth_bit_def ucast_exp_32 u128_shift_left_word u128_from_32_word unat_of_nat_128)

lemma neval_bit_mask: "i < 128 \<Longrightarrow> neval E x (bit_mask i) = NOT (mask i)"
  by (simp add: bit_mask_def w128.high_mask unat_of_nat_128)

lemma neval_prefix_and_twist:
  "i < 128 \<Longrightarrow> neval E x (prefix_and_twist k i) = (u128_word k AND NOT (mask i)) XOR 2 ^ i"
  by (simp add: prefix_and_twist_def u128_xor_word u128_and_word w128.high_mask unat_of_nat_128)
    (simp add: u128_shift_left_word u128_from_32_word unat_of_nat_128)

lemma and_exp_128:
  fixes w :: "128 word"
  assumes "i < 128"
  shows "w AND 2 ^ i = 0 \<longleftrightarrow> \<not> bit w i" "w AND 2 ^ i = 2 ^ i \<longleftrightarrow> bit w i"
  using assms by (auto simp: bit_eq_iff [where ?'a = "128 word"] bit_and_iff bit_exp_iff)

lemma num_const_simps [simp]:
  "num_const (set_nth_bit i)" "num_const (bit_mask i)" "num_const (prefix_and_twist k i)" "num_const (D_unum n)"
  by (simp_all add: set_nth_bit_def bit_mask_def prefix_and_twist_def)

section \<open>Building tests\<close>

definition operand :: "data \<Rightarrow> bool" where
  "operand d \<longleftrightarrow> is_op d \<and> (type_of d = dt_unum \<or> type_of d = dt_ipv6)"

lemma num_const_type: "num_const m \<Longrightarrow> \<not> is_op m \<and> (type_of m = dt_unum \<or> type_of m = dt_ipv6)"
  by (cases m) auto

lemma op_and_operand:
  assumes "operand acc" "num_const m"
  shows "\<exists>t. op_binary op_and acc m = Inr (D_op t op_and acc m D_none) \<and> (t = dt_unum \<or> t = dt_ipv6)"
  using assms(1) num_const_type [OF assms(2)]
  by (auto simp: operand_def op_binary_def unum2_eval_def integer_number_def mix_types_def make_op_def)

lemma op_eq_operand:
  assumes "operand acc" "num_const m"
  shows "op_binary op_eq acc m = Inr (D_op dt_unum op_eq acc m D_none)"
  using assms(1) num_const_type [OF assms(2)]
  by (auto simp: operand_def op_binary_def rel_eval_def untyped_number_def make_op_def)

lemma op_logical_operand:
  assumes "operand acc" "dsc = op_logical_and \<or> dsc = op_logical_or"
  shows "op_binary dsc acc (D_unum n) = Inr (D_op dt_unum dsc acc (D_unum n) D_none)"
  using assms by (auto simp: operand_def op_binary_def and_or_eval_def integer_number_def make_op_def)

lemma operand_op [simp]: "operand (D_op t dsc a b c) \<longleftrightarrow> t = dt_unum \<or> t = dt_ipv6"
  by (simp add: operand_def)

lemma mask_eq_operand:
  assumes "operand acc" "num_const m" "num_const v"
  shows "\<exists>t. mask_eq acc m v = Inr (D_op dt_unum op_eq (D_op t op_and acc m D_none) v D_none)"
  using op_and_operand [OF assms(1,2)] op_eq_operand [OF _ assms(3)] by (fastforce simp: mask_eq_def)

lemma run_mask_eq:
  "run E x (D_op dt_unum op_eq (D_op t op_and acc m D_none) v D_none) s =
     (truth (neval E x acc AND neval E x m = neval E x v), s)"
  by (simp add: of_truth_def)

section \<open>Bit by bit\<close>

lemma le_take_bit_Suc:
  fixes a b :: nat
  shows "take_bit (Suc i) a \<le> take_bit (Suc i) b \<longleftrightarrow>
    (if bit b i then \<not> bit a i \<or> take_bit i a \<le> take_bit i b else \<not> bit a i \<and> take_bit i a \<le> take_bit i b)"
proof -
  have "(e * of_bool A + p \<le> e * of_bool B + q) = (if B then \<not> A \<or> p \<le> q else \<not> A \<and> p \<le> q)"
    if "p < e" "q < e" for A B and e p q :: nat
    using that by (cases A; cases B) auto
  then show ?thesis unfolding take_bit_Suc_from_most using take_bit_nat_less_exp by blast
qed

lemma bit_unat_128: "bit (unat (w :: 128 word)) i \<longleftrightarrow> bit w i"
  by (simp add: bit_unsigned_iff)

text \<open>What the chain from bit \<open>i - 1\<close> downwards tests, \<open>\<le>\<close> or its negation.\<close>

definition low_le :: "nat \<Rightarrow> 128 word \<Rightarrow> 128 word \<Rightarrow> bool" where
  "low_le i w k \<longleftrightarrow> take_bit i (unat w) \<le> take_bit i (unat k)"

lemma low_le_Suc:
  "low_le (Suc i) w k \<longleftrightarrow> (if bit k i then \<not> bit w i \<or> low_le i w k else \<not> bit w i \<and> low_le i w k)"
  by (simp add: low_le_def le_take_bit_Suc bit_unat_128)

lemma low_le_128: "low_le 128 w k \<longleftrightarrow> w \<le> k"
proof -
  have "take_bit 128 (unat v) = unat v" for v :: "128 word"
    using unsigned_less [of v, where ?'a = nat] by (simp add: take_bit_nat_eq_self)
  then show ?thesis by (simp add: low_le_def word_le_nat_alt)
qed

lemma le_bit_test_run:
  assumes "operand acc" "i < 128" "bit (neval E x acc) i \<Longrightarrow> get_bit m i"
  shows "\<exists>y. le_bit_test acc k m invert i =
      Inr (D_op dt_unum (if get_bit k i = invert then op_logical_and else op_logical_or) y (bool_unum (\<not> invert)) D_none) \<and>
    (\<forall>s. run E x y s = (truth (bit (neval E x acc) i = invert), s))"
proof (cases "get_bit m i")
  case True
  let ?v = "if invert then set_nth_bit i else D_unum 0"
  obtain t where "mask_eq acc (set_nth_bit i) ?v =
      Inr (D_op dt_unum op_eq (D_op t op_and acc (set_nth_bit i) D_none) ?v D_none)"
    using mask_eq_operand [OF assms(1), of "set_nth_bit i" ?v] by (cases invert) auto
  then have "le_bit_test acc k m invert i = rbind (Inr (D_op dt_unum op_eq (D_op t op_and acc (set_nth_bit i) D_none) ?v D_none))
      (\<lambda>y. op_binary (if get_bit k i = invert then op_logical_and else op_logical_or) y (bool_unum (\<not> invert)))"
    using True by (simp add: le_bit_test_def Let_def mask_eq_def flip: rbind_assoc)
  moreover have "neval E x acc AND 2 ^ i = neval E x ?v \<longleftrightarrow> bit (neval E x acc) i = invert"
    using assms(2) and_exp_128 [of i "neval E x acc"] by (simp add: neval_set_nth_bit)
  ultimately show ?thesis
    using assms(2) by (auto simp: op_logical_operand bool_unum_def run_mask_eq neval_set_nth_bit simp del: run.simps neval.simps(1))
next
  case False
  with assms(3) have "\<not> bit (neval E x acc) i" by blast
  with False show ?thesis
    using op_logical_operand [OF assms(1)]
    by (auto simp: le_bit_test_def set_a_def bool_unum_def Let_def)
qed

lemma le_bits_run:
  assumes "operand acc" "\<And>j. j < 128 \<Longrightarrow> bit (neval E x acc) j \<Longrightarrow> get_bit m j"
  shows "i \<le> 128 \<Longrightarrow> \<exists>d. le_bits acc k m invert i = Inr d \<and>
    (\<forall>s. run E x d s = (truth (low_le i (neval E x acc) (u128_word k) \<noteq> invert), s))"
proof (induction i)
  case 0
  then show ?case by (auto simp: low_le_def bool_unum_def)
next
  case (Suc i)
  then obtain e where e: "le_bits acc k m invert i = Inr e"
      "\<forall>s. run E x e s = (truth (low_le i (neval E x acc) (u128_word k) \<noteq> invert), s)"
    by auto
  obtain y where y: "le_bit_test acc k m invert i =
      Inr (D_op dt_unum (if get_bit k i = invert then op_logical_and else op_logical_or) y (bool_unum (\<not> invert)) D_none)"
      "\<forall>s. run E x y s = (truth (bit (neval E x acc) i = invert), s)"
    using le_bit_test_run [OF assms(1) _ assms(2)] Suc.prems by (meson Suc_le_lessD)
  have "get_bit k i = bit (u128_word k) i" using Suc.prems by (simp add: get_bit_word)
  then show ?case
    using y e by (auto simp: set_b_def low_le_Suc)
qed

lemma build_le_bit_run:
  assumes "operand acc" "\<And>j. j < 128 \<Longrightarrow> bit (neval E x acc) j \<Longrightarrow> get_bit m j"
  shows "\<exists>d. build_le_bit acc k m invert = Inr d \<and>
    (\<forall>s. run E x d s = (truth (neval E x acc \<le> u128_word k \<longleftrightarrow> \<not> invert), s))"
  using le_bits_run [OF assms(1), of E x m 128 k invert, OF assms(2)] by (auto simp: build_le_bit_def low_le_128)

section \<open>Prefix by prefix\<close>

lemma prefix_test:
  fixes w k :: "128 word"
  assumes "i < 128"
  shows "w AND NOT (mask i) = (k AND NOT (mask i)) XOR 2 ^ i \<longleftrightarrow>
    (\<forall>j. i < j \<longrightarrow> j < 128 \<longrightarrow> bit w j = bit k j) \<and> bit w i \<noteq> bit k i"
proof -
  have "w AND NOT (mask i) = (k AND NOT (mask i)) XOR 2 ^ i \<longleftrightarrow>
      (\<forall>j < 128. (i \<le> j \<and> bit w j) = ((i \<le> j \<and> bit k j) \<noteq> (j = i)))"
    by (auto simp: bit_eq_iff [where ?'a = "128 word"] bit_and_iff bit_xor_iff bit_exp_iff bit_not_iff bit_mask_iff not_less)
  also have "\<dots> \<longleftrightarrow> (\<forall>j. i < j \<longrightarrow> j < 128 \<longrightarrow> bit w j = bit k j) \<and> bit w i \<noteq> bit k i"
    using assms by (auto simp: le_less)
  finally show ?thesis .
qed

lemma not_low_le:
  "\<not> low_le n k w \<longleftrightarrow> (\<exists>i < n. bit k i \<and> \<not> bit w i \<and> (\<forall>j. i < j \<longrightarrow> j < n \<longrightarrow> bit w j = bit k j))"
proof (induction n)
  case 0
  then show ?case by (simp add: low_le_def)
next
  case (Suc n)
  show ?case unfolding low_le_Suc Suc.IH [symmetric] less_Suc_eq
    using Suc.IH by (cases "bit k n"; cases "bit w n") (auto simp: less_Suc_eq)
qed

lemma less_prefix:
  fixes w k :: "128 word"
  shows "w < k \<longleftrightarrow> (\<exists>i < 128. bit k i \<and> w AND NOT (mask i) = (k AND NOT (mask i)) XOR 2 ^ i)"
    and "k < w \<longleftrightarrow> (\<exists>i < 128. bit w i \<and> \<not> bit k i \<and> w AND NOT (mask i) = (k AND NOT (mask i)) XOR 2 ^ i)"
  using not_low_le [of 128 k w] not_low_le [of 128 w k] prefix_test [of _ w k]
  unfolding low_le_128 not_le by auto

lemma not_equal_prefix:
  fixes w k :: "128 word"
  shows "w \<noteq> k \<longleftrightarrow> (\<exists>i < 128. bit w i \<noteq> bit k i \<and> w AND NOT (mask i) = (k AND NOT (mask i)) XOR 2 ^ i)"
  unfolding neq_iff less_prefix prefix_test [of _ w k] by (auto simp: prefix_test)

text \<open>The tests of a chain, one per selected bit, and the chain.\<close>

definition tests :: "'st env \<Rightarrow> ctx \<Rightarrow> (nat \<Rightarrow> bool) \<Rightarrow> nat list \<Rightarrow> data list \<Rightarrow> bool" where
  "tests E x P js ds \<longleftrightarrow> list_all2 (\<lambda>i d. operand d \<and> (\<forall>s. run E x d s = (truth (P i), s))) js ds"

lemma results_tests:
  assumes "operand acc" "\<And>i. num_const (f i) \<and> num_const (g i)"
  shows "\<exists>ds. results (map (\<lambda>i. mask_eq acc (f i) (g i)) js) = Inr ds \<and>
    tests E x (\<lambda>i. neval E x acc AND neval E x (f i) = neval E x (g i)) js ds"
proof (induction js)
  case (Cons i js)
  obtain t where "mask_eq acc (f i) (g i) = Inr (D_op dt_unum op_eq (D_op t op_and acc (f i) D_none) (g i) D_none)"
    using mask_eq_operand [OF assms(1)] assms(2) by blast
  with Cons show ?case by (auto simp: tests_def run_mask_eq simp del: run.simps)
qed (simp add: tests_def)

lemma test_chain_tests:
  "tests E x P js ds \<Longrightarrow> js \<noteq> [] \<Longrightarrow> \<exists>d. test_chain ds = Inr d \<and> (\<forall>s. run E x d s = (truth (\<exists>i \<in> set js. P i), s))"
proof (induction ds arbitrary: js rule: test_chain.induct)
  case (3 p q ds)
  then obtain i js' where i: "js = i # js'" "operand p" "\<forall>s. run E x p s = (truth (P i), s)" "tests E x P js' (q # ds)"
    by (auto simp: tests_def list_all2_Cons2)
  have n: "op_binary op_logical_or p (D_unum 0) = Inr (D_op dt_unum op_logical_or p (D_unum 0) D_none)"
    using op_logical_operand [OF i(2)] by blast
  have "js' \<noteq> []" using i(4) by (auto simp: tests_def)
  then obtain e where "test_chain (q # ds) = Inr e" "\<forall>s. run E x e s = (truth (\<exists>i \<in> set js'. P i), s)"
    using "3.IH" [OF n i(4)] by blast
  with n i show ?case by (auto simp: set_b_def)
qed (auto simp: tests_def list_all2_Cons2)

lemma chain_run:
  fixes js :: "nat list"
  assumes "operand acc" "\<And>i. num_const (f i) \<and> num_const (g i)" "js \<noteq> []"
  shows "\<exists>d. rbind (results (map (\<lambda>i. mask_eq acc (f i) (g i)) js)) test_chain = Inr d \<and>
    (\<forall>s. run E x d s = (truth (\<exists>i \<in> set js. neval E x acc AND neval E x (f i) = neval E x (g i)), s))"
proof -
  obtain ds where "results (map (\<lambda>i. mask_eq acc (f i) (g i)) js) = Inr ds"
      "tests E x (\<lambda>i. neval E x acc AND neval E x (f i) = neval E x (g i)) js ds"
    using results_tests [of acc f g js E x] assms(1,2) by blast
  then show ?thesis using test_chain_tests [OF _ assms(3)] by fastforce
qed

lemma chain_empty: "rbind (results []) test_chain = Inl E_assert"
  by simp

section \<open>Comparisons\<close>

lemma const_u128_neval: "num_const b \<Longrightarrow> \<exists>k. const_u128 b = Inr k \<and> u128_word k = neval E x b"
  by (cases b) (auto simp: const_u128_def data_convert_def u128_from_32_word)

lemma u128_ones_word: "u128_word u128_ones = -1"
  by (simp add: u128_ones_def u128_not_word u128_from_32_word)

text \<open>No bit of an operand is set outside the mask that \<open>build_rel\<close> finds for it.\<close>

lemma operand_mask_covers:
  assumes "operand a"
  shows "\<exists>m. operand_mask a = Inr m \<and> (\<forall>j < 128. bit (neval E x a) j \<longrightarrow> get_bit m j)"
proof -
  obtain t dsc p q r where a: "a = D_op t dsc p q r" using assms by (cases a) (auto simp: operand_def)
  show ?thesis
  proof (cases "dsc = op_and \<and> num_const q")
    case True
    then obtain k where "const_u128 q = Inr k" "u128_word k = neval E x q" using const_u128_neval [of q E x] by blast
    with True a show ?thesis by (auto simp: operand_mask_def get_bit_word bit_and_iff)
  next
    case False
    then show ?thesis using a by (auto simp: operand_mask_def get_bit_word u128_ones_word)
  qed
qed

lemma u128_cmp_ones: "u128_cmp k u128_ones = 0 \<longleftrightarrow> u128_word k = -1"
  by (simp add: u128_cmp_0 flip: u128_word_inj u128_ones_word)

lemma build_lt_prefix_run:
  assumes "operand a" "\<And>j. j < 128 \<Longrightarrow> bit (neval E x a) j \<Longrightarrow> get_bit m j"
  shows "case build_lt_prefix a k m invert of
      Inr d \<Rightarrow> \<forall>s. run E x d s = (truth (if invert then u128_word k < neval E x a else neval E x a < u128_word k), s)
    | Inl e \<Rightarrow> e = E_assert \<and> (if invert then \<forall>i < 128. get_bit m i \<longrightarrow> get_bit k i else u128_word k = 0)"
proof -
  let ?js = "filter (\<lambda>i. get_bit k i \<noteq> invert \<and> (get_bit m i \<or> get_bit k i)) [0..<128]"
  let ?w = "neval E x a" and ?k = "u128_word k"
  show ?thesis
  proof (cases "?js = []")
    case True
    then have "\<forall>i < 128. get_bit k i \<noteq> invert \<longrightarrow> \<not> get_bit m i \<and> \<not> get_bit k i" by (auto simp: filter_empty_conv)
    then have "if invert then \<forall>i < 128. get_bit m i \<longrightarrow> get_bit k i else ?k = 0"
      by (auto simp: get_bit_word bit_eq_iff [where ?'a = "128 word"])
    then show ?thesis using True by (simp add: build_lt_prefix_def)
  next
    case False
    have "(\<exists>i \<in> set ?js. ?w AND neval E x (bit_mask i) = neval E x (prefix_and_twist k i)) \<longleftrightarrow>
        (\<exists>i < 128. (get_bit k i \<noteq> invert \<and> (get_bit m i \<or> get_bit k i)) \<and> ?w AND NOT (mask i) = (?k AND NOT (mask i)) XOR 2 ^ i)"
      by (auto simp: neval_bit_mask neval_prefix_and_twist)
    also have "\<dots> \<longleftrightarrow> (if invert then ?k < ?w else ?w < ?k)"
      unfolding less_prefix using assms(2) by (auto simp: get_bit_word prefix_test)
    finally show ?thesis
      using chain_run [OF assms(1) _ False, of bit_mask "prefix_and_twist k" E x] by (auto simp: build_lt_prefix_def)
  qed
qed

text \<open>The operator and the operands of a comparison that a pass can replace.\<close>

definition ne_covered :: "data \<Rightarrow> data \<Rightarrow> bool" where
  "ne_covered a b = (case (operand_mask a, const_u128 b) of
     (Inr m, Inr k) \<Rightarrow> u128_and k m = k \<and> \<not> u128_is_zero m | _ \<Rightarrow> False)"

definition comparable :: "op_dsc \<Rightarrow> data \<Rightarrow> data \<Rightarrow> bool" where
  "comparable dsc a b \<longleftrightarrow> operand a \<and> num_const b \<and> (dsc = op_ne \<longrightarrow> ne_covered a b)"

text \<open>\<open>rel_fails\<close>: with prefixes, a comparison with a constant that no value of the operand exceeds.\<close>

definition rel_fails :: "bool \<Rightarrow> error \<Rightarrow> bool" where
  "rel_fails prefix e \<longleftrightarrow> prefix \<and> e = E_assert"

lemma minus_1_compare:
  fixes w k :: "128 word"
  shows "k \<noteq> 0 \<Longrightarrow> w \<le> k - 1 \<longleftrightarrow> w < k" "k \<noteq> 0 \<Longrightarrow> k - 1 < w \<longleftrightarrow> k \<le> w" "k \<noteq> -1 \<Longrightarrow> w < k + 1 \<longleftrightarrow> w \<le> k"
proof -
  show 1: "w \<le> k - 1 \<longleftrightarrow> w < k" if "k \<noteq> 0" for w k :: "128 word"
    using that unat_minus_one [OF that] by (simp add: word_le_nat_alt word_less_nat_alt) (metis Suc_le_lessD Suc_pred le_simps(2) unat_gt_0 word_gt_0 less_Suc_eq_le)
  from this [of k w] show "k \<noteq> 0 \<Longrightarrow> k - 1 < w \<longleftrightarrow> k \<le> w" by (metis not_le)
  from 1 [of "k + 1" w] show "k \<noteq> -1 \<Longrightarrow> w < k + 1 \<longleftrightarrow> w \<le> k" by (simp add: add_eq_0_iff2)
qed

lemma run_constant: "run E x (bool_unum p) s = (truth p, s)"
  by (simp add: bool_unum_def)

lemma of_truth_nonzero: "of_truth p \<noteq> 0 \<longleftrightarrow> p"
  by (simp add: of_truth_def)

lemma sub_add_1_word: "u128_word (u128_sub_32 k 1) = u128_word k - 1" "u128_word (u128_add_32 k 1) = u128_word k + 1"
  by (simp_all add: u128_sub_32_eq u128_add_32_eq u128_sub_word u128_add_word u128_from_32_word)

lemma run_comparison:
  "run E x (D_op t op_le a b c) s = (truth (neval E x a \<le> neval E x b), s)"
  "run E x (D_op t op_gt a b c) s = (truth (neval E x b < neval E x a), s)"
  "run E x (D_op t op_lt a b c) s = (truth (neval E x a < neval E x b), s)"
  "run E x (D_op t op_ge a b c) s = (truth (neval E x b \<le> neval E x a), s)"
  "run E x (D_op t op_ne a b c) s = (truth (neval E x a \<noteq> neval E x b), s)"
  by (simp_all add: of_truth_nonzero)

lemmas comparison_simps =
  general_node_def build_rel_def run_comparison run_constant sub_add_1_word minus_1_compare u128_is_zero_word u128_cmp_ones
  not_le not_less

lemma general_node_bit:
  assumes "comparable dsc a b" "dsc \<in> {op_le, op_gt, op_lt, op_ge}"
  shows "\<exists>d. general_node False t dsc a b c = Inr d \<and> (\<forall>s. run E x d s = run E x (D_op t dsc a b c) s)"
proof -
  have ab: "operand a" "num_const b" using assms(1) by (simp_all add: comparable_def)
  obtain k where k: "const_u128 b = Inr k" "u128_word k = neval E x b" using const_u128_neval [OF ab(2)] by blast
  obtain m where m: "operand_mask a = Inr m" "\<And>j. j < 128 \<Longrightarrow> bit (neval E x a) j \<Longrightarrow> get_bit m j"
    using operand_mask_covers [OF ab(1), of E x] by blast
  have le: "\<exists>d. build_le_bit a k' m i = Inr d \<and> (\<forall>s. run E x d s = (truth (neval E x a \<le> u128_word k' \<longleftrightarrow> \<not> i), s))" for k' i
    by (rule build_le_bit_run [OF ab(1) m(2)])
  consider "dsc = op_le" | "dsc = op_gt" | "dsc = op_lt" | "dsc = op_ge" using assms(2) by blast
  then show ?thesis
  proof cases
    case 1
    then show ?thesis using ab(2) k m(1) le [of k False] by (auto simp: comparison_simps simp del: run.simps)
  next
    case 2
    then show ?thesis using ab(2) k m(1) le [of k True] by (auto simp: comparison_simps simp del: run.simps)
  next
    case 3
    then show ?thesis using ab(2) k m(1) le [of "u128_sub_32 k 1" False] by (auto simp: comparison_simps simp del: run.simps)
  next
    case 4
    then show ?thesis using ab(2) k m(1) le [of "u128_sub_32 k 1" True] by (auto simp: comparison_simps simp del: run.simps)
  qed
qed

lemma general_node_prefix:
  assumes "comparable dsc a b" "dsc \<in> {op_le, op_gt, op_lt, op_ge}"
  shows "case general_node True t dsc a b c of
      Inr d \<Rightarrow> \<forall>s. run E x d s = run E x (D_op t dsc a b c) s
    | Inl e \<Rightarrow> e = E_assert \<and> dsc \<in> {op_gt, op_ge}"
proof -
  have ab: "operand a" "num_const b" using assms(1) by (simp_all add: comparable_def)
  obtain k where k: "const_u128 b = Inr k" "u128_word k = neval E x b" using const_u128_neval [OF ab(2)] by blast
  obtain m where m: "operand_mask a = Inr m" "\<And>j. j < 128 \<Longrightarrow> bit (neval E x a) j \<Longrightarrow> get_bit m j"
    using operand_mask_covers [OF ab(1), of E x] by blast
  note lt = build_lt_prefix_run [where E = E and x = x, OF ab(1) m(2)]
  consider "dsc = op_le" | "dsc = op_gt" | "dsc = op_lt" | "dsc = op_ge" using assms(2) by blast
  then show ?thesis
  proof cases
    case 1
    then show ?thesis using ab(2) k m(1) lt [where k = "u128_add_32 k 1" and invert = False]
      by (auto simp: comparison_simps add_eq_0_iff2 split: sum.splits simp del: run.simps)
  next
    case 2
    then show ?thesis using ab(2) k m(1) lt [where k = k and invert = True]
      by (auto simp: comparison_simps split: sum.splits simp del: run.simps)
  next
    case 3
    then show ?thesis using ab(2) k m(1) lt [where k = k and invert = False]
      by (auto simp: comparison_simps split: sum.splits simp del: run.simps)
  next
    case 4
    then show ?thesis using ab(2) k m(1) lt [where k = "u128_sub_32 k 1" and invert = True]
      by (auto simp: comparison_simps split: sum.splits simp del: run.simps)
  qed
qed

lemma ne_bits:
  fixes w k m :: "128 word"
  assumes "\<And>j. j < 128 \<Longrightarrow> bit w j \<or> bit k j \<Longrightarrow> bit m j"
  shows "w \<noteq> k \<longleftrightarrow> (\<exists>i < 128. bit m i \<and> bit w i \<noteq> bit k i)"
    and "w \<noteq> k \<longleftrightarrow> (\<exists>i < 128. bit m i \<and> w AND NOT (mask i) = (k AND NOT (mask i)) XOR 2 ^ i)"
proof -
  have "w \<noteq> k \<longleftrightarrow> (\<exists>i < 128. bit w i \<noteq> bit k i)" by (auto simp: bit_eq_iff [where ?'a = "128 word"])
  then show "w \<noteq> k \<longleftrightarrow> (\<exists>i < 128. bit m i \<and> bit w i \<noteq> bit k i)" using assms by blast
  show "w \<noteq> k \<longleftrightarrow> (\<exists>i < 128. bit m i \<and> w AND NOT (mask i) = (k AND NOT (mask i)) XOR 2 ^ i)"
    unfolding not_equal_prefix using assms prefix_test [of _ w k] by blast
qed

lemma build_ne_run:
  assumes "comparable op_ne a b"
  shows "\<exists>d. build_ne prefix t a b c = Inr d \<and> (\<forall>s. run E x d s = run E x (D_op t op_ne a b c) s)"
proof -
  have ab: "operand a" "num_const b" "ne_covered a b" using assms by (simp_all add: comparable_def)
  obtain k where k: "const_u128 b = Inr k" "u128_word k = neval E x b" using const_u128_neval [OF ab(2)] by blast
  obtain m where m: "operand_mask a = Inr m" "\<And>j. j < 128 \<Longrightarrow> bit (neval E x a) j \<Longrightarrow> get_bit m j"
    using operand_mask_covers [OF ab(1), of E x] by blast
  let ?w = "neval E x a" and ?k = "u128_word k" and ?m = "u128_word m" and ?js = "filter (get_bit m) [0..<128]"
  have km: "?k AND ?m = ?k" "?m \<noteq> 0"
    using ab(3) k(1) m(1) by (simp_all add: ne_covered_def u128_is_zero_word flip: u128_and_word)
  have cover: "bit ?w j \<or> bit ?k j \<Longrightarrow> bit ?m j" if "j < 128" for j
    using m(2) [OF that] that km(1) by (metis bit_and_iff get_bit_word)
  obtain i where "i < 128" "bit ?m i" using km(2) by (auto simp: bit_eq_iff [where ?'a = "128 word"])
  then have js: "?js \<noteq> []" by (auto simp: filter_empty_conv get_bit_word)
  have set_js: "i \<in> set ?js \<longleftrightarrow> i < 128 \<and> bit ?m i" for i by (auto simp: get_bit_word)
  have ne: "?w \<noteq> ?k \<longleftrightarrow> (\<exists>i < 128. bit ?m i \<and> bit ?w i \<noteq> bit ?k i)"
      "?w \<noteq> ?k \<longleftrightarrow> (\<exists>i < 128. bit ?m i \<and> ?w AND NOT (mask i) = (?k AND NOT (mask i)) XOR 2 ^ i)"
    using cover ne_bits [of ?w ?k ?m] by blast+
  show ?thesis
  proof (cases prefix)
    case True
    have "(\<exists>i \<in> set ?js. ?w AND neval E x (bit_mask i) = neval E x (prefix_and_twist k i)) \<longleftrightarrow> ?w \<noteq> ?k"
      unfolding ne(2) Bex_def set_js by (auto simp: neval_bit_mask neval_prefix_and_twist)
    then show ?thesis
      using chain_run [OF ab(1) _ js, of bit_mask "prefix_and_twist k" E x] True ab(2) k m(1)
      by (auto simp: build_ne_def build_ne_prefix_def run_comparison simp del: run.simps)
  next
    case False
    let ?v = "\<lambda>i. if get_bit k i then D_unum 0 else set_nth_bit i"
    have "(\<exists>i \<in> set ?js. ?w AND neval E x (set_nth_bit i) = neval E x (?v i)) \<longleftrightarrow> ?w \<noteq> ?k"
      unfolding ne(1) Bex_def set_js by (auto simp: neval_set_nth_bit get_bit_word and_exp_128)
    then show ?thesis
      using chain_run [OF ab(1) _ js, of set_nth_bit ?v E x] False ab(2) k m(1)
      by (auto simp: build_ne_def build_ne_bit_def run_comparison simp del: run.simps)
  qed
qed

section \<open>Passes that replace comparisons\<close>

text \<open>
  A condition in which comparisons are joined by logical operators only, and none is hidden in
  an operand of another test.
\<close>

fun comparisons :: "data \<Rightarrow> bool" where
  "comparisons (D_op t dsc a b c) \<longleftrightarrow>
     nesting compares c = 0 \<and>
     (if dsc = op_logical_and \<or> dsc = op_logical_or then comparisons a \<and> comparisons b
      else if dsc = op_logical_not then comparisons a \<and> nesting compares b = 0
      else nesting compares a = 0 \<and> nesting compares b = 0 \<and> (dsc \<in> compares \<longrightarrow> comparable dsc a b))"
| "comparisons d \<longleftrightarrow> True"

lemma nesting_mono: "S \<subseteq> T \<Longrightarrow> nesting T d = 0 \<Longrightarrow> nesting S d = 0"
  by (induction d rule: nesting.induct) (auto split: if_splits)

lemma flat_comparisons: "nesting compares d = 0 \<Longrightarrow> comparisons d"
  by (induction d rule: comparisons.induct) (auto split: if_splits)

text \<open>What the two passes have in common: a node is replaced or not, and its operands are visited.\<close>

locale comparison_pass =
  fixes S :: "op_dsc set" and node :: "data_type \<Rightarrow> op_dsc \<Rightarrow> data \<Rightarrow> data \<Rightarrow> data \<Rightarrow> data result"
    and pass :: "data \<Rightarrow> data result" and fails :: "error \<Rightarrow> bool" and E :: "'st env" and x :: ctx
  assumes compares: "S \<subseteq> compares"
    and pass_op: "pass (D_op t dsc a b c) =
      (case node t dsc a b c of
         Inr (D_op t' dsc' a' b' c') \<Rightarrow>
           rbind (pass a') (\<lambda>a. rbind (pass b') (\<lambda>b. rbind (pass c') (\<lambda>c. Inr (D_op t' dsc' a b c))))
       | r \<Rightarrow> r)"
    and pass_leaf: "\<not> is_op d \<Longrightarrow> pass d = Inr d"
    and node_other: "dsc \<notin> S \<Longrightarrow> node t dsc a b c = Inr (D_op t dsc a b c)"
    and node_replaced: "dsc \<in> S \<Longrightarrow> comparable dsc a b \<Longrightarrow>
      case node t dsc a b c of
        Inr d \<Rightarrow> nesting compares d \<le> nesting compares a \<and> (\<forall>s. run E x d s = run E x (D_op t dsc a b c) s)
      | Inl e \<Rightarrow> fails e"
begin

lemma pass_nothing: "nesting S d = 0 \<Longrightarrow> pass d = Inr d"
  by (induction d) (auto simp: pass_leaf pass_op node_other split: if_splits)

lemma pass_replaced:
  assumes "dsc \<in> S" "comparable dsc a b" "nesting compares a = 0"
  shows "case pass (D_op t dsc a b c) of
      Inr d \<Rightarrow> nesting S d = 0 \<and> comparisons d \<and> (\<forall>s. run E x d s = run E x (D_op t dsc a b c) s)
    | Inl e \<Rightarrow> fails e"
proof (cases "node t dsc a b c")
  case (Inl e)
  then show ?thesis using node_replaced [OF assms(1,2), of t c] by (simp add: pass_op)
next
  case (Inr d)
  then have d: "nesting compares d = 0" "\<forall>s. run E x d s = run E x (D_op t dsc a b c) s"
    using node_replaced [OF assms(1,2), of t c] assms(3) by (simp_all del: run.simps)
  have S: "nesting S d = 0" by (rule nesting_mono [OF compares d(1)])
  have "pass (D_op t dsc a b c) = Inr d"
    using Inr S by (cases d) (auto simp: pass_op pass_nothing split: if_splits)
  then show ?thesis using d S flat_comparisons by (simp del: run.simps)
qed

theorem pass_correct:
  "comparisons d \<Longrightarrow> case pass d of
      Inr d' \<Rightarrow> nesting S d' = 0 \<and> comparisons d' \<and> (\<forall>s. run E x d' s = run E x d s)
    | Inl e \<Rightarrow> fails e"
proof (induction d)
  case (D_op t dsc a b c)
  show ?case
  proof (cases "dsc \<in> S")
    case True
    then have "dsc \<in> compares" using compares by blast
    then have "comparable dsc a b" "nesting compares a = 0" using D_op.prems by (auto split: if_splits)
    then show ?thesis by (rule pass_replaced [OF True])
  next
    case False
    have c: "pass c = Inr c" "nesting S c = 0" using D_op.prems nesting_mono [OF compares, of c] pass_nothing by auto
    consider "dsc = op_logical_and \<or> dsc = op_logical_or" "comparisons a" "comparisons b"
      | "dsc = op_logical_not" "comparisons a" "nesting compares b = 0"
      | "nesting compares a = 0" "nesting compares b = 0" "dsc \<notin> {op_logical_and, op_logical_or, op_logical_not}"
      using D_op.prems by (auto split: if_splits)
    then show ?thesis
    proof cases
      case 1
      then show ?thesis using D_op.IH(1,2) c False D_op.prems
        by (auto simp: pass_op node_other split: sum.splits cong: after_cong)
    next
      case 2
      then show ?thesis using D_op.IH(1) c False D_op.prems nesting_mono [OF compares, of b] pass_nothing [of b]
        by (auto simp: pass_op node_other split: sum.splits)
    next
      case 3
      then have "nesting S (D_op t dsc a b c) = 0" using False c(2) nesting_mono [OF compares] by auto
      then show ?thesis using D_op.prems by (simp add: pass_nothing del: run.simps nesting.simps)
    qed
  qed
qed (simp_all add: pass_leaf)

end

lemma build_rel_nesting:
  assumes "build_rel prefix t dsc a b c invert r z e = Inr d" "num_const b"
  shows "nesting compares d \<le> nesting compares a"
proof -
  have "d = bool_unum r \<or> (\<exists>k m. build_lt_prefix a k m invert = Inr d) \<or> (\<exists>k m. build_le_bit a k m invert = Inr d)"
    using assms unfolding build_rel_def by (auto simp: rbind_Inr_iff split: if_splits)
  then show ?thesis
    using build_lt_prefix_flat [of a _ _ invert d compares] le_bits_flat [of a _ _ invert 128 d compares]
    by (auto simp: build_le_bit_def intro: flatD)
qed

lemma general_node_nesting:
  assumes "general_node prefix t dsc a b c = Inr d" "num_const b" "dsc \<in> {op_le, op_gt, op_lt, op_ge}"
  shows "nesting compares d \<le> nesting compares a"
  using assms(1,3) build_rel_nesting [OF _ assms(2)] by (auto simp: general_node_def split: if_splits)

lemma build_ne_nesting:
  assumes "build_ne prefix t a b c = Inr d" "num_const b"
  shows "nesting compares d \<le> nesting compares a"
  using assms build_ne_bit_flat [of a b d compares] build_ne_prefix_flat [of a b d compares]
  by (auto simp: build_ne_def dest: flatD split: if_splits)

interpretation rel_pass: comparison_pass "{op_le, op_gt, op_lt, op_ge}" "general_node prefix" "rel_general prefix"
  "rel_fails prefix" E x for prefix E x
proof
  show "rel_general prefix d = Inr d" if "\<not> is_op d" for d using that by (cases d) auto
  show "general_node prefix t dsc a b c = Inr (D_op t dsc a b c)" if "dsc \<notin> {op_le, op_gt, op_lt, op_ge}" for t dsc a b c
    using that by (auto simp: general_node_def)
  fix t dsc a b c
  assume dsc: "dsc \<in> {op_le, op_gt, op_lt, op_ge}" and ok: "comparable dsc a b"
  then have b: "num_const b" by (simp add: comparable_def)
  show "case general_node prefix t dsc a b c of
      Inr d \<Rightarrow> nesting compares d \<le> nesting compares a \<and> (\<forall>s. run E x d s = run E x (D_op t dsc a b c) s)
    | Inl e \<Rightarrow> rel_fails prefix e"
    using general_node_bit [OF ok dsc, of t c E x] general_node_prefix [OF ok dsc, where t = t and c = c and E = E and x = x]
      general_node_nesting [OF _ b dsc, of prefix t a c]
    by (cases prefix; cases "general_node prefix t dsc a b c") (auto simp: rel_fails_def simp del: run.simps)
qed auto

interpretation ne_pass: comparison_pass "{op_ne}"
  "\<lambda>t dsc a b c. if dsc = op_ne then build_ne prefix t a b c else Inr (D_op t dsc a b c)" "ne_to_eq prefix"
  "\<lambda>e. False" E x for prefix E x
proof
  show "ne_to_eq prefix d = Inr d" if "\<not> is_op d" for d using that by (cases d) auto
  fix t dsc a b c
  assume dsc: "dsc \<in> {op_ne}" and ok: "comparable dsc a b"
  then have b: "num_const b" by (simp add: comparable_def)
  show "case if dsc = op_ne then build_ne prefix t a b c else Inr (D_op t dsc a b c) of
      Inr d \<Rightarrow> nesting compares d \<le> nesting compares a \<and> (\<forall>s. run E x d s = run E x (D_op t dsc a b c) s)
    | Inl e \<Rightarrow> False"
    using build_ne_run [of a b prefix t c E x] build_ne_nesting [OF _ b, of prefix t a c] dsc ok
    by (auto simp del: run.simps)
qed auto

section \<open>Small factors\<close>

lemma as_u8_small: "n < 256 \<Longrightarrow> as_u8 n = n"
  by (simp add: as_u8_def word_unat_eq_iff unsigned_take_bit_eq take_bit_nat_eq_self word_less_nat_alt)

lemma ucast_power_of_2:
  assumes "log_2 n = int k"
  shows "n = 2 ^ k" "(ucast n :: 128 word) = 2 ^ k" "k < 32" "unat (ucast (word_of_int (int k) :: u32) :: 128 word) = k"
proof -
  have n: "unat n = 2 ^ k" using assms by (simp add: log_2_spec)
  then have "(2 :: nat) ^ k < 2 ^ 32" using unsigned_less [of n, where ?'a = nat] by simp
  then show k: "k < 32" by (rule power_less_imp_less_exp [rotated]) simp
  have "n = of_nat (unat n)" by simp
  also have "\<dots> = 2 ^ k" by (simp only: n of_nat_power of_nat_numeral)
  finally show "n = 2 ^ k" .
  then show "(ucast n :: 128 word) = 2 ^ k" using ucast_exp_32 [OF k] by simp
  show "unat (ucast (word_of_int (int k) :: u32) :: 128 word) = k"
    using k by (simp add: unsigned_ucast_eq unat_of_nat take_bit_nat_eq_self)
qed

lemma op_shift_shape:
  assumes "op_binary dsc a (D_unum n) = Inr d" "is_op a" "dsc = op_shift_left \<or> dsc = op_shift_right"
  shows "\<exists>t. d = D_op t dsc a (D_unum n) D_none"
  using assms by (auto simp: op_binary_def shift_eval_def make_op_def rbind_Inr_iff split: if_splits)

lemma mul_opt_neval:
  assumes "mul_opt a n = Inr (Some d)" "is_op a"
  shows "neval E x d = neval E x a * ucast n"
proof (cases "n = 0")
  case False
  then have "log_2 n \<noteq> -1" using assms(1) by (auto simp: mul_opt_def)
  then obtain k where k: "log_2 n = int k" using log_2_cases by blast
  note pow = ucast_power_of_2 [OF k]
  show ?thesis
    using assms False k pow(2-4)
    by (auto simp: mul_opt_def Let_def rbind_Inr_iff push_bit_eq_mult dest!: op_shift_shape split: if_splits)
qed (use assms in \<open>auto simp: mul_opt_def\<close>)

lemma div_r_opt_neval:
  assumes "div_r_opt a n = Inr (Some d)" "is_op a"
  shows "neval E x d = neval E x a div ucast n"
proof -
  have "log_2 n \<noteq> -1" using assms(1) by (auto simp: div_r_opt_def)
  then obtain k where k: "log_2 n = int k" using log_2_cases by blast
  note pow = ucast_power_of_2 [OF k]
  show ?thesis
    using assms k pow(2-4)
    by (auto simp: div_r_opt_def Let_def rbind_Inr_iff drop_bit_eq_div dest!: op_shift_shape split: if_splits)
qed

lemma mod_opt_neval:
  assumes "mod_opt t a c n n = Some d"
  shows "neval E x d = neval E x a mod ucast n"
proof (cases "n = 1")
  case False
  then have "log_2 n \<noteq> -1" using assms by (auto simp: mod_opt_def)
  then obtain k where k: "log_2 n = int k" using log_2_cases by blast
  note pow = ucast_power_of_2 [OF k]
  have "(ucast (n - 1) :: 128 word) = mask k"
  proof -
    have "n - 1 = mask k" using pow(1) by (simp add: mask_eq_exp_minus_1)
    then have "(ucast (n - 1) :: 128 word) = ucast (mask k :: u32)" by (simp only:)
    then show ?thesis using pow(3) by (auto simp: bit_eq_iff [where ?'a = "128 word"] bit_ucast_iff bit_mask_iff)
  qed
  then show ?thesis using assms False k pow(2-4)
    by (auto simp: mod_opt_def take_bit_eq_mod simp flip: take_bit_eq_mask split: if_splits)
qed (use assms in \<open>auto simp: mod_opt_def\<close>)

lemma mul_div_mod_node_small:
  assumes "mul_div_mod_node t dsc a (D_unum n) c = Inr (again, d)" "is_op a" "n < 256"
    "dsc \<in> {op_mult, op_div, op_mod}"
  shows "neval E x d = neval E x (D_op t dsc a (D_unum n) c)"
proof -
  have a: "unum_const a = None" using assms(2) by (cases a) auto
  consider "d = D_op t dsc a (D_unum n) c" | "dsc = op_mult" "mul_opt a n = Inr (Some d)"
    | "dsc = op_div" "div_r_opt a n = Inr (Some d)" | "dsc = op_mod" "mod_opt t a c n n = Some d"
    using assms a by (auto simp: mul_div_mod_node_def Let_def as_u8_small rbind_Inr_iff opt_result_def split: option.splits)
  then show ?thesis
    using mul_opt_neval [OF _ assms(2), of n d E x] div_r_opt_neval [OF _ assms(2), of n d E x] mod_opt_neval [of t a c n d E x]
    by cases auto
qed

end
