(* ===== verification/Registry.thy ===== *)
theory Registry
  imports Prelude
begin

text \<open>
  \<^verbatim>\<open>tcc/registry.c\<close>: registries of named switches, which hold the optimization switches and the warnings
  (\<^verbatim>\<open>set_warn_switch\<close> of \<^verbatim>\<open>tcc/error.c\<close>). A flag is an \<^verbatim>\<open>int\<close> elsewhere in memory, so that the rest of the program
  can read it; the registry holds its address. A registry is given memory for the flags it has to
  provide itself, from the address \<open>local_flags\<close> on.
\<close>

section \<open>Operations\<close>

type_synonym memory = "nat \<Rightarrow> int"

record registry =
  reg_names :: "string list"
  reg_flags :: "nat list"
  reg_locked :: "bool list"

text \<open>\<open>flags\<close> is \<open>None\<close> for a null pointer, an entry \<open>None\<close> for a null entry.\<close>

definition flag_address :: "nat option list option \<Rightarrow> nat \<Rightarrow> nat \<Rightarrow> nat" where
  "flag_address flags local_flags i =
     (case flags of
        Some fs \<Rightarrow> (case fs ! i of Some p \<Rightarrow> p | None \<Rightarrow> local_flags + i)
      | None \<Rightarrow> local_flags + i)"

definition is_local :: "nat option list option \<Rightarrow> nat \<Rightarrow> bool" where
  "is_local flags i \<longleftrightarrow> (case flags of Some fs \<Rightarrow> fs ! i = None | None \<Rightarrow> True)"

definition registry_open :: "string list \<Rightarrow> nat option list option \<Rightarrow> nat \<Rightarrow> memory \<Rightarrow> registry \<times> memory" where
  "registry_open names flags local_flags mem =
     (let n = length names in
      (\<lparr>reg_names = names, reg_flags = map (flag_address flags local_flags) [0..<n], reg_locked = replicate n False\<rparr>,
       foldl (\<lambda>mem i. if is_local flags i then mem(local_flags + i := 0) else mem) mem [0..<n]))"

fun find_name :: "string list \<Rightarrow> string \<Rightarrow> int \<Rightarrow> int" where
  "find_name [] name i = -1"
| "find_name (n # ns) name i = (if strcmp n name = 0 then i else find_name ns name (i + 1))"

definition registry_find :: "registry \<Rightarrow> string \<Rightarrow> int" where
  "registry_find reg name = find_name (reg_names reg) name 0"

definition write_flag :: "registry \<Rightarrow> int \<Rightarrow> string \<Rightarrow> memory \<Rightarrow> int \<times> memory" where
  "write_flag reg v name mem =
     (let i = registry_find reg name
      in if i < 0 then (-1, mem)
         else if \<not> reg_locked reg ! nat i then (0, mem(reg_flags reg ! nat i := v))
         else (0, mem))"

definition registry_set :: "registry \<Rightarrow> string \<Rightarrow> memory \<Rightarrow> int \<times> memory" where
  "registry_set reg name mem = write_flag reg 1 name mem"

definition registry_clear :: "registry \<Rightarrow> string \<Rightarrow> memory \<Rightarrow> int \<times> memory" where
  "registry_clear reg name mem = write_flag reg 0 name mem"

definition no_prefix :: "string \<Rightarrow> bool" where
  "no_prefix name \<longleftrightarrow> take 2 name = ''no''"

definition registry_set_no :: "registry \<Rightarrow> string \<Rightarrow> memory \<Rightarrow> int \<times> memory" where
  "registry_set_no reg name mem =
     (if \<not> no_prefix name then registry_set reg name mem else registry_clear reg (drop 2 name) mem)"

definition registry_lock :: "registry \<Rightarrow> string \<Rightarrow> int \<times> registry" where
  "registry_lock reg name =
     (let i = registry_find reg name
      in if i < 0 then (-1, reg) else (0, reg\<lparr>reg_locked := (reg_locked reg)[nat i := True]\<rparr>))"

definition registry_probe :: "registry \<Rightarrow> string \<Rightarrow> memory \<Rightarrow> int result" where
  "registry_probe reg name mem =
     (let i = registry_find reg name
      in if 0 \<le> i then Inr (mem (reg_flags reg ! nat i)) else Inl (E_errorf ''registry_probe called for unknown item''))"

text \<open>
  The warning switches. The registry is opened at the first call; the flags are the variables
  \<^verbatim>\<open>warn_truncate\<close> to \<^verbatim>\<open>warn_const_pfx\<close>, here the addresses 0 to 7.
\<close>

definition warn_switch_names :: "string list" where
  "warn_switch_names = [''truncate'', ''unused'', ''expensive'', ''exppostopt'', ''experror'', ''redefine'', ''explicit'', ''constpfx'']"

definition warn_switch_flags :: "nat option list" where
  "warn_switch_flags = map Some [0..<8]"

definition set_warn_switch ::
  "string \<Rightarrow> bool \<Rightarrow> registry option \<Rightarrow> memory \<Rightarrow> (bool \<times> registry option \<times> memory) result" where
  "set_warn_switch arg lock opened mem =
     (let (reg, mem) = (case opened of
            Some reg \<Rightarrow> (reg, mem)
          | None \<Rightarrow> registry_open warn_switch_names (Some warn_switch_flags) 8 mem);
          (r, mem) = registry_set_no reg arg mem
      in if r \<noteq> 0 then Inr (False, Some reg, mem)
         else if \<not> lock then Inr (True, Some reg, mem)
         else let (r, reg) = registry_lock reg (if \<not> no_prefix arg then arg else drop 2 arg)
              in if r \<noteq> 0 then Inl E_abort else Inr (True, Some reg, mem))"

section \<open>Switches\<close>

text \<open>
  What a registry stands for: a finite map from names to a flag and a lock. The locale is the
  contract its clients rely on.
\<close>

locale switches =
  fixes ok :: "'r \<Rightarrow> bool" and known :: "'r \<Rightarrow> string \<Rightarrow> bool" and is_locked :: "'r \<Rightarrow> string \<Rightarrow> bool"
    and probe :: "'r \<Rightarrow> string \<Rightarrow> 'm \<Rightarrow> int result" and set no :: "'r \<Rightarrow> string \<Rightarrow> 'm \<Rightarrow> int \<times> 'm"
  assumes probe_known: "known r n \<Longrightarrow> \<exists>v. probe r n m = Inr v"
    and set_result: "fst (set r n m) = (if known r n then 0 else -1)" "fst (no r n m) = (if known r n then 0 else -1)"
    and set_probe: "ok r \<Longrightarrow> known r n \<Longrightarrow> known r k \<Longrightarrow>
      probe r k (snd (set r n m)) = (if k = n \<and> \<not> is_locked r n then Inr 1 else probe r k m)"
    and no_probe: "ok r \<Longrightarrow> known r n \<Longrightarrow> known r k \<Longrightarrow>
      probe r k (snd (no r n m)) = (if k = n \<and> \<not> is_locked r n then Inr 0 else probe r k m)"
begin

lemma set_idem: "ok r \<Longrightarrow> known r n \<Longrightarrow> known r k \<Longrightarrow>
  probe r k (snd (set r n (snd (set r n m)))) = probe r k (snd (set r n m))"
  by (simp add: set_probe)

lemma last_wins: "ok r \<Longrightarrow> known r n \<Longrightarrow> known r k \<Longrightarrow>
  probe r k (snd (no r n (snd (set r n m)))) = probe r k (snd (no r n m))"
  by (simp add: set_probe no_probe)

lemma locked_stays: "ok r \<Longrightarrow> known r n \<Longrightarrow> is_locked r n \<Longrightarrow>
  probe r n (snd (set r n m)) = probe r n m \<and> probe r n (snd (no r n m)) = probe r n m"
  by (simp add: set_probe no_probe)

end

definition reg_ok :: "registry \<Rightarrow> bool" where
  "reg_ok reg \<longleftrightarrow> length (reg_flags reg) = length (reg_names reg) \<and> length (reg_locked reg) = length (reg_names reg) \<and>
     distinct (reg_flags reg) \<and> distinct (reg_names reg)"

definition known_switch :: "registry \<Rightarrow> string \<Rightarrow> bool" where
  "known_switch reg name \<longleftrightarrow> name \<in> set (reg_names reg)"

definition locked_switch :: "registry \<Rightarrow> string \<Rightarrow> bool" where
  "locked_switch reg name \<longleftrightarrow> reg_locked reg ! nat (registry_find reg name)"

lemma find_name_cases:
  "(name \<notin> set ns \<and> find_name ns name i = -1) \<or>
   (\<exists>j < length ns. ns ! j = name \<and> find_name ns name i = i + int j)"
proof (induction ns arbitrary: i)
  case (Cons n ns)
  from Cons [of "i + 1"] show ?case
  proof (elim disjE exE conjE)
    fix j assume "j < length ns" "ns ! j = name" "find_name ns name (i + 1) = i + 1 + int j"
    then show ?case by (cases "n = name") (auto intro!: exI [of _ 0] exI [of _ "Suc j"])
  qed (auto intro!: exI [of _ 0])
qed simp

lemma registry_find_cases:
  obtains "\<not> known_switch reg name" "registry_find reg name = -1"
  | j where "known_switch reg name" "registry_find reg name = int j" "j < length (reg_names reg)" "reg_names reg ! j = name"
  using find_name_cases [of name "reg_names reg" 0] nth_mem unfolding registry_find_def known_switch_def by fastforce

lemma write_flag_result: "fst (write_flag reg v n mem) = (if known_switch reg n then 0 else -1)"
  by (rule registry_find_cases [of reg n]) (auto simp: write_flag_def Let_def)

lemma write_flag_probe:
  assumes "reg_ok reg" "known_switch reg n" "known_switch reg k"
  shows "registry_probe reg k (snd (write_flag reg v n mem)) =
    (if k = n \<and> \<not> locked_switch reg n then Inr v else registry_probe reg k mem)"
proof -
  obtain i where i: "registry_find reg n = int i" "i < length (reg_names reg)" "reg_names reg ! i = n"
    using registry_find_cases [of reg n] assms(2) by metis
  obtain j where j: "registry_find reg k = int j" "j < length (reg_names reg)" "reg_names reg ! j = k"
    using registry_find_cases [of reg k] assms(3) by metis
  have f: "reg_flags reg ! i = reg_flags reg ! j \<longleftrightarrow> i = j"
    using assms(1) i(2) j(2) by (simp add: reg_ok_def nth_eq_iff_index_eq)
  have n: "k = n \<longleftrightarrow> i = j"
    using assms(1) nth_eq_iff_index_eq [of "reg_names reg" j i] i(2,3) j(2,3) by (auto simp: reg_ok_def)
  have pn: "locked_switch reg n \<longleftrightarrow> reg_locked reg ! i" using i(1) by (simp add: locked_switch_def)
  have w: "snd (write_flag reg v n mem) = (if reg_locked reg ! i then mem else mem(reg_flags reg ! i := v))"
    using i(1) by (simp add: write_flag_def)
  have p: "registry_probe reg k m = Inr (m (reg_flags reg ! j))" for m
    using j(1) by (simp add: registry_probe_def)
  show ?thesis
  proof (cases "i = j")
    case True
    then show ?thesis unfolding n pn w p by simp
  next
    case False
    then have "reg_flags reg ! j \<noteq> reg_flags reg ! i" using f by metis
    with False show ?thesis unfolding n pn w p by simp
  qed
qed

interpretation registry_switches: switches reg_ok known_switch locked_switch registry_probe registry_set registry_clear
proof
  show "\<exists>v. registry_probe r n m = Inr v" if "known_switch r n" for r n m
    using that by (rule_tac registry_find_cases [of r n]) (auto simp: registry_probe_def)
qed (simp_all add: registry_set_def registry_clear_def write_flag_result write_flag_probe)

text \<open>For every name, known or not.\<close>

lemma write_flag_unknown: "\<not> known_switch reg n \<Longrightarrow> write_flag reg v n mem = (-1, mem)"
  by (rule registry_find_cases [of reg n]) (auto simp: write_flag_def)

lemma registry_set_probe:
  assumes "reg_ok reg" "known_switch reg k"
  shows "registry_probe reg k (snd (registry_set reg n mem)) =
    (if k = n \<and> \<not> locked_switch reg k then Inr 1 else registry_probe reg k mem)"
proof (cases "known_switch reg n")
  case True
  then show ?thesis using registry_switches.set_probe [OF assms(1) True assms(2)] by (cases "k = n") simp_all
next
  case False
  then have "k \<noteq> n" using assms(2) by blast
  with False show ?thesis by (simp add: registry_set_def write_flag_unknown)
qed

lemma registry_clear_probe:
  assumes "reg_ok reg" "known_switch reg k"
  shows "registry_probe reg k (snd (registry_clear reg n mem)) =
    (if k = n \<and> \<not> locked_switch reg k then Inr 0 else registry_probe reg k mem)"
proof (cases "known_switch reg n")
  case True
  then show ?thesis using registry_switches.no_probe [OF assms(1) True assms(2)] by (cases "k = n") simp_all
next
  case False
  then have "k \<noteq> n" using assms(2) by blast
  with False show ?thesis by (simp add: registry_clear_def write_flag_unknown)
qed

lemma registry_open_ok:
  assumes "distinct names" "\<forall>fs. flags = Some fs \<longrightarrow> length fs = length names \<and> distinct fs \<and> None \<notin> set fs"
  shows "reg_ok (fst (registry_open names flags l mem))"
proof -
  have "inj_on (flag_address flags l) {0..<length names}"
  proof (cases flags)
    case None
    then show ?thesis by (simp add: inj_on_def flag_address_def)
  next
    case (Some fs)
    show ?thesis
    proof (rule inj_onI)
      fix i j assume ij: "i \<in> {0..<length names}" "j \<in> {0..<length names}" "flag_address flags l i = flag_address flags l j"
      then have "fs ! i \<in> set fs" "fs ! j \<in> set fs" using assms(2) Some by auto
      then obtain p q where "fs ! i = Some p" "fs ! j = Some q" using assms(2) Some by (metis not_None_eq)
      with ij have "fs ! i = fs ! j" using Some by (simp add: flag_address_def)
      then show "i = j" using assms(2) Some ij by (simp add: nth_eq_iff_index_eq)
    qed
  qed
  then show ?thesis using assms(1) by (simp add: reg_ok_def registry_open_def Let_def distinct_map)
qed

lemma registry_lock_ok: "reg_ok reg \<Longrightarrow> reg_ok (snd (registry_lock reg name))"
  by (simp add: reg_ok_def registry_lock_def Let_def)

end
