(* ===== verification/Tcc_Var.thy ===== *)
theory Tcc_Var
  imports Data
begin

text \<open>
  \<^verbatim>\<open>tcc/var.c\<close>: variables with nested scopes. Variables and scopes are objects in memory, named by their
  addresses, because they are linked to each other: a scope lists its variables, a variable knows its
  scope, and the variables of one name form a chain that begins in the hash table. A freed object is
  not in memory any more, and following a pointer to it is an error. Source locations, which only
  appear in messages, and the warnings are left out; so is \<^verbatim>\<open>register_var\<close>, which records values for output.
\<close>

section \<open>State\<close>

datatype var_usage = vu_new | vu_unused | vu_used | vu_forward

record variable =
  vdata :: data
  data_ref :: "nat option"
  vusage :: var_usage
  vhash :: string
  vscope :: nat
  next_with_name :: "nat option"

record var_scope =
  svars :: "nat list"  \<comment> \<open>linked by \<^verbatim>\<open>next_in_scope\<close>\<close>
  snext :: "nat option"

text \<open>
  An access in progress. The insertion point is a path into the clone, the retrieval point a path
  into the data of the variable or a null pointer. The position in the structure, \<^verbatim>\<open>entry\<close>, is null when the path is empty.
\<close>

record var_access =
  acc_var :: nat
  new_entry :: "string option"
  clone :: data
  acc_path :: "string list"
  orig_path :: "string list option"

type_synonym hash_table = "nat \<Rightarrow> (string \<times> nat option) list"

record var_state =
  hash_table :: hash_table
  vars_mem :: "nat \<Rightarrow> variable option"
  scopes_mem :: "nat \<Rightarrow> var_scope option"
  refs_mem :: "nat \<Rightarrow> data option"
  fresh :: nat
  curr_scope :: "nat option"
  saved_scope :: "nat option"
  current_access :: "var_access option"
  access_stack :: "var_access list"

section \<open>The hash table\<close>

text \<open>\<^verbatim>\<open>char\<close> is signed.\<close>

definition char_value :: "char \<Rightarrow> int" where
  "char_value c = (let n = (of_char c :: int) in if n < 128 then n else n - 256)"

definition hash_feedback :: "u32 \<Rightarrow> u32" where
  "hash_feedback h = [0, 13001, 30011, 50777] ! unat (h AND 3)"

fun hash_name :: "string \<Rightarrow> u32 \<Rightarrow> u32" where
  "hash_name [] h = h"
| "hash_name (c # cs) h = hash_name cs (h XOR (drop_bit 2 h XOR hash_feedback h XOR word_of_int (char_value c * 13)))"

definition hash_slot :: "string \<Rightarrow> nat" where
  "hash_slot name = unat (hash_name name 0 mod 20011)"

text \<open>The entry of a name, a \<^verbatim>\<open>VAR_HASH *\<close>, is identified by the name; a new one is the last of its slot.\<close>

definition hash_lookup :: "string \<Rightarrow> hash_table \<Rightarrow> hash_table" where
  "hash_lookup name tab =
     (let i = hash_slot name
      in if (\<exists>e \<in> set (tab i). strcmp (fst e) name = 0) then tab else tab(i := tab i @ [(name, None)]))"

definition hash_vars :: "hash_table \<Rightarrow> string \<Rightarrow> nat option" where
  "hash_vars tab name = (case map_of (tab (hash_slot name)) name of Some h \<Rightarrow> h | None \<Rightarrow> None)"

definition set_hash_vars :: "string \<Rightarrow> nat option \<Rightarrow> hash_table \<Rightarrow> hash_table" where
  "set_hash_vars name v tab =
     tab(hash_slot name := map (\<lambda>(n, w). (n, if n = name then v else w)) (tab (hash_slot name)))"

section \<open>Lookup and creation\<close>

definition load_var :: "nat \<Rightarrow> var_state \<Rightarrow> variable result" where
  "load_var p st = (case vars_mem st p of Some v \<Rightarrow> Inr v | None \<Rightarrow> Inl (E_undef ''freed variable''))"

definition store_var :: "nat \<Rightarrow> variable \<Rightarrow> var_state \<Rightarrow> var_state" where
  "store_var p v st = st\<lparr>vars_mem := (vars_mem st)(p := Some v)\<rparr>"

definition get_scope :: "nat option \<Rightarrow> var_state \<Rightarrow> (nat \<times> var_scope) result" where
  "get_scope s st =
     (case s of
        None \<Rightarrow> Inl (E_undef ''null scope'')
      | Some s \<Rightarrow> (case scopes_mem st s of Some sc \<Rightarrow> Inr (s, sc) | None \<Rightarrow> Inl (E_undef ''freed scope'')))"

text \<open>The assertion follows the entry into the scope; it looks at the variable the name stands for.\<close>

definition shadowed_scope :: "nat option \<Rightarrow> var_state \<Rightarrow> nat option result" where
  "shadowed_scope head st =
     (case head of None \<Rightarrow> Inr None | Some p \<Rightarrow> rbind (load_var p st) (\<lambda>v. Inr (Some (vscope v))))"

definition var_new :: "string \<Rightarrow> var_state \<Rightarrow> (nat \<times> var_state) result" where
  "var_new name st =
     rbind (get_scope (curr_scope st) st) (\<lambda>(s, sc).
     let p = fresh st; head = hash_vars (hash_table st) name;
         st = st\<lparr>fresh := p + 1, scopes_mem := (scopes_mem st)(s := Some (sc\<lparr>svars := svars sc @ [p]\<rparr>))\<rparr>
     in rbind (shadowed_scope head st) (\<lambda>sh.
        if sh = Some s then Inl E_assert
        else Inr (p, store_var p \<lparr>vdata = D_none, data_ref = None, vusage = vu_new, vhash = name, vscope = s, next_with_name = head\<rparr>
               (st\<lparr>hash_table := set_hash_vars name (Some p) (hash_table st)\<rparr>))))"

definition var_find :: "string \<Rightarrow> var_state \<Rightarrow> (nat \<times> var_state) result" where
  "var_find name st =
     (let st = st\<lparr>hash_table := hash_lookup name (hash_table st)\<rparr>
      in rbind (case hash_vars (hash_table st) name of Some p \<Rightarrow> Inr (p, st) | None \<Rightarrow> var_new name st) (\<lambda>(p, st).
         rbind (load_var p st) (\<lambda>v. Inr (p, st))))"

section \<open>Scopes\<close>

definition var_begin_scope :: "var_state \<Rightarrow> var_state result" where
  "var_begin_scope st =
     (if saved_scope st \<noteq> None then Inl E_assert
      else let s = fresh st
           in Inr (st\<lparr>fresh := s + 1, scopes_mem := (scopes_mem st)(s := Some \<lparr>svars = [], snext = curr_scope st\<rparr>),
                curr_scope := Some s\<rparr>))"

fun end_vars :: "nat \<Rightarrow> nat list \<Rightarrow> var_state \<Rightarrow> var_state result" where
  "end_vars s [] st = Inr st"
| "end_vars s (p # ps) st =
     rbind (load_var p st) (\<lambda>v.
       if vscope v \<noteq> s then Inl E_assert
       else if vusage v = vu_forward then Inl (E_lerror ''unresolved forward-declared variable'')
       else end_vars s ps (st\<lparr>hash_table := set_hash_vars (vhash v) (next_with_name v) (hash_table st),
              vars_mem := (vars_mem st)(p := None)\<rparr>))"

definition var_end_scope :: "var_state \<Rightarrow> var_state result" where
  "var_end_scope st =
     (if saved_scope st \<noteq> None then Inl E_assert
      else rbind (get_scope (curr_scope st) st) (\<lambda>(s, sc).
           rbind (end_vars s (svars sc) st) (\<lambda>st.
             Inr (st\<lparr>scopes_mem := (scopes_mem st)(s := None), curr_scope := snext sc\<rparr>))))"

definition var_outer_scope :: "var_state \<Rightarrow> var_state result" where
  "var_outer_scope st =
     (if saved_scope st \<noteq> None then Inl E_assert
      else rbind (get_scope (curr_scope st) st) (\<lambda>(s, sc).
           if snext sc = None then Inl E_assert
           else Inr (st\<lparr>saved_scope := Some s, curr_scope := snext sc\<rparr>)))"

definition var_inner_scope :: "var_state \<Rightarrow> var_state result" where
  "var_inner_scope st =
     (if saved_scope st = None then Inl E_assert
      else Inr (st\<lparr>curr_scope := saved_scope st, saved_scope := None\<rparr>))"

section \<open>Access\<close>

fun assoc_entries :: "data \<Rightarrow> (string \<times> data) list" where
  "assoc_entries (D_assoc es) = es"
| "assoc_entries d = []"

fun data_at :: "data \<Rightarrow> string list \<Rightarrow> data option" where
  "data_at d [] = Some d"
| "data_at d (n # ns) = (case map_of (assoc_entries d) n of Some e \<Rightarrow> data_at e ns | None \<Rightarrow> None)"

fun update_entry :: "string \<Rightarrow> data \<Rightarrow> (string \<times> data) list \<Rightarrow> (string \<times> data) list" where
  "update_entry n d [] = [(n, d)]"
| "update_entry n d ((m, e) # es) = (if m = n then (n, d) # es else (m, e) # update_entry n d es)"

text \<open>Data stored at a path; whatever is on the way and is no structure becomes one.\<close>

fun put_at :: "data \<Rightarrow> string list \<Rightarrow> data \<Rightarrow> data" where
  "put_at d [] new = new"
| "put_at d (n # ns) new =
     D_assoc (update_entry n (put_at (case map_of (assoc_entries d) n of Some e \<Rightarrow> e | None \<Rightarrow> D_none) ns new) (assoc_entries d))"

definition get_access :: "var_state \<Rightarrow> var_access result" where
  "get_access st = (case current_access st of Some a \<Rightarrow> Inr a | None \<Rightarrow> Inl (E_undef ''null variable''))"

definition var_begin_access :: "nat \<Rightarrow> var_state \<Rightarrow> var_state result" where
  "var_begin_access p st =
     rbind (load_var p st) (\<lambda>v.
       Inr (st\<lparr>current_access := Some \<lparr>acc_var = p, new_entry = None, clone = vdata v, acc_path = [], orig_path = Some []\<rparr>\<rparr>))"

definition var_push_access :: "var_state \<Rightarrow> var_state result" where
  "var_push_access st = rbind (get_access st) (\<lambda>a. Inr (st\<lparr>access_stack := a # access_stack st\<rparr>))"

definition var_pop_access :: "var_state \<Rightarrow> var_state result" where
  "var_pop_access st =
     (case access_stack st of
        [] \<Rightarrow> Inl (E_undef ''empty stack'')
      | a # as \<Rightarrow> Inr (st\<lparr>current_access := Some a, access_stack := as\<rparr>))"

text \<open>An insertion point that holds no structure becomes an empty one, and an entry that is missing is appended.\<close>

definition follow_access :: "string \<Rightarrow> data \<Rightarrow> var_access \<Rightarrow> var_access result" where
  "follow_access name orig a =
     (case data_at (clone a) (acc_path a) of
        None \<Rightarrow> Inl (E_undef ''insertion point'')
      | Some d \<Rightarrow>
          (case map_of (assoc_entries d) name of
             Some e \<Rightarrow>
               (case orig_path a of
                  None \<Rightarrow> Inl (E_undef ''null retrieval point'')
                | Some p \<Rightarrow>
                    if data_at orig (p @ [name]) = None then Inl E_assert
                    else Inr (a\<lparr>acc_path := acc_path a @ [name], orig_path := Some (p @ [name])\<rparr>))
           | None \<Rightarrow>
               Inr (a\<lparr>clone := put_at (clone a) (acc_path a @ [name]) D_none, acc_path := acc_path a @ [name],
                     new_entry := (if new_entry a = None then Some name else new_entry a), orig_path := None\<rparr>)))"

definition var_follow :: "string \<Rightarrow> var_state \<Rightarrow> var_state result" where
  "var_follow name st =
     rbind (get_access st) (\<lambda>a. rbind (load_var (acc_var a) st) (\<lambda>v.
     rbind (follow_access name (vdata v) a) (\<lambda>a. Inr (st\<lparr>current_access := Some a\<rparr>))))"

definition is_assoc :: "data \<Rightarrow> bool" where
  "is_assoc d \<longleftrightarrow> type_of d = dt_assoc"

definition set_access :: "nat \<Rightarrow> data \<Rightarrow> var_access \<Rightarrow> var_state \<Rightarrow> var_state result" where
  "set_access p d a st =
     rbind (load_var p st) (\<lambda>v.
       let new = put_at (clone a) (acc_path a) d
       in Inr ((store_var p (v\<lparr>vdata := new\<rparr>) st)\<lparr>current_access := Some (a\<lparr>acc_var := p, clone := new\<rparr>)\<rparr>))"

text \<open>The variable of the current scope that an assignment goes to.\<close>

definition own_var :: "nat \<Rightarrow> variable \<Rightarrow> var_state \<Rightarrow> (nat \<times> var_state) result" where
  "own_var p v st = (if Some (vscope v) \<noteq> curr_scope st then var_new (vhash v) st else Inr (p, st))"

definition use_var :: "var_usage \<Rightarrow> nat \<Rightarrow> var_state \<Rightarrow> var_state result" where
  "use_var u p st = rbind (load_var p st) (\<lambda>v. Inr (store_var p (v\<lparr>vusage := u\<rparr>) st))"

definition var_set :: "data \<Rightarrow> var_state \<Rightarrow> var_state result" where
  "var_set d st =
     rbind (get_access st) (\<lambda>a. rbind (load_var (acc_var a) st) (\<lambda>v.
       if vusage v = vu_forward then
         (if acc_path a \<noteq> [] then Inl (E_yyerror ''cannot access structure entries in forward-declared variable'')
          else case data_ref v of
              None \<Rightarrow> Inl (E_undef ''null reference'')
            | Some r \<Rightarrow> rbind (use_var vu_used (acc_var a) (st\<lparr>refs_mem := (refs_mem st)(r := Some d)\<rparr>)) (set_access (acc_var a) d a))
       else if acc_path a = [] \<or> \<not> is_assoc (vdata v) then
         rbind (own_var (acc_var a) v st) (\<lambda>(p, st). rbind (use_var vu_unused p st) (set_access p d a))
       else set_access (acc_var a) d a st))"

text \<open>The last part of \<open>var_forward\<close>: the cell that an assignment will fill later is allocated once.\<close>

definition forward_ref :: "nat \<Rightarrow> var_state \<Rightarrow> (nat \<times> var_state) result" where
  "forward_ref p st =
     rbind (load_var p st) (\<lambda>v.
       case data_ref v of
         Some r \<Rightarrow> Inr (r, store_var p (v\<lparr>vusage := vu_forward\<rparr>) st)
       | None \<Rightarrow>
           let r = fresh st
           in Inr (r, store_var p (v\<lparr>data_ref := Some r, vusage := vu_forward\<rparr>)
                (st\<lparr>fresh := r + 1, refs_mem := (refs_mem st)(r := Some D_none)\<rparr>)))"

definition var_forward :: "var_state \<Rightarrow> (nat \<times> var_state) result" where
  "var_forward st =
     rbind (get_access st) (\<lambda>a. rbind (load_var (acc_var a) st) (\<lambda>v.
       if vusage v \<noteq> vu_new \<and> vusage v \<noteq> vu_forward \<and> Some (vscope v) = curr_scope st
       then Inl (E_yyerror ''variable redefined'')
       else if acc_path a \<noteq> [] then Inl (E_yyerror ''cannot forward-declare structure entries'')
       else rbind (own_var (acc_var a) v st) (\<lambda>(p, st).
            forward_ref p (st\<lparr>current_access := Some (a\<lparr>acc_var := p\<rparr>)\<rparr>))))"

definition var_initialized :: "variable \<Rightarrow> bool" where
  "var_initialized v \<longleftrightarrow> \<not> (vusage v = vu_new \<or> vusage v = vu_forward)"

definition var_get :: "var_state \<Rightarrow> (data \<times> var_state) result" where
  "var_get st =
     rbind (get_access st) (\<lambda>a. rbind (load_var (acc_var a) st) (\<lambda>v.
       if \<not> var_initialized v then Inl (E_yyerror ''variable is uninitialized'')
       else if \<not> is_assoc (vdata v) \<and> is_assoc (clone a) then Inl (E_yyerror ''expected structure'')
       else if new_entry a \<noteq> None then Inl (E_yyerror ''no entry in structure'')
       else case orig_path a of
           None \<Rightarrow> Inl (E_undef ''null retrieval point'')
         | Some path \<Rightarrow>
             (case data_at (vdata v) path of
                None \<Rightarrow> Inl (E_undef ''retrieval point'')
              | Some d \<Rightarrow> Inr (d, store_var (acc_var a) (v\<lparr>vusage := vu_used\<rparr>) st))))"

section \<open>The table is a map\<close>

definition in_table :: "hash_table \<Rightarrow> string \<Rightarrow> bool" where
  "in_table tab n \<longleftrightarrow> n \<in> fst ` set (tab (hash_slot n))"

lemma map_of_update: "map_of (map (\<lambda>(n, w). (n, if n = k then v else w)) xs) m =
    (if m = k then map_option (\<lambda>_. v) (map_of xs k) else map_of xs m)"
  by (induction xs) auto

lemma hash_vars_set [simp]:
  "hash_vars (set_hash_vars n v tab) m = (if m = n \<and> in_table tab n then v else hash_vars tab m)"
proof -
  have "in_table tab n \<longleftrightarrow> map_of (tab (hash_slot n)) n \<noteq> None"
    by (simp add: in_table_def map_of_eq_None_iff)
  then show ?thesis
    by (auto simp: hash_vars_def set_hash_vars_def map_of_update split: option.split)
qed

lemma in_table_set [simp]: "in_table (set_hash_vars n v tab) m \<longleftrightarrow> in_table tab m"
  by (auto simp: in_table_def set_hash_vars_def image_image case_prod_unfold)

lemma hash_vars_lookup [simp]: "hash_vars (hash_lookup n tab) m = hash_vars tab m"
  by (auto simp: hash_vars_def hash_lookup_def Let_def map_add_def split: option.splits)

lemma in_table_lookup: "in_table (hash_lookup n tab) n" "in_table tab m \<Longrightarrow> in_table (hash_lookup n tab) m"
  by (force simp: in_table_def hash_lookup_def Let_def)+

section \<open>Links\<close>

text \<open>What ties variables and scopes together; values and usage are left aside.\<close>

definition links :: "var_state \<Rightarrow> nat \<Rightarrow> (string \<times> nat \<times> nat option) option" where
  "links st p = map_option (\<lambda>v. (vhash v, vscope v, next_with_name v)) (vars_mem st p)"

definition same_links :: "var_state \<Rightarrow> var_state \<Rightarrow> bool" where
  "same_links st st' \<longleftrightarrow>
     hash_vars (hash_table st') = hash_vars (hash_table st) \<and> (\<forall>n. in_table (hash_table st) n \<longrightarrow> in_table (hash_table st') n) \<and>
     scopes_mem st' = scopes_mem st \<and> curr_scope st' = curr_scope st \<and> saved_scope st' = saved_scope st \<and>
     links st' = links st \<and> fresh st \<le> fresh st'"

definition mem_ok :: "var_state \<Rightarrow> bool" where
  "mem_ok st \<longleftrightarrow>
     (\<forall>p v. vars_mem st p = Some v \<longrightarrow> p < fresh st \<and> in_table (hash_table st) (vhash v)) \<and>
     (\<forall>s sc. scopes_mem st s = Some sc \<longrightarrow> s < fresh st)"

lemma same_links_refl [simp]: "same_links st st"
  by (simp add: same_links_def)

lemma same_links_trans: "same_links a b \<Longrightarrow> same_links b c \<Longrightarrow> same_links a c"
  by (auto simp: same_links_def)

lemma links_Some: "links st p = Some (n, s, k) \<longleftrightarrow> (\<exists>v. vars_mem st p = Some v \<and> vhash v = n \<and> vscope v = s \<and> next_with_name v = k)"
  by (auto simp: links_def)

lemma links_None: "links st p = None \<longleftrightarrow> vars_mem st p = None"
  by (simp add: links_def)

lemma mem_ok_links:
  "mem_ok st \<longleftrightarrow> (\<forall>p n s k. links st p = Some (n, s, k) \<longrightarrow> p < fresh st \<and> in_table (hash_table st) n) \<and>
     (\<forall>s sc. scopes_mem st s = Some sc \<longrightarrow> s < fresh st)"
  by (auto simp: mem_ok_def links_Some)

lemma same_links_mem_ok: "same_links st st' \<Longrightarrow> mem_ok st \<Longrightarrow> mem_ok st'"
  unfolding mem_ok_links same_links_def by (metis order_less_le_trans)

lemma load_var_Inr [simp]: "load_var p st = Inr v \<longleftrightarrow> vars_mem st p = Some v"
  by (auto simp: load_var_def split: option.splits)

lemma store_var_links:
  "vars_mem st p = Some v \<Longrightarrow> vhash w = vhash v \<Longrightarrow> vscope w = vscope v \<Longrightarrow> next_with_name w = next_with_name v \<Longrightarrow>
   same_links st (store_var p w st)"
  by (auto simp: same_links_def store_var_def links_def)

text \<open>Every operation that opens or closes no scope consists of steps that keep the links or create a variable.\<close>

definition link_step :: "var_state \<Rightarrow> var_state \<Rightarrow> bool" where
  "link_step st st' \<longleftrightarrow> same_links st st' \<or> (\<exists>n p. in_table (hash_table st) n \<and> var_new n st = Inr (p, st'))"

abbreviation link_steps :: "var_state \<Rightarrow> var_state \<Rightarrow> bool" where
  "link_steps \<equiv> link_step\<^sup>*\<^sup>*"

lemma same_links_steps: "same_links st st' \<Longrightarrow> link_steps st st'"
  by (simp add: link_step_def r_into_rtranclp)

lemma use_var_links: "use_var u p st = Inr st' \<Longrightarrow> same_links st st'"
  by (auto simp: use_var_def rbind_Inr_iff intro: store_var_links)

lemma upd_links [simp]:
  "same_links st (st\<lparr>current_access := a\<rparr>)" "same_links st (st\<lparr>access_stack := as\<rparr>)" "same_links st (st\<lparr>refs_mem := r\<rparr>)"
  by (simp_all add: same_links_def links_def fun_eq_iff)

lemma set_access_links: "set_access p d a st = Inr st' \<Longrightarrow> same_links st st'"
  by (auto simp: set_access_def rbind_Inr_iff Let_def intro!: same_links_trans [OF store_var_links upd_links(1)])

lemma own_var_steps:
  assumes "own_var p v st = Inr (q, st')" "vars_mem st p = Some v" "mem_ok st"
  shows "link_steps st st'"
  using assms by (auto simp: own_var_def link_step_def mem_ok_def intro!: r_into_rtranclp split: if_splits)

lemma var_find_steps:
  assumes "var_find n st = Inr (p, st')"
  shows "link_steps st st'"
proof -
  let ?st = "st\<lparr>hash_table := hash_lookup n (hash_table st)\<rparr>"
  have "same_links st ?st" by (simp add: same_links_def links_def in_table_lookup fun_eq_iff)
  moreover have "st' = ?st \<or> var_new n ?st = Inr (p, st')"
    using assms by (auto simp: var_find_def Let_def rbind_Inr_iff split: option.splits)
  moreover have "link_step ?st st'" if "var_new n ?st = Inr (p, st')"
    unfolding link_step_def using that in_table_lookup(1) by fastforce
  ultimately show ?thesis using same_links_steps by (metis rtranclp.rtrancl_into_rtrancl)
qed

lemma var_new_effect:
  assumes "var_new n st = Inr (p, st')" "in_table (hash_table st) n"
  obtains s sc where "curr_scope st = Some s" "scopes_mem st s = Some sc" "p = fresh st" "fresh st' = p + 1"
    "scopes_mem st' = (scopes_mem st)(s \<mapsto> sc\<lparr>svars := svars sc @ [p]\<rparr>)"
    "links st' = (links st)(p \<mapsto> (n, s, hash_vars (hash_table st) n))"
    "hash_vars (hash_table st') = (hash_vars (hash_table st))(n := Some p)"
    "in_table (hash_table st') = in_table (hash_table st)" "curr_scope st' = curr_scope st" "saved_scope st' = saved_scope st"
    "\<And>q m t k. hash_vars (hash_table st) n = Some q \<Longrightarrow> links st q = Some (m, t, k) \<Longrightarrow> t \<noteq> s"
    "\<And>q. hash_vars (hash_table st) n = Some q \<Longrightarrow> links st q \<noteq> None"
proof -
  let ?h = "hash_vars (hash_table st) n"
  obtain s sc sh where 1: "curr_scope st = Some s" "scopes_mem st s = Some sc" and
    2: "shadowed_scope ?h (st\<lparr>fresh := fresh st + 1, scopes_mem := (scopes_mem st)(s \<mapsto> sc\<lparr>svars := svars sc @ [fresh st]\<rparr>)\<rparr>) = Inr sh"
      "sh \<noteq> Some s" and
    3: "p = fresh st" "st' = store_var p \<lparr>vdata = D_none, data_ref = None, vusage = vu_new, vhash = n, vscope = s, next_with_name = ?h\<rparr>
      (st\<lparr>fresh := fresh st + 1, scopes_mem := (scopes_mem st)(s \<mapsto> sc\<lparr>svars := svars sc @ [fresh st]\<rparr>),
         hash_table := set_hash_vars n (Some p) (hash_table st)\<rparr>)"
    using assms(1) by (auto simp: var_new_def get_scope_def Let_def rbind_Inr_iff split: option.splits if_splits)
  have "links st q = Some (m, t, k) \<Longrightarrow> t \<noteq> s" "links st q \<noteq> None" if "?h = Some q" for q m t k
    using 2 that by (auto simp: shadowed_scope_def rbind_Inr_iff links_Some links_None)
  with 1 3 show ?thesis
    using assms(2) by (intro that [of s sc]) (auto simp: store_var_def links_def fun_eq_iff)
qed

lemma link_step_mem_ok:
  assumes "link_step st st'" "mem_ok st"
  shows "mem_ok st'"
proof -
  have "mem_ok st'" if new: "in_table (hash_table st) n" "var_new n st = Inr (p, st')" for n p
    using new(1) assms(2) unfolding mem_ok_links
    by (rule_tac var_new_effect [OF new(2,1)]) (auto simp: less_Suc_eq split: if_splits)
  with assms show ?thesis using same_links_mem_ok by (auto simp: link_step_def)
qed

lemma link_steps_mem_ok: "link_steps st st' \<Longrightarrow> mem_ok st \<Longrightarrow> mem_ok st'"
  by (induction rule: rtranclp_induct) (auto intro: link_step_mem_ok)

lemma var_set_steps:
  assumes "var_set d st = Inr st'" "mem_ok st"
  shows "link_steps st st'"
proof -
  obtain a v where av: "get_access st = Inr a" "vars_mem st (acc_var a) = Some v"
    using assms(1) by (auto simp: var_set_def rbind_Inr_iff)
  consider r st1 where "use_var vu_used (acc_var a) (st\<lparr>refs_mem := r\<rparr>) = Inr st1" "set_access (acc_var a) d a st1 = Inr st'"
    | p st1 st2 where "own_var (acc_var a) v st = Inr (p, st1)" "use_var vu_unused p st1 = Inr st2" "set_access p d a st2 = Inr st'"
    | "set_access (acc_var a) d a st = Inr st'"
    using assms(1) av by (auto simp: var_set_def rbind_Inr_iff split: if_splits option.splits)
  then show ?thesis
  proof cases
    case 1
    then show ?thesis
      using use_var_links set_access_links same_links_trans upd_links(3) by (metis same_links_steps)
  next
    case 2
    then have "link_steps st st1" using own_var_steps av(2) assms(2) by blast
    moreover have "link_steps st1 st'" using 2 use_var_links set_access_links same_links_trans by (metis same_links_steps)
    ultimately show ?thesis by (rule rtranclp_trans)
  next
    case 3
    then show ?thesis using set_access_links same_links_steps by blast
  qed
qed

lemma forward_ref_links: "forward_ref p st = Inr (r, st') \<Longrightarrow> same_links st st'"
  by (auto simp: forward_ref_def rbind_Inr_iff Let_def same_links_def links_def store_var_def fun_eq_iff split: option.splits)

lemma var_forward_steps:
  assumes "var_forward st = Inr (r, st')" "mem_ok st"
  shows "link_steps st st'"
proof -
  obtain a v p st1 where av: "vars_mem st (acc_var a) = Some v" "own_var (acc_var a) v st = Inr (p, st1)"
      "forward_ref p (st1\<lparr>current_access := Some (a\<lparr>acc_var := p\<rparr>)\<rparr>) = Inr (r, st')"
    using assms(1) by (auto simp: var_forward_def rbind_Inr_iff split: if_splits)
  have "same_links st1 st'" by (rule same_links_trans [OF upd_links(1) forward_ref_links [OF av(3)]])
  with own_var_steps [OF av(2,1) assms(2)] show ?thesis using same_links_steps by (metis rtranclp_trans)
qed

lemma access_links:
  "var_begin_access p st = Inr st' \<Longrightarrow> same_links st st'" "var_push_access st = Inr st' \<Longrightarrow> same_links st st'"
  "var_pop_access st = Inr st' \<Longrightarrow> same_links st st'" "var_follow n st = Inr st' \<Longrightarrow> same_links st st'"
  by (auto simp: var_begin_access_def var_push_access_def var_pop_access_def var_follow_def rbind_Inr_iff same_links_def links_def
      fun_eq_iff split: list.splits)

lemma var_get_links: "var_get st = Inr (d, st') \<Longrightarrow> same_links st st'"
  by (auto simp: var_get_def rbind_Inr_iff intro: store_var_links split: if_splits option.splits)

section \<open>Scopes restore the variables outside\<close>

text \<open>What a configuration does between the beginning and the end of a scope.\<close>

inductive var_run :: "var_state \<Rightarrow> var_state \<Rightarrow> bool" where
  run_none: "var_run st st"
| run_find: "var_run st st1 \<Longrightarrow> var_find n st1 = Inr (p, st2) \<Longrightarrow> var_run st st2"
| run_begin_access: "var_run st st1 \<Longrightarrow> var_begin_access p st1 = Inr st2 \<Longrightarrow> var_run st st2"
| run_push: "var_run st st1 \<Longrightarrow> var_push_access st1 = Inr st2 \<Longrightarrow> var_run st st2"
| run_pop: "var_run st st1 \<Longrightarrow> var_pop_access st1 = Inr st2 \<Longrightarrow> var_run st st2"
| run_follow: "var_run st st1 \<Longrightarrow> var_follow n st1 = Inr st2 \<Longrightarrow> var_run st st2"
| run_set: "var_run st st1 \<Longrightarrow> var_set d st1 = Inr st2 \<Longrightarrow> var_run st st2"
| run_forward: "var_run st st1 \<Longrightarrow> var_forward st1 = Inr (r, st2) \<Longrightarrow> var_run st st2"
| run_get: "var_run st st1 \<Longrightarrow> var_get st1 = Inr (d, st2) \<Longrightarrow> var_run st st2"
| run_scope: "var_run st st1 \<Longrightarrow> var_begin_scope st1 = Inr st2 \<Longrightarrow> var_run st2 st3 \<Longrightarrow> var_end_scope st3 = Inr st4 \<Longrightarrow> var_run st st4"

text \<open>The variables \<open>vs\<close> of the scope \<open>s\<close>, on top of the state \<open>st0\<close> at its beginning.\<close>

definition on_top :: "nat \<Rightarrow> var_state \<Rightarrow> nat list \<Rightarrow> var_state \<Rightarrow> bool" where
  "on_top s st0 vs st \<longleftrightarrow>
     distinct vs \<and> (\<forall>q. q \<notin> set vs \<longrightarrow> links st q = links st0 q) \<and>
     (\<forall>p \<in> set vs. fresh st0 \<le> p \<and>
       (\<exists>n. links st p = Some (n, s, hash_vars (hash_table st0) n) \<and> hash_vars (hash_table st) n = Some p \<and> in_table (hash_table st) n)) \<and>
     (\<forall>n. hash_vars (hash_table st) n = hash_vars (hash_table st0) n \<or> (\<exists>p \<in> set vs. \<exists>k. links st p = Some (n, s, k)))"

definition in_scope :: "nat \<Rightarrow> var_state \<Rightarrow> var_state \<Rightarrow> bool" where
  "in_scope s st0 st \<longleftrightarrow>
     saved_scope st = None \<and> curr_scope st = Some s \<and> fresh st0 \<le> s \<and> fresh st0 \<le> fresh st \<and> mem_ok st \<and>
     (\<forall>n. in_table (hash_table st0) n \<longrightarrow> in_table (hash_table st) n) \<and>
     (\<exists>vs. scopes_mem st = (scopes_mem st0)(s \<mapsto> \<lparr>svars = vs, snext = curr_scope st0\<rparr>) \<and> on_top s st0 vs st)"

lemma var_new_on_top:
  assumes "on_top s st0 vs st" "var_new n st = Inr (p, st')" "in_table (hash_table st) n" "curr_scope st = Some s" "mem_ok st"
    "fresh st0 \<le> fresh st"
  shows "on_top s st0 (vs @ [p]) st'"
proof (rule var_new_effect [OF assms(2,3)])
  fix s' sc
  assume e: "curr_scope st = Some s'" "p = fresh st" "links st' = (links st)(p \<mapsto> (n, s', hash_vars (hash_table st) n))"
    "hash_vars (hash_table st') = (hash_vars (hash_table st))(n := Some p)" "in_table (hash_table st') = in_table (hash_table st)"
    "\<And>q m t k. hash_vars (hash_table st) n = Some q \<Longrightarrow> links st q = Some (m, t, k) \<Longrightarrow> t \<noteq> s'"
  have s: "s' = s" using e(1) assms(4) by simp
  have p: "links st p = None" using assms(5) e(2) by (cases "links st p") (auto simp: mem_ok_links)
  then have new: "p \<notin> set vs" using assms(1) by (auto simp: on_top_def)
  have other: "m \<noteq> n" if "q \<in> set vs" "links st q = Some (m, s, k)" for q m k
    using that assms(1) e(6) s unfolding on_top_def by (metis option.inject prod.inject)
  then have "hash_vars (hash_table st) n = hash_vars (hash_table st0) n" using assms(1) unfolding on_top_def by blast
  with assms(1,3,6) e(2-5) s new other show ?thesis
    unfolding on_top_def by (auto simp: fun_upd_apply) metis+
qed

lemma in_scope_same:
  assumes "in_scope s st0 st" "same_links st st'"
  shows "in_scope s st0 st'"
  using assms same_links_mem_ok [OF assms(2)] unfolding in_scope_def same_links_def on_top_def
  by (elim conjE exE) (intro conjI exI, auto)

lemma in_scope_new:
  assumes "in_scope s st0 st" "var_new n st = Inr (p, st')" "in_table (hash_table st) n"
  shows "in_scope s st0 st'"
proof -
  obtain vs where vs: "scopes_mem st = (scopes_mem st0)(s \<mapsto> \<lparr>svars = vs, snext = curr_scope st0\<rparr>)" "on_top s st0 vs st"
    using assms(1) by (auto simp: in_scope_def)
  have "link_step st st'" using assms(2,3) by (auto simp: link_step_def)
  then have ok: "mem_ok st'" using link_step_mem_ok assms(1) by (auto simp: in_scope_def)
  have top: "on_top s st0 (vs @ [p]) st'"
    by (rule var_new_on_top [OF vs(2) assms(2,3)]) (use assms(1) in \<open>auto simp: in_scope_def\<close>)
  show ?thesis
    using assms(1) ok top vs(1) var_new_effect [OF assms(2,3)] unfolding in_scope_def
    by (elim conjE exE) (rule var_new_effect [OF assms(2,3)], auto)
qed

lemma in_scope_steps: "link_steps st st' \<Longrightarrow> in_scope s st0 st \<Longrightarrow> in_scope s st0 st'"
  by (induction rule: rtranclp_induct) (auto simp: link_step_def intro: in_scope_same in_scope_new)

lemma in_scope_begin:
  assumes "var_begin_scope st0 = Inr st" "mem_ok st0"
  shows "in_scope (fresh st0) st0 st"
  using assms by (auto simp: var_begin_scope_def in_scope_def on_top_def mem_ok_def links_def less_Suc_eq fun_eq_iff Let_def
      split: if_splits)

lemma end_vars_on_top:
  assumes "on_top s st0 vs st" "mem_ok st0"
  shows "case end_vars s vs st of
      Inr st' \<Rightarrow> on_top s st0 [] st' \<and> scopes_mem st' = scopes_mem st \<and> saved_scope st' = saved_scope st \<and>
        fresh st' = fresh st \<and> in_table (hash_table st') = in_table (hash_table st)
    | Inl e \<Rightarrow> \<exists>msg. e = E_lerror msg"
  using assms(1)
proof (induction vs arbitrary: st)
  case (Cons p ps)
  then obtain v where v: "vars_mem st p = Some v" "vscope v = s" "next_with_name v = hash_vars (hash_table st0) (vhash v)"
      "hash_vars (hash_table st) (vhash v) = Some p" "in_table (hash_table st) (vhash v)"
    by (auto simp: on_top_def links_Some)
  let ?st = "st\<lparr>hash_table := set_hash_vars (vhash v) (next_with_name v) (hash_table st), vars_mem := (vars_mem st)(p := None)\<rparr>"
  have links: "links ?st = (links st)(p := None)" by (auto simp: links_def fun_eq_iff)
  have p0: "links st0 p = None"
    using Cons.prems assms(2) unfolding on_top_def mem_ok_links by (cases "links st0 p") (auto dest!: spec)
  have heads: "hash_vars (hash_table ?st) = (hash_vars (hash_table st))(vhash v := hash_vars (hash_table st0) (vhash v))"
    using v by (auto simp: fun_eq_iff)
  have name: "n = vhash v" if "links st p = Some (n, s, k)" for n k using that v(1) by (auto simp: links_Some)
  have "on_top s st0 ps ?st"
    unfolding on_top_def
  proof (intro conjI allI impI ballI)
    show "distinct ps" using Cons.prems by (simp add: on_top_def)
    fix q assume "q \<notin> set ps"
    then show "links ?st q = links st0 q" using Cons.prems p0 by (cases "q = p") (simp_all add: links on_top_def)
  next
    fix r assume r: "r \<in> set ps"
    then have rp: "r \<noteq> p" using Cons.prems by (auto simp: on_top_def)
    from r obtain n where n: "fresh st0 \<le> r" "links st r = Some (n, s, hash_vars (hash_table st0) n)"
        "hash_vars (hash_table st) n = Some r" "in_table (hash_table st) n"
      using Cons.prems unfolding on_top_def by (meson list.set_intros(2))
    show "fresh st0 \<le> r" by (rule n(1))
    have "n \<noteq> vhash v" using n(3) v(4) rp by auto
    then show "\<exists>n. links ?st r = Some (n, s, hash_vars (hash_table st0) n) \<and> hash_vars (hash_table ?st) n = Some r \<and>
        in_table (hash_table ?st) n"
      using n rp unfolding links heads by (intro exI [of _ n]) simp
  next
    fix n
    show "hash_vars (hash_table ?st) n = hash_vars (hash_table st0) n \<or> (\<exists>r \<in> set ps. \<exists>k. links ?st r = Some (n, s, k))"
    proof (cases "n = vhash v \<or> hash_vars (hash_table st) n = hash_vars (hash_table st0) n")
      case True
      then show ?thesis unfolding heads by auto
    next
      case False
      then obtain r k where r: "r \<in> set (p # ps)" "links st r = Some (n, s, k)"
        using Cons.prems unfolding on_top_def by blast
      then have "r \<noteq> p" using name False by blast
      with r show ?thesis unfolding links by auto
    qed
  qed
  moreover have "end_vars s (p # ps) st =
      (if vusage v = vu_forward then Inl (E_lerror ''unresolved forward-declared variable'') else end_vars s ps ?st)"
    using v(1,2) by (simp add: load_var_def)
  ultimately show ?case using Cons.IH [of ?st] by (auto split: sum.splits)
qed simp

lemma end_scope_restores:
  assumes "in_scope s st0 st" "mem_ok st0" "saved_scope st0 = None"
  shows "case var_end_scope st of Inr st' \<Rightarrow> same_links st0 st' | Inl e \<Rightarrow> \<exists>msg. e = E_lerror msg"
proof -
  obtain vs where vs: "scopes_mem st = (scopes_mem st0)(s \<mapsto> \<lparr>svars = vs, snext = curr_scope st0\<rparr>)" "on_top s st0 vs st"
    and st: "saved_scope st = None" "curr_scope st = Some s" "fresh st0 \<le> s" "fresh st0 \<le> fresh st"
      "\<forall>n. in_table (hash_table st0) n \<longrightarrow> in_table (hash_table st) n"
    using assms(1) by (auto simp: in_scope_def)
  have s: "scopes_mem st0 s = None" using assms(2) st(3) by (cases "scopes_mem st0 s") (auto simp: mem_ok_def)
  have e: "var_end_scope st = rbind (end_vars s vs st) (\<lambda>st'.
      Inr (st'\<lparr>scopes_mem := (scopes_mem st')(s := None), curr_scope := curr_scope st0\<rparr>))"
    using st(1,2) vs(1) by (simp add: var_end_scope_def get_scope_def)
  show ?thesis
  proof (cases "end_vars s vs st")
    case (Inl err)
    then show ?thesis using end_vars_on_top [OF vs(2) assms(2)] e by simp
  next
    case (Inr st')
    with end_vars_on_top [OF vs(2) assms(2)] have st': "on_top s st0 [] st'" "scopes_mem st' = scopes_mem st"
        "saved_scope st' = saved_scope st" "fresh st' = fresh st" "in_table (hash_table st') = in_table (hash_table st)"
      by auto
    then show ?thesis
      using Inr e s vs(1) st assms(3) by (auto simp: same_links_def on_top_def links_def fun_eq_iff)
  qed
qed

lemma run_in_scope:
  "var_run st1 st2 \<Longrightarrow> in_scope s st0 st1 \<Longrightarrow> in_scope s st0 st2"
proof (induction arbitrary: s st0 rule: var_run.induct)
  case (run_scope st st1 st2 st3 st4)
  then have 1: "in_scope s st0 st1" by blast
  then have ok: "mem_ok st1" "saved_scope st1 = None" by (auto simp: in_scope_def)
  have "in_scope (fresh st1) st1 st3" using run_scope in_scope_begin [OF _ ok(1)] by blast
  from end_scope_restores [OF this ok] run_scope.hyps(4) have "same_links st1 st4" by simp
  with 1 show ?case by (rule in_scope_same)
next
  case (run_find st st1 n p st2)
  then show ?case using in_scope_steps var_find_steps by blast
next
  case (run_set st st1 d st2)
  then have "in_scope s st0 st1" by blast
  then show ?case using run_set.hyps in_scope_steps var_set_steps by (metis in_scope_def)
next
  case (run_forward st st1 r st2)
  then have "in_scope s st0 st1" by blast
  then show ?case using run_forward.hyps in_scope_steps var_forward_steps by (metis in_scope_def)
qed (blast intro: in_scope_same access_links var_get_links)+

lemma var_scope_restores:
  assumes "mem_ok st" "saved_scope st = None" "var_begin_scope st = Inr st1" "var_run st1 st2"
  shows "case var_end_scope st2 of Inr st3 \<Rightarrow> same_links st st3 | Inl e \<Rightarrow> \<exists>msg. e = E_lerror msg"
  by (rule end_scope_restores [OF run_in_scope [OF assms(4) in_scope_begin [OF assms(3,1)]] assms(1,2)])

section \<open>Values are read back\<close>

text \<open>An access \<^verbatim>\<open>$v.n1.n2\<close>.\<close>

fun var_path :: "string list \<Rightarrow> var_state \<Rightarrow> var_state result" where
  "var_path [] st = Inr st"
| "var_path (n # ns) st = rbind (var_follow n st) (var_path ns)"

lemma map_of_update_entry [simp]: "map_of (update_entry n d es) m = (if m = n then Some d else map_of es m)"
  by (induction es) auto

lemma data_at_put [simp]: "data_at (put_at d ns new) ns = Some new"
  by (induction ns arbitrary: d) auto

lemma data_at_append: "data_at d (ns @ ms) = (case data_at d ns of Some e \<Rightarrow> data_at e ms | None \<Rightarrow> None)"
  by (induction ns arbitrary: d) (auto split: option.split)

lemma var_follow_found:
  assumes "current_access st = Some a" "vars_mem st (acc_var a) = Some v" "clone a = vdata v" "orig_path a = Some (acc_path a)"
    "data_at (vdata v) (acc_path a @ [n]) \<noteq> None"
  shows "var_follow n st = Inr (st\<lparr>current_access := Some (a\<lparr>acc_path := acc_path a @ [n], orig_path := Some (acc_path a @ [n])\<rparr>)\<rparr>)"
proof -
  obtain d e where d: "data_at (vdata v) (acc_path a) = Some d" "map_of (assoc_entries d) n = Some e"
    using assms(5) by (auto simp: data_at_append split: option.splits)
  then show ?thesis
    using assms by (simp add: var_follow_def get_access_def load_var_def follow_access_def)
qed

lemma var_path_found:
  assumes "current_access st = Some a" "vars_mem st (acc_var a) = Some v" "clone a = vdata v" "orig_path a = Some (acc_path a)"
    "data_at (vdata v) (acc_path a @ ns) \<noteq> None"
  shows "var_path ns st = Inr (st\<lparr>current_access := Some (a\<lparr>acc_path := acc_path a @ ns, orig_path := Some (acc_path a @ ns)\<rparr>)\<rparr>)"
  using assms
proof (induction ns arbitrary: st a)
  case (Cons n ns)
  have "data_at (vdata v) (acc_path a @ [n]) \<noteq> None"
    using Cons.prems(5) by (auto simp: data_at_append split: option.splits)
  from var_follow_found [OF Cons.prems(1-4) this] Cons.IH [of "st\<lparr>current_access := Some (a\<lparr>acc_path := acc_path a @ [n], orig_path := Some (acc_path a @ [n])\<rparr>)\<rparr>"
      "a\<lparr>acc_path := acc_path a @ [n], orig_path := Some (acc_path a @ [n])\<rparr>"] Cons.prems
  show ?case by simp
qed simp

lemma var_get_found:
  assumes "vars_mem st p = Some v" "var_initialized v" "data_at (vdata v) ns = Some d"
  shows "\<exists>st1 st2 st3. var_begin_access p st = Inr st1 \<and> var_path ns st1 = Inr st2 \<and> var_get st2 = Inr (d, st3)"
proof -
  let ?a = "\<lparr>acc_var = p, new_entry = None, clone = vdata v, acc_path = [], orig_path = Some []\<rparr>"
  let ?st = "st\<lparr>current_access := Some ?a\<rparr>"
  have 1: "var_begin_access p st = Inr ?st" using assms(1) by (simp add: var_begin_access_def load_var_def)
  have 2: "var_path ns ?st = Inr (?st\<lparr>current_access := Some (?a\<lparr>acc_path := ns, orig_path := Some ns\<rparr>)\<rparr>)"
    using var_path_found [of ?st ?a v ns] assms by simp
  show ?thesis unfolding 1
    using 2 assms by (auto simp: var_get_def get_access_def load_var_def)
qed

text \<open>After an assignment the access names the variable that got the value.\<close>

lemma set_access_stored:
  assumes "set_access p d a st = Inr st'" "vars_mem st p = Some v" "var_initialized v"
  shows "\<exists>b w. current_access st' = Some b \<and> vars_mem st' (acc_var b) = Some w \<and> var_initialized w \<and>
    data_at (vdata w) (acc_path a) = Some d"
  using assms by (auto simp: set_access_def rbind_Inr_iff Let_def store_var_def var_initialized_def)

lemma use_var_stored: "use_var u p st = Inr st' \<Longrightarrow> u \<noteq> vu_new \<Longrightarrow> u \<noteq> vu_forward \<Longrightarrow>
   \<exists>v. vars_mem st' p = Some v \<and> var_initialized v"
  by (auto simp: use_var_def rbind_Inr_iff store_var_def var_initialized_def)

lemma var_set_stored:
  assumes "var_set d st = Inr st'" "get_access st = Inr a" "vars_mem st (acc_var a) = Some v" "vusage v = vu_new \<longrightarrow> vdata v = D_none"
  shows "\<exists>b w. current_access st' = Some b \<and> vars_mem st' (acc_var b) = Some w \<and> var_initialized w \<and>
    data_at (vdata w) (acc_path a) = Some d"
proof -
  have "\<exists>p st1 w. set_access p d a st1 = Inr st' \<and> vars_mem st1 p = Some w \<and> var_initialized w"
  proof (cases "vusage v = vu_forward \<or> acc_path a = [] \<or> \<not> is_assoc (vdata v)")
    case True
    then obtain u p st1 st2 where "use_var u p st1 = Inr st2" "u = vu_used \<or> u = vu_unused" "set_access p d a st2 = Inr st'"
      using assms(1-3) by (auto simp: var_set_def load_var_def rbind_Inr_iff split: if_splits option.splits)
    then show ?thesis using use_var_stored [of u p st1 st2] by auto
  next
    case False
    then have "var_initialized v" using assms(4) by (auto simp: var_initialized_def is_assoc_def)
    with False show ?thesis using assms(1-3) by (auto simp: var_set_def load_var_def rbind_Inr_iff)
  qed
  then show ?thesis using set_access_stored by blast
qed

lemma var_set_get:
  assumes "var_set d st = Inr st'" "get_access st = Inr a" "vars_mem st (acc_var a) = Some v" "vusage v = vu_new \<longrightarrow> vdata v = D_none"
  shows "\<exists>b st1 st2 st3. current_access st' = Some b \<and> var_begin_access (acc_var b) st' = Inr st1 \<and>
    var_path (acc_path a) st1 = Inr st2 \<and> var_get st2 = Inr (d, st3)"
  using var_set_stored [OF assms] var_get_found by blast

end
