(* ===== verification/Actdb.thy ===== *)
theory Actdb
  imports Expr_Sem
begin

text \<open>
  \<^verbatim>\<open>tcc/iflib_actdb.c\<close>, first part: the action of a rule becomes a tree of tests of policers that
  ends in decisions, repeated tests are removed, and equal trees are shared. The shared nodes live in
  a store of cells; a cell refers to its children by their index.
\<close>

section \<open>Action trees\<close>

text \<open>\<^verbatim>\<open>c[1]\<close> comes before \<^verbatim>\<open>c[0]\<close>. A class is \<open>None\<close> for the null pointer.\<close>

datatype action =
    At_conform nat action action
  | At_count nat action
  | At_class "class_ref option"
  | At_drop
  | At_unspec

definition make_decision :: "decision_result \<Rightarrow> class_ref option \<Rightarrow> action result" where
  "make_decision r c =
     (case r of
        dr_class \<Rightarrow> Inr (At_class c)
      | dr_drop \<Rightarrow> Inr At_drop
      | dr_continue \<Rightarrow> Inr At_unspec
      | dr_reclassify \<Rightarrow> Inl (E_errorf ''unsupported decision''))"

definition police_of :: "data \<Rightarrow> nat result" where
  "police_of d = (case d of D_police p \<Rightarrow> Inr p | D_bucket p \<Rightarrow> Inr p | _ \<Rightarrow> Inl (E_undef ''union member police''))"

text \<open>
  \<open>add_actions\<close>. The \<open>next\<close> and \<open>otherwise\<close> of a disjunction are dropped, and so is the \<open>next\<close> of a
  conjunction; the calls fail later when they would be needed.
\<close>

function add_actions :: "data \<Rightarrow> data \<Rightarrow> data \<Rightarrow> action result" where
  "add_actions d next otherwise =
     (case d of
        D_op t dsc a b c \<Rightarrow>
          if dsc = op_logical_or then add_actions a D_none b
          else if dsc = op_logical_and then add_actions a b otherwise
          else if dsc = op_conform then
            rbind (police_of a) (\<lambda>p.
            rbind (add_actions next D_none otherwise) (\<lambda>yes.
            rbind (add_actions otherwise D_none D_none) (\<lambda>no. Inr (At_conform p yes no))))
          else if dsc = op_count then
            rbind (police_of a) (\<lambda>p. rbind (add_actions next D_none otherwise) (\<lambda>yes. Inr (At_count p yes)))
          else Inl (E_errorf ''unknown action'')
      | D_decision r c \<Rightarrow> make_decision r c
      | _ \<Rightarrow> Inl (E_errorf ''unknown action''))"
  by pat_completeness auto

termination
  by (relation "measure (\<lambda>(d, next, otherwise). size d + size next + size otherwise)") auto

declare add_actions.simps [simp del]

section \<open>What an action does\<close>

fun arun :: "'st env \<Rightarrow> action \<Rightarrow> 'st \<Rightarrow> verdict \<times> 'st" where
  "arun E (At_conform p yes no) s = (if conforms E s (D_police p) then arun E yes s else arun E no s)"
| "arun E (At_count p a) s = arun E a (counts E s (D_police p))"
| "arun E (At_class c) s = (decide dr_class c, s)"
| "arun E At_drop s = (decide dr_drop None, s)"
| "arun E At_unspec s = (decide dr_continue None, s)"

lemma arun_decides: "\<exists>r c. fst (arun E a s) = V_decided r c"
  by (induction a arbitrary: s) (auto simp: decide_def)

lemma arun_not: "arun E a s \<noteq> (V_true, s')" "arun E a s \<noteq> (V_false, s')"
  using arun_decides [of E a s] by auto

lemmas arun_not_sym = arun_not [symmetric]

lemma after_arun [simp]: "after (arun E a s) yes no = arun E a s"
  using arun_decides [of E a s] by (auto simp: after_def)

lemma tree_after_decided:
  assumes "after r (\<lambda>s. (V_true, s)) no = arun E a s"
  shows "after r yes no = arun E a s"
proof (cases "fst r")
  case V_true
  then have "(V_true, snd r) = arun E a s" using assms by (simp add: after_def)
  then show ?thesis using arun_not(1) [of E a s] by metis
qed (use assms in \<open>simp_all add: after_def\<close>)

lemma add_actions_none: "add_actions D_none n ow = Inl (E_errorf ''unknown action'')"
  by (simp add: add_actions.simps)

lemma add_actions_op:
  assumes "add_actions (D_op ty dsc a b c) next ow = Inr t"
  obtains (lor) "dsc = op_logical_or" "add_actions a D_none b = Inr t"
  | (land) "dsc = op_logical_and" "add_actions a b ow = Inr t"
  | (conform) p yes no where "dsc = op_conform" "police_of a = Inr p" "t = At_conform p yes no"
      "add_actions next D_none ow = Inr yes" "add_actions ow D_none D_none = Inr no" "next \<noteq> D_none"
  | (count) p yes where "dsc = op_count" "police_of a = Inr p" "t = At_count p yes"
      "add_actions next D_none ow = Inr yes" "next \<noteq> D_none"
proof -
  have s: "add_actions (D_op ty dsc a b c) next ow =
      (if dsc = op_logical_or then add_actions a D_none b
       else if dsc = op_logical_and then add_actions a b ow
       else if dsc = op_conform then
         rbind (police_of a) (\<lambda>p. rbind (add_actions next D_none ow) (\<lambda>yes.
         rbind (add_actions ow D_none D_none) (\<lambda>no. Inr (At_conform p yes no))))
       else if dsc = op_count then
         rbind (police_of a) (\<lambda>p. rbind (add_actions next D_none ow) (\<lambda>yes. Inr (At_count p yes)))
       else Inl (E_errorf ''unknown action''))"
    by (subst add_actions.simps) simp
  consider "dsc = op_logical_or" | "dsc = op_logical_and" | "dsc = op_conform" | "dsc = op_count"
  proof -
    have "dsc \<in> {op_logical_or, op_logical_and, op_conform, op_count}"
    proof (rule ccontr)
      assume "dsc \<notin> {op_logical_or, op_logical_and, op_conform, op_count}"
      with assms show False unfolding s by simp
    qed
    then show thesis by (auto intro: that)
  qed
  then show thesis
  proof cases
    case 1
    with assms show ?thesis unfolding s by (simp add: lor)
  next
    case 2
    with assms show ?thesis unfolding s by (simp add: land)
  next
    case 3
    with assms obtain q y n where "police_of a = Inr q" "add_actions next D_none ow = Inr y"
        "add_actions ow D_none D_none = Inr n" "t = At_conform q y n"
      unfolding s by (auto simp: rbind_Inr_iff)
    then show ?thesis using 3 by (intro conform) (auto simp: add_actions_none)
  next
    case 4
    with assms obtain q y where "police_of a = Inr q" "add_actions next D_none ow = Inr y"
        "t = At_count q y"
      unfolding s by (auto simp: rbind_Inr_iff)
    then show ?thesis using 4 by (intro count) (auto simp: add_actions_none)
  qed
qed

text \<open>
  The tree does what the expression does for every evaluation that treats the operators of actions in
  the usual way. \<open>go_on\<close> is what follows a true of \<open>d\<close> in \<open>add_actions d next otherwise\<close>; true stands for
  no continuation.
\<close>

locale action_evaluator =
  fixes E :: "'st env" and ev :: "data \<Rightarrow> 'st \<Rightarrow> verdict \<times> 'st"
  assumes ev_and: "ev (D_op ty op_logical_and a b c) s = after (ev a s) (ev b) (\<lambda>s. (V_false, s))"
    and ev_or: "ev (D_op ty op_logical_or a b c) s = after (ev a s) (\<lambda>s. (V_true, s)) (ev b)"
    and ev_conform: "ev (D_op ty op_conform a b c) s = (truth (conforms E s a), s)"
    and ev_count: "ev (D_op ty op_count a b c) s = (V_true, counts E s a)"
    and ev_decision: "ev (D_decision r cl) s = (decide r cl, s)"
    and ev_none: "ev D_none s = (V_false, s)"
    and bucket_conforms: "conforms E s (D_bucket p) = conforms E s (D_police p)"
    and bucket_counts: "counts E s (D_bucket p) = counts E s (D_police p)"
begin

lemma same_police:
  "police_of a = Inr p \<Longrightarrow> conforms E s a = conforms E s (D_police p)"
  "police_of a = Inr p \<Longrightarrow> counts E s a = counts E s (D_police p)"
  by (cases a; simp add: police_of_def bucket_conforms bucket_counts)+

definition go_on :: "data \<Rightarrow> data \<Rightarrow> 'st \<Rightarrow> verdict \<times> 'st" where
  "go_on next otherwise s =
     (if next = D_none then (V_true, s) else after (ev next s) (\<lambda>s. (V_true, s)) (ev otherwise))"

lemma after_go_on:
  assumes "after r (go_on b ow) no = arun E t s"
  shows "after r (\<lambda>s'. after (ev b s') yes (ev ow)) no = arun E t s"
proof (cases "fst r")
  case V_true
  then have g: "go_on b ow (snd r) = arun E t s" using assms by (simp add: after_def [of r])
  have "after (ev b (snd r)) (\<lambda>s. (V_true, s)) (ev ow) = arun E t s"
  proof (cases "b = D_none")
    case True
    then show ?thesis using g by (simp add: go_on_def arun_not_sym)
  next
    case False
    then show ?thesis using g by (simp add: go_on_def)
  qed
  from tree_after_decided [OF this] show ?thesis using V_true by (simp add: after_def [of r])
qed (use assms in \<open>simp_all add: after_def [of r]\<close>)

lemma add_actions_run:
  "add_actions d next otherwise = Inr t \<Longrightarrow>
     after (ev d s) (go_on next otherwise) (ev otherwise) = arun E t s"
proof (induction "size d + size next + size otherwise" arbitrary: d "next" otherwise t s rule: less_induct)
  case less
  show ?case
  proof (cases d)
    case (D_decision r c)
    then show ?thesis using less.prems
      by (subst (asm) add_actions.simps) (auto simp: make_decision_def decide_def ev_decision split: decision_result.splits)
  next
    case (D_op ty dsc a b c)
    show ?thesis
      using less.prems [unfolded D_op]
    proof (cases rule: add_actions_op)
      case lor
      have "after (ev a s) (go_on D_none b) (ev b) = arun E t s"
        by (rule less.hyps [OF _ lor(2)]) (simp add: D_op)
      then have "after (ev a s) (\<lambda>s. (V_true, s)) (ev b) = arun E t s"
        by (simp add: go_on_def [abs_def])
      then show ?thesis unfolding D_op lor(1) ev_or by simp
    next
      case land
      have "after (ev a s) (go_on b otherwise) (ev otherwise) = arun E t s"
        by (rule less.hyps [OF _ land(2)]) (simp add: D_op)
      then have "after (ev a s) (\<lambda>s'. after (ev b s') (go_on next otherwise) (ev otherwise))
          (ev otherwise) = arun E t s"
        by (rule after_go_on)
      then show ?thesis by (simp add: D_op land(1) ev_and after_after)
    next
      case (conform p yes no)
      have "after (ev next s) (go_on D_none otherwise) (ev otherwise) = arun E yes s"
        by (rule less.hyps [OF _ conform(4)]) (simp add: D_op)
      moreover have "after (ev otherwise s) (go_on D_none D_none) (ev D_none) = arun E no s"
        by (rule less.hyps [OF _ conform(5)]) (simp add: D_op)
      ultimately show ?thesis
        using conform(6) by (simp add: D_op conform(1,3) go_on_def [abs_def] ev_none [abs_def] ev_conform same_police(1) [OF conform(2)])
    next
      case (count p yes)
      have "after (ev next s') (go_on D_none otherwise) (ev otherwise) = arun E yes s'" for s'
        by (rule less.hyps [OF _ count(4)]) (simp add: D_op)
      then show ?thesis
        using count(5) by (simp add: D_op count(1,3) go_on_def [abs_def] ev_count same_police(2) [OF count(2)])
    qed
  qed (use less.prems in \<open>simp_all add: add_actions.simps\<close>)
qed

text \<open>
  \<open>register_actions\<close> and \<open>get_action\<close> build the tree of a whole action. The missing continuations fail
  while the tree is built, so no side condition is needed.
\<close>

lemma build_actions: "add_actions d D_none D_none = Inr t \<Longrightarrow> ev d s = arun E t s"
  using add_actions_run [of d D_none D_none t s] by (simp add: go_on_def [abs_def] ev_none [abs_def])

end

text \<open>Policers and buckets are the same structure, so a policer is the same under both types.\<close>

fun as_police :: "data \<Rightarrow> data" where
  "as_police (D_bucket p) = D_police p"
| "as_police d = d"

definition police_view :: "'st env \<Rightarrow> 'st env" where
  "police_view E = E\<lparr>conforms := \<lambda>s d. conforms E s (as_police d), counts := \<lambda>s d. counts E s (as_police d)\<rparr>"

interpretation run_evaluates: action_evaluator "police_view E" "run (police_view E) x" for E x
  by unfold_locales (simp_all add: police_view_def)

interpretation xrun_evaluates: action_evaluator "police_view E" "xrun (police_view E) x" for E x
  by unfold_locales (simp_all add: police_view_def)

section \<open>Repeated tests\<close>

text \<open>
  \<open>repeated_actions\<close>. The pointers to the parents give the policers tested above a node, the nearest
  one first, with the branch that was taken. A test of one of them is replaced by the child on the
  branch. Nodes that count are passed over.
\<close>

fun repeated_actions :: "(nat \<times> bool) list \<Rightarrow> action \<Rightarrow> action" where
  "repeated_actions path (At_conform p yes no) =
     (case map_of path p of
        Some v \<Rightarrow> repeated_actions path (if v then yes else no)
      | None \<Rightarrow> At_conform p (repeated_actions ((p, True) # path) yes) (repeated_actions ((p, False) # path) no))"
| "repeated_actions path (At_count p a) = At_count p (repeated_actions path a)"
| "repeated_actions path a = a"

text \<open>No policer is tested twice on the way to a decision.\<close>

fun tested_once :: "nat set \<Rightarrow> action \<Rightarrow> bool" where
  "tested_once P (At_conform p yes no) \<longleftrightarrow> p \<notin> P \<and> tested_once (insert p P) yes \<and> tested_once (insert p P) no"
| "tested_once P (At_count p a) \<longleftrightarrow> tested_once P a"
| "tested_once P a \<longleftrightarrow> True"

lemma repeated_once: "tested_once (fst ` set path) (repeated_actions path t)"
  by (induction path t rule: repeated_actions.induct) (auto split: option.splits simp: map_of_eq_None_iff)

text \<open>
  Counting changes the answer of later tests. No test below a node that counts is of a policer in \<open>old\<close>,
  which were tested above it; \<open>new\<close> are those tested since.
\<close>

fun not_stale :: "nat set \<Rightarrow> nat set \<Rightarrow> action \<Rightarrow> bool" where
  "not_stale new old (At_conform p yes no) \<longleftrightarrow> p \<notin> old \<and> not_stale (insert p new) old yes \<and> not_stale (insert p new) old no"
| "not_stale new old (At_count p a) \<longleftrightarrow> not_stale {} (new \<union> old) a"
| "not_stale new old a \<longleftrightarrow> True"

lemma repeated_arun:
  assumes "not_stale new old t"
    and "\<forall>p v. map_of path p = Some v \<longrightarrow> p \<in> old \<or> p \<in> new \<and> conforms E s (D_police p) = v"
  shows "arun E (repeated_actions path t) s = arun E t s"
  using assms
proof (induction path t arbitrary: new old s rule: repeated_actions.induct)
  case (1 path p yes no)
  show ?case
  proof (cases "map_of path p")
    case None
    have "\<forall>q v. map_of ((p, conforms E s (D_police p)) # path) q = Some v \<longrightarrow>
        q \<in> old \<or> q \<in> insert p new \<and> conforms E s (D_police q) = v"
    proof (intro allI impI)
      fix q v assume "map_of ((p, conforms E s (D_police p)) # path) q = Some v"
      then show "q \<in> old \<or> q \<in> insert p new \<and> conforms E s (D_police q) = v"
        using "1.prems"(2) by (cases "q = p") auto
    qed
    then show ?thesis
      using "1.prems"(1) None "1.IH"(1,2) [OF None, where new = "insert p new" and old = old and s = s]
      by (cases "conforms E s (D_police p)") auto
  next
    case (Some v)
    with "1.prems" have v: "p \<in> new" "conforms E s (D_police p) = v" by auto
    then have "not_stale new old (if v then yes else no)"
      using "1.prems"(1) by (simp add: insert_absorb)
    from "1.IH"(3) [OF Some this "1.prems"(2)] show ?thesis using Some v by simp
  qed
next
  case (2 path p a)
  show ?case using "2.prems" by (auto intro!: "2.IH" [where new = "{}" and old = "new \<union> old"])
qed auto

text \<open>
  \<open>get_action\<close> up to its call of \<open>unique_action\<close>.
\<close>

definition action_tree_of :: "data \<Rightarrow> action result" where
  "action_tree_of d = rbind (add_actions d D_none D_none) (\<lambda>t. Inr (repeated_actions [] t))"

definition no_stale_test :: "data \<Rightarrow> bool" where
  "no_stale_test d = (case add_actions d D_none D_none of Inr t \<Rightarrow> not_stale {} {} t | Inl _ \<Rightarrow> True)"

lemma action_tree_run:
  assumes "action_tree_of d = Inr t" "no_stale_test d" "police_view E = E"
  shows "arun E t s = run E x d s" "arun E t s = xrun E x d s"
  using assms run_evaluates.build_actions [of d _ E x s] xrun_evaluates.build_actions [of d _ E x s]
  by (auto simp: action_tree_of_def rbind_Inr_iff repeated_arun no_stale_test_def)

text \<open>
  A test behind a count of the same policer is not stale in the code: the second test of the example is
  removed although the first packet takes the last token.
\<close>

definition stale_example :: data where
  "stale_example =
     D_op dt_unum op_logical_or
       (D_op dt_unum op_logical_and (D_op dt_unum op_conform (D_police 1) D_none D_none)
         (D_op dt_unum op_logical_and (D_op dt_unum op_count (D_police 1) D_none D_none)
           (D_op dt_unum op_logical_and (D_op dt_unum op_conform (D_police 1) D_none D_none) (D_decision dr_continue None) D_none)
           D_none) D_none)
       (D_decision dr_drop None) D_none"

definition one_token :: "bool env" where
  "one_token = \<lparr>packet = \<lambda>_ _ _. 0, conforms = \<lambda>s d. s, counts = \<lambda>s d. False\<rparr>"

lemma stale_test_removed:
  "action_tree_of stale_example = Inr (At_conform 1 (At_count 1 At_unspec) At_drop)"
  "run one_token (0, 0) stale_example True = (V_decided dr_drop None, False)"
  "arun one_token (At_conform 1 (At_count 1 At_unspec) At_drop) True = (V_decided dr_continue None, False)"
  by (simp_all add: action_tree_of_def stale_example_def add_actions.simps police_of_def make_decision_def one_token_def decide_def
      run_logic truth_def after_def)

section \<open>Properties\<close>

definition simple_action :: data where
  "simple_action = D_op dt_unum op_logical_or
     (D_op dt_unum op_logical_and (D_op dt_unum op_conform (D_police 1) D_none D_none) (D_decision dr_continue None) D_none)
     (D_decision dr_drop None) D_none"

lemma simple_tree: "action_tree_of simple_action = Inr (At_conform 1 At_unspec At_drop)" "no_stale_test simple_action"
  by (simp_all add: action_tree_of_def no_stale_test_def simple_action_def add_actions.simps police_of_def make_decision_def)



end
