(* ===== verification/Actdb_Store.thy ===== *)
theory Actdb_Store
  imports Actdb
begin

text \<open>
  \<^verbatim>\<open>tcc/iflib_actdb.c\<close>, second part: the trees of all rules share their equal parts. The nodes that are
  kept form a store; a node refers to its children by their index. The nodes of a tree that
  \<open>unique_action\<close> replaces by other nodes are unreachable afterwards and are not in the store.
\<close>

section \<open>The store\<close>

text \<open>\<open>N_conform p c1 c0\<close>, \<open>N_count p c1\<close>\<close>

datatype node =
    N_conform nat nat nat
  | N_count nat nat
  | N_class "class_ref option"
  | N_drop
  | N_unspec

text \<open>The numbers of a class and of its qdisc, which the classes without a qdisc lack.\<close>

record class_info =
  cls_qdisc :: "class_ref \<Rightarrow> u32 option"
  cls_number :: "class_ref \<Rightarrow> u32"

text \<open>\<open>hash\<close> has the leaves by their key; \<open>referers\<close> has the parents of a node, the oldest first.\<close>

record action_db =
  cells :: "node list"
  referers :: "nat \<Rightarrow> nat list"
  hash :: "nat \<Rightarrow> nat list"
  roots :: "nat list"

definition empty_db :: action_db where
  "empty_db = \<lparr>cells = [], referers = \<lambda>_. [], hash = \<lambda>_. [], roots = []\<rparr>"

fun action_eq :: "node \<Rightarrow> node \<Rightarrow> bool" where
  "action_eq (N_conform p _ _) (N_conform q _ _) \<longleftrightarrow> p = q"
| "action_eq (N_count p _) (N_count q _) \<longleftrightarrow> p = q"
| "action_eq (N_class c) (N_class d) \<longleftrightarrow> c = d"
| "action_eq N_drop N_drop \<longleftrightarrow> True"
| "action_eq N_unspec N_unspec \<longleftrightarrow> True"
| "action_eq _ _ \<longleftrightarrow> False"

section \<open>Leaves\<close>

definition HASH_ENTRIES :: nat where
  "HASH_ENTRIES = 47"

definition hash_key :: "class_info \<Rightarrow> node \<Rightarrow> nat result" where
  "hash_key info n =
     (case n of
        N_class None \<Rightarrow> Inl (E_undef ''null class'')
      | N_class (Some c) \<Rightarrow>
          (case cls_qdisc info c of
             None \<Rightarrow> Inl (E_undef ''null qdisc'')
           | Some q \<Rightarrow> Inr (unat (or (push_bit 16 q) (cls_number info c)) mod HASH_ENTRIES))
      | _ \<Rightarrow> Inr 0)"

definition hash_find :: "class_info \<Rightarrow> node \<Rightarrow> action_db \<Rightarrow> (nat \<times> action_db) result" where
  "hash_find info n db =
     rbind (hash_key info n) (\<lambda>key.
       case find (\<lambda>i. action_eq (cells db ! i) n) (hash db key) of
         Some i \<Rightarrow> Inr (i, db)
       | None \<Rightarrow>
           let new = length (cells db)
           in Inr (new, db\<lparr>cells := cells db @ [n], hash := (hash db)(key := new # hash db key)\<rparr>))"

section \<open>Sharing\<close>

definition add_referer :: "nat \<Rightarrow> nat \<Rightarrow> action_db \<Rightarrow> action_db" where
  "add_referer c r db = db\<lparr>referers := (referers db)(c := referers db c @ [r])\<rparr>"

definition add_cell :: "node \<Rightarrow> action_db \<Rightarrow> action_db" where
  "add_cell n db = db\<lparr>cells := cells db @ [n]\<rparr>"

text \<open>The two nested loops over the referers of \<open>c[0]\<close> and of \<open>c[1]\<close>.\<close>

definition common_referer :: "node \<Rightarrow> nat \<Rightarrow> nat \<Rightarrow> action_db \<Rightarrow> nat option" where
  "common_referer n c0 c1 db =
     find (\<lambda>r. action_eq (cells db ! r) n \<and> r \<in> set (referers db c1)) (referers db c0)"

fun unique_action :: "class_info \<Rightarrow> action \<Rightarrow> action_db \<Rightarrow> (nat \<times> action_db) result" where
  "unique_action info (At_conform p yes no) db =
     rbind (unique_action info no db) (\<lambda>(c0, db).
     rbind (unique_action info yes db) (\<lambda>(c1, db).
       case common_referer (N_conform p c1 c0) c0 c1 db of
         Some r \<Rightarrow> Inr (r, db)
       | None \<Rightarrow>
           let new = length (cells db)
           in Inr (new, add_referer c1 new (add_referer c0 new (add_cell (N_conform p c1 c0) db)))))"
| "unique_action info (At_count p a) db =
     rbind (unique_action info a db) (\<lambda>(c1, db).
       case find (\<lambda>r. action_eq (cells db ! r) (N_count p c1)) (referers db c1) of
         Some r \<Rightarrow> Inr (r, db)
       | None \<Rightarrow>
           let new = length (cells db)
           in Inr (new, add_referer c1 new (add_cell (N_count p c1) db)))"
| "unique_action info (At_class c) db = hash_find info (N_class c) db"
| "unique_action info At_drop db = hash_find info N_drop db"
| "unique_action info At_unspec db = hash_find info N_unspec db"

definition to_unique :: "class_info \<Rightarrow> action \<Rightarrow> action_db \<Rightarrow> action_db result" where
  "to_unique info a db =
     rbind (unique_action info a db) (\<lambda>(res, db).
       Inr (if res \<in> set (roots db) then db else db\<lparr>roots := res # roots db\<rparr>))"

definition register_actions :: "class_info \<Rightarrow> data \<Rightarrow> action_db \<Rightarrow> action_db result" where
  "register_actions info d db = rbind (action_tree_of d) (\<lambda>t. to_unique info t db)"

definition get_action :: "class_info \<Rightarrow> data \<Rightarrow> action_db \<Rightarrow> (nat \<times> action_db) result" where
  "get_action info d db = rbind (action_tree_of d) (\<lambda>t. unique_action info t db)"

section \<open>The trees in the store\<close>

fun stands :: "node list \<Rightarrow> action \<Rightarrow> nat \<Rightarrow> bool" where
  "stands cs (At_conform p yes no) i \<longleftrightarrow>
     i < length cs \<and> (case cs ! i of N_conform q c1 c0 \<Rightarrow> q = p \<and> stands cs yes c1 \<and> stands cs no c0 | _ \<Rightarrow> False)"
| "stands cs (At_count p a) i \<longleftrightarrow>
     i < length cs \<and> (case cs ! i of N_count q c1 \<Rightarrow> q = p \<and> stands cs a c1 | _ \<Rightarrow> False)"
| "stands cs (At_class c) i \<longleftrightarrow> i < length cs \<and> cs ! i = N_class c"
| "stands cs At_drop i \<longleftrightarrow> i < length cs \<and> cs ! i = N_drop"
| "stands cs At_unspec i \<longleftrightarrow> i < length cs \<and> cs ! i = N_unspec"

lemma stands_conform: "stands cs (At_conform p yes no) i \<longleftrightarrow>
    i < length cs \<and> (\<exists>c1 c0. cs ! i = N_conform p c1 c0 \<and> stands cs yes c1 \<and> stands cs no c0)"
  and stands_count: "stands cs (At_count p a) i \<longleftrightarrow> i < length cs \<and> (\<exists>c1. cs ! i = N_count p c1 \<and> stands cs a c1)"
  by (auto split: node.splits)

lemma stands_less: "stands cs t i \<Longrightarrow> i < length cs"
  by (cases t) auto

lemma stands_append: "stands cs t i \<Longrightarrow> stands (cs @ ds) t i"
  by (induction t arbitrary: i) (auto simp: nth_append split: node.splits)

text \<open>A node stands for one tree.\<close>

lemma stands_tree: "stands cs t i \<Longrightarrow> stands cs t' i \<Longrightarrow> t = t'"
proof (induction t arbitrary: i t')
  case (At_conform p yes no)
  then show ?case by (cases t') (auto split: node.splits)
next
  case (At_count p a)
  then show ?case by (cases t') (auto split: node.splits)
qed (case_tac t', auto split: node.splits)+

text \<open>Different nodes stand for different trees, when no two nodes are equal.\<close>

lemma stands_node: "distinct cs \<Longrightarrow> stands cs t i \<Longrightarrow> stands cs t j \<Longrightarrow> i = j"
proof (induction t arbitrary: i j)
  case (At_conform p yes no)
  then obtain c1 c0 d1 d0 where "cs ! i = N_conform p c1 c0" "cs ! j = N_conform p d1 d0"
      "stands cs yes c1" "stands cs yes d1" "stands cs no c0" "stands cs no d0" "i < length cs" "j < length cs"
    unfolding stands_conform by blast
  then show ?case using At_conform.IH At_conform.prems(1) by (metis nth_eq_iff_index_eq)
next
  case (At_count p a)
  then obtain c1 d1 where "cs ! i = N_count p c1" "cs ! j = N_count p d1"
      "stands cs a c1" "stands cs a d1" "i < length cs" "j < length cs"
    unfolding stands_count by blast
  then show ?case using At_count.IH At_count.prems(1) by (metis nth_eq_iff_index_eq)
qed (auto, (metis nth_eq_iff_index_eq)+)

fun children :: "node \<Rightarrow> nat list" where
  "children (N_conform _ c1 c0) = [c1, c0]"
| "children (N_count _ c1) = [c1]"
| "children _ = []"

fun leaf :: "node \<Rightarrow> bool" where
  "leaf (N_conform _ _ _) \<longleftrightarrow> False"
| "leaf (N_count _ _) \<longleftrightarrow> False"
| "leaf _ \<longleftrightarrow> True"

lemma leaf_children: "leaf n \<Longrightarrow> children n = []"
  by (cases n) auto

fun subtrees :: "action \<Rightarrow> action set" where
  "subtrees (At_conform p yes no) = insert (At_conform p yes no) (subtrees yes \<union> subtrees no)"
| "subtrees (At_count p a) = insert (At_count p a) (subtrees a)"
| "subtrees t = {t}"

lemma subtrees_self [simp]: "t \<in> subtrees t"
  by (cases t) auto

text \<open>
  The referers of a node do not tell which of its branches they use. Two trees that differ in the order
  of their branches only, or a tree with two equal branches, can be taken for another tree.
\<close>

definition no_clash :: "action set \<Rightarrow> bool" where
  "no_clash T \<longleftrightarrow> (\<forall>p yes no. At_conform p yes no \<in> T \<longrightarrow> yes \<noteq> no \<and> At_conform p no yes \<notin> T)"

text \<open>The store holds trees of \<open>T\<close> only, every node once, and finds its nodes.\<close>

definition db_ok :: "action set \<Rightarrow> class_info \<Rightarrow> action_db \<Rightarrow> bool" where
  "db_ok T info db \<longleftrightarrow>
     distinct (cells db) \<and>
     (\<forall>i < length (cells db). \<exists>t \<in> T. stands (cells db) t i) \<and>
     (\<forall>i < length (cells db). \<forall>c \<in> set (children (cells db ! i)). c < i) \<and>
     (\<forall>c r. r \<in> set (referers db c) \<longleftrightarrow> r < length (cells db) \<and> c \<in> set (children (cells db ! r))) \<and>
     (\<forall>k i. i \<in> set (hash db k) \<longleftrightarrow> i < length (cells db) \<and> leaf (cells db ! i) \<and> hash_key info (cells db ! i) = Inr k)"

lemma db_ok_empty: "db_ok T info empty_db"
  by (simp add: db_ok_def empty_db_def)

lemma db_ok_roots: "db_ok T info (db\<lparr>roots := rs\<rparr>) \<longleftrightarrow> db_ok T info db"
  by (simp add: db_ok_def)

lemma db_ok_extend:
  assumes "db_ok T info db" "stands (cells db @ [n]) t (length (cells db))" "t \<in> T" "n \<notin> set (cells db)"
    "\<forall>c \<in> set (children n). c < length (cells db)" "cells db' = cells db @ [n]"
    "\<forall>c. set (referers db' c) = set (referers db c) \<union> (if c \<in> set (children n) then {length (cells db)} else {})"
    "\<forall>k. set (hash db' k) = set (hash db k) \<union> (if leaf n \<and> hash_key info n = Inr k then {length (cells db)} else {})"
  shows "db_ok T info db'"
proof -
  have less: "i < length (cells db') \<longleftrightarrow> i < length (cells db) \<or> i = length (cells db)" for i
    using assms(6) by auto
  have cell: "cells db' ! i = (if i < length (cells db) then cells db ! i else n)" if "i < length (cells db')" for i
    using assms(6) that by (auto simp: nth_append)
  have "\<exists>t \<in> T. stands (cells db') t i" if "i < length (cells db')" for i
  proof (cases "i = length (cells db)")
    case True
    then show ?thesis using assms(2,3,6) by auto
  next
    case False
    with that have "i < length (cells db)" by (simp add: less)
    then obtain u where "u \<in> T" "stands (cells db) u i" using assms(1) by (auto simp: db_ok_def)
    then show ?thesis using assms(6) by (auto intro: stands_append)
  qed
  moreover have "\<forall>c \<in> set (children (cells db' ! i)). c < i" if "i < length (cells db')" for i
    using that assms(1,5) cell [OF that] by (auto simp: db_ok_def less)
  moreover have "r \<in> set (referers db' c) \<longleftrightarrow> r < length (cells db') \<and> c \<in> set (children (cells db' ! r))" for c r
    using assms(1,7) cell [of r] by (auto simp: db_ok_def less)
  moreover have "i \<in> set (hash db' k) \<longleftrightarrow>
      i < length (cells db') \<and> leaf (cells db' ! i) \<and> hash_key info (cells db' ! i) = Inr k" for k i
    using assms(1,8) cell [of i] by (auto simp: db_ok_def less)
  moreover have "distinct (cells db')"
    using assms(1,4,6) by (simp add: db_ok_def)
  ultimately show ?thesis by (simp add: db_ok_def)
qed


section \<open>Finding and adding nodes\<close>

definition grows :: "action_db \<Rightarrow> action_db \<Rightarrow> bool" where
  "grows db db' \<longleftrightarrow> (\<exists>ns. cells db' = cells db @ ns) \<and> roots db' = roots db"

lemma grows_refl [simp]: "grows db db"
  by (simp add: grows_def)

lemma grows_trans: "grows db db' \<Longrightarrow> grows db' db'' \<Longrightarrow> grows db db''"
  by (auto simp: grows_def)

lemma grows_stands: "grows db db' \<Longrightarrow> stands (cells db) t i \<Longrightarrow> stands (cells db') t i"
  by (auto simp: grows_def stands_append)

lemma find_found: "find P xs = Some x \<Longrightarrow> x \<in> set xs \<and> P x"
  by (auto simp: find_Some_iff in_set_conv_nth)

text \<open>What a lookup returns for the node \<open>n\<close>: the index it has, or a new one.\<close>

definition node_at :: "action set \<Rightarrow> class_info \<Rightarrow> action \<Rightarrow> action_db \<Rightarrow> (nat \<times> action_db) result \<Rightarrow> bool" where
  "node_at T info t db r \<longleftrightarrow>
     (\<exists>i db'. r = Inr (i, db') \<and> db_ok T info db' \<and> grows db db' \<and> stands (cells db') t i \<and>
       (\<forall>j. stands (cells db) t j \<longrightarrow> db' = db \<and> i = j))"

lemma node_at_found: "db_ok T info db \<Longrightarrow> stands (cells db) t j \<Longrightarrow> node_at T info t db (Inr (j, db))"
  by (auto simp: node_at_def db_ok_def intro: stands_node)

lemma node_at_new:
  assumes "db_ok T info db'" "cells db' = cells db @ [n]" "roots db' = roots db" "stands (cells db') t (length (cells db))"
  shows "node_at T info t db (Inr (length (cells db), db'))"
proof -
  have "\<not> stands (cells db) t j" for j
  proof
    assume j: "stands (cells db) t j"
    then have "stands (cells db') t j" using assms(2) by (simp add: stands_append)
    then have "j = length (cells db)" using assms(1,4) stands_node by (auto simp: db_ok_def)
    then show False using stands_less [OF j] by simp
  qed
  then show ?thesis using assms by (auto simp: node_at_def grows_def)
qed

lemma hash_find_at:
  assumes "db_ok T info db" "leaf n" "hash_key info n = Inr k" "t \<in> T"
    and t: "\<And>cs i. stands cs t i \<longleftrightarrow> i < length cs \<and> cs ! i = n"
  shows "node_at T info t db (hash_find info n db)"
proof -
  have eq: "action_eq (cells db ! i) n \<longleftrightarrow> cells db ! i = n" for i
    using assms(2) by (cases n; cases "cells db ! i") auto
  have bucket: "i \<in> set (hash db k) \<longleftrightarrow> i < length (cells db) \<and> leaf (cells db ! i) \<and> hash_key info (cells db ! i) = Inr k" for i
    using assms(1) by (simp add: db_ok_def)
  show ?thesis
  proof (cases "find (\<lambda>i. action_eq (cells db ! i) n) (hash db k)")
    case (Some j)
    then have "j < length (cells db)" "cells db ! j = n" using find_found [OF Some] by (auto simp: eq bucket)
    then show ?thesis
      using Some assms(3) node_at_found [OF assms(1), of t j] by (simp add: hash_find_def t)
  next
    case None
    have new: "n \<notin> set (cells db)"
    proof
      assume "n \<in> set (cells db)"
      then obtain j where "j < length (cells db)" "cells db ! j = n" by (auto simp: in_set_conv_nth)
      then show False using None assms(2,3) by (auto simp: find_None_iff eq bucket)
    qed
    let ?db = "db\<lparr>cells := cells db @ [n], hash := (hash db)(k := length (cells db) # hash db k)\<rparr>"
    have "db_ok T info ?db"
      by (rule db_ok_extend [OF assms(1) _ assms(4) new]) (use assms(2,3) in \<open>simp_all add: t leaf_children\<close>)
    then have "node_at T info t db (Inr (length (cells db), ?db))"
      by (rule node_at_new) (simp_all add: t)
    then show ?thesis using None assms(3) by (simp add: hash_find_def Let_def)
  qed
qed

section \<open>Sharing is exact\<close>

lemma referers_iff:
  "db_ok T info db \<Longrightarrow> r \<in> set (referers db c) \<longleftrightarrow> r < length (cells db) \<and> c \<in> set (children (cells db ! r))"
  by (simp add: db_ok_def)

lemma db_ok_tree: "db_ok T info db \<Longrightarrow> i < length (cells db) \<Longrightarrow> \<exists>t \<in> T. stands (cells db) t i"
  by (simp add: db_ok_def)

text \<open>A common referer of the two children that tests the policer is the node itself.\<close>

lemma common_referer_exact:
  assumes "db_ok T info db" "no_clash T" "At_conform p yes no \<in> T" "stands (cells db) yes c1" "stands (cells db) no c0"
    "r < length (cells db)" "c0 \<in> set (children (cells db ! r))" "c1 \<in> set (children (cells db ! r))"
    "action_eq (cells db ! r) (N_conform p c1 c0)"
  shows "cells db ! r = N_conform p c1 c0"
proof -
  obtain d1 d0 where r: "cells db ! r = N_conform p d1 d0" using assms(9) by (cases "cells db ! r") auto
  obtain u where u: "u \<in> T" "stands (cells db) u r" using db_ok_tree [OF assms(1,6)] by blast
  then obtain y n where y: "u = At_conform p y n" "stands (cells db) y d1" "stands (cells db) n d0"
    using r by (cases u) (auto split: node.splits)
  have dist: "distinct (cells db)" using assms(1) by (simp add: db_ok_def)
  have "c1 \<noteq> c0" using assms(2-5) stands_tree [of "cells db" yes c1 no] by (auto simp: no_clash_def)
  moreover have "d1 \<noteq> d0" using assms(2) u(1) y stands_tree [of "cells db" y d1 n] by (auto simp: no_clash_def)
  ultimately consider "c1 = d1" "c0 = d0" | "c1 = d0" "c0 = d1" using assms(7,8) r by auto
  then show ?thesis
  proof cases
    case 2
    then have "y = no" "n = yes" using y assms(4,5) stands_tree by blast+
    then show ?thesis using assms(2,3) u(1) y(1) by (auto simp: no_clash_def)
  qed (use r in simp)
qed

lemma unique_conform:
  assumes "db_ok T info db" "no_clash T" "At_conform p yes no \<in> T" "stands (cells db) yes c1" "stands (cells db) no c0"
  defines "n \<equiv> N_conform p c1 c0"
  shows "node_at T info (At_conform p yes no) db
    (case common_referer n c0 c1 db of
       Some r \<Rightarrow> Inr (r, db)
     | None \<Rightarrow> Inr (length (cells db), add_referer c1 (length (cells db)) (add_referer c0 (length (cells db)) (add_cell n db))))"
proof (cases "common_referer n c0 c1 db")
  case (Some r)
  then have r: "r \<in> set (referers db c0)" "r \<in> set (referers db c1)" "action_eq (cells db ! r) n"
    by (auto simp: common_referer_def dest!: find_found)
  then have "cells db ! r = n" "r < length (cells db)"
    using common_referer_exact [OF assms(1-5)] referers_iff [OF assms(1)] by (auto simp: n_def)
  then have "stands (cells db) (At_conform p yes no) r" using assms(4,5) by (simp add: n_def)
  then show ?thesis using Some node_at_found [OF assms(1)] by simp
next
  case None
  have new: "n \<notin> set (cells db)"
  proof
    assume "n \<in> set (cells db)"
    then obtain r where "r < length (cells db)" "cells db ! r = n" by (auto simp: in_set_conv_nth)
    then have "r \<in> set (referers db c0)" "r \<in> set (referers db c1)" "action_eq (cells db ! r) n"
      using referers_iff [OF assms(1)] by (auto simp: n_def)
    then show False using None by (auto simp: common_referer_def find_None_iff)
  qed
  have st: "stands (cells db @ [n]) (At_conform p yes no) (length (cells db))"
    using assms(4,5) by (simp add: n_def stands_append)
  let ?db = "add_referer c1 (length (cells db)) (add_referer c0 (length (cells db)) (add_cell n db))"
  have "db_ok T info ?db"
    by (rule db_ok_extend [OF assms(1) st assms(3) new])
      (use stands_less [OF assms(4)] stands_less [OF assms(5)] in \<open>auto simp: add_referer_def add_cell_def n_def\<close>)
  then have "node_at T info (At_conform p yes no) db (Inr (length (cells db), ?db))"
    by (rule node_at_new) (use st in \<open>simp_all add: add_referer_def add_cell_def\<close>)
  then show ?thesis using None by simp
qed

lemma unique_count:
  assumes "db_ok T info db" "At_count p a \<in> T" "stands (cells db) a c1"
  defines "n \<equiv> N_count p c1"
  shows "node_at T info (At_count p a) db
    (case find (\<lambda>r. action_eq (cells db ! r) n) (referers db c1) of
       Some r \<Rightarrow> Inr (r, db)
     | None \<Rightarrow> Inr (length (cells db), add_referer c1 (length (cells db)) (add_cell n db)))"
proof (cases "find (\<lambda>r. action_eq (cells db ! r) n) (referers db c1)")
  case (Some r)
  then have r: "r < length (cells db)" "c1 \<in> set (children (cells db ! r))" "action_eq (cells db ! r) n"
    using referers_iff [OF assms(1)] find_found [OF Some] by auto
  then have "cells db ! r = n" by (cases "cells db ! r") (auto simp: n_def)
  then have "stands (cells db) (At_count p a) r" using r(1) assms(3) by (simp add: n_def)
  then show ?thesis using Some node_at_found [OF assms(1)] by simp
next
  case None
  have new: "n \<notin> set (cells db)"
  proof
    assume "n \<in> set (cells db)"
    then obtain r where "r < length (cells db)" "cells db ! r = n" by (auto simp: in_set_conv_nth)
    then have "r \<in> set (referers db c1)" "action_eq (cells db ! r) n"
      using referers_iff [OF assms(1)] by (auto simp: n_def)
    then show False using None by (auto simp: find_None_iff)
  qed
  have st: "stands (cells db @ [n]) (At_count p a) (length (cells db))"
    using assms(3) by (simp add: n_def stands_append)
  let ?db = "add_referer c1 (length (cells db)) (add_cell n db)"
  have "db_ok T info ?db"
    by (rule db_ok_extend [OF assms(1) st assms(2) new])
      (use stands_less [OF assms(3)] in \<open>auto simp: add_referer_def add_cell_def n_def\<close>)
  then have "node_at T info (At_count p a) db (Inr (length (cells db), ?db))"
    by (rule node_at_new) (use st in \<open>simp_all add: add_referer_def add_cell_def\<close>)
  then show ?thesis using None by simp
qed

text \<open>Every class has a qdisc, so a key.\<close>

fun keyed :: "class_info \<Rightarrow> action \<Rightarrow> bool" where
  "keyed info (At_conform p yes no) \<longleftrightarrow> keyed info yes \<and> keyed info no"
| "keyed info (At_count p a) \<longleftrightarrow> keyed info a"
| "keyed info (At_class c) \<longleftrightarrow> (case c of None \<Rightarrow> False | Some c \<Rightarrow> cls_qdisc info c \<noteq> None)"
| "keyed info a \<longleftrightarrow> True"

lemma node_atD:
  assumes "node_at T info t db r"
  obtains i db' where "r = Inr (i, db')" "db_ok T info db'" "grows db db'" "stands (cells db') t i"
    "\<And>j. stands (cells db) t j \<Longrightarrow> db' = db \<and> i = j"
  using assms by (auto simp: node_at_def)

lemma unique_ok:
  "db_ok T info db \<Longrightarrow> no_clash T \<Longrightarrow> subtrees t \<subseteq> T \<Longrightarrow> keyed info t \<Longrightarrow> node_at T info t db (unique_action info t db)"
proof (induction t arbitrary: db)
  case (At_conform p yes no)
  have "node_at T info no db (unique_action info no db)" by (rule At_conform.IH(2)) (use At_conform.prems in auto)
  then obtain c0 db0 where 0: "unique_action info no db = Inr (c0, db0)" "db_ok T info db0" "grows db db0" "stands (cells db0) no c0"
      "\<forall>j. stands (cells db) no j \<longrightarrow> db0 = db \<and> c0 = j"
    by (rule node_atD) blast
  have "node_at T info yes db0 (unique_action info yes db0)" by (rule At_conform.IH(1)) (use At_conform.prems 0 in auto)
  then obtain c1 db1 where 1: "unique_action info yes db0 = Inr (c1, db1)" "db_ok T info db1" "grows db0 db1" "stands (cells db1) yes c1"
      "\<forall>j. stands (cells db0) yes j \<longrightarrow> db1 = db0 \<and> c1 = j"
    by (rule node_atD) blast
  have "At_conform p yes no \<in> T" using At_conform.prems(3) by auto
  from unique_conform [OF 1(2) At_conform.prems(2) this 1(4) grows_stands [OF 1(3) 0(4)]]
  have "node_at T info (At_conform p yes no) db1 (unique_action info (At_conform p yes no) db)"
    by (simp add: 0(1) 1(1) Let_def cong: option.case_cong)
  then obtain i db' where 2: "unique_action info (At_conform p yes no) db = Inr (i, db')" "db_ok T info db'" "grows db1 db'"
      "stands (cells db') (At_conform p yes no) i" "\<forall>j. stands (cells db1) (At_conform p yes no) j \<longrightarrow> db' = db1 \<and> i = j"
    by (rule node_atD) blast
  have "db' = db \<and> i = j" if j: "stands (cells db) (At_conform p yes no) j" for j
  proof -
    from j obtain d1 d0 where "stands (cells db) yes d1" "stands (cells db) no d0" unfolding stands_conform by blast
    then have "db1 = db" using 0(5) 1(5) by blast
    then show ?thesis using 2(5) j by blast
  qed
  then show ?case using 2 grows_trans [OF 0(3) grows_trans [OF 1(3) 2(3)]] by (auto simp: node_at_def)
next
  case (At_count p a)
  have "node_at T info a db (unique_action info a db)" by (rule At_count.IH) (use At_count.prems in auto)
  then obtain c1 db1 where 1: "unique_action info a db = Inr (c1, db1)" "db_ok T info db1" "grows db db1" "stands (cells db1) a c1"
      "\<forall>j. stands (cells db) a j \<longrightarrow> db1 = db \<and> c1 = j"
    by (rule node_atD) blast
  have "At_count p a \<in> T" using At_count.prems(3) by auto
  from unique_count [OF 1(2) this 1(4)]
  have "node_at T info (At_count p a) db1 (unique_action info (At_count p a) db)"
    by (simp add: 1(1) Let_def cong: option.case_cong)
  then obtain i db' where 2: "unique_action info (At_count p a) db = Inr (i, db')" "db_ok T info db'" "grows db1 db'"
      "stands (cells db') (At_count p a) i" "\<forall>j. stands (cells db1) (At_count p a) j \<longrightarrow> db' = db1 \<and> i = j"
    by (rule node_atD) blast
  have "db' = db \<and> i = j" if j: "stands (cells db) (At_count p a) j" for j
  proof -
    from j obtain d1 where "stands (cells db) a d1" unfolding stands_count by blast
    then have "db1 = db" using 1(5) by blast
    then show ?thesis using 2(5) j by blast
  qed
  then show ?case using 2 grows_trans [OF 1(3) 2(3)] by (auto simp: node_at_def)
next
  case (At_class c)
  then obtain k where "hash_key info (N_class c) = Inr k"
    by (auto simp: hash_key_def split: option.splits)
  then show ?case using hash_find_at [OF At_class.prems(1), of "N_class c" k "At_class c"] At_class.prems(3) by simp
next
  case At_drop
  then show ?case using hash_find_at [of T info db N_drop 0 At_drop] by (simp add: hash_key_def)
next
  case At_unspec
  then show ?case using hash_find_at [of T info db N_unspec 0 At_unspec] by (simp add: hash_key_def)
qed

section \<open>Registration\<close>

text \<open>All actions of a configuration are registered before any is looked up.\<close>

fun register_all :: "class_info \<Rightarrow> data list \<Rightarrow> action_db \<Rightarrow> action_db result" where
  "register_all info [] db = Inr db"
| "register_all info (d # ds) db = rbind (register_actions info d db) (register_all info ds)"

definition trees_of :: "data list \<Rightarrow> action set" where
  "trees_of ds = (\<Union>d \<in> set ds. case action_tree_of d of Inr t \<Rightarrow> subtrees t | Inl _ \<Rightarrow> {})"

text \<open>Registered: the tree is in the store and its node is an entry point.\<close>

definition registered :: "action_db \<Rightarrow> action \<Rightarrow> bool" where
  "registered db t \<longleftrightarrow> (\<exists>i \<in> set (roots db). stands (cells db) t i)"

lemma to_unique_ok:
  assumes "db_ok T info db" "no_clash T" "subtrees t \<subseteq> T" "keyed info t"
  shows "\<exists>db'. to_unique info t db = Inr db' \<and> db_ok T info db' \<and> registered db' t \<and>
    (\<forall>u. registered db u \<longrightarrow> registered db' u)"
proof -
  obtain i db' where i: "unique_action info t db = Inr (i, db')" "db_ok T info db'" "grows db db'" "stands (cells db') t i"
    using unique_ok [OF assms] by (rule node_atD) blast
  have "registered db u \<Longrightarrow> registered db' u" for u
    using i(3) stands_append unfolding registered_def grows_def by fastforce
  then show ?thesis using i by (auto simp: to_unique_def registered_def db_ok_roots)
qed

lemma register_all_ok:
  assumes "db_ok T info db" "no_clash T" "\<forall>d \<in> set ds. \<exists>t. action_tree_of d = Inr t \<and> subtrees t \<subseteq> T \<and> keyed info t"
  shows "\<exists>db'. register_all info ds db = Inr db' \<and> db_ok T info db' \<and>
    (\<forall>u. registered db u \<longrightarrow> registered db' u) \<and> (\<forall>d \<in> set ds. \<forall>t. action_tree_of d = Inr t \<longrightarrow> registered db' t)"
  using assms(1,3)
proof (induction ds arbitrary: db)
  case (Cons d ds)
  then obtain t where t: "action_tree_of d = Inr t" "subtrees t \<subseteq> T" "keyed info t" by auto
  obtain db1 where 1: "to_unique info t db = Inr db1" "db_ok T info db1" "registered db1 t"
      "\<forall>u. registered db u \<longrightarrow> registered db1 u"
    using to_unique_ok [OF Cons.prems(1) assms(2) t(2,3)] by blast
  obtain db2 where 2: "register_all info ds db1 = Inr db2" "db_ok T info db2" "\<forall>u. registered db1 u \<longrightarrow> registered db2 u"
      "\<forall>d \<in> set ds. \<forall>t. action_tree_of d = Inr t \<longrightarrow> registered db2 t"
    using Cons.IH [OF 1(2)] Cons.prems(2) by auto
  have "register_all info (d # ds) db = Inr db2" using t 1 2 by (simp add: register_actions_def)
  then show ?case using t 1 2 by auto
qed simp

lemma get_action_found:
  assumes "db_ok T info db" "no_clash T" "subtrees t \<subseteq> T" "keyed info t" "action_tree_of d = Inr t" "stands (cells db) t i"
  shows "get_action info d db = Inr (i, db)"
proof -
  obtain j db' where "unique_action info t db = Inr (j, db')" "\<forall>k. stands (cells db) t k \<longrightarrow> db' = db \<and> j = k"
    using unique_ok [OF assms(1-4)] by (rule node_atD) blast
  then show ?thesis using assms(5,6) by (auto simp: get_action_def)
qed

section \<open>Properties\<close>

definition count_action :: data where
  "count_action = D_op dt_unum op_logical_and (D_op dt_unum op_count (D_police 1) D_none D_none) simple_action D_none"

definition any_class :: class_info where
  "any_class = \<lparr>cls_qdisc = \<lambda>_. Some 1, cls_number = \<lambda>_. 4\<rparr>"

lemma count_tree: "action_tree_of count_action = Inr (At_count 1 (At_conform 1 At_unspec At_drop))"
  by (simp add: action_tree_of_def count_action_def simple_action_def add_actions.simps police_of_def make_decision_def)

text \<open>
  C5: The actions of a configuration are shared exactly. After all of them were registered, no two nodes
  are equal, every action is found again without a change of the store, its node is an entry point, and the node
  stands for the tree of this action. (No two of the trees clash.)
\<close>

theorem actions_shared_exactly:
  assumes "\<forall>d \<in> set ds. \<exists>t. action_tree_of d = Inr t \<and> keyed info t" "no_clash (trees_of ds)"
  shows "\<exists>db. register_all info ds empty_db = Inr db \<and> distinct (cells db) \<and>
    (\<forall>d \<in> set ds. \<exists>t i. action_tree_of d = Inr t \<and> get_action info d db = Inr (i, db) \<and> i \<in> set (roots db) \<and>
       stands (cells db) t i)"
proof -
  let ?T = "trees_of ds"
  have sub: "subtrees t \<subseteq> ?T" if "d \<in> set ds" "action_tree_of d = Inr t" for d t
    unfolding trees_of_def
    by (rule subset_trans [OF _ UN_upper [of d "set ds"]]) (use that in auto)
  have ds: "\<forall>d \<in> set ds. \<exists>t. action_tree_of d = Inr t \<and> subtrees t \<subseteq> ?T \<and> keyed info t"
    using assms(1) sub by blast
  obtain db where db: "register_all info ds empty_db = Inr db" "db_ok ?T info db"
      "\<forall>d \<in> set ds. \<forall>t. action_tree_of d = Inr t \<longrightarrow> registered db t"
    using register_all_ok [OF db_ok_empty assms(2) ds] by blast
  have "\<exists>t i. action_tree_of d = Inr t \<and> get_action info d db = Inr (i, db) \<and> i \<in> set (roots db) \<and> stands (cells db) t i"
    if d: "d \<in> set ds" for d
  proof -
    obtain t where t: "action_tree_of d = Inr t" "keyed info t" using assms(1) d by blast
    then obtain i where i: "i \<in> set (roots db)" "stands (cells db) t i" using db(3) d by (auto simp: registered_def)
    have "get_action info d db = Inr (i, db)"
      by (rule get_action_found [OF db(2) assms(2) sub [OF d t(1)] t(2,1) i(2)])
    then show ?thesis using t(1) i by blast
  qed
  moreover have "distinct (cells db)" using db(2) by (simp add: db_ok_def)
  ultimately show ?thesis using db(1) by blast
qed

lemma actions_shared_exactly_witness:
  "\<exists>db. register_all any_class [simple_action, count_action] empty_db = Inr db \<and> distinct (cells db) \<and>
    (\<forall>d \<in> {simple_action, count_action}. \<exists>t i. action_tree_of d = Inr t \<and> get_action any_class d db = Inr (i, db) \<and>
       i \<in> set (roots db) \<and> stands (cells db) t i)"
proof -
  have "no_clash (trees_of [simple_action, count_action])"
    by (auto simp: trees_of_def simple_tree(1) count_tree no_clash_def)
  then show ?thesis
    using actions_shared_exactly [of "[simple_action, count_action]" any_class] by (simp add: simple_tree(1) count_tree)
qed

definition opposite_action :: data where
  "opposite_action = D_op dt_unum op_logical_or
     (D_op dt_unum op_logical_and (D_op dt_unum op_conform (D_police 1) D_none D_none) (D_decision dr_drop None) D_none)
     (D_decision dr_continue None) D_none"


end
