(* ===== verification/Text.thy ===== *)
theory Text
  imports Prelude
begin

text \<open>
  Text that the program writes and reads: the conversions \<^verbatim>\<open>%d\<close> and \<^verbatim>\<open>%x\<close> of the C library on
  numbers, and the reading of a decimal number, with the round trip between them.
\<close>

definition digit :: "nat \<Rightarrow> char" where
  "digit n = char_of (if n < 10 then 48 + n else 87 + n)"

text \<open>The digits of a number in base \<open>b\<close>; the base is at least 2.\<close>

function digits :: "nat \<Rightarrow> nat \<Rightarrow> string" where
  "digits b n = (if n < b \<or> b < 2 then [digit n] else digits b (n div b) @ [digit (n mod b)])"
  by pat_completeness auto

termination digits
  by (relation "measure snd") auto

declare digits.simps [simp del]

definition dec :: "nat \<Rightarrow> string" where
  "dec n = digits 10 n"

definition dec_int :: "int \<Rightarrow> string" where
  "dec_int i = (if i < 0 then CHR ''-'' # dec (nat (- i)) else dec (nat i))"

definition is_digit :: "char \<Rightarrow> bool" where
  "is_digit c \<longleftrightarrow> 48 \<le> (of_char c :: nat) \<and> (of_char c :: nat) \<le> 57"

definition digit_value :: "char \<Rightarrow> nat" where
  "digit_value c = of_char c - 48"

text \<open>The number that the leading digits of a text stand for, and the rest of the text.\<close>

fun read_dec :: "nat \<Rightarrow> string \<Rightarrow> nat \<times> string" where
  "read_dec n [] = (n, [])"
| "read_dec n (c # cs) = (if is_digit c then read_dec (10 * n + digit_value c) cs else (n, c # cs))"

lemma digit_dec: "n < 10 \<Longrightarrow> is_digit (digit n) \<and> digit_value (digit n) = n"
  by (simp add: digit_def is_digit_def digit_value_def of_char_of)

lemma dec_nonempty [simp]: "dec n \<noteq> []"
  by (subst dec_def, subst digits.simps) simp

lemma read_dec_append:
  "\<forall>c\<in>set ds. is_digit c \<Longrightarrow> read_dec n (ds @ cs) = read_dec (fst (read_dec n ds)) cs"
  by (induction ds arbitrary: n) auto

lemma dec_digits: "\<forall>c\<in>set (dec n). is_digit c"
  unfolding dec_def
proof (induction "10 :: nat" n rule: digits.induct)
  case (1 n)
  show ?case
  proof (cases "n < 10")
    case False
    then show ?thesis using 1 digit_dec [of "n mod 10"] by (subst digits.simps) auto
  qed (use digit_dec in \<open>subst digits.simps, auto\<close>)
qed

lemma read_dec_dec: "fst (read_dec 0 (dec n)) = n"
  unfolding dec_def
proof (induction "10 :: nat" n rule: digits.induct)
  case (1 n)
  show ?case
  proof (cases "n < 10")
    case False
    have "fst (read_dec 0 (digits 10 (n div 10) @ [digit (n mod 10)])) = 10 * (n div 10) + n mod 10"
      using 1 False dec_digits [of "n div 10"] digit_dec [of "n mod 10"]
      by (subst read_dec_append) (auto simp: dec_def)
    then show ?thesis using False by (subst digits.simps) simp
  qed (use digit_dec in \<open>subst digits.simps, auto\<close>)
qed

text \<open>A printed number followed by something else than a digit is read back.\<close>

lemma read_dec_roundtrip:
  assumes "cs = [] \<or> \<not> is_digit (hd cs)"
  shows "read_dec 0 (dec n @ cs) = (n, cs)"
proof -
  have "read_dec k cs = (k, cs)" for k using assms by (cases cs) auto
  then show ?thesis by (simp add: read_dec_append [OF dec_digits] read_dec_dec)
qed

section \<open>Scanning\<close>

text \<open>
  The conversions of \<^verbatim>\<open>sscanf\<close>. Each takes the text and yields the value and the rest of the text, or
  nothing when the input does not match. Numbers are read without a bound; what the C library
  does with a number that is out of range is not used.
\<close>

definition is_space :: "char \<Rightarrow> bool" where
  "is_space c \<longleftrightarrow> of_char c = (32 :: nat) \<or> (9 \<le> (of_char c :: nat) \<and> (of_char c :: nat) \<le> 13)"

definition skip_space :: "string \<Rightarrow> string" where
  "skip_space s = dropWhile is_space s"

definition hex_value :: "char \<Rightarrow> nat" where
  "hex_value c = (let n = of_char c in if 97 \<le> n then n - 87 else if 65 \<le> n then n - 55 else n - 48)"

definition is_xdigit :: "char \<Rightarrow> bool" where
  "is_xdigit c \<longleftrightarrow> is_digit c \<or> (65 \<le> (of_char c :: nat) \<and> (of_char c :: nat) \<le> 70) \<or>
     (97 \<le> (of_char c :: nat) \<and> (of_char c :: nat) \<le> 102)"

definition is_odigit :: "char \<Rightarrow> bool" where
  "is_odigit c \<longleftrightarrow> is_digit c \<and> digit_value c < 8"

text \<open>The digits of a base that lead the text.\<close>

definition read_base :: "nat \<Rightarrow> (char \<Rightarrow> bool) \<Rightarrow> string \<Rightarrow> nat \<times> string" where
  "read_base b ok s = (foldl (\<lambda>n c. b * n + hex_value c) 0 (takeWhile ok s), dropWhile ok s)"

text \<open>\<^verbatim>\<open>%i\<close> without the sign: hexadecimal after \<^verbatim>\<open>0x\<close>, octal after \<^verbatim>\<open>0\<close>, decimal otherwise.\<close>

definition scan_nat :: "string \<Rightarrow> (nat \<times> string) option" where
  "scan_nat s =
     (case s of
        [] \<Rightarrow> None
      | c # cs \<Rightarrow>
          if \<not> is_digit c then None
          else if c = CHR ''0''
          then (case cs of
                  x # d # ds \<Rightarrow>
                    if (x = CHR ''x'' \<or> x = CHR ''X'') \<and> is_xdigit d then Some (read_base 16 is_xdigit (d # ds))
                    else Some (read_base 8 is_odigit s)
                | _ \<Rightarrow> Some (read_base 8 is_odigit s))
          else Some (read_dec 0 s))"

definition signed :: "(string \<Rightarrow> (nat \<times> string) option) \<Rightarrow> string \<Rightarrow> (int \<times> string) option" where
  "signed f s =
     (case skip_space s of
        [] \<Rightarrow> None
      | c # cs \<Rightarrow>
          if c = CHR ''-'' then map_option (\<lambda>(n, r). (- int n, r)) (f cs)
          else if c = CHR ''+'' then map_option (\<lambda>(n, r). (int n, r)) (f cs)
          else map_option (\<lambda>(n, r). (int n, r)) (f (c # cs)))"

definition scan_i :: "string \<Rightarrow> (int \<times> string) option" where
  "scan_i = signed scan_nat"

text \<open>\<^verbatim>\<open>%lu\<close>\<close>

definition scan_dec :: "string \<Rightarrow> (nat \<times> string) option" where
  "scan_dec s = (case s of c # cs \<Rightarrow> if is_digit c then Some (read_dec 0 s) else None | [] \<Rightarrow> None)"

definition scan_lu :: "string \<Rightarrow> (int \<times> string) option" where
  "scan_lu = signed scan_dec"

text \<open>\<^verbatim>\<open>%s\<close> with a maximal length, and the characters of a format.\<close>

definition scan_s :: "nat \<Rightarrow> string \<Rightarrow> (string \<times> string) option" where
  "scan_s n s =
     (let s = skip_space s; w = take n (takeWhile (\<lambda>c. \<not> is_space c) s)
      in if w = [] then None else Some (w, drop (length w) s))"

fun scan_lit :: "string \<Rightarrow> string \<Rightarrow> string option" where
  "scan_lit [] s = Some s"
| "scan_lit (f # fs) s =
     (if is_space f then scan_lit fs (skip_space s)
      else case s of [] \<Rightarrow> None | c # cs \<Rightarrow> if c = f then scan_lit fs cs else None)"

lemma skip_space_nonspace: "s = [] \<or> \<not> is_space (hd s) \<Longrightarrow> skip_space s = s"
  by (cases s) (auto simp: skip_space_def)

lemma digit_not_space: "is_digit c \<Longrightarrow> \<not> is_space c \<and> c \<noteq> CHR ''-'' \<and> c \<noteq> CHR ''+''"
  by (auto simp: is_digit_def is_space_def)

lemma dec_cases: "\<exists>c cs. dec n = c # cs \<and> is_digit c \<and> (c = CHR ''0'' \<longrightarrow> n = 0)"
proof -
  obtain c cs where c: "dec n = c # cs" by (cases "dec n") auto
  have "c = CHR ''0'' \<longrightarrow> n = 0" if "digits 10 n = c # cs" for c cs
    using that
  proof (induction "10 :: nat" n arbitrary: cs rule: digits.induct)
    case (1 n)
    show ?case
    proof (cases "n < 10")
      case True
      with 1 have "digit n = c" by (subst (asm) digits.simps) simp
      then show ?thesis using digit_dec [OF True] by (auto simp: digit_value_def)
    next
      case False
      then have "n div 10 \<noteq> 0" by auto
      obtain ds where "digits 10 (n div 10) = c # ds"
        using 1(2) False dec_nonempty [of "n div 10"]
        by (subst (asm) digits.simps) (cases "digits 10 (n div 10)"; simp add: dec_def)
      with 1(1) [of ds] False \<open>n div 10 \<noteq> 0\<close> show ?thesis by simp
    qed
  qed
  with c dec_digits [of n] show ?thesis by (auto simp: dec_def)
qed

text \<open>What \<^verbatim>\<open>%d\<close> wrote is read back by \<^verbatim>\<open>%i\<close>.\<close>

lemma scan_nat_dec:
  assumes "cs = [] \<or> \<not> is_digit (hd cs) \<and> hd cs \<noteq> CHR ''x'' \<and> hd cs \<noteq> CHR ''X''"
  shows "scan_nat (dec n @ cs) = Some (n, cs)"
proof -
  from dec_cases obtain d ds where d: "dec n = d # ds" "is_digit d" "d = CHR ''0'' \<longrightarrow> n = 0" by blast
  have rest: "cs = [] \<or> \<not> is_digit (hd cs)" using assms by blast
  show ?thesis
  proof (cases "d = CHR ''0''")
    case True
    then have "n = 0" using d by simp
    then have ds: "ds = []" using d(1) by (simp add: dec_def digits.simps)
    have o: "is_odigit CHR ''0''" "hex_value CHR ''0'' = 0" by (simp_all add: is_odigit_def is_digit_def digit_value_def hex_value_def)
    have "cs = [] \<or> \<not> is_odigit (hd cs)" using rest by (auto simp: is_odigit_def)
    then have "read_base 8 is_odigit (CHR ''0'' # cs) = (0, cs)"
      using o by (cases cs) (auto simp: read_base_def)
    then show ?thesis
      using True d ds \<open>n = 0\<close> assms by (auto simp: scan_nat_def split: list.split)
  next
    case False
    then show ?thesis using d read_dec_roundtrip [OF rest, of n] by (simp add: scan_nat_def)
  qed
qed

lemma signed_dec:
  assumes "\<And>n. f (dec n @ cs) = Some (n, cs)"
  shows "signed f (dec_int i @ cs) = Some (i, cs)"
proof -
  have sp: "\<not> is_space CHR ''-''" by (simp add: is_space_def)
  from dec_cases [of "nat i"] obtain d ds where d: "dec (nat i) = d # ds" "is_digit d" by blast
  show ?thesis
    using assms [of "nat i"] assms [of "nat (- i)"] sp d digit_not_space [OF d(2)]
    by (auto simp: dec_int_def signed_def skip_space_def)
qed

lemma scan_i_dec_int:
  "cs = [] \<or> \<not> is_digit (hd cs) \<and> hd cs \<noteq> CHR ''x'' \<and> hd cs \<noteq> CHR ''X'' \<Longrightarrow>
     scan_i (dec_int i @ cs) = Some (i, cs)"
  unfolding scan_i_def by (rule signed_dec) (rule scan_nat_dec)

lemma dec_int_of_nat: "dec_int (int n) = dec n"
  by (simp add: dec_int_def)

text \<open>Every conversion consumes a part of the text, so loops over a line end.\<close>

lemma read_dec_le: "length (snd (read_dec n s)) \<le> length s"
  by (induction s arbitrary: n) (auto intro: le_SucI)

lemma read_base_less: "ok c \<Longrightarrow> length (snd (read_base b ok (c # cs))) < length (c # cs)"
  by (simp add: read_base_def le_imp_less_Suc length_dropWhile_le)

lemma read_base_le: "length (snd (read_base b ok s)) \<le> length s"
  by (simp add: read_base_def length_dropWhile_le)

lemma scan_nat_shorter: "scan_nat s = Some (n, r) \<Longrightarrow> length r < length s"
proof (cases s)
  case (Cons c cs)
  assume scan: "scan_nat s = Some (n, r)"
  show ?thesis
  proof (cases "c = CHR ''0''")
    case True
    have o: "length (snd (read_base 8 is_odigit s)) < length s"
      unfolding Cons True by (rule read_base_less) (simp add: is_odigit_def is_digit_def digit_value_def)
    have h: "length (snd (read_base 16 is_xdigit ds)) < Suc (Suc (length ds))" for ds
      using read_base_le [of 16 is_xdigit ds] by simp
    have "Some (n, r) = Some (read_base 8 is_odigit s) \<or>
        (\<exists>x d ds. cs = x # d # ds \<and> Some (n, r) = Some (read_base 16 is_xdigit (d # ds)))"
      using scan Cons True by (auto simp: scan_nat_def split: if_splits list.splits)
    then show ?thesis
    proof (elim disjE exE conjE)
      fix x d ds assume "cs = x # d # ds" "Some (n, r) = Some (read_base 16 is_xdigit (d # ds))"
      then show ?thesis using h [of "d # ds"] Cons by (metis Suc_lessD length_Cons less_SucI option.inject snd_conv)
    qed (use o in \<open>metis option.inject snd_conv\<close>)
  next
    case False
    then have "r = snd (read_dec (digit_value c) cs)"
      using scan Cons by (auto simp: scan_nat_def split: if_splits)
    then show ?thesis using read_dec_le [of "digit_value c" cs] Cons by simp
  qed
qed (simp add: scan_nat_def)

lemma skip_space_le: "length (skip_space s) \<le> length s"
  by (simp add: skip_space_def length_dropWhile_le)

lemma signed_shorter:
  assumes "\<And>s n r. f s = Some (n, r) \<Longrightarrow> length r < length s" "signed f s = Some (i, r)"
  shows "length r < length s"
proof (cases "skip_space s")
  case (Cons c cs)
  have "\<exists>n. f cs = Some (n, r) \<or> f (c # cs) = Some (n, r)"
    using assms(2) Cons by (auto simp: signed_def split: if_splits)
  then have "length r < length cs \<or> length r < length (c # cs)" using assms(1) by blast
  then have "length r < length (c # cs)" by auto
  then show ?thesis using skip_space_le [of s] Cons by simp
qed (use assms(2) in \<open>simp add: signed_def\<close>)

lemma scan_i_shorter: "scan_i s = Some (i, r) \<Longrightarrow> length r < length s"
  unfolding scan_i_def by (rule signed_shorter [OF scan_nat_shorter])

lemma scan_dec_shorter: "scan_dec s = Some (n, r) \<Longrightarrow> length r < length s"
proof (cases s)
  case (Cons c cs)
  assume "scan_dec s = Some (n, r)"
  then have "r = snd (read_dec (digit_value c) cs)" using Cons by (auto simp: scan_dec_def split: if_splits)
  then show ?thesis using read_dec_le [of "digit_value c" cs] Cons by simp
qed (simp add: scan_dec_def)

lemma scan_lu_shorter: "scan_lu s = Some (i, r) \<Longrightarrow> length r < length s"
  unfolding scan_lu_def by (rule signed_shorter [OF scan_dec_shorter])

lemma scan_lit_le: "scan_lit f s = Some r \<Longrightarrow> length r \<le> length s"
proof (induction f s rule: scan_lit.induct)
  case (2 f fs s)
  then show ?case
    using skip_space_le [of s] by (auto split: if_splits list.splits intro: order_trans le_SucI)
qed simp

lemma scan_s_shorter: "scan_s n s = Some (w, r) \<Longrightarrow> length r < length s"
proof -
  assume scan: "scan_s n s = Some (w, r)"
  let ?s = "skip_space s"
  have w: "w \<noteq> []" "w = take n (takeWhile (\<lambda>c. \<not> is_space c) ?s)" "r = drop (length w) ?s"
    using scan by (auto simp: scan_s_def Let_def split: if_splits)
  have "length w \<le> length ?s"
    unfolding w(2) by (metis length_take min.cobounded1 order_trans length_takeWhile_le)
  with w(1,3) have "length r < length ?s" by (cases w) auto
  then show ?thesis using skip_space_le [of s] by simp
qed

end
