(* ===== verification/Tccext.thy ===== *)
theory Tccext
  imports Text
begin

text \<open>
  \<^verbatim>\<open>tcc/ext/tccext.h\<close>: what a program that uses the external interface gets from \<^verbatim>\<open>tccext_parse\<close>. The
  structures are linked by pointers to entries parsed earlier, so a pointer is the tree it leads to;
  an offset group is \<open>G_raw\<close> for the null pointer and \<open>G_meta\<close> for the address of
  \<^verbatim>\<open>tccext_meta_field_group\<close>. A pointer to a bucket is the chain of indices of the bucket and of the
  buckets it overflows to.
\<close>

definition META_FIELD_ROOT :: int where
  "META_FIELD_ROOT = 1"

datatype tcc_group =
    G_raw
  | G_meta
  | G_offset (gr_number: int) (gr_base: tcc_group) (gr_field: tcc_group) (gr_offset: int) (gr_length: int)
      (gr_shift: int)

record tcc_field =
  tf_group :: tcc_group
  tf_offset :: int
  tf_length :: int

record tcc_match =
  match_field :: tcc_field
  match_data :: "8 word list"

record tcc_class =
  class_qdisc :: int
  class_index :: int

datatype tcc_action =
    A_null
  | A_conform "int list" tcc_action tcc_action
  | A_count "int list" tcc_action
  | A_class "tcc_class list"
  | A_drop
  | A_unspec

text \<open>A rule without an action is a barrier.\<close>

record tcc_rule =
  matches_of :: "tcc_match list"
  rule_action :: "tcc_action option"

section \<open>The context\<close>

text \<open>The lists of the C code are built at the front; new entries come first.\<close>

datatype tcc_class_def =
  Tcc_class (cd_index: int) (cd_params: "(string \<times> u32) list") (cd_pragmas: "string list")
    (cd_location: string) (cd_qdisc: "int option") (cd_classes: "tcc_class_def list")

record tcc_qdisc =
  qd_type :: "string option"
  qd_index :: int
  qd_params :: "(string \<times> u32) list"
  qd_classes :: "tcc_class_def list"
  qd_pragmas :: "string list"
  qd_location :: string

record tcc_bucket =
  bk_index :: int
  bk_rate :: u32
  bk_mpu :: int
  bk_depth :: u32
  bk_initial :: u32
  bk_overflow :: "int list"
  bk_pragmas :: "string list"
  bk_location :: string

record tcc_block =
  bl_name :: string
  bl_ingress :: bool
  bl_qdiscs :: "tcc_qdisc list"
  bl_actions :: "(int \<times> tcc_action) list"
  bl_rules :: "tcc_rule list"
  bl_pragmas :: "string list"
  bl_location :: string

record tcc_context =
  cx_pragmas :: "string list"
  cx_groups :: "(int \<times> tcc_group) list"
  cx_buckets :: "tcc_bucket list"
  cx_blocks :: "tcc_block list"

definition empty_context :: tcc_context where
  "empty_context = \<lparr>cx_pragmas = [], cx_groups = [], cx_buckets = [], cx_blocks = []\<rparr>"

text \<open>Every error of the parser prints a message and exits.\<close>

definition parse_error :: "string \<Rightarrow> 'a result" where
  "parse_error msg = Inl (E_errorf msg)"

fun need :: "string \<Rightarrow> 'a option \<Rightarrow> ('a \<Rightarrow> 'b result) \<Rightarrow> 'b result" where
  "need msg None f = parse_error msg"
| "need msg (Some x) f = f x"

lemma need_cong [fundef_cong]:
  "m = n \<Longrightarrow> (\<And>x. n = Some x \<Longrightarrow> f x = g x) \<Longrightarrow> need msg m f = need msg n g"
  by (cases n) auto

text \<open>
  The position behind the next character. At the end of a line it is the null byte that \<^verbatim>\<open>fgets\<close> wrote
  behind the newline, so the text is empty there. (Where a comment ends the line, the code would
  read on in the comment; the model takes lines without one.)
\<close>

definition step :: "string \<Rightarrow> string" where
  "step s = drop 1 s"

section \<open>Fields and offsets\<close>

definition find_group :: "tcc_context \<Rightarrow> int \<Rightarrow> tcc_group result" where
  "find_group ctx number =
     (if number = 0 then Inr G_raw
      else if number = META_FIELD_ROOT then Inr G_meta
      else case map_of (cx_groups ctx) number of
        Some g \<Rightarrow> Inr g
      | None \<Rightarrow> parse_error ''offset group not found'')"

text \<open>\<^verbatim>\<open>"%i:%i:%i%n"\<close>\<close>

definition scan_field :: "string \<Rightarrow> ((int \<times> int \<times> int) \<times> string) option" where
  "scan_field s =
     Option.bind (scan_i s) (\<lambda>(b, s). Option.bind (scan_lit '':'' s) (\<lambda>s.
     Option.bind (scan_i s) (\<lambda>(off, s). Option.bind (scan_lit '':'' s) (\<lambda>s.
     Option.bind (scan_i s) (\<lambda>(len, s). Some ((b, off, len), s))))))"

definition parse_field :: "tcc_context \<Rightarrow> string \<Rightarrow> (tcc_field \<times> string) result" where
  "parse_field ctx line =
     need ''invalid field expression'' (scan_field line) (\<lambda>((b, off, len), rest).
       rbind (find_group ctx b) (\<lambda>g. Inr (\<lparr>tf_group = g, tf_offset = off, tf_length = len\<rparr>, rest)))"

text \<open>
  \<^verbatim>\<open>"%i = %i+(%n"\<close>, a field, and \<^verbatim>\<open>"<< %i)"\<close> after the character behind it. When the last part does
  not match, the group is dropped without a message. When the two numbers are read and \<^verbatim>\<open>+(\<close> does not
  follow, \<open>pos\<close> is used uninitialized.
\<close>

definition parse_offset :: "tcc_context \<Rightarrow> string \<Rightarrow> tcc_context result" where
  "parse_offset ctx line =
     need ''invalid offset expression'' (scan_i line) (\<lambda>(number, s).
     need ''invalid offset expression'' (scan_lit '' = '' s) (\<lambda>s.
     need ''invalid offset expression'' (scan_i s) (\<lambda>(b, s).
       if number \<in> set (map fst (cx_groups ctx)) then parse_error ''duplicate offset group''
       else rbind (find_group ctx b) (\<lambda>b.
         case scan_lit ''+('' s of
           None \<Rightarrow> Inl (E_undef ''uninitialized variable'')
         | Some s \<Rightarrow>
             rbind (parse_field ctx s) (\<lambda>(f, s).
             case Option.bind (scan_lit ''<< '' (step s)) scan_i of
                 None \<Rightarrow> Inr ctx
               | Some (shift, s) \<Rightarrow>
                   Inr (ctx\<lparr>cx_groups := (number, G_offset number b (tf_group f) (tf_offset f) (tf_length f) shift)
                          # cx_groups ctx\<rparr>))))))"

section \<open>Matches and rules\<close>

definition nibble :: "char \<Rightarrow> 8 word" where
  "nibble c = of_nat (hex_value c)"

text \<open>The bytes of the data, two digits for each; an odd digit comes first.\<close>

fun pair_up :: "string \<Rightarrow> 8 word list" where
  "pair_up (a # b # cs) = (push_bit 4 (nibble a) OR nibble b) # pair_up cs"
| "pair_up _ = []"

definition hex_bytes :: "string \<Rightarrow> 8 word list" where
  "hex_bytes s = (if odd (length s) then nibble (hd s) # pair_up (tl s) else pair_up s)"

text \<open>
  The data of a match. The digits go to the end of \<open>bytes\<close> bytes; when they are more, the code writes
  in front of the memory it allocated. The allocation is rounded up to the size of a word.
\<close>

definition align_data :: "int \<Rightarrow> 8 word list \<Rightarrow> 8 word list result" where
  "align_data len ds =
     (let bytes = (len + 7) div 8
      in if bytes < int (length ds) then Inl (E_undef ''write before an allocated block'')
         else let n = nat bytes in Inr (replicate (n - length ds) 0 @ ds @ replicate ((n + 3) div 4 * 4 - n) 0))"

definition parse_match :: "tcc_context \<Rightarrow> string \<Rightarrow> (tcc_match \<times> string) result" where
  "parse_match ctx line =
     rbind (parse_field ctx line) (\<lambda>(f, s).
       if take 3 s \<noteq> ''=0x'' then parse_error ''invalid match''
       else let s = dropWhile (\<lambda>c. c = CHR ''0'') (drop 3 s); hex = takeWhile is_xdigit s
            in rbind (align_data (tf_length f) (hex_bytes hex)) (\<lambda>d.
                 Inr (\<lparr>match_field = f, match_data = d\<rparr>, drop (length hex) s)))"

lemma scan_field_shorter: "scan_field s = Some (x, r) \<Longrightarrow> length r < length s"
  by (auto simp: scan_field_def bind_eq_Some_conv simp del: scan_lit.simps dest!: scan_i_shorter scan_lit_le)

lemma parse_field_shorter: "parse_field ctx s = Inr (f, r) \<Longrightarrow> length r < length s"
  by (cases "scan_field s") (auto simp: parse_field_def parse_error_def rbind_Inr_iff dest!: scan_field_shorter)

lemma parse_match_shorter: "parse_match ctx s = Inr (m, r) \<Longrightarrow> length r < length s"
proof -
  assume "parse_match ctx s = Inr (m, r)"
  then obtain f r1 where 1: "parse_field ctx s = Inr (f, r1)"
      "length r \<le> length (dropWhile (\<lambda>c. c = CHR ''0'') (drop 3 r1))"
    by (auto simp: parse_match_def parse_error_def rbind_Inr_iff Let_def split: if_splits)
  have "length (dropWhile (\<lambda>c. c = CHR ''0'') (drop 3 r1)) \<le> length (drop 3 r1)" by (rule length_dropWhile_le)
  with 1(2) parse_field_shorter [OF 1(1)] show ?thesis by simp
qed

text \<open>The loop over the matches of a rule.\<close>

function parse_matches :: "tcc_context \<Rightarrow> string \<Rightarrow> (tcc_match list \<times> string) result" where
  "parse_matches ctx line =
     (if line = [] \<or> \<not> is_digit (hd line) then Inr ([], line)
      else rbind (parse_match ctx line) (\<lambda>(m, s).
        rbind (parse_matches ctx (step s)) (\<lambda>(ms, s). Inr (m # ms, s))))"
  by pat_completeness auto

termination
proof (relation "measure (\<lambda>(ctx, line). length line)")
  fix ctx line z m s
  assume "parse_match ctx line = Inr z" "(m, s) = z"
  then show "((ctx, step s), ctx, line) \<in> measure (\<lambda>(ctx, line). length line)"
    using parse_match_shorter [of ctx line m s] by (auto simp: step_def)
qed simp

declare parse_matches.simps [simp del]

fun change_block :: "(tcc_block \<Rightarrow> tcc_block) \<Rightarrow> tcc_context \<Rightarrow> tcc_context" where
  "change_block f ctx = (case cx_blocks ctx of [] \<Rightarrow> ctx | b # bs \<Rightarrow> ctx\<lparr>cx_blocks := f b # bs\<rparr>)"

text \<open>\<^verbatim>\<open>ctx->blocks\<close>, which the functions below dereference.\<close>

definition current_block :: "tcc_context \<Rightarrow> tcc_block result" where
  "current_block ctx = (case cx_blocks ctx of [] \<Rightarrow> Inl (E_undef ''null block'') | b # bs \<Rightarrow> Inr b)"

definition add_rule :: "tcc_rule \<Rightarrow> tcc_block \<Rightarrow> tcc_block" where
  "add_rule r b = b\<lparr>bl_rules := bl_rules b @ [r]\<rparr>"

definition find_action :: "tcc_context \<Rightarrow> int \<Rightarrow> tcc_action option result" where
  "find_action ctx index = rbind (current_block ctx) (\<lambda>b. Inr (map_of (bl_actions b) index))"

definition parse_rule :: "tcc_context \<Rightarrow> string \<Rightarrow> tcc_context result" where
  "parse_rule ctx line =
     (if cx_blocks ctx = [] then parse_error ''rule without block''
      else rbind (parse_matches ctx line) (\<lambda>(ms, s).
        need ''invalid action'' (Option.bind (scan_lit '' action '' s) scan_i) (\<lambda>(i, _).
        rbind (find_action ctx i) (\<lambda>a.
        need ''no actions'' a (\<lambda>a.
          Inr (change_block (add_rule \<lparr>matches_of = ms, rule_action = Some a\<rparr>) ctx))))))"

definition parse_barrier :: "tcc_context \<Rightarrow> tcc_context result" where
  "parse_barrier ctx =
     (if cx_blocks ctx = [] then parse_error ''rule without block''
      else Inr (change_block (add_rule \<lparr>matches_of = [], rule_action = None\<rparr>) ctx))"

section \<open>Pragmas, parameters, buckets and blocks\<close>

function parse_pragmas :: "string \<Rightarrow> string list" where
  "parse_pragmas s = (case scan_s (length s) s of None \<Rightarrow> [] | Some (w, r) \<Rightarrow> w # parse_pragmas r)"
  by pat_completeness auto

termination
  by (relation "measure length") (auto dest: scan_s_shorter)

declare parse_pragmas.simps [simp del]

definition parse_pragma :: "tcc_context \<Rightarrow> string \<Rightarrow> tcc_context" where
  "parse_pragma ctx line = ctx\<lparr>cx_pragmas := parse_pragmas line\<rparr>"

text \<open>
  \<^verbatim>\<open>"%as %lu%n"\<close>; the loop ends at the first pair that does not match, or behind the name \<^verbatim>\<open>pragma\<close>, where
  the position stays in front of the pair.
\<close>

function parse_parameters :: "string \<Rightarrow> (string \<times> u32) list \<times> string" where
  "parse_parameters line =
     (case scan_s (length line) line of
        None \<Rightarrow> ([], line)
      | Some (name, s) \<Rightarrow>
          (case scan_lu s of
             None \<Rightarrow> ([], line)
           | Some (v, r) \<Rightarrow>
               if name = ''pragma'' then ([], line)
               else let (ps, r) = parse_parameters r in ((name, word_of_int v) # ps, r)))"
  by pat_completeness auto

termination
  by (relation "measure length") (auto dest!: scan_s_shorter scan_lu_shorter)

declare parse_parameters.simps [simp del]

definition location :: "string \<Rightarrow> string" where
  "location s = ''[<'' @ s @ ''>]''"

definition find_bucket :: "tcc_context \<Rightarrow> int \<Rightarrow> tcc_bucket result" where
  "find_bucket ctx index = need ''no bucket'' (find (\<lambda>b. bk_index b = index) (cx_buckets ctx)) Inr"

text \<open>The chain of a bucket and the buckets it overflows to.\<close>

definition bucket_chain :: "tcc_bucket \<Rightarrow> int list" where
  "bucket_chain b = bk_index b # bk_overflow b"

definition parse_bucket :: "tcc_context \<Rightarrow> string \<Rightarrow> tcc_context result" where
  "parse_bucket ctx line =
     (let bad = ''unrecognized bucket'' in
      need bad (scan_i line) (\<lambda>(index, s). need bad (scan_lit '' = '' s) (\<lambda>s.
      need bad (scan_lu s) (\<lambda>(rate, s). need bad (scan_i s) (\<lambda>(mpu, s).
      need bad (scan_lu s) (\<lambda>(depth, s). need bad (scan_lu s) (\<lambda>(initial, s).
      need bad (scan_i s) (\<lambda>(overflow, s).
        if list_ex (\<lambda>b. bk_index b = index) (cx_buckets ctx) then parse_error ''duplicate bucket index''
        else rbind (if overflow \<noteq> 0 then rbind (find_bucket ctx overflow) (\<lambda>b. Inr (bucket_chain b)) else Inr []) (\<lambda>chain.
          Inr (ctx\<lparr>cx_buckets := \<lparr>bk_index = index, bk_rate = word_of_int rate, bk_mpu = mpu, bk_depth = word_of_int depth,
             bk_initial = word_of_int initial, bk_overflow = chain, bk_pragmas = parse_pragmas s,
             bk_location = location (''police '' @ dec_int index)\<rparr> # cx_buckets ctx\<rparr>))))))))))"

definition parse_block :: "tcc_context \<Rightarrow> string \<Rightarrow> tcc_context result" where
  "parse_block ctx line =
     need ''invalid block'' (scan_s (length line) line) (\<lambda>(name, s).
     need ''invalid block'' (scan_s 10 s) (\<lambda>(role, s).
       if role \<noteq> ''ingress'' \<and> role \<noteq> ''egress'' then parse_error ''unrecognized role''
       else if list_ex (\<lambda>b. bl_name b = name \<and> bl_ingress b = (role = ''ingress'')) (cx_blocks ctx)
       then parse_error ''duplicate block''
       else Inr (ctx\<lparr>cx_blocks := \<lparr>bl_name = name, bl_ingress = (role = ''ingress''), bl_qdiscs = [], bl_actions = [],
              bl_rules = [], bl_pragmas = parse_pragmas s, bl_location = location (''device '' @ name)\<rparr> # cx_blocks ctx\<rparr>)))"

section \<open>Queuing disciplines and classes\<close>

definition find_qdisc :: "tcc_block \<Rightarrow> int \<Rightarrow> tcc_qdisc option" where
  "find_qdisc b index = find (\<lambda>q. qd_index q = index) (bl_qdiscs b)"

text \<open>The pragmas that may follow the parameters.\<close>

definition trailing_pragmas :: "string \<Rightarrow> string list" where
  "trailing_pragmas s =
     (let s = dropWhile (\<lambda>c. c = CHR '' '') s in if take 6 s = ''pragma'' then parse_pragmas (drop 7 s) else [])"

definition parse_qdisc :: "tcc_context \<Rightarrow> string \<Rightarrow> tcc_context result" where
  "parse_qdisc ctx line =
     (let bad = ''unrecognized qdisc definition'' in
      need bad (scan_i line) (\<lambda>(index, s). need bad (scan_lit '' = '' s) (\<lambda>s.
      need bad (scan_s (length s) s) (\<lambda>(ty, s).
      rbind (current_block ctx) (\<lambda>b.
        if find_qdisc b index \<noteq> None then parse_error ''duplicate qdisc index''
        else let (ps, s) = parse_parameters (step s);
                 loc = (if bl_ingress b then location (''qdisc '' @ bl_name b @ '':ingress'')
                        else location (''qdisc '' @ bl_name b @ '':'' @ dec_int index));
                 q = \<lparr>qd_type = Some ty, qd_index = index, qd_params = ps, qd_classes = [],
                      qd_pragmas = trailing_pragmas s, qd_location = loc\<rparr>
             in Inr (change_block (\<lambda>b. b\<lparr>bl_qdiscs := q # bl_qdiscs b\<rparr>) ctx))))))"

text \<open>\<open>extract_param\<close> removes a parameter and yields its value, or -1.\<close>

fun extract_param :: "string \<Rightarrow> (string \<times> u32) list \<Rightarrow> int \<times> (string \<times> u32) list" where
  "extract_param name [] = (-1, [])"
| "extract_param name ((n, v) # ps) =
     (if n = name then (sint v, ps) else let (r, ps) = extract_param name ps in (r, (n, v) # ps))"

fun find_class :: "tcc_class_def list \<Rightarrow> int \<Rightarrow> tcc_class_def option" where
  "find_class [] index = None"
| "find_class (Tcc_class n ps prs loc q subs # cs) index =
     (if n = index then Some (Tcc_class n ps prs loc q subs)
      else case find_class subs index of Some c \<Rightarrow> Some c | None \<Rightarrow> find_class cs index)"

text \<open>Appending a class to the children of the class \<open>find_class\<close> finds.\<close>

fun add_child :: "int \<Rightarrow> tcc_class_def \<Rightarrow> tcc_class_def list \<Rightarrow> tcc_class_def list" where
  "add_child index new [] = []"
| "add_child index new (Tcc_class n ps prs loc q subs # cs) =
     (if n = index then Tcc_class n ps prs loc q (subs @ [new]) # cs
      else if find_class subs index \<noteq> None then Tcc_class n ps prs loc q (add_child index new subs) # cs
      else Tcc_class n ps prs loc q subs # add_child index new cs)"

text \<open>
  The number before an equals sign. \<^verbatim>\<open>sscanf\<close> is tested with \<^verbatim>\<open>!\<close>, so an empty line and a missing sign go
  unnoticed and leave variables uninitialized.
\<close>

definition scan_number :: "string \<Rightarrow> string \<Rightarrow> (int \<times> string) result" where
  "scan_number msg line =
     (case scan_i line of
        None \<Rightarrow> if skip_space line = [] then Inl (E_undef ''uninitialized variable'') else parse_error msg
      | Some (i, s) \<Rightarrow> (case scan_lit '' ='' s of None \<Rightarrow> Inl (E_undef ''uninitialized variable'') | Some s \<Rightarrow> Inr (i, step s)))"

definition parse_class :: "tcc_context \<Rightarrow> string \<Rightarrow> tcc_context result" where
  "parse_class ctx line =
     rbind (scan_number ''unrecognized class definition'' line) (\<lambda>(index, s).
     rbind (current_block ctx) (\<lambda>b.
       let (ps, s) = parse_parameters s; (parent, ps) = extract_param ''parent'' ps; (qdisc, ps) = extract_param ''qdisc'' ps
       in if qdisc \<noteq> -1 \<and> find_qdisc b qdisc = None then parse_error ''qdisc not found''
          else case bl_qdiscs b of
            [] \<Rightarrow> Inl (E_undef ''null qdisc'')
          | q # qs \<Rightarrow>
              if find_class (qd_classes q) index \<noteq> None then parse_error ''duplicate class''
              else let loc = location (''class '' @ take (length (qd_location q) - 10) (drop 8 (qd_location q)) @ '':'' @ dec_int index);
                       c = Tcc_class index ps (trailing_pragmas s) loc (if qdisc = -1 then None else Some qdisc) []
                   in if parent = -1
                      then Inr (change_block (\<lambda>b. b\<lparr>bl_qdiscs := q\<lparr>qd_classes := qd_classes q @ [c]\<rparr> # qs\<rparr>) ctx)
                      else if find_class (qd_classes q) parent = None then parse_error ''parent class not found''
                      else Inr (change_block (\<lambda>b. b\<lparr>bl_qdiscs := q\<lparr>qd_classes := add_child parent c (qd_classes q)\<rparr> # qs\<rparr>) ctx)))"

section \<open>Actions\<close>

text \<open>
  \<open>fudge_class\<close> adds a class that was not declared. Its qdisc, when it was not declared either,
  takes the place of the list of qdiscs of the block, and the other qdiscs are lost.
\<close>

definition fudge_qdisc :: "int \<Rightarrow> tcc_block \<Rightarrow> tcc_block" where
  "fudge_qdisc index b =
     b\<lparr>bl_qdiscs := [\<lparr>qd_type = None, qd_index = index, qd_params = [], qd_classes = [], qd_pragmas = [],
        qd_location = bl_location b\<rparr>]\<rparr>"

definition append_class :: "int \<Rightarrow> int \<Rightarrow> tcc_qdisc list \<Rightarrow> tcc_qdisc list" where
  "append_class qdisc class_no qs =
     (case find (\<lambda>(i, q). qd_index q = qdisc) (enumerate 0 qs) of
        None \<Rightarrow> qs
      | Some (i, q) \<Rightarrow> qs[i := q\<lparr>qd_classes := qd_classes q @ [Tcc_class class_no [] [] (qd_location q) None []]\<rparr>])"

definition fudge_class :: "int \<Rightarrow> int \<Rightarrow> tcc_block \<Rightarrow> tcc_block" where
  "fudge_class qdisc class_no b =
     (let b = (if find_qdisc b qdisc = None then fudge_qdisc qdisc b else b)
      in b\<lparr>bl_qdiscs := append_class qdisc class_no (bl_qdiscs b)\<rparr>)"

definition know_class :: "int \<Rightarrow> int \<Rightarrow> tcc_block \<Rightarrow> tcc_block" where
  "know_class qdisc class_no b =
     (case find_qdisc b qdisc of
        None \<Rightarrow> fudge_class qdisc class_no b
      | Some q \<Rightarrow> if find_class (qd_classes q) class_no = None then fudge_class qdisc class_no b else b)"

function parse_class_list :: "tcc_context \<Rightarrow> string \<Rightarrow> (tcc_class list \<times> string \<times> tcc_context) result" where
  "parse_class_list ctx line =
     need ''not a class'' (scan_i (step line)) (\<lambda>(q, s).
     need ''not a class'' (scan_lit '':'' s) (\<lambda>s.
     need ''not a class'' (scan_i s) (\<lambda>(c, s).
       let ctx = change_block (know_class q c) ctx; cl = \<lparr>class_qdisc = q, class_index = c\<rparr>
       in if s \<noteq> [] \<and> hd s = CHR '',''
          then rbind (parse_class_list ctx s) (\<lambda>(cs, s, ctx). Inr (cl # cs, s, ctx))
          else Inr ([cl], s, ctx))))"
  by pat_completeness auto

lemma need_Inr: "need msg m f = Inr y \<longleftrightarrow> (\<exists>x. m = Some x \<and> f x = Inr y)"
  by (cases m) (auto simp: parse_error_def)

lemma step_le: "length (step s) \<le> length s"
  by (simp add: step_def)

termination parse_class_list
proof (relation "measure (\<lambda>(ctx, line). length line)")
  fix ctx ctx' :: tcc_context and line s s' t :: string and x y :: "int \<times> string" and q c cl
  assume "scan_i (step line) = Some x" "(q, s) = x" "scan_lit '':'' s = Some s'" "scan_i s' = Some y" "(c, t) = y"
  then have "length s < length line" "length s' \<le> length s" "length t < length s'"
    using scan_i_shorter [of "step line" q s] step_le [of line] scan_lit_le [of "'':''" s s'] scan_i_shorter [of s' c t] by auto
  then show "((ctx', t), ctx, line) \<in> measure (\<lambda>(ctx, line). length line)" by simp
qed simp

declare parse_class_list.simps [simp del]

lemma parse_class_list_shorter: "parse_class_list ctx line = Inr (cs, r, ctx') \<Longrightarrow> length r < length line"
proof (induction ctx line arbitrary: cs rule: parse_class_list.induct)
  case (1 ctx line)
  from "1.prems" obtain q s s' c t where st: "scan_i (step line) = Some (q, s)" "scan_lit '':'' s = Some s'" "scan_i s' = Some (c, t)"
      "r = t \<or> (\<exists>cs. t \<noteq> [] \<and> hd t = CHR '','' \<and> parse_class_list (change_block (know_class q c) ctx) t = Inr (cs, r, ctx'))"
    by (subst (asm) parse_class_list.simps)
      (auto simp: need_Inr rbind_Inr_iff Let_def simp del: scan_lit.simps change_block.simps split: if_split_asm)
  have t: "length t < length line"
    using scan_i_shorter [OF st(1)] step_le [of line] scan_lit_le [OF st(2)] scan_i_shorter [OF st(3)] by linarith
  show ?case
  proof (cases "r = t")
    case False
    then obtain cs' where c: "t \<noteq> [] \<and> hd t = CHR '',''" "parse_class_list (change_block (know_class q c) ctx) t = Inr (cs', r, ctx')"
      using st(4) by blast
    have "length r < length t"
      by (rule "1.IH" [OF st(1) refl st(2) st(3) refl refl refl c])
    with t show ?thesis by simp
  qed (use t in simp)
qed

text \<open>
  \<open>parse_action\<close>. The words are compared with \<^verbatim>\<open>strncmp\<close>: four characters of \<^verbatim>\<open>class\<close> and \<^verbatim>\<open>drop\<close>, and
  seven of \<^verbatim>\<open>unspec\<close>, one more than it has, so that it must end the line.
\<close>

function parse_action :: "tcc_context \<Rightarrow> string \<Rightarrow> (tcc_action \<times> string \<times> tcc_context) result" where
  "parse_action ctx line =
     (let line = dropWhile (\<lambda>c. c = CHR '' '') line in
      case Option.bind (scan_lit ''action '' line) scan_i of
        Some (i, s) \<Rightarrow>
          rbind (find_action ctx i) (\<lambda>a. Inr ((case a of Some a \<Rightarrow> a | None \<Rightarrow> A_null), step s, ctx))
      | None \<Rightarrow>
      if take 4 line = ''clas'' then rbind (parse_class_list ctx (drop 4 line)) (\<lambda>(cs, s, ctx). Inr (A_class cs, s, ctx))
      else if take 4 line = ''drop'' then Inr (A_drop, drop 4 line, ctx)
      else if line = ''unspec'' then Inr (A_unspec, [], ctx)
      else case Option.bind (scan_lit ''conform '' line) scan_i of
        Some (i, s) \<Rightarrow>
          rbind (find_bucket ctx i) (\<lambda>b.
          rbind (parse_action ctx (step s)) (\<lambda>(yes, s, ctx).
          if length s < length line
          then rbind (parse_action ctx s) (\<lambda>(no, s, ctx). Inr (A_conform (bucket_chain b) yes no, s, ctx))
          else Inl E_abort))
      | None \<Rightarrow>
      (case Option.bind (scan_lit ''count '' line) scan_i of
        Some (i, s) \<Rightarrow>
          rbind (find_bucket ctx i) (\<lambda>b.
          rbind (parse_action ctx (step s)) (\<lambda>(a, s, ctx). Inr (A_count (bucket_chain b) a, s, ctx)))
      | None \<Rightarrow> parse_error ''unrecognized action''))"
  by pat_completeness auto

lemma scan_word_shorter: "Option.bind (scan_lit f s) scan_i = Some (i, r) \<Longrightarrow> length r < length s"
  by (auto simp: bind_eq_Some_conv simp del: scan_lit.simps dest!: scan_i_shorter scan_lit_le)

termination parse_action
proof (relation "measure (\<lambda>(ctx, line). length line)")
  show "wf (measure (\<lambda>(ctx :: tcc_context, line :: string). length line))" by simp
next
  fix ctx :: tcc_context and line l :: string and p i s
  assume l: "l = dropWhile (\<lambda>c. c = CHR '' '') line"
    and p: "Option.bind (scan_lit ''conform '' l) scan_i = Some p" "(i, s) = p"
  have "length (step s) < length line"
    using scan_word_shorter [of "''conform ''" l i s] p step_le [of s] length_dropWhile_le [of "\<lambda>c. c = CHR '' ''" line] l by simp
  then show "((ctx, step s), ctx, line) \<in> measure (\<lambda>(ctx, line). length line)" by simp
next
  fix ctx ctx' :: tcc_context and line l s :: string
  assume l: "l = dropWhile (\<lambda>c. c = CHR '' '') line" and "length s < length l"
  then have "length s < length line" using length_dropWhile_le [of "\<lambda>c. c = CHR '' ''" line] by simp
  then show "((ctx', s), ctx, line) \<in> measure (\<lambda>(ctx, line). length line)" by simp
next
  fix ctx :: tcc_context and line l :: string and p i s
  assume l: "l = dropWhile (\<lambda>c. c = CHR '' '') line"
    and p: "Option.bind (scan_lit ''count '' l) scan_i = Some p" "(i, s) = p"
  have "length (step s) < length line"
    using scan_word_shorter [of "''count ''" l i s] p step_le [of s] length_dropWhile_le [of "\<lambda>c. c = CHR '' ''" line] l by simp
  then show "((ctx, step s), ctx, line) \<in> measure (\<lambda>(ctx, line). length line)" by simp
qed

declare parse_action.simps [simp del]

text \<open>
  An action ends in front of the end of its text, so the test on the length in \<open>parse_action\<close>, which is
  not in the code and makes the recursion end, never fails.
\<close>

lemma drop_take_shorter: "take n s = w \<Longrightarrow> 0 < n \<Longrightarrow> w \<noteq> [] \<Longrightarrow> length (drop n s) < length s"
  by (cases s) auto

lemma parse_action_shorter: "parse_action ctx line = Inr (a, r, ctx') \<Longrightarrow> length r < length line"
proof (induction ctx line arbitrary: a r ctx' rule: parse_action.induct)
  case (1 ctx line)
  define l where "l = dropWhile (\<lambda>c. c = CHR '' '') line"
  have le: "length l \<le> length line" by (simp add: l_def length_dropWhile_le)
  note eq = "1.prems" [unfolded parse_action.simps [of ctx line] l_def [symmetric] Let_def]
  have "length r < length l"
  proof (cases "Option.bind (scan_lit ''action '' l) scan_i")
    case (Some x)
    obtain i s where x: "x = (i, s)" by (cases x)
    from eq Some x have "r = step s" by (auto simp: rbind_Inr_iff)
    then show ?thesis using scan_word_shorter [of "''action ''" l i s] Some x step_le [of s] by simp
  next
    case none: None
    show ?thesis
    proof (cases "take 4 l = ''clas'' \<or> take 4 l = ''drop'' \<or> l = ''unspec''")
      case True
      then have "length r \<le> length (drop 4 l) \<and> length (drop 4 l) < length l"
        using eq none drop_take_shorter [of 4 l "''clas''"] drop_take_shorter [of 4 l "''drop''"]
        by (auto simp: rbind_Inr_iff dest!: parse_class_list_shorter split: if_split_asm)
      then show ?thesis by simp
    next
      case False
      show ?thesis
      proof (cases "Option.bind (scan_lit ''conform '' l) scan_i")
        case (Some x)
        obtain i s where x: "x = (i, s)" by (cases x)
        from eq none False Some x obtain b yes s1 ctx1 no where c:
            "parse_action ctx (step s) = Inr (yes, s1, ctx1)" "length s1 < length l" "parse_action ctx1 s1 = Inr (no, r, ctx')"
            "find_bucket ctx i = Inr b"
          by (auto simp: rbind_Inr_iff split: if_split_asm)
        have "length r < length s1"
          by (rule "1.IH"(3) [OF l_def none _ _ _ Some x [symmetric] c(4) c(1) refl refl c(2) c(3)]) (use False in auto)
        with c(2) show ?thesis by simp
      next
        case none2: None
        show ?thesis
        proof (cases "Option.bind (scan_lit ''count '' l) scan_i")
          case (Some x)
          obtain i s where x: "x = (i, s)" by (cases x)
          from eq none False none2 Some x obtain b a1 where c: "parse_action ctx (step s) = Inr (a1, r, ctx')"
              "find_bucket ctx i = Inr b"
            by (auto simp: rbind_Inr_iff)
          have "length r < length (step s)"
            by (rule "1.IH"(1) [OF l_def none _ _ _ none2 Some x [symmetric] c(2) c(1)]) (use False in auto)
          then show ?thesis using scan_word_shorter [of "''count ''" l i s] Some x step_le [of s] by simp
        qed (use eq none False none2 in \<open>auto simp: parse_error_def\<close>)
      qed
    qed
  qed
  with le show ?case by simp
qed

text \<open>
  \<open>parse_actions\<close>. A line that only refers to another action gives that action the new number and links
  it a second time, which makes the list of the block a cycle (or follows a null pointer); the model
  stops there.
\<close>

definition parse_actions :: "tcc_context \<Rightarrow> string \<Rightarrow> tcc_context result" where
  "parse_actions ctx line =
     (if cx_blocks ctx = [] then parse_error ''action without block''
      else rbind (scan_number ''unrecognized action definition'' line) (\<lambda>(index, s).
      rbind (find_action ctx index) (\<lambda>a.
        if a \<noteq> None then parse_error ''duplicate action index''
        else if scan_lit ''action '' (dropWhile (\<lambda>c. c = CHR '' '') s) \<noteq> None then Inl (E_undef ''cyclic list'')
        else rbind (parse_action ctx s) (\<lambda>(a, _, ctx).
          Inr (change_block (\<lambda>b. b\<lparr>bl_actions := (index, a) # bl_actions b\<rparr>) ctx)))))"

section \<open>The parser\<close>

text \<open>
  \<open>parse_bit\<close> tests the result of \<^verbatim>\<open>sscanf\<close>, which has one conversion, for two, so every bit line ends the
  program.
\<close>

definition parse_bit :: "tcc_context \<Rightarrow> string \<Rightarrow> tcc_context result" where
  "parse_bit ctx line = parse_error ''invalid index''"

definition parse_keyword :: "tcc_context \<Rightarrow> string \<Rightarrow> string \<Rightarrow> tcc_context result" where
  "parse_keyword ctx word line =
     (if word = ''pragma'' then Inr (parse_pragma ctx line)
      else if word = ''block'' then parse_block ctx line
      else if word = ''qdisc'' then parse_qdisc ctx line
      else if word = ''class'' then parse_class ctx line
      else if word = ''offset'' then parse_offset ctx line
      else if word = ''bucket'' then parse_bucket ctx line
      else if word = ''action'' then parse_actions ctx line
      else if word = ''bit'' then parse_bit ctx line
      else if word = ''match'' then parse_rule ctx line
      else if word = ''barrier'' then parse_barrier ctx
      else parse_error ''unrecognized line'')"

definition parse_line :: "tcc_context \<Rightarrow> string \<Rightarrow> tcc_context result" where
  "parse_line ctx line =
     (let line = takeWhile (\<lambda>c. c \<noteq> CHR 0x0A \<and> c \<noteq> CHR ''#'') line
      in if line = [] then Inr ctx
         else case scan_s 1024 line of
           None \<Rightarrow> Inl (E_undef ''uninitialized variable'')
         | Some (word, s) \<Rightarrow> parse_keyword ctx word (step s))"

text \<open>The lines of the file, each shorter than the buffer of 65536 bytes.\<close>

fun parse_lines :: "tcc_context \<Rightarrow> string list \<Rightarrow> tcc_context result" where
  "parse_lines ctx [] = Inr ctx"
| "parse_lines ctx (l # ls) = rbind (parse_line ctx l) (\<lambda>ctx. parse_lines ctx ls)"

definition tccext_parse :: "string list \<Rightarrow> tcc_context result" where
  "tccext_parse ls = parse_lines empty_context ls"

lemma parse_lines_append: "parse_lines ctx (ls @ ms) = rbind (parse_lines ctx ls) (\<lambda>ctx. parse_lines ctx ms)"
  by (induction ls arbitrary: ctx) (simp_all add: rbind_assoc)

end
