(* ===== verification/If_Ext_Groups.thy ===== *)
theory If_Ext_Groups
  imports Field Expr_Sem
begin

text \<open>
  The offset groups of \<^verbatim>\<open>tcc/if_ext.c\<close>. The external matcher addresses packet bits
  by an offset group and a bit number. A group stands for a point in the packet: the root of a
  header, or a base group plus an offset that is computed from packet data. The file translates
  the \<open>offset\<close> nodes of an expression into entries of a table of groups.

  The matcher reads bit \<open>i\<close> of group \<open>g\<close>; the function \<open>B g i\<close> below stands for it. An entry
  of the table is the line \<^verbatim>\<open>offset N = base+(value_base:offset:length << shift)\<close> of the output:
  bit \<open>i\<close> of group \<open>N\<close> is bit \<open>i + (value << shift)\<close> of the base group.
\<close>

section \<open>The table\<close>

record offset_group =
  og_number :: nat
  og_base :: nat
  og_value_base :: nat
  og_offset :: int
  og_length :: int
  og_shift :: int

record group_table =
  offset_groups :: "offset_group list"
  next_offset_group :: nat

definition AUTO_OFFSET_GROUP_BASE :: nat where
  "AUTO_OFFSET_GROUP_BASE = 100"

definition reset_offsets :: group_table where
  "reset_offsets = \<lparr>offset_groups = [], next_offset_group = AUTO_OFFSET_GROUP_BASE\<rparr>"

text \<open>The loop \<^verbatim>\<open>while (offset_group_taken(next_offset_group)) next_offset_group++;\<close>.\<close>

function free_group :: "field_state \<Rightarrow> nat \<Rightarrow> nat" where
  "free_group fs n = (if offset_group_taken n fs then free_group fs (n + 1) else n)"
  by pat_completeness auto

termination free_group
proof (relation "measure (\<lambda>(fs, n). card {g \<in> set (field_roots fs). n \<le> g})")
  fix fs :: field_state and n
  assume "offset_group_taken n fs"
  then have "n \<in> {g \<in> set (field_roots fs). n \<le> g}" "n \<notin> {g \<in> set (field_roots fs). n + 1 \<le> g}"
    by (auto simp: offset_group_taken_def)
  moreover have "{g \<in> set (field_roots fs). n + 1 \<le> g} \<subseteq> {g \<in> set (field_roots fs). n \<le> g}"
    by auto
  ultimately have "{g \<in> set (field_roots fs). n + 1 \<le> g} \<subset> {g \<in> set (field_roots fs). n \<le> g}"
    by blast
  then show "((fs, n + 1), (fs, n)) \<in> measure (\<lambda>(fs, n). card {g \<in> set (field_roots fs). n \<le> g})"
    by (simp add: psubset_card_mono)
qed simp

declare free_group.simps [simp del]

definition same_group :: "nat \<Rightarrow> nat \<Rightarrow> int \<Rightarrow> int \<Rightarrow> int \<Rightarrow> offset_group \<Rightarrow> bool" where
  "same_group base value_base offset len shift g \<longleftrightarrow>
     og_base g = base \<and> og_value_base g = value_base \<and> og_offset g = offset \<and> og_length g = len \<and> og_shift g = shift"

definition lookup_offset_group ::
  "field_state \<Rightarrow> nat \<Rightarrow> nat \<Rightarrow> int \<Rightarrow> int \<Rightarrow> int \<Rightarrow> group_table \<Rightarrow> nat \<times> group_table" where
  "lookup_offset_group fs base value_base offset len shift gt =
     (case find (same_group base value_base offset len shift) (offset_groups gt) of
        Some g \<Rightarrow> (og_number g, gt)
      | None \<Rightarrow>
          let n = free_group fs (next_offset_group gt)
          in (n, \<lparr>offset_groups = offset_groups gt @
                    [\<lparr>og_number = n, og_base = base, og_value_base = value_base, og_offset = offset,
                      og_length = len, og_shift = shift\<rparr>],
                  next_offset_group = n + 1\<rparr>))"

section \<open>Groups of an offset expression\<close>

text \<open>
  The end of \<open>new_offset_group\<close>: trailing zeros of the mask shorten the access from the right,
  leading zeros from the left. A shift of a \<^verbatim>\<open>uint32_t\<close> by 32 bits or more is undefined.
\<close>

function trim_low :: "u32 \<Rightarrow> int \<Rightarrow> int \<Rightarrow> u32 \<times> int \<times> int" where
  "trim_low m len shift =
     (if m = 0 \<or> bit m 0 then (m, len, shift) else trim_low (drop_bit 1 m) (len - 1) (shift + 1))"
  by pat_completeness auto

termination trim_low
proof (relation "measure (\<lambda>(m, len, shift). unat m)")
  fix m :: u32 and len shift :: int
  assume "\<not> (m = 0 \<or> bit m 0)"
  then have "unat m \<noteq> 0" by (simp add: unat_eq_0)
  then show "((drop_bit 1 m, len - 1, shift + 1), m, len, shift) \<in> measure (\<lambda>(m, len, shift). unat m)"
    by (simp add: drop_bit_eq_div unat_div)
qed simp

function trim_high :: "u32 \<Rightarrow> int \<Rightarrow> int \<Rightarrow> int \<times> int" where
  "trim_high m offset len =
     (if m = 0 \<or> bit m 31 then (offset, len) else trim_high (push_bit 1 m) (offset + 1) (len - 1))"
  by pat_completeness auto

lemma unat_top_clear: "\<not> bit (m :: u32) 31 \<Longrightarrow> unat m < 2147483648"
proof -
  assume top: "\<not> bit m 31"
  have "take_bit 31 m = m"
    by (rule bit_word_eqI) (use top in \<open>auto simp: bit_take_bit_iff less_Suc_eq numeral_eq_Suc\<close>)
  then have "take_bit 31 (unat m) = unat m"
    by (metis unsigned_take_bit_eq)
  then show ?thesis using take_bit_nat_less_exp [of 31 "unat m"] by simp
qed

lemma unat_double: "\<not> bit (m :: u32) 31 \<Longrightarrow> unat (push_bit 1 m) = 2 * unat m"
  using unat_top_clear [of m] by (simp add: push_bit_eq_mult unat_word_ariths)

termination trim_high
proof (relation "measure (\<lambda>(m, offset, len). 4294967296 - unat m)")
  fix m :: u32 and offset len :: int
  assume "\<not> (m = 0 \<or> bit m 31)"
  then have "unat m \<noteq> 0" by (simp add: unat_eq_0)
  moreover have "unat (push_bit 1 m) = 2 * unat m" using \<open>\<not> (m = 0 \<or> bit m 31)\<close> by (intro unat_double) simp
  ultimately show "((push_bit 1 m, offset + 1, len - 1), m, offset, len) \<in> measure (\<lambda>(m, offset, len). 4294967296 - unat m)"
    using unat_lt_32 [of m] by simp
qed simp

declare trim_low.simps [simp del] trim_high.simps [simp del]

text \<open>
  \<open>new_offset_group\<close> walks down to the access, keeping a mask and a shift for its value;
  \<open>build_offset_group\<close> adds the operands of a sum one after the other to the base.
\<close>

definition group_of_access :: "field_state \<Rightarrow> nat \<Rightarrow> nat \<Rightarrow> u32 \<Rightarrow> int \<Rightarrow> u32 \<Rightarrow> u32 \<Rightarrow> group_table \<Rightarrow> (nat \<times> group_table) result" where
  "group_of_access fs base value_base m shift off sz gt =
     (if sz = 0 then Inl E_assert
      else if m = 0 then Inr (base, gt)
      else let (m, len, shift) = trim_low m (sint sz) shift
           in if shift < 0 then Inl (E_errorf ''negative shift'')
              else if len \<le> 0 \<or> 32 < len then Inl (E_undef ''shift count'')
              else let m = push_bit (nat (32 - len)) m
                   in if m = 0 then Inr (base, gt)
                      else let (offset, len) = trim_high m (sint (off * 8)) len
                           in Inr (lookup_offset_group fs base value_base offset len shift gt))"

function build_offset_group :: "field_state \<Rightarrow> nat \<Rightarrow> nat \<Rightarrow> data \<Rightarrow> group_table \<Rightarrow> (nat \<times> group_table) result"
  and new_offset_group :: "field_state \<Rightarrow> nat \<Rightarrow> nat \<Rightarrow> u32 \<Rightarrow> int \<Rightarrow> data \<Rightarrow> group_table \<Rightarrow> (nat \<times> group_table) result"
where
  "build_offset_group fs base value_base d gt =
     (case d of
        D_op t dsc a b c \<Rightarrow>
          if dsc = op_plus
          then rbind (build_offset_group fs base value_base a gt) (\<lambda>(base, gt). build_offset_group fs base value_base b gt)
          else new_offset_group fs base value_base 0xffffffff 3 d gt
      | _ \<Rightarrow> new_offset_group fs base value_base 0xffffffff 3 d gt)"
| "new_offset_group fs base value_base m shift d gt =
     (case d of
        D_op t dsc a b c \<Rightarrow>
          if dsc = op_access
          then (case (b, c) of
                  (D_unum off, D_unum sz) \<Rightarrow> group_of_access fs base value_base m shift off sz gt
                | _ \<Rightarrow> Inl E_assert)
          else if dsc = op_shift_left
          then (case b of
                  D_unum k \<Rightarrow> if 32 \<le> k then Inl (E_undef ''shift count'')
                    else new_offset_group fs base value_base (drop_bit (unat k) m) (shift + uint k) a gt
                | _ \<Rightarrow> Inl (E_errorf ''bad left shift''))
          else if dsc = op_shift_right
          then (case b of
                  D_unum k \<Rightarrow> if 32 \<le> k then Inl (E_undef ''shift count'')
                    else new_offset_group fs base value_base (push_bit (unat k) m) (shift - uint k) a gt
                | _ \<Rightarrow> Inl (E_errorf ''bad right shift''))
          else if dsc = op_and
          then (case a of
                  D_unum k \<Rightarrow> new_offset_group fs base value_base (m AND k) shift b gt
                | _ \<Rightarrow>
                  (case b of
                     D_unum k \<Rightarrow> new_offset_group fs base value_base (m AND k) shift a gt
                   | _ \<Rightarrow> Inl (E_errorf ''no constant in and'')))
          else if dsc = op_field_root
          then (case b of
                  D_field_root g \<Rightarrow> new_offset_group fs base g m shift a gt
                | _ \<Rightarrow> Inl (E_undef ''union member field_root''))
          else if dsc = op_offset
          then rbind (build_offset_group fs value_base value_base b gt)
                 (\<lambda>(value_base, gt). new_offset_group fs base value_base m shift a gt)
          else Inl (E_errorf ''bad operator'')
      | _ \<Rightarrow> Inl E_assert)"
  by pat_completeness auto

termination
  by (relation "measure (\<lambda>x. case x of Inl (fs, base, value_base, d, gt) \<Rightarrow> 2 * size d + 1
      | Inr (fs, base, value_base, m, shift, d, gt) \<Rightarrow> 2 * size d)") auto

declare build_offset_group.simps [simp del] new_offset_group.simps [simp del]

text \<open>
  The nested case distinctions over \<open>data\<close> repeat their default branch for every constructor; an equation
  that reads the constants through a function makes evaluation much cheaper.
\<close>

definition unum_of :: "data \<Rightarrow> u32 option" where
  "unum_of d = (case d of D_unum n \<Rightarrow> Some n | _ \<Rightarrow> None)"

lemma case_unum_of: "(case d of D_unum n \<Rightarrow> f n | _ \<Rightarrow> e) = (case unum_of d of None \<Rightarrow> e | Some n \<Rightarrow> f n)"
  by (cases d) (simp_all add: unum_of_def)

lemmas new_offset_group_code [code] = new_offset_group.simps [unfolded case_unum_of]

definition get_offset_group :: "field_state \<Rightarrow> data \<Rightarrow> nat \<Rightarrow> group_table \<Rightarrow> (nat \<times> group_table) result" where
  "get_offset_group fs d base gt =
     (case d of
        D_op t dsc a b c \<Rightarrow> if dsc = op_offset then build_offset_group fs base base b gt else Inl E_assert
      | _ \<Rightarrow> Inl E_assert)"

text \<open>All offsets of an expression get their group before anything is written.\<close>

fun do_scan_offsets :: "field_state \<Rightarrow> data \<Rightarrow> nat \<Rightarrow> group_table \<Rightarrow> group_table result" where
  "do_scan_offsets fs (D_op t dsc a b c) base gt =
     rbind (if dsc = op_field_root then (case b of D_field_root g \<Rightarrow> Inr g | _ \<Rightarrow> Inl (E_undef ''union member field_root''))
            else Inr base) (\<lambda>base.
     rbind (if dsc = op_offset then get_offset_group fs (D_op t dsc a b c) base gt else Inr (base, gt)) (\<lambda>(base, gt).
     rbind (do_scan_offsets fs a base gt) (\<lambda>gt.
     rbind (do_scan_offsets fs b base gt) (\<lambda>gt. do_scan_offsets fs c base gt))))"
| "do_scan_offsets fs d base gt = Inr gt"

definition scan_offsets :: "field_state \<Rightarrow> data \<Rightarrow> group_table \<Rightarrow> group_table result" where
  "scan_offsets fs d gt = do_scan_offsets fs d 0 gt"

section \<open>What a group stands for\<close>

text \<open>The number that \<open>n\<close> bits from bit \<open>p\<close> on stand for, the most significant bit first.\<close>

fun bits_val :: "(nat \<Rightarrow> bool) \<Rightarrow> nat \<Rightarrow> nat \<Rightarrow> nat" where
  "bits_val f p 0 = 0"
| "bits_val f p (Suc n) = 2 * bits_val f p n + of_bool (f (p + n))"

lemma bit_bits_val: "bit (bits_val f p n) k \<longleftrightarrow> k < n \<and> f (p + n - 1 - k)"
proof (induction n arbitrary: k)
  case (Suc n)
  then show ?case by (cases k) (auto simp: bit_0 bit_Suc)
qed simp

lemma bits_val_cong: "(\<And>i. i < n \<Longrightarrow> f (p + i) = f' (p' + i)) \<Longrightarrow> bits_val f p n = bits_val f' p' n"
  by (induction n) auto

text \<open>
  \<open>P r i\<close> is bit \<open>i\<close> from the field root \<open>r\<close> on; \<open>linked\<close> says that the accesses of an environment
  read these bits. A group denotes a context when its bits are those from the context on.
\<close>

type_synonym bit_source = "nat \<Rightarrow> nat \<Rightarrow> bool"

definition linked :: "'st env \<Rightarrow> bit_source \<Rightarrow> bool" where
  "linked E P \<longleftrightarrow> (\<forall>r off n k. n \<le> 128 \<longrightarrow> bit (packet E r off n) k = (k < n \<and> P r (8 * unat off + n - 1 - k)))"

definition denotes :: "bit_source \<Rightarrow> bit_source \<Rightarrow> nat \<Rightarrow> ctx \<Rightarrow> bool" where
  "denotes P B g x \<longleftrightarrow> (\<forall>i. B g i = P (fst x) (8 * unat (snd x) + i))"

text \<open>The bits that a table of groups describes.\<close>

definition group_bits :: "bit_source \<Rightarrow> offset_group \<Rightarrow> bool" where
  "group_bits B og \<longleftrightarrow>
     (\<forall>i. B (og_number og) i =
        B (og_base og) (i + push_bit (nat (og_shift og)) (bits_val (B (og_value_base og)) (nat (og_offset og)) (nat (og_length og)))))"

definition table_bits :: "field_state \<Rightarrow> group_table \<Rightarrow> bit_source \<Rightarrow> bit_source \<Rightarrow> bool" where
  "table_bits fs gt P B \<longleftrightarrow>
     (\<forall>r\<in>set (field_roots fs). \<forall>i. B r i = P r i) \<and> (\<forall>og\<in>set (offset_groups gt). group_bits B og)"

definition table_extends :: "group_table \<Rightarrow> group_table \<Rightarrow> bool" where
  "table_extends gt gt' \<longleftrightarrow> (\<exists>more. offset_groups gt' = offset_groups gt @ more)"

lemma table_extends_refl [simp]: "table_extends gt gt"
  by (simp add: table_extends_def)

lemma table_extends_trans: "table_extends gt gt' \<Longrightarrow> table_extends gt' gt'' \<Longrightarrow> table_extends gt gt''"
  by (auto simp: table_extends_def)

lemma table_bits_extends: "table_extends gt gt' \<Longrightarrow> table_bits fs gt' P B \<Longrightarrow> table_bits fs gt P B"
  by (auto simp: table_extends_def table_bits_def)

lemma denotes_root: "table_bits fs gt P B \<Longrightarrow> r \<in> set (field_roots fs) \<Longrightarrow> denotes P B r (r, 0)"
  by (simp add: table_bits_def denotes_def)

lemma lookup_offset_group_ok:
  assumes "lookup_offset_group fs base vb offset len shift gt = (n, gt')"
  shows "table_extends gt gt'" "\<exists>og\<in>set (offset_groups gt'). same_group base vb offset len shift og \<and> og_number og = n"
  using assms
  by (auto simp: lookup_offset_group_def table_extends_def same_group_def Let_def find_Some_iff split: option.splits)

section \<open>The group of a masked access\<close>

lemma trim_low_at:
  "bit m c \<Longrightarrow> \<forall>i<c. \<not> bit m i \<Longrightarrow> trim_low m len shift = (drop_bit c m, len - int c, shift + int c)"
proof (induction c arbitrary: m len shift)
  case 0
  then show ?case by (subst trim_low.simps) simp
next
  case (Suc c)
  have "m \<noteq> 0" "\<not> bit m 0" using Suc.prems by auto
  moreover have "trim_low (drop_bit 1 m) (len - 1) (shift + 1) =
    (drop_bit c (drop_bit 1 m), (len - 1) - int c, (shift + 1) + int c)"
    by (rule Suc.IH) (use Suc.prems in \<open>auto simp: bit_drop_bit_eq\<close>)
  ultimately show ?case by (subst trim_low.simps) (simp add: drop_bit_drop_bit add.commute)
qed

lemma bit_double: "bit (push_bit 1 (m :: u32)) k \<longleftrightarrow> 0 < k \<and> k < 32 \<and> bit m (k - 1)"
  by (simp only: bit_push_bit_iff) (auto simp: bit_simps dest: bit_32_high)

lemma trim_high_at:
  "t < 32 \<Longrightarrow> bit m (31 - t) \<Longrightarrow> \<forall>i<t. \<not> bit m (31 - i) \<Longrightarrow> trim_high m offset len = (offset + int t, len - int t)"
proof (induction t arbitrary: m offset len)
  case 0
  then show ?case by (subst trim_high.simps) simp
next
  case (Suc t)
  have m: "m \<noteq> 0" "\<not> bit m 31" using Suc.prems by (auto dest: spec [of _ 0])
  have "bit (push_bit 1 m) (31 - t)"
    unfolding bit_double using Suc.prems by simp
  moreover have "\<forall>i<t. \<not> bit (push_bit 1 m) (31 - i)"
  proof (intro allI impI)
    fix i assume "i < t"
    then have "\<not> bit m (31 - Suc i)" using Suc.prems(3) by blast
    then show "\<not> bit (push_bit 1 m) (31 - i)" unfolding bit_double by simp
  qed
  ultimately have "trim_high (push_bit 1 m) (offset + 1) (len - 1) = ((offset + 1) + int t, (len - 1) - int t)"
    by (intro Suc.IH) (use Suc.prems in simp_all)
  with m show ?case by (subst trim_high.simps) simp
qed

text \<open>The mask selects the bits \<open>c\<close> to \<open>c + j - 1\<close> of an access of \<open>n\<close> bits.\<close>

definition selects :: "u32 \<Rightarrow> nat \<Rightarrow> nat \<Rightarrow> nat \<Rightarrow> bool" where
  "selects m n c j \<longleftrightarrow> 0 < j \<and> c + j \<le> n \<and> n \<le> 32 \<and> take_bit n m = push_bit c (mask j)"

lemma selects_bit: "selects m n c j \<Longrightarrow> i < n \<Longrightarrow> bit m i = (c \<le> i \<and> i < c + j)"
proof -
  assume sel: "selects m n c j" and i: "i < n"
  have "bit m i = bit (take_bit n m) i" using i by (simp add: bit_take_bit_iff)
  also have "\<dots> = (c \<le> i \<and> i < c + j)"
    using sel i unfolding selects_def by (auto simp: bit_push_bit_iff bit_mask_iff simp del: push_bit_of_0)
  finally show ?thesis .
qed

lemma sint_small_32: "unat (w :: u32) < 2147483648 \<Longrightarrow> sint w = int (unat w)"
proof -
  assume "unat w < 2147483648"
  then have "uint w < 2147483648" by (simp only: uint_nat of_nat_less_iff [symmetric] of_nat_numeral)
  then show ?thesis by (simp add: sint_uint signed_take_bit_eq_if_positive take_bit_int_eq_self_iff bit_int_def)
qed

lemma unat_times_8: "unat (w :: u32) < 268435456 \<Longrightarrow> unat (w * 8) = 8 * unat w"
  unfolding unat_word_ariths(2) by simp

lemma sint_times_8: "unat (w :: u32) < 268435456 \<Longrightarrow> sint (w * 8) = int (8 * unat w)"
  using unat_times_8 [of w] by (subst sint_small_32) simp_all

lemma group_of_access_ok:
  assumes sel: "selects m (unat sz) c j" and off: "unat off < 268435456" and shift: "0 \<le> shift + int c"
  shows "group_of_access fs base vb m shift off sz gt =
    Inr (lookup_offset_group fs base vb (int (8 * unat off + (unat sz - c - j))) (int j) (shift + int c) gt)"
proof -
  let ?n = "unat sz" let ?l = "?n - c"
  have n: "0 < j" "c + j \<le> ?n" "?n \<le> 32" using sel by (auto simp: selects_def)
  note bits = selects_bit [OF sel]
  have "bit m c" using n bits [of c] by linarith
  then have m_nz: "m \<noteq> 0" by (rule contrapos_pn) simp
  have "0 < ?n" using n(1,2) by linarith
  then have sz_nz: "sz \<noteq> 0" by (metis unat_0 less_irrefl)
  have sz: "sint sz = int ?n" by (rule sint_small_32) (use n(3) in linarith)
  have low: "trim_low m (int ?n) shift = (drop_bit c m, int ?l, shift + int c)"
    using n bits by (simp add: trim_low_at)
  let ?m = "push_bit (32 - ?l) (drop_bit c m)"
  have mbit: "bit ?m k = (32 - ?l \<le> k \<and> k < 32 \<and> bit m (c + (k - (32 - ?l))))" for k
    by (simp add: bit_push_bit_iff bit_drop_bit_eq)
  let ?t = "?l - j"
  have top: "bit ?m (31 - ?t)" "\<forall>i<?t. \<not> bit ?m (31 - i)"
    unfolding mbit using n by (auto simp: bits)
  then have m0: "?m \<noteq> 0" by auto
  have "sint (off * 8) = int (8 * unat off)" by (rule sint_times_8 [OF off])
  moreover have "trim_high ?m (int (8 * unat off)) (int ?l) = (int (8 * unat off) + int ?t, int ?l - int ?t)"
    by (rule trim_high_at) (use n top in auto)
  moreover have "nat (32 - int ?l) = 32 - ?l" by (simp only: nat_minus_as_int)
  moreover have "\<not> (int ?l \<le> 0 \<or> 32 < int ?l)" using n by linarith
  moreover have "int (8 * unat off) + int ?t = int (8 * unat off + (?n - c - j))" "int ?l - int ?t = int j" using n by linarith+
  moreover have "\<not> shift + int c < 0" using shift by simp
  ultimately show ?thesis
    unfolding group_of_access_def sz low Let_def split using m_nz sz_nz m0 by (simp only: if_False if_True split)
qed

text \<open>The value of the group found is the masked value of the access, shifted.\<close>

lemma bits_val_selected:
  assumes sel: "selects m n c j" and V: "\<forall>k. bit V k = (k < n \<and> f (p + n - 1 - k))"
  shows "push_bit c (bits_val f (p + (n - c - j)) j) = unat (V AND ucast m :: 128 word)"
proof (rule bit_eqI)
  fix k
  have n: "c + j \<le> n" using sel by (simp add: selects_def)
  have "bit (unat (V AND ucast m :: 128 word)) k = (bit V k \<and> bit m k)"
    by (simp add: bit_unsigned_iff bit_and_iff bit_ucast_iff) (use bit_imp_le_length in fastforce)
  also have "\<dots> = (c \<le> k \<and> k < c + j \<and> f (p + n - 1 - k))"
    using selects_bit [OF sel, of k] n V by (metis add_leD1 less_le_trans)
  also have "\<dots> = bit (push_bit c (bits_val f (p + (n - c - j)) j)) k"
  proof (cases "c \<le> k \<and> k < c + j")
    case True
    then have "p + (n - c - j) + j - 1 - (k - c) = p + n - 1 - k"
      using sel by (auto simp: selects_def)
    moreover have "k - c < j" using True by linarith
    ultimately show ?thesis using True by (simp add: bit_push_bit_iff bit_bits_val)
  qed (auto simp: bit_push_bit_iff bit_bits_val)
  finally show "bit (push_bit c (bits_val f (p + (n - c - j)) j)) k = bit (unat (V AND ucast m)) k" by simp
qed

section \<open>Offset expressions\<close>

text \<open>
  The offsets the translation handles: sums of accesses of at most 32 bits that are masked with
  a contiguous mask and shifted by constants. The values must be below \<open>2 ^ 32\<close> where the
  mask of 32 bits cuts them off, and offsets must not wrap around.
\<close>

fun offset_sum :: "'st env \<Rightarrow> ctx \<Rightarrow> data \<Rightarrow> nat" where
  "offset_sum E y (D_op t dsc a b c) =
     (if dsc = op_plus then offset_sum E y a + offset_sum E y b else unat (neval E y (D_op t dsc a b c)))"
| "offset_sum E y d = unat (neval E y d)"

definition in_range :: "nat \<Rightarrow> bool" where
  "in_range n \<longleftrightarrow> n < 340282366920938463463374607431768211456"

function offset_ok :: "field_state \<Rightarrow> 'st env \<Rightarrow> ctx \<Rightarrow> data \<Rightarrow> bool"
  and form_ok :: "field_state \<Rightarrow> 'st env \<Rightarrow> ctx \<Rightarrow> u32 \<Rightarrow> int \<Rightarrow> data \<Rightarrow> bool"
where
  "offset_ok fs E y d \<longleftrightarrow>
     (case d of
        D_op t dsc a b c \<Rightarrow>
          if dsc = op_plus then offset_ok fs E y a \<and> offset_ok fs E y b
          else unat (neval E y d) < 4294967296 \<and> form_ok fs E y 0xffffffff 3 d
      | _ \<Rightarrow> False)"
| "form_ok fs E y m shift d \<longleftrightarrow>
     (case d of
        D_op t dsc a b c \<Rightarrow>
          if dsc = op_access
          then root_of y a = fst y \<and> (case (b, c) of
                  (D_unum off, D_unum n) \<Rightarrow> unat off < 268435456 \<and> in_range (unat (snd y) + unat off) \<and> 0 < unat n \<and>
                    (m = 0 \<or> list_ex (\<lambda>k. list_ex (\<lambda>j. selects m (unat n) k j \<and> 0 \<le> shift + int k) [0..<33]) [0..<33])
                | _ \<Rightarrow> False)
          else if dsc = op_shift_left
          then (case b of D_unum k \<Rightarrow> k < 32 \<and> form_ok fs E y (drop_bit (unat k) m) (shift + uint k) a | _ \<Rightarrow> False)
          else if dsc = op_shift_right
          then (case b of D_unum k \<Rightarrow> k < 32 \<and> unat (neval E y a) < 4294967296
                    \<and> form_ok fs E y (push_bit (unat k) m) (shift - uint k) a
                | _ \<Rightarrow> False)
          else if dsc = op_and
          then (case a of
                  D_unum k \<Rightarrow> form_ok fs E y (m AND k) shift b
                | _ \<Rightarrow> (case b of D_unum k \<Rightarrow> form_ok fs E y (m AND k) shift a | _ \<Rightarrow> False))
          else if dsc = op_field_root
          then (case b of D_field_root g \<Rightarrow> g \<in> set (field_roots fs) \<and> snd y = 0 \<and> form_ok fs E (g, 0) m shift a | _ \<Rightarrow> False)
          else if dsc = op_offset
          then offset_ok fs E y b \<and> in_range (unat (snd y) + offset_sum E y b) \<and>
            form_ok fs E (fst y, snd y + neval E y b) m shift a
          else False
      | _ \<Rightarrow> False)"
  by pat_completeness auto

termination
  by (relation "measure (\<lambda>x. case x of Inl (fs, E, y, d) \<Rightarrow> 2 * size d + 1
      | Inr (fs, E, y, m, shift, d) \<Rightarrow> 2 * size d)") auto

declare offset_ok.simps [simp del] form_ok.simps [simp del]

lemma unat_shift_up: "unat (X :: 128 word) < 4294967296 \<Longrightarrow> k < 32 \<Longrightarrow> unat (push_bit k X) = unat X * 2 ^ k"
proof -
  assume X: "unat X < 4294967296" and k: "k < 32"
  have "(2 :: nat) ^ k < 2 ^ 32" by (rule power_strict_increasing) (use k in simp_all)
  then have "unat X * 2 ^ k < 4294967296 * 2 ^ 32"
    by (intro mult_strict_mono) (use X in simp_all)
  then have "unat X * 2 ^ k < 2 ^ 128" by simp
  moreover have "unat (push_bit k X) = take_bit 128 (push_bit k (unat X))"
    by (simp only: unsigned_push_bit_eq) simp
  ultimately show ?thesis
    by (simp only: push_bit_eq_mult [where 'a = nat] take_bit_nat_eq_self)
qed

lemma unat_ucast_32: "unat (ucast (m :: u32) :: 128 word) = unat m"
  using unat_lt_32 [of m] by (simp add: unsigned_ucast_eq take_bit_nat_eq_self)

lemma unat_and_ucast: "unat (X AND ucast (m :: u32) :: 128 word) < 4294967296"
proof -
  have "X AND ucast m \<le> ucast m" by (rule word_and_le1)
  then have "unat (X AND ucast m) \<le> unat m"
    unfolding word_le_nat_alt unat_ucast_32 .
  then show ?thesis using unat_lt_32 [of m] by linarith
qed
lemma small_word_bit: "unat (X :: 128 word) < 4294967296 \<Longrightarrow> bit X i \<Longrightarrow> i < 32"
proof -
  assume X: "unat X < 4294967296" "bit X i"
  have "take_bit 32 (unat X) = unat X" using X(1) by (simp add: take_bit_nat_eq_self)
  moreover have "bit (unat X) i" using X(2) by (simp add: bit_unsigned_iff bit_imp_le_length)
  ultimately have "bit (take_bit 32 (unat X)) i" by simp
  then show ?thesis by (simp add: bit_take_bit_iff)
qed

lemma mask_shift_left:
  assumes "k < 32"
  shows "unat (push_bit k X AND ucast (m :: u32) :: 128 word) = unat (X AND ucast (drop_bit k m)) * 2 ^ k"
proof -
  have "push_bit k X AND ucast m = push_bit k (X AND ucast (drop_bit k m))"
    by (rule bit_word_eqI) (auto simp: bit_and_iff bit_push_bit_iff bit_ucast_iff bit_drop_bit_eq dest: bit_32_high)
  then show ?thesis using unat_shift_up [OF unat_and_ucast assms] by metis
qed

lemma mask_shift_right:
  assumes "k < 32" "unat X < 4294967296"
  shows "unat (drop_bit k X AND ucast (m :: u32) :: 128 word) * 2 ^ k = unat (X AND ucast (push_bit k m))"
proof -
  have "push_bit k (drop_bit k X AND ucast m) = X AND ucast (push_bit k m)"
    by (rule bit_word_eqI)
      (use small_word_bit [OF assms(2)] in \<open>force simp: bit_and_iff bit_push_bit_iff bit_ucast_iff bit_drop_bit_eq dest: bit_32_high\<close>)
  then show ?thesis using unat_shift_up [OF unat_and_ucast assms(1)] by metis
qed
text \<open>What an access contributes, when the mask and shift collected so far are \<open>m\<close> and \<open>shift\<close>.\<close>

lemma group_of_access_denotes:
  assumes link: "linked E P" and off: "unat off < 268435456" "in_range (unat (snd y) + unat off)"
    and sel: "selects m (unat n) k j" and shift: "0 \<le> shift + int k"
  shows "\<exists>g gt'. group_of_access fs base vb m shift off n gt = Inr (g, gt') \<and> table_extends gt gt' \<and>
    (\<forall>B x w. table_bits fs gt' P B \<longrightarrow> denotes P B base x \<longrightarrow> denotes P B vb y \<longrightarrow>
      real (8 * unat w) = real (unat (packet E (fst y) (snd y + ucast off) (unat n) AND ucast m)) * 2 powi shift \<longrightarrow>
      in_range (unat (snd x) + unat w) \<longrightarrow> denotes P B g (fst x, snd x + w))"
proof -
  let ?n = "unat n" and ?o = "8 * unat off + (unat n - k - j)"
  obtain g gt' where look: "lookup_offset_group fs base vb (int ?o) (int j) (shift + int k) gt = (g, gt')"
    by (cases "lookup_offset_group fs base vb (int ?o) (int j) (shift + int k) gt")
  from lookup_offset_group_ok [OF look] obtain og where ext: "table_extends gt gt'"
    and og: "og \<in> set (offset_groups gt')" "same_group base vb (int ?o) (int j) (shift + int k) og" "og_number og = g"
    by blast
  have "denotes P B g (fst x, snd x + w)"
    if B: "table_bits fs gt' P B" "denotes P B base x" "denotes P B vb y"
      and w: "real (8 * unat w) = real (unat (packet E (fst y) (snd y + ucast off) ?n AND ucast m)) * 2 powi shift"
        "in_range (unat (snd x) + unat w)" for B x w
  proof -
    let ?p = "8 * unat (snd y + ucast off)" and ?v = "bits_val (B vb) ?o j"
    have sum: "unat (snd y + ucast off) = unat (snd y) + unat off"
      using off(2) unat_ucast_32 [of off] by (simp add: unat_word_ariths in_range_def)
    have "?v = bits_val (P (fst y)) (?p + (?n - k - j)) j"
      by (rule bits_val_cong) (use B(3) sum in \<open>simp add: denotes_def algebra_simps\<close>)
    also have "push_bit k \<dots> = unat (packet E (fst y) (snd y + ucast off) ?n AND ucast m)"
      by (rule bits_val_selected [OF sel]) (use link sel in \<open>auto simp: linked_def selects_def\<close>)
    finally have V: "push_bit k ?v = unat (packet E (fst y) (snd y + ucast off) ?n AND ucast m)" .
    have "real (8 * unat w) = real (push_bit k ?v) * 2 powi shift" using w(1) V by simp
    also have "\<dots> = real ?v * 2 powi (int k + shift)"
      by (simp add: push_bit_eq_mult power_int_add)
    also have "\<dots> = real ?v * 2 ^ nat (shift + int k)"
      using shift by (simp add: power_int_def add.commute)
    also have "\<dots> = real (push_bit (nat (shift + int k)) ?v)"
      by (simp add: push_bit_eq_mult)
    finally have w8: "8 * unat w = push_bit (nat (shift + int k)) ?v" by (simp only: of_nat_eq_iff)
    have "B g i = B base (i + 8 * unat w)" for i
    proof -
      have "group_bits B og" using B(1) og(1) by (auto simp: table_bits_def)
      then have "B (og_number og) i = B (og_base og) (i + push_bit (nat (og_shift og))
          (bits_val (B (og_value_base og)) (nat (og_offset og)) (nat (og_length og))))"
        unfolding group_bits_def by blast
      moreover have "og_base og = base" "og_value_base og = vb" "nat (og_offset og) = ?o" "nat (og_length og) = j"
          "og_shift og = shift + int k"
        using og(2) unfolding same_group_def by (simp_all only: nat_int)
      ultimately show ?thesis using og(3) w8 by simp
    qed
    moreover have "unat (snd x + w) = unat (snd x) + unat w"
      using w(2) by (simp add: unat_word_ariths in_range_def)
    ultimately show ?thesis using B(2) by (simp add: denotes_def algebra_simps)
  qed
  then show ?thesis
    using group_of_access_ok [OF sel off(1) shift, of fs base vb gt] look ext by auto
qed

section \<open>Correctness of the translation\<close>

definition group_result ::
  "field_state \<Rightarrow> bit_source \<Rightarrow> group_table \<Rightarrow> (nat \<times> group_table) result \<Rightarrow> (bit_source \<Rightarrow> nat \<Rightarrow> bool) \<Rightarrow> bool" where
  "group_result fs P gt r ok \<longleftrightarrow>
     (\<exists>g gt'. r = Inr (g, gt') \<and> table_extends gt gt' \<and> (\<forall>B. table_bits fs gt' P B \<longrightarrow> ok B g))"

definition adds_to :: "bit_source \<Rightarrow> nat \<Rightarrow> nat \<Rightarrow> ctx \<Rightarrow> data \<Rightarrow> 'st env \<Rightarrow> bit_source \<Rightarrow> nat \<Rightarrow> bool" where
  "adds_to P base vb y d E B g \<longleftrightarrow>
     (\<forall>x. denotes P B base x \<longrightarrow> denotes P B vb y \<longrightarrow> in_range (unat (snd x) + offset_sum E y d) \<longrightarrow>
        denotes P B g (fst x, snd x + neval E y d))"

definition adds_masked ::
  "bit_source \<Rightarrow> nat \<Rightarrow> nat \<Rightarrow> ctx \<Rightarrow> u32 \<Rightarrow> int \<Rightarrow> data \<Rightarrow> 'st env \<Rightarrow> bit_source \<Rightarrow> nat \<Rightarrow> bool" where
  "adds_masked P base vb y m shift d E B g \<longleftrightarrow>
     (\<forall>x w. denotes P B base x \<longrightarrow> denotes P B vb y \<longrightarrow>
        real (8 * unat w) = real (unat (neval E y d AND ucast m)) * 2 powi shift \<longrightarrow>
        in_range (unat (snd x) + unat w) \<longrightarrow> denotes P B g (fst x, snd x + w))"

lemma group_result_mono:
  "group_result fs P gt r ok \<Longrightarrow> (\<And>B g. ok B g \<Longrightarrow> ok' B g) \<Longrightarrow> group_result fs P gt r ok'"
  by (auto simp: group_result_def)

lemma group_result_bind:
  assumes "group_result fs P gt r ok"
    and "\<And>g gt'. r = Inr (g, gt') \<Longrightarrow> group_result fs P gt' (f (g, gt')) (ok' g)"
    and "\<And>B g h. ok B g \<Longrightarrow> ok' g B h \<Longrightarrow> ok'' B h"
  shows "group_result fs P gt (rbind r f) ok''"
proof -
  obtain g gt' where 1: "r = Inr (g, gt')" "table_extends gt gt'" "\<forall>B. table_bits fs gt' P B \<longrightarrow> ok B g"
    using assms(1) by (auto simp: group_result_def)
  obtain h gt'' where 2: "f (g, gt') = Inr (h, gt'')" "table_extends gt' gt''"
      "\<forall>B. table_bits fs gt'' P B \<longrightarrow> ok' g B h"
    using assms(2) [OF 1(1)] by (auto simp: group_result_def)
  show ?thesis unfolding group_result_def
  proof (intro exI conjI allI impI)
    show "rbind r f = Inr (h, gt'')" using 1 2 by simp
    show "table_extends gt gt''" using 1 2 by (blast intro: table_extends_trans)
    fix B assume "table_bits fs gt'' P B"
    then show "ok'' B h" using 1 2 by (blast intro: assms(3) table_bits_extends)
  qed
qed

lemma powi_shift: "(2::real) powi (s + int k) = 2 powi s * 2 ^ k"
  by (simp add: power_int_add)
lemma unat_less_32: "k < (32 :: u32) \<Longrightarrow> unat k < 32"
  by (simp add: word_less_nat_alt)

lemma nvl_shl: "neval E y (D_op t op_shift_left a (D_unum k) c) = push_bit (unat k) (neval E y a)"
  using unat_ucast_32 [of k] by simp
lemma nvl_shr: "neval E y (D_op t op_shift_right a (D_unum k) c) = drop_bit (unat k) (neval E y a)"
  using unat_ucast_32 [of k] by simp


lemmas offset_ok_op = offset_ok.simps [of _ _ _ "D_op t dsc a b c" for t dsc a b c, simplified]
lemmas form_ok_op = form_ok.simps [of _ _ _ _ _ "D_op t dsc a b c" for t dsc a b c, simplified]
lemmas build_group_op = build_offset_group.simps [of _ _ _ "D_op t dsc a b c" for t dsc a b c, simplified]
lemmas new_group_op = new_offset_group.simps [of _ _ _ _ _ "D_op t dsc a b c" for t dsc a b c, simplified]

lemma offset_ok_cases: "offset_ok fs E y d \<Longrightarrow> \<exists>t dsc a b c. d = D_op t dsc a b c"
  by (cases d) (simp_all add: offset_ok.simps)
lemma form_ok_cases: "form_ok fs E y m shift d \<Longrightarrow> \<exists>t dsc a b c. d = D_op t dsc a b c"
  by (cases d) (simp_all add: form_ok.simps)

lemma unat_plus_le: "unat ((v :: 128 word) + w) \<le> unat v + unat w"
  by (simp add: unat_word_ariths)

lemma unat_neval_le: "unat (neval E y d) \<le> offset_sum E y d"
proof (induction d rule: offset_sum.induct)
  case (1 E y t dsc a b c)
  then show ?case
    using unat_plus_le [of "neval E y a" "neval E y b"] by auto
qed auto

lemma adds_to_plus:
  assumes "adds_to P base vb y a E B g" "adds_to P g vb y b E B h"
  shows "adds_to P base vb y (D_op t op_plus a b c) E B h"
  unfolding adds_to_def
proof (intro allI impI)
  fix x assume x: "denotes P B base x" "denotes P B vb y" "in_range (unat (snd x) + offset_sum E y (D_op t op_plus a b c))"
  have "in_range (unat (snd x) + offset_sum E y a)" using x(3) by (simp add: in_range_def)
  then have "denotes P B g (fst x, snd x + neval E y a)" using assms(1) x by (auto simp: adds_to_def)
  moreover have "unat (snd x + neval E y a) \<le> unat (snd x) + offset_sum E y a"
    using unat_plus_le [of "snd x" "neval E y a"] unat_neval_le [of E y a] by linarith
  then have "in_range (unat (snd x + neval E y a) + offset_sum E y b)"
    using x(3) by (simp add: in_range_def)
  ultimately have "denotes P B h (fst x, snd x + neval E y a + neval E y b)"
    using assms(2) x(2) by (force simp: adds_to_def)
  then show "denotes P B h (fst x, snd x + neval E y (D_op t op_plus a b c))" by (simp add: add.assoc)
qed

lemma and_all_ones_32: "unat (X :: 128 word) < 4294967296 \<Longrightarrow> X AND ucast (0xffffffff :: u32) = X"
proof -
  assume X: "unat X < 4294967296"
  have ones: "(0xffffffff :: u32) = mask 32" by (simp add: mask_eq_exp_minus_1)
  show ?thesis unfolding ones
    by (rule bit_word_eqI) (use small_word_bit [OF X] in \<open>auto simp: bit_and_iff bit_ucast_iff bit_mask_iff\<close>)
qed

lemma adds_to_term:
  assumes "adds_masked P base vb y 0xffffffff 3 (D_op t dsc a b c) E B g" "dsc \<noteq> op_plus"
    "unat (neval E y (D_op t dsc a b c)) < 4294967296"
  shows "adds_to P base vb y (D_op t dsc a b c) E B g"
  unfolding adds_to_def
proof (intro allI impI)
  let ?d = "D_op t dsc a b c"
  fix x assume x: "denotes P B base x" "denotes P B vb y" "in_range (unat (snd x) + offset_sum E y ?d)"
  have "in_range (unat (snd x) + unat (neval E y ?d))" using x(3) assms(2) by simp
  moreover have "real (8 * unat (neval E y ?d)) =
      real (unat (neval E y ?d AND ucast (0xffffffff :: u32))) * 2 powi 3"
    unfolding and_all_ones_32 [OF assms(3)] by (simp add: power_int_def)
  ultimately show "denotes P B g (fst x, snd x + neval E y ?d)"
    using assms(1) x(1,2) unfolding adds_masked_def by blast
qed


definition masked_value :: "'st env \<Rightarrow> ctx \<Rightarrow> u32 \<Rightarrow> int \<Rightarrow> data \<Rightarrow> real" where
  "masked_value E y m shift d = real (unat (neval E y d AND ucast m)) * 2 powi shift"

lemma adds_masked_cong:
  assumes "adds_masked P base vb' y' m' shift' a E B g"
    and "masked_value E y m shift d = masked_value E y' m' shift' a" "denotes P B vb y \<Longrightarrow> denotes P B vb' y'"
  shows "adds_masked P base vb y m shift d E B g"
  using assms(1,3) unfolding adds_masked_def masked_value_def [symmetric] assms(2) by blast

lemma masked_value_shl:
  assumes "k < 32"
  shows "masked_value E y m shift (D_op t op_shift_left a (D_unum k) c) = masked_value E y (drop_bit (unat k) m) (shift + uint k) a"
  unfolding masked_value_def nvl_shl mask_shift_left [OF unat_less_32 [OF assms]] uint_nat powi_shift by simp

lemma masked_value_shr:
  assumes "k < 32" "unat (neval E y a) < 4294967296"
  shows "masked_value E y m shift (D_op t op_shift_right a (D_unum k) c) = masked_value E y (push_bit (unat k) m) (shift - uint k) a"
proof -
  have "(2 :: real) powi shift = 2 powi (shift - uint k) * 2 ^ unat k"
    using powi_shift [of "shift - uint k" "unat k"] by (simp only: uint_nat diff_add_cancel)
  then show ?thesis
    unfolding masked_value_def nvl_shr mask_shift_right [OF unat_less_32 [OF assms(1)] assms(2), symmetric] by simp
qed

lemma masked_value_and:
  "masked_value E y m shift (D_op t op_and (D_unum k) b c) = masked_value E y (m AND k) shift b"
  "masked_value E y m shift (D_op t op_and a (D_unum k) c) = masked_value E y (m AND k) shift a"
proof -
  have u: "(ucast (p AND q) :: 128 word) = ucast p AND ucast q" for p q :: u32
    by (rule bit_word_eqI) (auto simp: bit_simps)
  show "masked_value E y m shift (D_op t op_and (D_unum k) b c) = masked_value E y (m AND k) shift b"
    "masked_value E y m shift (D_op t op_and a (D_unum k) c) = masked_value E y (m AND k) shift a"
    by (simp_all add: masked_value_def u ac_simps)
qed

lemma masked_value_root: "masked_value E y m shift (D_op t op_field_root a (D_field_root g) c) = masked_value E (g, snd y) m shift a"
  by (simp add: masked_value_def)

lemma masked_value_offset:
  "masked_value E y m shift (D_op t op_offset a b c) = masked_value E (fst y, snd y + neval E y b) m shift a"
  by (simp add: masked_value_def)



definition sums_ok :: "field_state \<Rightarrow> 'st env \<Rightarrow> bit_source \<Rightarrow> data \<Rightarrow> bool" where
  "sums_ok fs E P d \<longleftrightarrow> (\<forall>y base vb gt. offset_ok fs E y d \<longrightarrow>
     group_result fs P gt (build_offset_group fs base vb d gt) (adds_to P base vb y d E))"

definition terms_ok :: "field_state \<Rightarrow> 'st env \<Rightarrow> bit_source \<Rightarrow> data \<Rightarrow> bool" where
  "terms_ok fs E P d \<longleftrightarrow> (\<forall>y base vb m shift gt. form_ok fs E y m shift d \<longrightarrow>
     group_result fs P gt (new_offset_group fs base vb m shift d gt) (adds_masked P base vb y m shift d E))"

lemma sums_okD: "sums_ok fs E P d \<Longrightarrow> offset_ok fs E y d \<Longrightarrow>
    group_result fs P gt (build_offset_group fs base vb d gt) (adds_to P base vb y d E)"
  unfolding sums_ok_def by blast

lemma terms_okD: "terms_ok fs E P d \<Longrightarrow> form_ok fs E y m shift d \<Longrightarrow>
    group_result fs P gt (new_offset_group fs base vb m shift d gt) (adds_masked P base vb y m shift d E)"
  unfolding terms_ok_def by blast

lemma sums_step:
  assumes sums: "\<And>e. size e < size d \<Longrightarrow> sums_ok fs E P e" and self: "terms_ok fs E P d"
  shows "sums_ok fs E P d"
  unfolding sums_ok_def
proof (intro allI impI)
  fix y base vb gt assume prem: "offset_ok fs E y d"
  from offset_ok_cases [OF prem] obtain t dsc a b c where d: "d = D_op t dsc a b c" by blast
  have IH: "sums_ok fs E P a" "sums_ok fs E P b" using sums d by simp_all
  show "group_result fs P gt (build_offset_group fs base vb d gt) (adds_to P base vb y d E)"
  proof (cases "dsc = op_plus")
    case True
    with prem d have ok: "offset_ok fs E y a" "offset_ok fs E y b" by (simp_all add: offset_ok_op)
    have "group_result fs P gt (rbind (build_offset_group fs base vb a gt)
      (\<lambda>(base, gt). build_offset_group fs base vb b gt)) (adds_to P base vb y d E)"
    proof (rule group_result_bind)
      show "group_result fs P gt (build_offset_group fs base vb a gt) (adds_to P base vb y a E)"
        by (rule sums_okD [OF IH(1) ok(1)])
      fix g gt'
      show "group_result fs P gt' (case (g, gt') of (base, gt) \<Rightarrow> build_offset_group fs base vb b gt) (adds_to P g vb y b E)"
        using sums_okD [OF IH(2) ok(2)] by simp
    qed (simp add: d True adds_to_plus)
    then show ?thesis using d True by (simp add: build_group_op)
  next
    case False
    with prem d have ok: "form_ok fs E y 0xffffffff 3 d" "unat (neval E y d) < 4294967296"
      by (simp_all add: offset_ok_op del: neval.simps)
    then have "group_result fs P gt (new_offset_group fs base vb 0xffffffff 3 d gt) (adds_masked P base vb y 0xffffffff 3 d E)"
      by (intro terms_okD [OF self])
    then have "group_result fs P gt (new_offset_group fs base vb 0xffffffff 3 d gt) (adds_to P base vb y d E)"
      by (rule group_result_mono) (use d False ok(2) adds_to_term in blast)
    then show ?thesis using d False by (simp add: build_group_op)
  qed
qed

lemma terms_access:
  assumes "linked E P" "form_ok fs E y m shift (D_op t op_access a b c)"
  shows "group_result fs P gt (new_offset_group fs base vb m shift (D_op t op_access a b c) gt)
    (adds_masked P base vb y m shift (D_op t op_access a b c) E)"
proof -
  from assms(2) obtain off n where bc: "b = D_unum off" "c = D_unum n" and r: "root_of y a = fst y"
    and bounds: "unat off < 268435456" "in_range (unat (snd y) + unat off)" "0 < unat n"
    and sel: "m = 0 \<or> (\<exists>k j. selects m (unat n) k j \<and> 0 \<le> shift + int k)"
    by (auto simp: form_ok_op list_ex_iff split: data.splits)
  have v: "neval E y (D_op t op_access a b c) = packet E (fst y) (snd y + ucast off) (unat n)"
    by (simp add: bc r bit_size_def)
  have new: "new_offset_group fs base vb m shift (D_op t op_access a b c) gt = group_of_access fs base vb m shift off n gt"
    by (simp add: bc new_group_op)
  show ?thesis
  proof (cases "m = 0")
    case True
    moreover have "n \<noteq> 0" using bounds(3) by (metis unat_0 less_irrefl)
    ultimately have "new_offset_group fs base vb m shift (D_op t op_access a b c) gt = Inr (base, gt)"
      unfolding new by (simp add: group_of_access_def)
    then show ?thesis using True by (simp add: group_result_def adds_masked_def unsigned_eq_0_iff)
  next
    case False
    with sel obtain k j where "selects m (unat n) k j" "0 \<le> shift + int k" by blast
    from group_of_access_denotes [OF assms(1) bounds(1,2) this, of fs base vb gt] show ?thesis
      unfolding group_result_def adds_masked_def new v by blast
  qed
qed

lemma terms_step:
  assumes link: "linked E P"
    and sums: "\<And>e. size e < size d \<Longrightarrow> sums_ok fs E P e" and terms: "\<And>e. size e < size d \<Longrightarrow> terms_ok fs E P e"
  shows "terms_ok fs E P d"
  unfolding terms_ok_def
proof (intro allI impI)
  fix y base vb m shift gt assume prem: "form_ok fs E y m shift d"
  from form_ok_cases [OF prem] obtain t dsc a b c where d: "d = D_op t dsc a b c" by blast
  have IH: "\<And>e. e = a \<or> e = b \<Longrightarrow> terms_ok fs E P e" "sums_ok fs E P b" using sums terms d by auto
  note ok = prem [unfolded d form_ok_op]
  have go: "group_result fs P gt (new_offset_group fs base vb m shift d gt) (adds_masked P base vb y m shift d E)"
    if "new_offset_group fs base vb m shift d gt = new_offset_group fs base vb m' shift' e gt" "e = a \<or> e = b"
      "form_ok fs E y m' shift' e" "masked_value E y m shift d = masked_value E y m' shift' e" for m' shift' e
  proof -
    have "group_result fs P gt (new_offset_group fs base vb m' shift' e gt) (adds_masked P base vb y m' shift' e E)"
      by (rule terms_okD [OF IH(1) [OF that(2)] that(3)])
    then show ?thesis unfolding that(1)
      by (rule group_result_mono) (rule adds_masked_cong [OF _ that(4)])
  qed
  consider (access) "dsc = op_access" | (shl) "dsc = op_shift_left" | (shr) "dsc = op_shift_right" | (conj) "dsc = op_and"
    | (root) "dsc = op_field_root" | (off) "dsc = op_offset"
    using ok by (auto split: if_splits)
  then show "group_result fs P gt (new_offset_group fs base vb m shift d gt) (adds_masked P base vb y m shift d E)"
  proof cases
    case access
    with terms_access [OF link] prem d show ?thesis by blast
  next
    case shl
    with ok obtain k where k: "b = D_unum k" "k < 32" "form_ok fs E y (drop_bit (unat k) m) (shift + uint k) a"
      by (auto split: data.splits)
    have "\<not> 32 \<le> k" using k(2) by (simp only: not_le)
    then show ?thesis
      by (intro go [OF _ _ k(3)]) (use d shl k in \<open>simp_all add: new_group_op masked_value_shl\<close>)
  next
    case shr
    with ok obtain k where k: "b = D_unum k" "k < 32" "unat (neval E y a) < 4294967296"
        "form_ok fs E y (push_bit (unat k) m) (shift - uint k) a"
      by (auto split: data.splits)
    have "\<not> 32 \<le> k" using k(2) by (simp only: not_le)
    then show ?thesis
      by (intro go [OF _ _ k(4)]) (use d shr k in \<open>simp_all add: new_group_op masked_value_shr\<close>)
  next
    case conj
    show ?thesis
    proof (cases "\<exists>k. a = D_unum k")
      case True
      then obtain k where k: "a = D_unum k" by blast
      show ?thesis
        by (rule go [of "m AND k" shift b]) (use d conj k ok in \<open>simp_all add: new_group_op masked_value_and\<close>)
    next
      case False
      then obtain k where k: "b = D_unum k" "form_ok fs E y (m AND k) shift a"
        using ok conj by (cases a; cases b) simp_all
      show ?thesis
        by (rule go [OF _ _ k(2)]) (use d conj k False in \<open>cases a; simp add: new_group_op masked_value_and\<close>)+
    qed
  next
    case root
    with ok obtain g where g: "b = D_field_root g" "g \<in> set (field_roots fs)" "snd y = 0" "form_ok fs E (g, 0) m shift a"
      by (auto split: data.splits)
    have "group_result fs P gt (new_offset_group fs base g m shift a gt) (adds_masked P base g (g, 0) m shift a E)"
      by (rule terms_okD [OF IH(1) g(4)]) simp
    then obtain h gt' where h: "new_offset_group fs base g m shift a gt = Inr (h, gt')" "table_extends gt gt'"
        "\<forall>B. table_bits fs gt' P B \<longrightarrow> adds_masked P base g (g, 0) m shift a E B h"
      by (auto simp: group_result_def)
    have "adds_masked P base vb y m shift d E B h" if B: "table_bits fs gt' P B" for B
    proof (rule adds_masked_cong)
      show "adds_masked P base g (g, 0) m shift a E B h" using h(3) B by blast
      show "masked_value E y m shift d = masked_value E (g, 0) m shift a"
        using g(3) by (simp add: d root g(1) masked_value_root)
      show "denotes P B g (g, 0)" by (rule denotes_root [OF B g(2)])
    qed
    with h root g(1) show ?thesis by (simp add: group_result_def new_group_op d)
  next
    case off
    let ?y = "(fst y, snd y + neval E y b)"
    from ok off have o: "offset_ok fs E y b" "in_range (unat (snd y) + offset_sum E y b)" "form_ok fs E ?y m shift a"
      by simp_all
    have "group_result fs P gt (rbind (build_offset_group fs vb vb b gt)
        (\<lambda>(vb, gt). new_offset_group fs base vb m shift a gt)) (adds_masked P base vb y m shift d E)"
    proof (rule group_result_bind)
      show "group_result fs P gt (build_offset_group fs vb vb b gt) (adds_to P vb vb y b E)"
        by (rule sums_okD [OF IH(2) o(1)])
      show "group_result fs P gt' (case (g, gt') of (vb, gt) \<Rightarrow> new_offset_group fs base vb m shift a gt)
          (adds_masked P base g ?y m shift a E)" for g gt'
        using terms_okD [OF IH(1) o(3)] by simp
      fix B g h assume 1: "adds_to P vb vb y b E B g" "adds_masked P base g ?y m shift a E B h"
      show "adds_masked P base vb y m shift d E B h"
      proof (rule adds_masked_cong [OF 1(2)])
        show "masked_value E y m shift d = masked_value E ?y m shift a" by (simp add: d off masked_value_offset)
        show "denotes P B g ?y" if "denotes P B vb y" using 1(1) that o(2) by (simp add: adds_to_def)
      qed
    qed
    then show ?thesis using d off by (simp add: new_group_op)
  qed
qed

lemma groups_ok:
  assumes "linked E P"
  shows "sums_ok fs E P d \<and> terms_ok fs E P d"
proof (induction d rule: measure_induct_rule [of size])
  case (less d)
  have "terms_ok fs E P d" by (rule terms_step [OF assms]) (use less in blast)+
  then show ?case using sums_step less by blast
qed

lemma get_offset_group_ok:
  assumes "linked E P" "offset_ok fs E x b" "in_range (unat (snd x) + offset_sum E x b)"
  shows "group_result fs P gt (get_offset_group fs (D_op t op_offset a b c) g gt)
    (\<lambda>B h. denotes P B g x \<longrightarrow> denotes P B h (fst x, snd x + neval E x b))"
proof -
  have "group_result fs P gt (build_offset_group fs g g b gt) (adds_to P g g x b E)"
    using groups_ok [OF assms(1), of fs b] assms(2) by (blast intro: sums_okD)
  then show ?thesis
    unfolding get_offset_group_def
    by (simp, rule group_result_mono) (use assms(3) in \<open>simp add: adds_to_def\<close>)
qed

end
