(* ===== verification/If_Ext_Rules.thy ===== *)
theory If_Ext_Rules
  imports If_Ext_Groups Text
begin

text \<open>
  The matches and rules of \<^verbatim>\<open>tcc/if_ext.c\<close>: an expression in disjunctive normal form becomes a list
  of lines \<^verbatim>\<open>match <bits> action <number>\<close>, which the external matcher tries in order. The bits of
  the rule under construction are kept in a list, the static variable \<open>bits\<close> of the C code;
  the output is the list of lines written so far.
\<close>

section \<open>Bits of a rule\<close>

record rule_bit =
  bm_group :: nat
  bm_offset :: int
  bm_value :: bool

datatype ext_line = Match "rule_bit list" data

text \<open>
  \<open>sort_bits\<close>: the inner loop swaps the entry at \<open>i\<close> with every later entry of its group that has a
  smaller offset; \<open>sort_scan\<close> yields the entry left at \<open>i\<close> and the entries behind it.
\<close>

definition out_of_order :: "rule_bit \<Rightarrow> rule_bit \<Rightarrow> bool" where
  "out_of_order i j \<longleftrightarrow> bm_group i = bm_group j \<and> bm_offset i > bm_offset j"

fun sort_scan :: "rule_bit \<Rightarrow> rule_bit list \<Rightarrow> rule_bit \<times> rule_bit list" where
  "sort_scan i [] = (i, [])"
| "sort_scan i (j # js) =
     (if out_of_order i j then let (k, ks) = sort_scan j js in (k, i # ks)
      else let (k, ks) = sort_scan i js in (k, j # ks))"

lemma sort_scan_length: "length (snd (sort_scan i js)) = length js"
  by (induction i js rule: sort_scan.induct) (auto simp: Let_def split: prod.splits)

function sort_bits :: "rule_bit list \<Rightarrow> rule_bit list" where
  "sort_bits [] = []"
| "sort_bits (i # js) = (let (k, ks) = sort_scan i js in k # sort_bits ks)"
  by pat_completeness auto

termination sort_bits
proof (relation "measure length")
  fix i :: rule_bit and js x k ks
  assume "x = sort_scan i js" "(k, ks) = x"
  then show "(ks, i # js) \<in> measure length" using sort_scan_length [of i js] by (metis in_measure length_Cons lessI snd_conv)
qed simp

text \<open>
  \<open>collect_bits\<close> prints maximal runs of consecutive bits of one group. \<open>take_run\<close> is the loop that
  finds the end of a run, \<open>nibbles\<close> the loop that prints its bits.
\<close>

fun take_run :: "nat \<Rightarrow> int \<Rightarrow> rule_bit list \<Rightarrow> rule_bit list \<times> rule_bit list" where
  "take_run g next [] = ([], [])"
| "take_run g next (b # bs) =
     (if bm_group b = g \<and> bm_offset b = next + 1
      then let (r, rest) = take_run g (next + 1) bs in (b # r, rest) else ([], b # bs))"

definition upper_hex :: "nat \<Rightarrow> char" where
  "upper_hex nibble = char_of (if 10 \<le> nibble then nibble + 65 - 10 else nibble + 48)"

fun nibbles :: "nat \<Rightarrow> rule_bit list \<Rightarrow> string" where
  "nibbles nibble [] = []"
| "nibbles nibble (b # bs) =
     (let k = length bs mod 4; nibble = nibble OR push_bit k (of_bool (bm_value b))
      in if k = 0 then upper_hex nibble # nibbles 0 bs else nibbles nibble bs)"

lemma take_run_length: "length (snd (take_run g next bs)) \<le> length bs"
  by (induction g "next" bs rule: take_run.induct) (auto simp: Let_def split: prod.splits)

function collect_bits :: "rule_bit list \<Rightarrow> string" where
  "collect_bits [] = []"
| "collect_bits (b # bs) =
     (let (r, rest) = take_run (bm_group b) (bm_offset b) bs
      in '' '' @ dec (bm_group b) @ '':'' @ dec_int (bm_offset b) @ '':'' @ dec (Suc (length r)) @ ''=0x''
         @ nibbles 0 (b # r) @ collect_bits rest)"
  by pat_completeness auto

termination collect_bits
proof (relation "measure length")
  fix b :: rule_bit and bs x r rest
  assume "x = take_run (bm_group b) (bm_offset b) bs" "(r, rest) = x"
  then have "rest = snd (take_run (bm_group b) (bm_offset b) bs)" by (metis snd_conv)
  then show "(rest, b # bs) \<in> measure length"
    using take_run_length [of "bm_group b" "bm_offset b" bs] by simp
qed simp

definition line_text :: "(data \<Rightarrow> nat) \<Rightarrow> ext_line \<Rightarrow> string" where
  "line_text action_number l =
     (case l of Match bs d \<Rightarrow> ''match'' @ collect_bits bs @ '' action '' @ dec (action_number d) @ [CHR 0x0A])"

section \<open>Matches\<close>

definition bit_match :: "nat \<Rightarrow> int \<Rightarrow> bool \<Rightarrow> rule_bit list \<Rightarrow> bool \<times> rule_bit list" where
  "bit_match g off v bits =
     (case find (\<lambda>b. bm_group b = g \<and> bm_offset b = off) bits of
        Some b \<Rightarrow> (bm_value b = v, bits)
      | None \<Rightarrow> (True, bits @ [\<lparr>bm_group = g, bm_offset = off, bm_value = v\<rparr>]))"

text \<open>The loop over the bits of one word ends when no bit of the mask is left.\<close>

function word_match :: "nat \<Rightarrow> int \<Rightarrow> u32 \<Rightarrow> u32 \<Rightarrow> rule_bit list \<Rightarrow> bool \<times> rule_bit list" where
  "word_match g off m v bits =
     (if m = 0 then (True, bits)
      else if bit m 31
      then let (ok, bits) = bit_match g off (bit v 31) bits
           in if ok then word_match g (off + 1) (push_bit 1 m) (push_bit 1 v) bits else (False, bits)
      else word_match g (off + 1) (push_bit 1 m) (push_bit 1 v) bits)"
  by pat_completeness auto

definition mask_steps :: "u32 \<Rightarrow> nat" where
  "mask_steps m = (LEAST k. push_bit k m = 0)"

lemma push_bit_32_0: "push_bit 32 (m :: u32) = 0"
  by (rule bit_word_eqI) (simp add: bit_push_bit_iff)

lemma mask_steps_less: "m \<noteq> 0 \<Longrightarrow> mask_steps (push_bit 1 m) < mask_steps m"
proof -
  assume m: "m \<noteq> 0"
  have 0: "push_bit (mask_steps m) m = 0"
    unfolding mask_steps_def by (rule LeastI [of _ 32]) (rule push_bit_32_0)
  with m have "mask_steps m \<noteq> 0" by (auto intro: ccontr)
  then have "push_bit (mask_steps m - 1) (push_bit 1 m) = 0" using 0 by (metis Suc_diff_1 Suc_eq_plus1 neq0_conv push_bit_push_bit)
  then have "mask_steps (push_bit 1 m) \<le> mask_steps m - 1"
    unfolding mask_steps_def [of "push_bit 1 m"] by (rule Least_le)
  with \<open>mask_steps m \<noteq> 0\<close> show ?thesis by linarith
qed

termination word_match
  by (relation "measure (\<lambda>(g, off, m, v, bits). mask_steps m)") (use mask_steps_less in \<open>auto simp del: push_bit_Suc\<close>)

declare word_match.simps [simp del]

fun match_words :: "nat list \<Rightarrow> nat \<Rightarrow> int \<Rightarrow> u128 \<Rightarrow> u128 \<Rightarrow> rule_bit list \<Rightarrow> bool \<times> rule_bit list" where
  "match_words [] g offset m v bits = (True, bits)"
| "match_words (i # ws) g offset m v bits =
     (let (ok, bits) = word_match g (offset + (3 - int i) * 32) (word_v m i) (word_v v i) bits
      in if ok then match_words ws g offset m v bits else (False, bits))"

definition do_decompose_match :: "nat \<Rightarrow> int \<Rightarrow> u128 \<Rightarrow> u128 \<Rightarrow> rule_bit list \<Rightarrow> bool \<times> rule_bit list" where
  "do_decompose_match g offset m v bits = match_words [3, 2, 1, 0] g offset m v bits"

definition decompose_match :: "nat \<Rightarrow> int \<Rightarrow> int \<Rightarrow> u128 \<Rightarrow> u128 \<Rightarrow> rule_bit list \<Rightarrow> bool \<times> rule_bit list" where
  "decompose_match g offset len m v bits =
     (if \<not> u128_is_zero (u128_and v (u128_not m)) then (False, bits)
      else do_decompose_match g offset (u128_shift_left m (word_of_int (128 - len)))
             (u128_shift_left v (word_of_int (128 - len))) bits)"

text \<open>The state of the walk over an expression: the offset groups, the pending bits and the output.\<close>

record rule_state =
  groups :: group_table
  pending :: "rule_bit list"
  lines_out :: "ext_line list"

text \<open>
  \<open>dump_match\<close>. The loop goes down to the access and collects the mask.
\<close>

fun match_access :: "field_state \<Rightarrow> nat \<Rightarrow> u128 \<Rightarrow> u128 \<Rightarrow> data \<Rightarrow> rule_state \<Rightarrow> (bool \<times> rule_state) result" where
  "match_access fs g m v (D_op t dsc a b c) st =
     (if dsc = op_access
      then rbind (u_unum c) (\<lambda>bits. if bits = 0 then Inl E_assert
        else rbind (u_unum b) (\<lambda>off.
          let (ok, bs) = decompose_match g (sint (off * 8)) (sint bits) m v (pending st)
          in Inr (ok, st\<lparr>pending := bs\<rparr>)))
      else if dsc = op_and
      then if is_op b \<or> (type_of b \<noteq> dt_unum \<and> type_of b \<noteq> dt_ipv6) then Inl (E_errorf ''must be & constant'')
        else rbind (data_convert b dt_ipv6) (\<lambda>b. rbind (u_u128 b) (\<lambda>k. match_access fs g (u128_and m k) v a st))
      else if dsc = op_field_root
      then (case b of D_field_root g \<Rightarrow> match_access fs g m v a st | _ \<Rightarrow> Inl (E_undef ''union member field_root''))
      else if dsc = op_offset
      then rbind (get_offset_group fs (D_op t dsc a b c) g (groups st))
             (\<lambda>(g, gt). match_access fs g m v a (st\<lparr>groups := gt\<rparr>))
      else Inl (E_errorf ''bad operator''))"
| "match_access fs g m v d st = Inl (E_errorf ''access expected'')"

definition dump_match :: "field_state \<Rightarrow> data \<Rightarrow> nat \<Rightarrow> rule_state \<Rightarrow> (bool \<times> rule_state) result" where
  "dump_match fs d g st =
     (case d of
        D_op t dsc a b c \<Rightarrow>
          if dsc \<noteq> op_eq then Inl E_assert
          else if \<not> is_op a \<and> \<not> is_op b then Inl (E_errorf ''constant expression'')
          else let (a, b) = (if is_op a then (a, b) else (b, a))
               in if type_of b \<noteq> dt_unum \<and> type_of b \<noteq> dt_ipv6 then Inl (E_errorf ''eq non-number'')
                  else rbind (data_convert b dt_ipv6) (\<lambda>b. rbind (u_u128 b) (\<lambda>v.
                    match_access fs g (u128_not (u128_from_32 0)) v a st))
      | _ \<Rightarrow> Inl E_assert)"

section \<open>Rules\<close>

definition dump_action :: "data \<Rightarrow> rule_state \<Rightarrow> rule_state" where
  "dump_action d st = st\<lparr>pending := [], lines_out := lines_out st @ [Match (sort_bits (pending st)) d]\<rparr>"

text \<open>
  The three functions that walk over an expression. \<open>dump_or\<close> starts with \<^verbatim>\<open>useful = 1\<close>, so it
  never reports that all its operands failed.
\<close>

function dump_or :: "field_state \<Rightarrow> bool \<Rightarrow> data \<Rightarrow> nat \<Rightarrow> rule_state \<Rightarrow> (bool \<times> rule_state) result"
  and dump_and :: "field_state \<Rightarrow> data \<Rightarrow> nat \<Rightarrow> rule_state \<Rightarrow> (bool \<times> rule_state) result"
  and dump_other :: "field_state \<Rightarrow> data \<Rightarrow> nat \<Rightarrow> rule_state \<Rightarrow> (bool \<times> rule_state) result"
where
  "dump_or fs useful d g st =
     (case d of
        D_op t dsc a b c \<Rightarrow>
          if dsc = op_logical_or \<and> \<not> action_tree d
          then rbind (dump_and fs a g st) (\<lambda>(ok, st). dump_or fs (if ok then True else useful) b g st)
          else rbind (dump_and fs d g st) (\<lambda>(ok, st). Inr (ok \<or> useful, st))
      | _ \<Rightarrow> rbind (dump_and fs d g st) (\<lambda>(ok, st). Inr (ok \<or> useful, st)))"
| "dump_and fs d g st =
     (case d of
        D_op t dsc a b c \<Rightarrow>
          if dsc = op_logical_and \<and> \<not> action_tree d
          then rbind (dump_other fs a g st) (\<lambda>(ok, st).
                 if \<not> ok then Inr (False, st\<lparr>pending := []\<rparr>) else dump_and fs b g st)
          else dump_other fs d g st
      | _ \<Rightarrow> dump_other fs d g st)"
| "dump_other fs d g st =
     (if is_op d \<and> (case d of D_op t dsc a b c \<Rightarrow> dsc = op_eq | _ \<Rightarrow> False) then dump_match fs d g st
      else if action_tree d then Inr (True, dump_action d st)
      else case d of
        D_op t dsc a b c \<Rightarrow>
          if dsc = op_field_root
          then (case b of D_field_root g \<Rightarrow> dump_or fs True a g st | _ \<Rightarrow> Inl (E_undef ''union member field_root''))
          else if dsc = op_offset
          then rbind (get_offset_group fs d g (groups st)) (\<lambda>(g, gt). dump_or fs True a g (st\<lparr>groups := gt\<rparr>))
          else Inl (E_errorf ''bad operator'')
      | _ \<Rightarrow> Inl (E_errorf ''bad operator''))"
  by pat_completeness auto

termination
  by (relation "measure (\<lambda>x. case x of
      Inl (fs, useful, d, g, st) \<Rightarrow> 3 * size d + 2
    | Inr (Inl (fs, d, g, st)) \<Rightarrow> 3 * size d + 1
    | Inr (Inr (fs, d, g, st)) \<Rightarrow> 3 * size d)") auto

declare dump_or.simps [simp del] dump_and.simps [simp del] dump_other.simps [simp del]

definition dump_rules :: "field_state \<Rightarrow> data \<Rightarrow> group_table \<Rightarrow> (group_table \<times> ext_line list) result" where
  "dump_rules fs d gt =
     rbind (dump_or fs True d 0 \<lparr>groups = gt, pending = [], lines_out = []\<rparr>) (\<lambda>(ok, st). Inr (groups st, lines_out st))"

text \<open>The decisions that become actions of their own are registered by \<^verbatim>\<open>register_actions\<close>.\<close>

fun dump_actions :: "(data \<Rightarrow> 'r \<Rightarrow> 'r) \<Rightarrow> data \<Rightarrow> 'r \<Rightarrow> 'r" where
  "dump_actions register (D_op t dsc a b c) r =
     (if action_tree (D_op t dsc a b c) then register (D_op t dsc a b c) r
      else dump_actions register c (dump_actions register b (dump_actions register a r)))"
| "dump_actions register d r = (if action_tree d then register d r else r)"

section \<open>What the bits of a rule say\<close>

definition matches :: "bit_source \<Rightarrow> rule_bit list \<Rightarrow> bool" where
  "matches B bs \<longleftrightarrow> list_all (\<lambda>b. B (bm_group b) (nat (bm_offset b)) = bm_value b) bs"

lemma matches_simps [simp]:
  "matches B []" "matches B (b # bs) \<longleftrightarrow> B (bm_group b) (nat (bm_offset b)) = bm_value b \<and> matches B bs"
  "matches B (bs @ bs') \<longleftrightarrow> matches B bs \<and> matches B bs'"
  by (simp_all add: matches_def)

lemma matches_mset: "mset bs = mset bs' \<Longrightarrow> matches B bs = matches B bs'"
  unfolding matches_def list_all_iff by (metis mset_eq_setD)

lemma sort_scan_mset: "sort_scan i js = (k, ks) \<Longrightarrow> add_mset k (mset ks) = add_mset i (mset js)"
  by (induction i js arbitrary: k ks rule: sort_scan.induct) (auto simp: Let_def split: if_splits prod.splits)

lemma sort_bits_mset: "mset (sort_bits bs) = mset bs"
proof (induction bs rule: sort_bits.induct)
  case (2 i js)
  obtain k ks where "sort_scan i js = (k, ks)" by fastforce
  with 2 sort_scan_mset [OF this] show ?case by simp
qed simp

text \<open>Within each group the bits end in the order of their offsets.\<close>

definition in_order :: "rule_bit \<Rightarrow> rule_bit \<Rightarrow> bool" where
  "in_order i j \<longleftrightarrow> bm_group i = bm_group j \<longrightarrow> bm_offset i \<le> bm_offset j"

lemma sort_scan_set: "set ks \<union> {k} = set js \<union> {i}" if "sort_scan i js = (k, ks)"
  using sort_scan_mset [OF that] by (metis Un_commute insert_is_Un set_mset_add_mset_insert set_mset_mset)

lemma sort_scan_least:
  "sort_scan i js = (k, ks) \<Longrightarrow> bm_group k = bm_group i \<and> in_order k i \<and> (\<forall>j\<in>set ks. in_order k j)"
proof (induction i js arbitrary: k ks rule: sort_scan.induct)
  case (2 i j js)
  show ?case
  proof (cases "out_of_order i j")
    case True
    with "2.prems" obtain ks' where 1: "sort_scan j js = (k, ks')" "ks = i # ks'"
      by (auto simp: Let_def split: prod.splits)
    with "2.IH"(1) [OF True 1(1)] True show ?thesis
      by (auto simp: in_order_def out_of_order_def)
  next
    case False
    with "2.prems" obtain ks' where 1: "sort_scan i js = (k, ks')" "ks = j # ks'"
      by (auto simp: Let_def split: prod.splits)
    with "2.IH"(2) [OF False 1(1)] False show ?thesis
      by (auto simp: in_order_def out_of_order_def)
  qed
qed (simp add: in_order_def)

lemma sort_bits_sorted: "sorted_wrt in_order (sort_bits bs)"
proof (induction bs rule: sort_bits.induct)
  case (2 i js)
  obtain k ks where 1: "sort_scan i js = (k, ks)" by fastforce
  have "set (sort_bits ks) = set ks" using sort_bits_mset by (rule mset_eq_setD)
  with 2 1 sort_scan_least [OF 1] show ?case by simp
qed simp

section \<open>What a decomposed comparison adds\<close>

lemma bit_match_ok:
  assumes "bit_match g off v bs = (ok, bs')"
  shows "ok \<Longrightarrow> matches B bs' \<longleftrightarrow> matches B bs \<and> B g (nat off) = v"
    and "\<not> ok \<Longrightarrow> \<not> (matches B bs \<and> B g (nat off) = v)"
  using assms
  by (auto simp: bit_match_def matches_def list_all_iff find_Some_iff split: option.splits dest: nth_mem)

definition word_cond :: "bit_source \<Rightarrow> nat \<Rightarrow> int \<Rightarrow> u32 \<Rightarrow> u32 \<Rightarrow> bool" where
  "word_cond B g off m v \<longleftrightarrow> (\<forall>k<32. bit m (31 - k) \<longrightarrow> B g (nat (off + int k)) = bit v (31 - k))"

lemma all_less_32: "(\<forall>k<32. P k) \<longleftrightarrow> P 0 \<and> (\<forall>k<31. P (Suc k))" for P :: "nat \<Rightarrow> bool"
  using All_less_Suc2 [of 31 P] by simp

lemma word_cond_step:
  "word_cond B g off m v \<longleftrightarrow>
     (bit m 31 \<longrightarrow> B g (nat off) = bit v 31) \<and> word_cond B g (off + 1) (push_bit 1 m) (push_bit 1 v)"
proof -
  have "word_cond B g (off + 1) (push_bit 1 m) (push_bit 1 v) \<longleftrightarrow>
      (\<forall>k<32. 0 < 31 - k \<longrightarrow> bit m (31 - Suc k) \<longrightarrow> B g (nat (off + int (Suc k))) = bit v (31 - Suc k))"
    unfolding word_cond_def bit_double by (intro all_cong) (auto simp: algebra_simps)
  also have "\<dots> \<longleftrightarrow> (\<forall>k<31. bit m (31 - Suc k) \<longrightarrow> B g (nat (off + int (Suc k))) = bit v (31 - Suc k))"
    by auto
  finally show ?thesis
    unfolding word_cond_def [of B g off] all_less_32 [of "\<lambda>k. bit m (31 - k) \<longrightarrow> _ k"] by simp
qed

lemma word_match_ok:
  "word_match g off m v bs = (ok, bs') \<Longrightarrow>
     (ok \<longrightarrow> (matches B bs' \<longleftrightarrow> matches B bs \<and> word_cond B g off m v)) \<and>
     (\<not> ok \<longrightarrow> \<not> (matches B bs \<and> word_cond B g off m v))"
proof (induction g off m v bs arbitrary: ok bs' rule: word_match.induct)
  case (1 g off m v bs)
  show ?case
  proof (cases "m = 0")
    case True
    with "1.prems" show ?thesis by (simp add: word_match.simps [of g off 0] word_cond_def)
  next
    case nz: False
    show ?thesis
    proof (cases "bit m 31")
      case True
      obtain ok1 bs1 where b: "bit_match g off (bit v 31) bs = (ok1, bs1)" by fastforce
      show ?thesis
      proof (cases ok1)
        case ok: True
        with "1.prems" nz True b have "word_match g (off + 1) (push_bit 1 m) (push_bit 1 v) bs1 = (ok, bs')"
          by (subst (asm) word_match.simps) (simp del: push_bit_Suc)
        then show ?thesis
          using "1.IH"(1) [OF nz True b [symmetric] refl ok] bit_match_ok(1) [OF b ok] True word_cond_step [of B g off m v] by blast
      next
        case False
        with "1.prems" nz True b show ?thesis
          using bit_match_ok(2) [OF b False] word_cond_step [of B g off m v]
          by (subst (asm) word_match.simps) (auto simp del: push_bit_Suc)
      qed
    next
      case False
      with "1.prems" nz have "word_match g (off + 1) (push_bit 1 m) (push_bit 1 v) bs = (ok, bs')"
        by (subst (asm) word_match.simps) (simp del: push_bit_Suc)
      then show ?thesis using "1.IH"(2) [OF nz False] False word_cond_step [of B g off m v] by blast
    qed
  qed
qed

definition u128_cond :: "bit_source \<Rightarrow> nat \<Rightarrow> int \<Rightarrow> 128 word \<Rightarrow> 128 word \<Rightarrow> bool" where
  "u128_cond B g off m v \<longleftrightarrow> (\<forall>k<128. bit m (127 - k) \<longrightarrow> B g (nat (off + int k)) = bit v (127 - k))"

lemma match_words_ok:
  "match_words ws g off m v bs = (ok, bs') \<Longrightarrow>
     (ok \<longrightarrow> (matches B bs' \<longleftrightarrow> matches B bs \<and> (\<forall>i\<in>set ws. word_cond B g (off + (3 - int i) * 32) (word_v m i) (word_v v i)))) \<and>
     (\<not> ok \<longrightarrow> \<not> (matches B bs \<and> (\<forall>i\<in>set ws. word_cond B g (off + (3 - int i) * 32) (word_v m i) (word_v v i))))"
proof (induction ws arbitrary: bs)
  case (Cons i ws)
  obtain ok1 bs1 where w: "word_match g (off + (3 - int i) * 32) (word_v m i) (word_v v i) bs = (ok1, bs1)" by fastforce
  show ?case using Cons word_match_ok [OF w, of B] w by (cases ok1) auto
qed auto

lemma bit_u128_word_at: "i < 4 \<Longrightarrow> q < 32 \<Longrightarrow> bit (u128_word a) (32 * i + q) = bit (word_v a i) q"
  by (simp add: bit_u128_word div_mod_32)

lemma word_conds:
  "(\<forall>i\<in>set [3, 2, 1, 0]. word_cond B g (off + (3 - int i) * 32) (word_v m i) (word_v v i)) \<longleftrightarrow>
     u128_cond B g off (u128_word m) (u128_word v)"
proof
  assume L: "\<forall>i\<in>set [3, 2, 1, 0]. word_cond B g (off + (3 - int i) * 32) (word_v m i) (word_v v i)"
  show "u128_cond B g off (u128_word m) (u128_word v)"
    unfolding u128_cond_def
  proof (intro allI impI)
    fix k :: nat assume k: "k < 128" "bit (u128_word m) (127 - k)"
    define j r where "j = k div 32" and "r = k mod 32"
    have kr: "k = 32 * j + r" "r < 32" by (simp_all add: j_def r_def)
    let ?i = "3 - j"
    have j: "j \<le> 3" using k(1) kr by linarith
    have p: "127 - k = 32 * ?i + (31 - r)" "?i < 4" "int ?i = 3 - int j"
      using j kr by linarith+
    have "word_cond B g (off + (3 - int ?i) * 32) (word_v m ?i) (word_v v ?i)"
      using L bspec [OF L, of ?i] p(2) less_4_cases [of ?i] by auto
    moreover have "bit (word_v m ?i) (31 - r)" using k(2) p(2) kr(2) unfolding p(1) by (subst (asm) bit_u128_word_at) simp_all
    ultimately have A: "B g (nat (off + (3 - int ?i) * 32 + int r)) = bit (word_v v ?i) (31 - r)"
      using kr(2) unfolding word_cond_def by blast
    have e: "off + (3 - int ?i) * 32 + int r = off + int k" using p(3) kr(1) by simp
    have "bit (u128_word v) (127 - k) = bit (word_v v ?i) (31 - r)"
      using p(2) kr(2) unfolding p(1) by (subst bit_u128_word_at) simp_all
    with A show "B g (nat (off + int k)) = bit (u128_word v) (127 - k)" unfolding e by blast
  qed
next
  assume R: "u128_cond B g off (u128_word m) (u128_word v)"
  show "\<forall>i\<in>set [3, 2, 1, 0]. word_cond B g (off + (3 - int i) * 32) (word_v m i) (word_v v i)"
  proof
    fix i :: nat assume "i \<in> set [3, 2, 1, 0]"
    then have i: "i < 4" by auto
    show "word_cond B g (off + (3 - int i) * 32) (word_v m i) (word_v v i)"
      unfolding word_cond_def
    proof (intro allI impI)
      fix k :: nat assume k: "k < 32" "bit (word_v m i) (31 - k)"
      let ?k = "32 * (3 - i) + k"
      have p: "127 - ?k = 32 * i + (31 - k)" "?k < 128" using i k by auto
      have "bit (u128_word m) (127 - ?k)" using k i unfolding p(1) by (subst bit_u128_word_at) simp_all
      then have "B g (nat (off + int ?k)) = bit (u128_word v) (127 - ?k)"
        using R p(2) unfolding u128_cond_def by blast
      also have "\<dots> = bit (word_v v i) (31 - k)" using k i unfolding p(1) by (subst bit_u128_word_at) simp_all
      finally show "B g (nat (off + (3 - int i) * 32 + int k)) = bit (word_v v i) (31 - k)"
        using i by (simp add: of_nat_diff algebra_simps)
    qed
  qed
qed

lemma do_decompose_ok:
  assumes "do_decompose_match g off m v bs = (ok, bs')"
  shows "ok \<Longrightarrow> matches B bs' \<longleftrightarrow> matches B bs \<and> u128_cond B g off (u128_word m) (u128_word v)"
    and "\<not> ok \<Longrightarrow> \<not> (matches B bs \<and> u128_cond B g off (u128_word m) (u128_word v))"
  using match_words_ok [OF assms [unfolded do_decompose_match_def], of B] unfolding word_conds by blast+

lemma masked_eq_iff:
  assumes W: "\<forall>i. bit W i = (i < n \<and> B g (nat (off + int (n - 1 - i))))" and n: "n \<le> 128"
    and V: "v AND NOT m = 0" "\<forall>i. bit v i \<longrightarrow> i < n"
  shows "W AND m = v \<longleftrightarrow> u128_cond B g off (push_bit (128 - n) m) (push_bit (128 - n) v)"
proof -
  have vm: "bit v i \<Longrightarrow> bit m i" for i
  proof -
    assume "bit v i"
    moreover have "\<not> bit (v AND NOT m) i" using V(1) by simp
    ultimately show "bit m i" by (auto simp: bit_and_iff bit_not_iff dest: bit_imp_le_length)
  qed
  have "W AND m = v \<longleftrightarrow> (\<forall>i<n. bit m i \<longrightarrow> bit W i = bit v i)"
  proof
    assume "\<forall>i<n. bit m i \<longrightarrow> bit W i = bit v i"
    then show "W AND m = v"
      by (intro bit_word_eqI) (use vm V(2) W in \<open>auto simp: bit_and_iff\<close>)
  qed (auto simp: bit_and_iff)
  also have "\<dots> \<longleftrightarrow> (\<forall>i<n. bit m i \<longrightarrow> B g (nat (off + int (n - 1 - i))) = bit v i)"
    using W by auto
  also have "\<dots> \<longleftrightarrow> (\<forall>k<n. bit m (n - 1 - k) \<longrightarrow> B g (nat (off + int k)) = bit v (n - 1 - k))"
    (is "?L \<longleftrightarrow> ?R")
  proof
    assume *: ?L
    show ?R
    proof (intro allI impI)
      fix k assume k: "k < n" "bit m (n - 1 - k)"
      have "n - 1 - (n - 1 - k) = k" "n - 1 - k < n" using k(1) by auto
      then show "B g (nat (off + int k)) = bit v (n - 1 - k)" using * k(2) by metis
    qed
  next
    assume *: ?R
    show ?L
    proof (intro allI impI)
      fix i assume i: "i < n" "bit m i"
      have "n - 1 - (n - 1 - i) = i" "n - 1 - i < n" using i(1) by auto
      then show "B g (nat (off + int (n - 1 - i))) = bit v i" using * i(2) by metis
    qed
  qed
  also have "\<dots> \<longleftrightarrow> u128_cond B g off (push_bit (128 - n) m) (push_bit (128 - n) v)"
  proof -
    have "bit (push_bit (128 - n) w) (127 - k) = (k < n \<and> bit w (n - 1 - k))" if "k < 128" for k and w :: "128 word"
      unfolding bit_push_bit_iff using n that by (auto simp: diff_diff_eq)
    then show ?thesis unfolding u128_cond_def using n by auto
  qed
  finally show ?thesis .
qed

lemma u128_shift_len: "n \<le> 128 \<Longrightarrow> u128_word (u128_shift_left a (word_of_int (128 - int n))) = push_bit (128 - n) (u128_word a)"
proof -
  assume "n \<le> 128"
  then have "(word_of_int (128 - int n) :: u32) = word_of_nat (128 - n)" by (simp add: of_nat_diff)
  then have "unat (word_of_int (128 - int n) :: u32) = 128 - n"
    by (simp only: unsigned_of_nat) (simp add: take_bit_nat_eq_self)
  then show ?thesis by (simp add: u128_shift_left_word)
qed

lemma decompose_match_ok:
  assumes dec: "decompose_match g (int p) (int n) m v bs = (ok, bs')"
    and W: "\<forall>i. bit W i = (i < n \<and> B g (p + n - 1 - i))" and n: "n \<le> 128"
    and V: "\<forall>i. bit (u128_word v) i \<longrightarrow> i < n"
  shows "ok \<Longrightarrow> matches B bs' \<longleftrightarrow> matches B bs \<and> W AND u128_word m = u128_word v"
    and "\<not> ok \<Longrightarrow> \<not> (matches B bs \<and> W AND u128_word m = u128_word v)"
proof -
  have W': "\<forall>i. bit W i = (i < n \<and> B g (nat (int p + int (n - 1 - i))))"
  proof
    fix i
    have "i < n \<Longrightarrow> nat (int p + int (n - 1 - i)) = p + n - 1 - i" by (simp only: nat_int_add)
    then show "bit W i = (i < n \<and> B g (nat (int p + int (n - 1 - i))))" using W by metis
  qed
  have "(ok \<longrightarrow> (matches B bs' \<longleftrightarrow> matches B bs \<and> W AND u128_word m = u128_word v)) \<and>
    (\<not> ok \<longrightarrow> \<not> (matches B bs \<and> W AND u128_word m = u128_word v))"
  proof (cases "u128_word v AND NOT (u128_word m) = 0")
    case True
    with dec have "do_decompose_match g (int p) (u128_shift_left m (word_of_int (128 - int n)))
        (u128_shift_left v (word_of_int (128 - int n))) bs = (ok, bs')"
      by (simp add: decompose_match_def u128_is_zero_word u128_and_word u128_not_word)
    from do_decompose_ok [OF this, of B] masked_eq_iff [where B = B and g = g and off = "int p", OF W' n True V]
    show ?thesis unfolding u128_shift_len [OF n] by blast
  next
    case False
    have "W AND u128_word m \<noteq> u128_word v"
    proof
      assume "W AND u128_word m = u128_word v"
      then have "u128_word v AND NOT (u128_word m) = W AND (u128_word m AND NOT (u128_word m))"
        by (metis and.assoc)
      with False show False by simp
    qed
    with dec False show ?thesis
      by (auto simp: decompose_match_def u128_is_zero_word u128_and_word u128_not_word)
  qed
  then show "ok \<Longrightarrow> matches B bs' \<longleftrightarrow> matches B bs \<and> W AND u128_word m = u128_word v"
    and "\<not> ok \<Longrightarrow> \<not> (matches B bs \<and> W AND u128_word m = u128_word v)" by blast+
qed


section \<open>Comparisons\<close>

text \<open>
  The comparisons \<^verbatim>\<open>iflib_arith\<close> leaves: a masked access on one side and a constant on the other
  that fits into the access. \<open>v\<close> is the constant.
\<close>

fun eq_ok :: "field_state \<Rightarrow> 'st env \<Rightarrow> ctx \<Rightarrow> 128 word \<Rightarrow> data \<Rightarrow> bool" where
  "eq_ok fs E x v (D_op t dsc a b c) \<longleftrightarrow>
     (if dsc = op_access
      then root_of x a = fst x \<and> (case (b, c) of
             (D_unum off, D_unum n) \<Rightarrow> unat off < 268435456 \<and> in_range (unat (snd x) + unat off) \<and>
               0 < unat n \<and> unat n \<le> 128 \<and> v = take_bit (unat n) v
           | _ \<Rightarrow> False)
      else if dsc = op_and
      then (case b of D_unum k \<Rightarrow> True | D_ipv6 k \<Rightarrow> True | _ \<Rightarrow> False) \<and> eq_ok fs E x v a
      else if dsc = op_field_root
      then (case b of D_field_root g \<Rightarrow> g \<in> set (field_roots fs) \<and> snd x = 0 \<and> eq_ok fs E (g, 0) v a | _ \<Rightarrow> False)
      else if dsc = op_offset
      then offset_ok fs E x b \<and> in_range (unat (snd x) + offset_sum E x b) \<and> eq_ok fs E (fst x, snd x + neval E x b) v a
      else False)"
| "eq_ok fs E x v d \<longleftrightarrow> False"

definition eq_test :: "field_state \<Rightarrow> 'st env \<Rightarrow> ctx \<Rightarrow> data \<Rightarrow> bool" where
  "eq_test fs E x d \<longleftrightarrow>
     (case d of
        D_op t dsc a b c \<Rightarrow> dsc = op_eq \<and>
          (if is_op a then (case b of D_unum k \<Rightarrow> True | D_ipv6 k \<Rightarrow> True | _ \<Rightarrow> False) \<and> eq_ok fs E x (neval E x b) a
           else (case a of D_unum k \<Rightarrow> True | D_ipv6 k \<Rightarrow> True | _ \<Rightarrow> False) \<and> eq_ok fs E x (neval E x a) b)
      | _ \<Rightarrow> False)"

definition match_result ::
  "field_state \<Rightarrow> bit_source \<Rightarrow> nat \<Rightarrow> ctx \<Rightarrow> rule_state \<Rightarrow> (bool \<times> rule_state) result \<Rightarrow> bool \<Rightarrow> bool" where
  "match_result fs P g x st r q \<longleftrightarrow>
     (\<exists>ok st'. r = Inr (ok, st') \<and> table_extends (groups st) (groups st') \<and> lines_out st' = lines_out st \<and>
        (\<forall>B. table_bits fs (groups st') P B \<longrightarrow> denotes P B g x \<longrightarrow>
           (if ok then matches B (pending st') \<longleftrightarrow> matches B (pending st) \<and> q
            else \<not> (matches B (pending st) \<and> q))))"

text \<open>Tests below an offset or a root are tests in the new context.\<close>

lemma match_result_groups:
  assumes "match_result fs P h y (st\<lparr>groups := gt\<rparr>) r q" "table_extends (groups st) gt"
    "\<forall>B. table_bits fs gt P B \<longrightarrow> denotes P B g x \<longrightarrow> denotes P B h y"
  shows "match_result fs P g x st r q"
proof -
  have eqs: "groups (st\<lparr>groups := gt\<rparr>) = gt" "lines_out (st\<lparr>groups := gt\<rparr>) = lines_out st"
    "pending (st\<lparr>groups := gt\<rparr>) = pending st" by simp_all
  from assms(1) obtain ok st' where st': "r = Inr (ok, st')" "table_extends gt (groups st')" "lines_out st' = lines_out st"
      "\<forall>B. table_bits fs (groups st') P B \<longrightarrow> denotes P B h y \<longrightarrow>
         (if ok then matches B (pending st') \<longleftrightarrow> matches B (pending st) \<and> q else \<not> (matches B (pending st) \<and> q))"
    unfolding match_result_def eqs by blast
  have "table_extends (groups st) (groups st')" using assms(2) st'(2) by (rule table_extends_trans)
  moreover have "if ok then matches B (pending st') \<longleftrightarrow> matches B (pending st) \<and> q else \<not> (matches B (pending st) \<and> q)"
    if "table_bits fs (groups st') P B" "denotes P B g x" for B
    using st'(4) assms(3) table_bits_extends [OF st'(2)] that by blast
  ultimately show ?thesis unfolding match_result_def using st'(1,3) by blast
qed

lemma match_access_op: "match_access fs g m v (D_op t op_access a (D_unum off) (D_unum n)) st =
   (if n = 0 then Inl E_assert
    else let (ok, bs) = decompose_match g (sint (off * 8)) (sint n) m v (pending st) in Inr (ok, st\<lparr>pending := bs\<rparr>))"
  by simp

lemma match_access_leaf:
  assumes link: "linked E P" and bounds: "unat off < 268435456" "in_range (unat (snd x) + unat off)" "0 < unat n" "unat n \<le> 128"
    and V: "u128_word v = take_bit (unat n) (u128_word v)"
  shows "match_result fs P g x st (match_access fs g m v (D_op t op_access a (D_unum off) (D_unum n)) st)
    (packet E (fst x) (snd x + ucast off) (unat n) AND u128_word m = u128_word v)"
proof -
  let ?W = "packet E (fst x) (snd x + ucast off) (unat n)"
  obtain ok bs where dec: "decompose_match g (sint (off * 8)) (sint n) m v (pending st) = (ok, bs)" by fastforce
  have off: "sint (off * 8) = int (8 * unat off)" by (rule sint_times_8 [OF bounds(1)])
  have n: "sint n = int (unat n)" by (rule sint_small_32) (use bounds(4) in linarith)
  have nz: "n \<noteq> 0" using bounds(3) by (metis unat_0 less_irrefl)
  note dec' = dec [unfolded off n]
  have V': "\<forall>i. bit (u128_word v) i \<longrightarrow> i < unat n"
    using V by (metis bit_take_bit_iff)
  have sum: "unat (snd x + ucast off) = unat (snd x) + unat off"
    using bounds(2) unat_ucast_32 [of off] by (simp add: unat_word_ariths in_range_def)
  have W: "\<forall>i. bit ?W i = (i < unat n \<and> B g (8 * unat off + unat n - 1 - i))" if "denotes P B g x" for B
  proof
    fix i
    have "bit ?W i = (i < unat n \<and> P (fst x) (8 * unat (snd x + ucast off) + unat n - 1 - i))"
      using link bounds(4) unfolding linked_def by blast
    moreover have "i < unat n \<Longrightarrow> 8 * unat (snd x + ucast off) + unat n - 1 - i = 8 * unat (snd x) + (8 * unat off + unat n - 1 - i)"
      unfolding sum by simp
    ultimately show "bit ?W i = (i < unat n \<and> B g (8 * unat off + unat n - 1 - i))"
      using that unfolding denotes_def by metis
  qed
  have "if ok then matches B bs \<longleftrightarrow> matches B (pending st) \<and> ?W AND u128_word m = u128_word v
        else \<not> (matches B (pending st) \<and> ?W AND u128_word m = u128_word v)" if "denotes P B g x" for B
    using decompose_match_ok [where B = B and g = g, OF dec' W [OF that] bounds(4) V'] by simp
  then show ?thesis
    unfolding match_access_op using nz dec by (simp add: match_result_def)
qed

lemma match_access_ok: fixes st :: rule_state shows
  "linked E P \<Longrightarrow> eq_ok fs E x (u128_word v) a \<Longrightarrow>
     match_result fs P g x st (match_access fs g m v a st) (neval E x a AND u128_word m = u128_word v)"
proof (induction a arbitrary: x g m st)
  case (D_op t dsc a b c)
  note ok = D_op.prems(2)
  consider "dsc = op_access" | "dsc = op_and" | "dsc = op_field_root" | "dsc = op_offset"
    using ok by (auto split: if_splits)
  then show ?case
  proof cases
    case 1
    with ok obtain off n where bc: "b = D_unum off" "c = D_unum n" "root_of x a = fst x"
      and bounds: "unat off < 268435456" "in_range (unat (snd x) + unat off)" "0 < unat n" "unat n \<le> 128"
        "u128_word v = take_bit (unat n) (u128_word v)"
      by (auto split: data.splits)
    from match_access_leaf [OF D_op.prems(1) bounds] show ?thesis using 1 bc by (simp add: bit_size_def)
  next
    case 2
    then have a: "eq_ok fs E x (u128_word v) a" using ok by simp
    obtain k where k: "data_convert b dt_ipv6 = Inr (D_ipv6 k)" "u128_word k = neval E x b"
        "\<not> is_op b" "type_of b = dt_unum \<or> type_of b = dt_ipv6"
      using ok 2 by (cases b) (auto simp: data_convert_def u128_from_32_word)
    have "neval E x a AND u128_word (u128_and m k) = neval E x (D_op t op_and a b c) AND u128_word m"
      by (simp add: u128_and_word k(2) ac_simps)
    then show ?thesis
      using D_op.IH(1) [OF D_op.prems(1) a, where m = "u128_and m k"] 2 k by auto
  next
    case 3
    with ok obtain h where h: "b = D_field_root h" "h \<in> set (field_roots fs)" "snd x = 0" "eq_ok fs E (h, 0) (u128_word v) a"
      by (auto split: data.splits)
    from D_op.IH(1) [OF D_op.prems(1) h(4), where g = h and m = m and st = st]
    have "match_result fs P g x st (match_access fs h m v a st) (neval E (h, 0) a AND u128_word m = u128_word v)"
      using h(2) denotes_root unfolding match_result_def by metis
    then show ?thesis using 3 h by simp
  next
    case 4
    let ?y = "(fst x, snd x + neval E x b)"
    from ok 4 have o: "offset_ok fs E x b" "in_range (unat (snd x) + offset_sum E x b)" "eq_ok fs E ?y (u128_word v) a"
      by simp_all
    from get_offset_group_ok [OF D_op.prems(1) o(1,2), of "groups st" t a c g] obtain h gt
      where h: "get_offset_group fs (D_op t op_offset a b c) g (groups st) = Inr (h, gt)" "table_extends (groups st) gt"
        "\<forall>B. table_bits fs gt P B \<longrightarrow> denotes P B g x \<longrightarrow> denotes P B h ?y"
      by (auto simp: group_result_def)
    have "match_result fs P h ?y (st\<lparr>groups := gt\<rparr>) (match_access fs h m v a (st\<lparr>groups := gt\<rparr>))
        (neval E ?y a AND u128_word m = u128_word v)"
      by (rule D_op.IH(1) [OF D_op.prems(1) o(3)])
    moreover have "match_access fs g m v (D_op t dsc a b c) st = match_access fs h m v a (st\<lparr>groups := gt\<rparr>)"
      using 4 h(1) by simp
    moreover have "neval E x (D_op t dsc a b c) = neval E ?y a" using 4 by simp
    ultimately show ?thesis
      using match_result_groups h(2,3) by metis
  qed
qed simp_all


lemma const_u128:
  assumes "case b of D_unum k \<Rightarrow> True | D_ipv6 k \<Rightarrow> True | _ \<Rightarrow> False"
  shows "\<exists>k. data_convert b dt_ipv6 = Inr (D_ipv6 k) \<and> u128_word k = neval E x b"
    and "\<not> is_op b" "type_of b = dt_unum \<or> type_of b = dt_ipv6"
  using assms by (cases b; auto simp: data_convert_def u128_from_32_word)+

lemma eq_ok_op: "eq_ok fs E x v a \<Longrightarrow> is_op a"
  by (cases a) auto

lemma dump_match_ok:
  fixes st :: rule_state
  assumes "linked E P" "eq_test fs E x d"
  shows "match_result fs P g x st (dump_match fs d g st) (neval E x d \<noteq> 0)"
proof -
  from assms(2) obtain t a b c where d: "d = D_op t op_eq a b c"
    by (auto simp: eq_test_def split: data.splits)
  obtain l r where lr: "(if is_op a then (a, b) else (b, a)) = (l, r)"
      "case r of D_unum k \<Rightarrow> True | D_ipv6 k \<Rightarrow> True | _ \<Rightarrow> False" "eq_ok fs E x (neval E x r) l"
      "(neval E x a = neval E x b) = (neval E x l = neval E x r)" "is_op a \<or> is_op b"
  proof (cases "is_op a")
    case True
    then show ?thesis using assms(2) unfolding d by (intro that [of a b]) (auto simp: eq_test_def)
  next
    case False
    then show ?thesis using assms(2) unfolding d by (intro that [of b a]) (auto simp: eq_test_def dest: eq_ok_op)
  qed
  from const_u128(1) [OF lr(2), of E x] const_u128(2,3) [OF lr(2)] obtain k where k: "data_convert r dt_ipv6 = Inr (D_ipv6 k)" "u128_word k = neval E x r"
      "\<not> is_op r" "type_of r = dt_unum \<or> type_of r = dt_ipv6" by blast
  have "dump_match fs d g st = match_access fs g (u128_not (u128_from_32 0)) k l st"
    using lr k by (auto simp: d dump_match_def)
  moreover have "u128_word (u128_not (u128_from_32 0)) = - 1"
    by (simp add: u128_not_word u128_from_32_word)
  moreover have "neval E x d \<noteq> 0 \<longleftrightarrow> neval E x l = neval E x r"
    using lr(4) by (simp add: d of_truth_def)
  ultimately show ?thesis
    using match_access_ok [OF assms(1), of fs x k l g st "u128_not (u128_from_32 0)"] lr(3) k(2) by simp
qed

section \<open>What the rules do\<close>

fun rules_run :: "'st env \<Rightarrow> bit_source \<Rightarrow> ext_line list \<Rightarrow> 'st \<Rightarrow> verdict \<times> 'st" where
  "rules_run E B [] s = (V_false, s)"
| "rules_run E B (Match bs d # ls) s = (if matches B bs then xrun E (0, 0) d s else rules_run E B ls s)"

definition action_ok :: "data \<Rightarrow> bool" where
  "action_ok d \<longleftrightarrow> action_tree d \<and> self_contained d = sc_yes"

fun line_action :: "ext_line \<Rightarrow> data" where
  "line_action (Match bs d) = d"

lemma rules_run_append:
  "list_all (action_ok \<circ> line_action) ls \<Longrightarrow>
     rules_run E B (ls @ ls') s = after (rules_run E B ls s) (\<lambda>s. (V_true, s)) (rules_run E B ls')"
proof (induction ls)
  case (Cons l ls)
  then show ?case by (cases l) (auto simp: action_ok_def sc_yes_after)
qed simp

text \<open>The conditions that become one rule, and those that become a list of rules.\<close>

fun chain :: "field_state \<Rightarrow> 'st env \<Rightarrow> ctx \<Rightarrow> data \<Rightarrow> bool" where
  "chain fs E x (D_op t dsc a b c) \<longleftrightarrow>
     (if action_tree (D_op t dsc a b c) then self_contained (D_op t dsc a b c) = sc_yes
      else if dsc = op_logical_and then eq_test fs E x a \<and> chain fs E x b
      else if dsc = op_field_root
      then (case b of D_field_root g \<Rightarrow> g \<in> set (field_roots fs) \<and> snd x = 0 \<and> chain fs E (g, 0) a | _ \<Rightarrow> False)
      else if dsc = op_offset
      then offset_ok fs E x b \<and> in_range (unat (snd x) + offset_sum E x b) \<and> chain fs E (fst x, snd x + neval E x b) a
      else False)"
| "chain fs E x (D_decision r c) \<longleftrightarrow> True"
| "chain fs E x d \<longleftrightarrow> False"

fun is_or :: "data \<Rightarrow> bool" where
  "is_or (D_op t dsc a b c) \<longleftrightarrow> dsc = op_logical_or \<and> \<not> action_tree (D_op t dsc a b c)"
| "is_or d \<longleftrightarrow> False"

fun rule_form :: "field_state \<Rightarrow> 'st env \<Rightarrow> ctx \<Rightarrow> data \<Rightarrow> bool" where
  "rule_form fs E x (D_op t dsc a b c) \<longleftrightarrow>
     (if is_or (D_op t dsc a b c) then rule_form fs E x a \<and> \<not> is_or a \<and> rule_form fs E x b
      else if chain fs E x (D_op t dsc a b c) then True
      else if action_tree (D_op t dsc a b c) then False
      else if dsc = op_field_root
      then (case b of D_field_root g \<Rightarrow> g \<in> set (field_roots fs) \<and> snd x = 0 \<and> rule_form fs E (g, 0) a | _ \<Rightarrow> False)
      else if dsc = op_offset
      then offset_ok fs E x b \<and> in_range (unat (snd x) + offset_sum E x b) \<and> rule_form fs E (fst x, snd x + neval E x b) a
      else False)"
| "rule_form fs E x d \<longleftrightarrow> chain fs E x d"

definition emits ::
  "field_state \<Rightarrow> 'st env \<Rightarrow> bit_source \<Rightarrow> nat \<Rightarrow> ctx \<Rightarrow> data \<Rightarrow> rule_state \<Rightarrow> (bool \<times> rule_state) result \<Rightarrow> bool" where
  "emits fs E P g x d st r \<longleftrightarrow>
     (\<exists>ok st' new. r = Inr (ok, st') \<and> table_extends (groups st) (groups st') \<and> pending st' = [] \<and>
        lines_out st' = lines_out st @ new \<and> list_all (action_ok \<circ> line_action) new \<and>
        (\<forall>B s. table_bits fs (groups st') P B \<longrightarrow> denotes P B g x \<longrightarrow>
           rules_run E B new s = (if matches B (pending st) then xrun E x d s else (V_false, s))))"

lemma emits_action:
  assumes "action_tree d" "self_contained d = sc_yes"
  shows "emits fs E P g x d st (Inr (ok, dump_action d st))"
proof -
  have "matches B (sort_bits (pending st)) = matches B (pending st)" for B
    by (rule matches_mset) (rule sort_bits_mset)
  then show ?thesis
    using assms xrun_action [OF assms(1), of E "(0, 0)" _ x]
    by (auto simp: emits_def dump_action_def action_ok_def)
qed

lemma emits_groups:
  assumes "emits fs E P h y a (st\<lparr>groups := gt\<rparr>) r" "table_extends (groups st) gt"
    "\<forall>B. table_bits fs gt P B \<longrightarrow> denotes P B g x \<longrightarrow> denotes P B h y"
    "\<And>s. xrun E x d s = xrun E y a s"
  shows "emits fs E P g x d st r"
proof -
  have eqs: "groups (st\<lparr>groups := gt\<rparr>) = gt" "lines_out (st\<lparr>groups := gt\<rparr>) = lines_out st"
    "pending (st\<lparr>groups := gt\<rparr>) = pending st" by simp_all
  from assms(1) obtain ok st' new where st': "r = Inr (ok, st')" "table_extends gt (groups st')" "pending st' = []"
      "lines_out st' = lines_out st @ new" "list_all (action_ok \<circ> line_action) new"
      "\<forall>B s. table_bits fs (groups st') P B \<longrightarrow> denotes P B h y \<longrightarrow>
         rules_run E B new s = (if matches B (pending st) then xrun E y a s else (V_false, s))"
    unfolding emits_def eqs by blast
  have "table_extends (groups st) (groups st')" using assms(2) st'(2) by (rule table_extends_trans)
  moreover have "rules_run E B new s = (if matches B (pending st) then xrun E x d s else (V_false, s))"
    if "table_bits fs (groups st') P B" "denotes P B g x" for B s
    using st'(6) assms(3) table_bits_extends [OF st'(2)] that assms(4) by simp
  ultimately show ?thesis unfolding emits_def using st'(1,3-5) by blast
qed

lemma emits_result:
  "emits fs E P g x d st r \<Longrightarrow> emits fs E P g x d st (rbind r (\<lambda>(ok, st). Inr (f ok, st)))"
  by (auto simp: emits_def)

lemma emits_and:
  assumes test: "match_result fs P g x st r (neval E x a \<noteq> 0)" "\<And>s. xrun E x a s = (truth (neval E x a \<noteq> 0), s)"
    and rest: "\<And>st. emits fs E P g x b st (f st)"
  shows "emits fs E P g x (D_op t op_logical_and a b c) st
    (rbind r (\<lambda>(ok, st). if \<not> ok then Inr (False, st\<lparr>pending := []\<rparr>) else f st))"
proof -
  from test(1) obtain ok st1 where st1: "r = Inr (ok, st1)" "table_extends (groups st) (groups st1)" "lines_out st1 = lines_out st"
      "\<forall>B. table_bits fs (groups st1) P B \<longrightarrow> denotes P B g x \<longrightarrow>
         (if ok then matches B (pending st1) \<longleftrightarrow> matches B (pending st) \<and> neval E x a \<noteq> 0
          else \<not> (matches B (pending st) \<and> neval E x a \<noteq> 0))"
    by (auto simp: match_result_def)
  show ?thesis
  proof (cases ok)
    case False
    with st1 test(2) show ?thesis by (auto simp: emits_def)
  next
    case True
    from rest [of st1] obtain ok' st' new where st': "f st1 = Inr (ok', st')" "table_extends (groups st1) (groups st')"
        "pending st' = []" "lines_out st' = lines_out st1 @ new" "list_all (action_ok \<circ> line_action) new"
        "\<forall>B s. table_bits fs (groups st') P B \<longrightarrow> denotes P B g x \<longrightarrow>
           rules_run E B new s = (if matches B (pending st1) then xrun E x b s else (V_false, s))"
      by (auto simp: emits_def)
    have "rules_run E B new s = (if matches B (pending st) then xrun E x (D_op t op_logical_and a b c) s else (V_false, s))"
      if B: "table_bits fs (groups st') P B" "denotes P B g x" for B s
    proof -
      have "matches B (pending st1) \<longleftrightarrow> matches B (pending st) \<and> neval E x a \<noteq> 0"
        using st1(4) True table_bits_extends [OF st'(2) B(1)] B(2) by simp
      then show ?thesis using st'(6) B test(2) by simp
    qed
    then show ?thesis
      unfolding emits_def using True st1(1,2,3) st' by (auto intro: table_extends_trans)
  qed
qed


lemmas dump_or_op = dump_or.simps [of _ _ "D_op t dsc a b c" for t dsc a b c, simplified]
lemmas dump_and_op = dump_and.simps [of _ "D_op t dsc a b c" for t dsc a b c, simplified]
lemmas dump_other_op = dump_other.simps [of _ "D_op t dsc a b c" for t dsc a b c, simplified]

lemma eq_test_cases: "eq_test fs E x d \<Longrightarrow> \<exists>t a b c. d = D_op t op_eq a b c"
  by (auto simp: eq_test_def split: data.splits)

lemma eq_test_other: "eq_test fs E x d \<Longrightarrow> dump_other fs d g st = dump_match fs d g st"
  by (frule eq_test_cases) (auto simp: dump_other_op)

lemma eq_test_xrun: "eq_test fs E x d \<Longrightarrow> xrun E x d s = (truth (neval E x d \<noteq> 0), s)"
  by (frule eq_test_cases) auto

lemma chain_not_or: "chain fs E x d \<Longrightarrow> \<not> is_or d"
  by (cases d) (auto split: if_split_asm)

lemma dump_or_other: "\<not> is_or d \<Longrightarrow> dump_or fs u d g st = rbind (dump_and fs d g st) (\<lambda>(ok, st). Inr (ok \<or> u, st))"
  by (cases d) (auto simp: dump_or.simps)

definition is_chain_and :: "data \<Rightarrow> bool" where
  "is_chain_and d \<longleftrightarrow> (case d of D_op t dsc a b c \<Rightarrow> dsc = op_logical_and \<and> \<not> action_tree d | _ \<Rightarrow> False)"

lemma dump_and_other: "\<not> is_chain_and d \<Longrightarrow> dump_and fs d g st = dump_other fs d g st"
  by (cases d) (auto simp: dump_and.simps is_chain_and_def)

lemma action_not_eq: "\<not> action_tree (D_op t op_eq a b c)"
  by simp

lemma other_action: "action_tree d \<Longrightarrow> dump_other fs d g st = Inr (True, dump_action d st)"
  by (cases d) (auto simp: dump_other.simps)

lemma chain_emits:
  "linked E P \<Longrightarrow> chain fs E x d \<Longrightarrow> emits fs E P g x d st (dump_and fs d g st)"
proof (induction d arbitrary: x g st)
  case (D_op t dsc a b c)
  let ?d = "D_op t dsc a b c"
  note ok = D_op.prems(2)
  have wrap: "emits fs E P h y a st' (dump_or fs u a h st')" if "chain fs E y a" for h y st' u
    unfolding dump_or_other [OF chain_not_or [OF that]]
    by (rule emits_result [OF D_op.IH(1) [OF D_op.prems(1) that]])
  consider (act) "action_tree ?d" "self_contained ?d = sc_yes"
    | (land) "\<not> action_tree ?d" "dsc = op_logical_and" | (root) "\<not> action_tree ?d" "dsc = op_field_root"
    | (off) "\<not> action_tree ?d" "dsc = op_offset"
    using ok unfolding chain.simps by presburger
  then show ?case
  proof cases
    case act
    have "\<not> is_chain_and ?d" using act(1) by (simp add: is_chain_and_def)
    then show ?thesis using emits_action [OF act] by (simp add: dump_and_other other_action [OF act(1)])
  next
    case land
    then have ab: "eq_test fs E x a" "chain fs E x b" using ok by (auto split: if_split_asm)
    have "emits fs E P g x (D_op t op_logical_and a b c) st
        (rbind (dump_match fs a g st) (\<lambda>(ok, st). if \<not> ok then Inr (False, st\<lparr>pending := []\<rparr>) else dump_and fs b g st))"
      by (rule emits_and [OF dump_match_ok [OF D_op.prems(1) ab(1)] eq_test_xrun [OF ab(1)]])
        (rule D_op.IH(2) [OF D_op.prems(1) ab(2)])
    then show ?thesis using land by (simp add: dump_and_op eq_test_other [OF ab(1)])
  next
    case root
    with ok obtain h where h: "b = D_field_root h" "h \<in> set (field_roots fs)" "snd x = 0" "chain fs E (h, 0) a"
      by (auto split: data.splits)
    have "dump_and fs ?d g st = dump_or fs True a h st"
      using root h(1) by (simp add: dump_and_other is_chain_and_def dump_other_op)
    moreover have "emits fs E P g x ?d st (dump_or fs True a h st)"
    proof (rule emits_groups [where gt = "groups st" and h = h and y = "(h, 0)" and a = a])
      show "emits fs E P h (h, 0) a (st\<lparr>groups := groups st\<rparr>) (dump_or fs True a h st)"
        using wrap [OF h(4)] by simp
      show "\<forall>B. table_bits fs (groups st) P B \<longrightarrow> denotes P B g x \<longrightarrow> denotes P B h (h, 0)"
        using h(2) denotes_root by blast
    qed (use root h in simp_all)
    ultimately show ?thesis by simp
  next
    case off
    let ?y = "(fst x, snd x + neval E x b)"
    from ok off have o: "offset_ok fs E x b" "in_range (unat (snd x) + offset_sum E x b)" "chain fs E ?y a"
      by (auto split: if_splits)
    from get_offset_group_ok [OF D_op.prems(1) o(1,2), of "groups st" t a c g] obtain h gt
      where h: "get_offset_group fs (D_op t op_offset a b c) g (groups st) = Inr (h, gt)" "table_extends (groups st) gt"
        "\<forall>B. table_bits fs gt P B \<longrightarrow> denotes P B g x \<longrightarrow> denotes P B h ?y"
      by (auto simp: group_result_def)
    have "dump_and fs ?d g st = dump_or fs True a h (st\<lparr>groups := gt\<rparr>)"
      using off h(1) by (simp add: dump_and_other is_chain_and_def dump_other_op)
    moreover have "emits fs E P g x ?d st (dump_or fs True a h (st\<lparr>groups := gt\<rparr>))"
      by (rule emits_groups [OF wrap [OF o(3)] h(2,3)]) (use off in simp)
    ultimately show ?thesis by simp
  qed
next
  case (D_decision r c)
  have "action_tree (D_decision r c)" by simp
  then show ?case
    using emits_action [of "D_decision r c" fs E P g x st True]
    by (simp add: dump_and_other is_chain_and_def other_action)
qed simp_all


lemma emits_result_rev:
  "emits fs E P g x d st (rbind r (\<lambda>(ok, st). Inr (f ok, st))) \<Longrightarrow> emits fs E P g x d st r"
  by (cases r) (auto simp: emits_def)

lemma emits_or:
  assumes p: "pending st = []" and a: "emits fs E P g x a st r"
    and b: "\<And>ok st. pending st = [] \<Longrightarrow> emits fs E P g x b st (f ok st)"
  shows "emits fs E P g x (D_op t op_logical_or a b c) st (rbind r (\<lambda>(ok, st). f ok st))"
proof -
  from a obtain ok st1 new1 where st1: "r = Inr (ok, st1)" "table_extends (groups st) (groups st1)" "pending st1 = []"
      "lines_out st1 = lines_out st @ new1" "list_all (action_ok \<circ> line_action) new1"
      "\<forall>B s. table_bits fs (groups st1) P B \<longrightarrow> denotes P B g x \<longrightarrow> rules_run E B new1 s = xrun E x a s"
    using p by (auto simp: emits_def)
  from b [OF st1(3), of ok] obtain ok' st2 new2 where st2: "f ok st1 = Inr (ok', st2)" "table_extends (groups st1) (groups st2)"
      "pending st2 = []" "lines_out st2 = lines_out st1 @ new2" "list_all (action_ok \<circ> line_action) new2"
      "\<forall>B s. table_bits fs (groups st2) P B \<longrightarrow> denotes P B g x \<longrightarrow> rules_run E B new2 s = xrun E x b s"
    using st1(3) by (auto simp: emits_def)
  have "rules_run E B (new1 @ new2) s = xrun E x (D_op t op_logical_or a b c) s"
    if B: "table_bits fs (groups st2) P B" "denotes P B g x" for B s
  proof -
    have "rules_run E B new2 = xrun E x b" using st2(6) B by blast
    moreover have "rules_run E B new1 s = xrun E x a s" using st1(6) table_bits_extends [OF st2(2) B(1)] B(2) by blast
    ultimately show ?thesis by (simp add: rules_run_append [OF st1(5)])
  qed
  then show ?thesis
    unfolding emits_def using p st1 st2 by (auto intro: table_extends_trans)
qed

lemma rules_emit:
  "linked E P \<Longrightarrow> rule_form fs E x d \<Longrightarrow> pending st = [] \<Longrightarrow> emits fs E P g x d st (dump_or fs u d g st)"
proof (induction d arbitrary: x g st u)
  case (D_op t dsc a b c)
  let ?d = "D_op t dsc a b c"
  note ok = D_op.prems(2)
  have chain: ?case if "chain fs E x ?d"
    unfolding dump_or_other [OF chain_not_or [OF that]]
    by (rule emits_result [OF chain_emits [OF D_op.prems(1) that]])
  consider (lor) "is_or ?d" | (chain) "chain fs E x ?d"
    | (root) "\<not> action_tree ?d" "dsc = op_field_root" | (off) "\<not> action_tree ?d" "dsc = op_offset"
    using ok by (auto simp only: rule_form.simps split: if_split_asm)
  then show ?case
  proof cases
    case lor
    then have ab: "rule_form fs E x a" "\<not> is_or a" "rule_form fs E x b" "dsc = op_logical_or" "\<not> action_tree ?d"
      using ok by auto
    have "emits fs E P g x a st (dump_and fs a g st)"
      by (rule emits_result_rev)
        (rule D_op.IH(1) [OF D_op.prems(1) ab(1) D_op.prems(3), of g u, unfolded dump_or_other [OF ab(2)]])
    then have "emits fs E P g x (D_op t op_logical_or a b c) st
        (rbind (dump_and fs a g st) (\<lambda>(ok, st). dump_or fs (if ok then True else u) b g st))"
      by (rule emits_or [OF D_op.prems(3)]) (rule D_op.IH(2) [OF D_op.prems(1) ab(3)])
    then show ?thesis using ab(4,5) by (simp add: dump_or_op)
  next
    case root
    show ?thesis
    proof (cases "chain fs E x ?d")
      case False
      with ok root obtain h where h: "b = D_field_root h" "h \<in> set (field_roots fs)" "snd x = 0" "rule_form fs E (h, 0) a"
        by (auto split: data.splits if_split_asm)
      have "dump_or fs u ?d g st = rbind (dump_or fs True a h st) (\<lambda>(ok, st). Inr (ok \<or> u, st))"
        using root h(1) by (simp add: dump_or_op dump_and_other is_chain_and_def dump_other_op)
      moreover have "emits fs E P g x ?d st (dump_or fs True a h st)"
      proof (rule emits_groups [where gt = "groups st" and h = h and y = "(h, 0)" and a = a])
        show "emits fs E P h (h, 0) a (st\<lparr>groups := groups st\<rparr>) (dump_or fs True a h st)"
          using D_op.IH(1) [OF D_op.prems(1) h(4) D_op.prems(3)] by simp
        show "\<forall>B. table_bits fs (groups st) P B \<longrightarrow> denotes P B g x \<longrightarrow> denotes P B h (h, 0)"
          using h(2) denotes_root by blast
      qed (use root h in simp_all)
      ultimately show ?thesis using emits_result by metis
    qed (rule chain)
  next
    case off
    show ?thesis
    proof (cases "chain fs E x ?d")
      case False
      let ?y = "(fst x, snd x + neval E x b)"
      from ok off False have o: "offset_ok fs E x b" "in_range (unat (snd x) + offset_sum E x b)" "rule_form fs E ?y a"
        by (auto split: if_split_asm)
      from get_offset_group_ok [OF D_op.prems(1) o(1,2), of "groups st" t a c g] obtain h gt
        where h: "get_offset_group fs (D_op t op_offset a b c) g (groups st) = Inr (h, gt)" "table_extends (groups st) gt"
          "\<forall>B. table_bits fs gt P B \<longrightarrow> denotes P B g x \<longrightarrow> denotes P B h ?y"
        by (auto simp: group_result_def)
      have "dump_or fs u ?d g st = rbind (dump_or fs True a h (st\<lparr>groups := gt\<rparr>)) (\<lambda>(ok, st). Inr (ok \<or> u, st))"
        using off h(1) by (simp add: dump_or_op dump_and_other is_chain_and_def dump_other_op)
      moreover have "emits fs E P h ?y a (st\<lparr>groups := gt\<rparr>) (dump_or fs True a h (st\<lparr>groups := gt\<rparr>))"
        by (rule D_op.IH(1) [OF D_op.prems(1) o(3)]) (simp add: D_op.prems(3))
      then have "emits fs E P g x ?d st (dump_or fs True a h (st\<lparr>groups := gt\<rparr>))"
        by (rule emits_groups [OF _ h(2,3)]) (use off in simp)
      ultimately show ?thesis using emits_result by metis
    qed (rule chain)
  qed (rule chain)
next
  case (D_decision r c)
  have "chain fs E x (D_decision r c)" by simp
  show ?case
    unfolding dump_or_other [OF chain_not_or [OF \<open>chain fs E x (D_decision r c)\<close>]]
    by (rule emits_result [OF chain_emits [OF D_decision.prems(1) \<open>chain fs E x (D_decision r c)\<close>]])
qed simp_all

lemma dump_rules_ok:
  assumes "linked E P" "rule_form fs E (0, 0) d" "0 \<in> set (field_roots fs)"
  shows "\<exists>gt' ls. dump_rules fs d gt = Inr (gt', ls) \<and> table_extends gt gt' \<and>
    (\<forall>B s. table_bits fs gt' P B \<longrightarrow> rules_run E B ls s = xrun E (0, 0) d s)"
proof -
  have "emits fs E P 0 (0, 0) d \<lparr>groups = gt, pending = [], lines_out = []\<rparr>
      (dump_or fs True d 0 \<lparr>groups = gt, pending = [], lines_out = []\<rparr>)"
    by (rule rules_emit [OF assms(1,2)]) simp
  then obtain ok st' new where st': "dump_or fs True d 0 \<lparr>groups = gt, pending = [], lines_out = []\<rparr> = Inr (ok, st')"
      "table_extends gt (groups st')" "lines_out st' = new"
      "\<forall>B s. table_bits fs (groups st') P B \<longrightarrow> denotes P B 0 (0, 0) \<longrightarrow> rules_run E B new s = xrun E (0, 0) d s"
    unfolding emits_def by auto
  have "dump_rules fs d gt = Inr (groups st', new)" using st'(1,3) by (simp add: dump_rules_def)
  moreover have "rules_run E B new s = xrun E (0, 0) d s" if "table_bits fs (groups st') P B" for B s
    using st'(4) that denotes_root [OF that assms(3)] by blast
  ultimately show ?thesis using st'(2) by blast
qed

section \<open>A conflict below a root\<close>

text \<open>
  Two contradictory tests of a conjunction, each below a root of its own. As \<open>dump_or\<close> reports
  success for the second one, the conjunction goes on and a rule is written that tests only the
  first, although the condition is never true.
\<close>

definition byte_is :: "u32 \<Rightarrow> data" where
  "byte_is v = D_op dt_unum op_field_root
     (D_op dt_unum op_eq (D_op dt_unum op_access D_none (D_unum 0) (D_unum 8)) (D_unum v) D_none) (D_field_root 0) D_none"

definition conflict :: data where
  "conflict = D_op dt_unum op_logical_and (byte_is 1)
     (D_op dt_unum op_logical_and (byte_is 2) (D_decision dr_drop None) D_none) D_none"

lemma conflict_false: "xrun E (0, 0) conflict s = (V_false, s)"
proof -
  have "(2 :: 128 word) \<noteq> 1" by simp
  then show ?thesis by (simp add: conflict_def byte_is_def of_truth_def after_def)
qed


lemma conflict_rule:
  "dump_rules \<lparr>field_list = [], level = 0, next_fid = 0, field_roots = [0]\<rparr> conflict reset_offsets =
     Inr (reset_offsets, [Match (map (\<lambda>i. \<lparr>bm_group = 0, bm_offset = int i, bm_value = (i = 7)\<rparr>) [0..<8]) (D_decision dr_drop None)])"
  by code_simp
end
