(* ===== verification/Match.thy ===== *)
theory Match
  imports Tccext If_Ext_Rules
begin

text \<open>
  \<^verbatim>\<open>tcc/ext/match.c\<close>: the simple packet matcher that evaluates the rules of the external interface.
  A buffer is a list of bytes; an access outside of it is undefined.
\<close>

section \<open>Extraction of bits\<close>

type_synonym u8 = "8 word"

definition read_byte :: "u8 list \<Rightarrow> int \<Rightarrow> u8 result" where
  "read_byte data i = (if 0 \<le> i \<and> i < int (length data) then Inr (data ! nat i) else Inl (E_undef ''access outside of a buffer''))"

text \<open>The loop \<^verbatim>\<open>while (bits > 0)\<close>; it yields the word and the number of bits left, zero or negative.\<close>

function extract_loop :: "u8 list \<Rightarrow> int \<Rightarrow> int \<Rightarrow> u32 \<Rightarrow> (u32 \<times> int) result" where
  "extract_loop data i bits res =
     (if 0 < bits
      then rbind (read_byte data i) (\<lambda>b. extract_loop data (i + 1) (bits - 8) (push_bit 8 res OR ucast b))
      else Inr (res, bits))"
  by pat_completeness auto

termination
  by (relation "measure (\<lambda>(data, i, bits, res). nat bits)") auto

declare extract_loop.simps [simp del]

definition extract_bits :: "u8 list \<Rightarrow> int \<Rightarrow> int \<Rightarrow> u32 result" where
  "extract_bits data start bits =
     (if bits + start mod 8 > 32 then Inl E_abort
      else let i = start div 8; start = start mod 8
           in rbind (read_byte data i) (\<lambda>b.
              rbind (extract_loop data (i + 1) (bits - (8 - start)) (ucast b AND (push_bit (nat (8 - start)) 1 - 1))) (\<lambda>(res, bits).
                if bits = 0 then Inr res
                else if - bits < 32 then Inr (drop_bit (nat (- bits)) res) else Inl (E_undef ''shift count''))))"

section \<open>Offsets and matches\<close>

text \<open>The sum is computed in \<^verbatim>\<open>uint32_t\<close> and returned as \<^verbatim>\<open>int\<close>.\<close>

fun offset :: "tcc_group \<Rightarrow> u8 list \<Rightarrow> int result" where
  "offset G_raw raw = Inr 0"
| "offset G_meta raw = Inl (E_errorf ''match cannot handle meta fields in offset'')"
| "offset (G_offset n b f off len shift) raw =
     rbind (offset b raw) (\<lambda>o1.
     rbind (offset f raw) (\<lambda>o2.
     rbind (extract_bits raw (o2 + off) len) (\<lambda>v.
       if shift < 0 \<or> 32 \<le> shift then Inl (E_undef ''shift count'')
       else Inr (sint (word_of_int o1 + push_bit (nat shift) v)))))"

definition META_PROTOCOL_OFFSET :: int where
  "META_PROTOCOL_OFFSET = 0"

definition META_PROTOCOL_SIZE :: int where
  "META_PROTOCOL_SIZE = 2"

definition match_1 :: "tcc_match \<Rightarrow> u8 list \<Rightarrow> (u32 \<Rightarrow> u32) \<Rightarrow> u32 \<Rightarrow> bool result" where
  "match_1 m raw ntohs protocol =
     (let f = match_field m; pad = (- tf_length f) mod 8
      in if tf_group f = G_meta
         then if tf_offset f \<noteq> META_PROTOCOL_OFFSET * 8 then Inl (E_errorf ''invalid offset for meta_protocol'')
              else if tf_length f \<noteq> META_PROTOCOL_SIZE * 8 then Inl (E_errorf ''invalid size for meta_protocol access'')
              else rbind (extract_bits (match_data m) pad (tf_length f)) (\<lambda>v. Inr (ntohs protocol = v))
         else rbind (offset (tf_group f) raw) (\<lambda>o1.
              rbind (extract_bits raw (o1 + tf_offset f) (tf_length f)) (\<lambda>v.
              rbind (extract_bits (match_data m) pad (tf_length f)) (\<lambda>w. Inr (v = w)))))"

section \<open>Actions\<close>

text \<open>
  A policer. \<open>pb_tokens\<close>, \<open>last_refill\<close>, \<open>max_time\<close> and \<open>initialized\<close> are the fields \<^verbatim>\<open>struct my_bucket\<close> adds
  to the bucket of the library. \<open>clock i\<close> is the \<open>i\<close>-th time that \<^verbatim>\<open>get_time\<close> returns.
\<close>

record my_bucket =
  pb_rate :: u32
  pb_mpu :: int
  pb_depth :: u32
  pb_initial :: u32
  pb_tokens :: int
  last_refill :: f64
  max_time :: f64
  initialized :: bool

record match_state =
  policers :: "int \<Rightarrow> my_bucket option"
  calls :: nat

definition get_time :: "(nat \<Rightarrow> f64) \<Rightarrow> match_state \<Rightarrow> f64 \<times> match_state" where
  "get_time clock st = (clock (calls st), st\<lparr>calls := calls st + 1\<rparr>)"

definition load_bucket :: "int \<Rightarrow> match_state \<Rightarrow> my_bucket result" where
  "load_bucket i st = (case policers st i of Some b \<Rightarrow> Inr b | None \<Rightarrow> Inl (E_undef ''null bucket''))"

definition store_bucket :: "int \<Rightarrow> my_bucket \<Rightarrow> match_state \<Rightarrow> match_state" where
  "store_bucket i b st = st\<lparr>policers := (policers st)(i \<mapsto> b)\<rparr>"

text \<open>The cast of a \<^verbatim>\<open>double\<close> to \<^verbatim>\<open>int\<close> and the conversion of an \<^verbatim>\<open>int\<close> to \<^verbatim>\<open>double\<close>.\<close>

fun f64_to_int :: "f64 \<Rightarrow> int result" where
  "f64_to_int (F_num q) =
     (let t = (if q < 0 then - \<lfloor>- q\<rfloor> else \<lfloor>q\<rfloor>)
      in if - 2147483648 \<le> t \<and> t < 2147483648 then Inr t else Inl (E_undef ''double out of range of int''))"
| "f64_to_int (F_zero s) = Inr 0"
| "f64_to_int _ = Inl (E_undef ''double out of range of int'')"

definition f64_of_int :: "int \<Rightarrow> f64" where
  "f64_of_int i = f64_round (of_int i)"

text \<open>\<open>int += uint32_t\<close>\<close>

definition add_u32 :: "int \<Rightarrow> u32 \<Rightarrow> int" where
  "add_u32 i w = sint (word_of_int i + w)"

fun sum_depths :: "int list \<Rightarrow> int \<Rightarrow> match_state \<Rightarrow> int result" where
  "sum_depths [] tot st = Inr tot"
| "sum_depths (i # is') tot st = rbind (load_bucket i st) (\<lambda>b. sum_depths is' (add_u32 tot (pb_depth b)) st)"

fun initialize_bucket :: "(nat \<Rightarrow> f64) \<Rightarrow> int list \<Rightarrow> match_state \<Rightarrow> match_state result" where
  "initialize_bucket clock [] st = Inl (E_undef ''null bucket'')"
| "initialize_bucket clock (i # overflow) st =
     rbind (load_bucket i st) (\<lambda>b.
       if initialized b then Inr st
       else rbind (sum_depths overflow (sint (pb_depth b)) st) (\<lambda>max_tokens.
         let (now, st) = get_time clock st
         in Inr (store_bucket i (b\<lparr>initialized := True, pb_tokens := sint (pb_initial b),
              max_time := f64_div (f64_of_int max_tokens) (f64_of_u32 (pb_rate b)), last_refill := now\<rparr>) st)))"

text \<open>
  The loop that hands tokens down the chain of buckets. The test \<^verbatim>\<open>b->tokens <= walk->depth\<close>
  compares unsigned numbers.
\<close>

fun pour :: "int list \<Rightarrow> int \<Rightarrow> match_state \<Rightarrow> match_state result" where
  "pour [] tokens st = Inr st"
| "pour (i # is') tokens st =
     (if tokens = 0 then Inr st
      else rbind (load_bucket i st) (\<lambda>b.
        let tot = pb_tokens b + tokens
        in if tot < - 2147483648 \<or> 2147483647 < tot then Inl (E_undef ''signed overflow'')
           else if (word_of_int tot :: u32) \<le> pb_depth b
           then Inr (store_bucket i (b\<lparr>pb_tokens := tot\<rparr>) st)
           else pour is' (sint (word_of_int tot - pb_depth b))
                  (store_bucket i (b\<lparr>pb_tokens := sint (pb_depth b)\<rparr>) st)))"

fun refill_bucket :: "(nat \<Rightarrow> f64) \<Rightarrow> int list \<Rightarrow> match_state \<Rightarrow> match_state result" where
  "refill_bucket clock [] st = Inl (E_undef ''null bucket'')"
| "refill_bucket clock (i # overflow) st =
     rbind (initialize_bucket clock (i # overflow) st) (\<lambda>st.
     rbind (load_bucket i st) (\<lambda>b.
       let (now, st) = get_time clock st;
           delta = f64_sub now (last_refill b);
           delta = (if f64_lt (max_time b) delta then max_time b else delta)
       in rbind (f64_to_int (f64_mul delta (f64_of_u32 (pb_rate b)))) (\<lambda>tokens.
            pour (i # overflow) tokens (store_bucket i (b\<lparr>last_refill := now\<rparr>) st))))"

definition policed_len :: "int \<Rightarrow> my_bucket \<Rightarrow> int" where
  "policed_len len b = (if len > pb_mpu b then len else pb_mpu b)"

text \<open>The result is the code of the verdict and the class, for \<open>tat_class\<close>.\<close>

fun run_action :: "(nat \<Rightarrow> f64) \<Rightarrow> tcc_action \<Rightarrow> int \<Rightarrow> u32 \<Rightarrow> match_state \<Rightarrow> (int \<times> u32 \<times> match_state) result" where
  "run_action clock A_null len cls st = Inl (E_undef ''null action'')"
| "run_action clock (A_class cs) len cls st =
     (case cs of
        [] \<Rightarrow> Inl (E_undef ''null class'')
      | c # _ \<Rightarrow> Inr (0, push_bit 16 (word_of_int (class_qdisc c)) OR word_of_int (class_index c), st))"
| "run_action clock A_drop len cls st = Inr (2, cls, st)"
| "run_action clock A_unspec len cls st = Inr (-1, cls, st)"
| "run_action clock (A_conform bucket yes no) len cls st =
     rbind (refill_bucket clock bucket st) (\<lambda>st.
     rbind (load_bucket (hd bucket) st) (\<lambda>b.
       if policed_len len b \<le> pb_tokens b then run_action clock yes len cls st else run_action clock no len cls st))"
| "run_action clock (A_count bucket next) len cls st =
     rbind (refill_bucket clock bucket st) (\<lambda>st.
     rbind (load_bucket (hd bucket) st) (\<lambda>b.
       let n = policed_len len b;
           b = b\<lparr>pb_tokens := (if pb_tokens b < n then 0 else pb_tokens b - n)\<rparr>
       in run_action clock next len cls (store_bucket (hd bucket) b st)))"

section \<open>The matcher\<close>

text \<open>The inner loop stops at the first match that fails.\<close>

fun match_all :: "tcc_match list \<Rightarrow> u8 list \<Rightarrow> (u32 \<Rightarrow> u32) \<Rightarrow> u32 \<Rightarrow> bool result" where
  "match_all [] raw ntohs protocol = Inr True"
| "match_all (m # ms) raw ntohs protocol =
     rbind (match_1 m raw ntohs protocol) (\<lambda>ok. if ok then match_all ms raw ntohs protocol else Inr False)"

text \<open>
  An action that does not decide skips the rules up to the next barrier. \<open>act\<close> runs an action.
\<close>

fun skip_rules :: "tcc_rule list \<Rightarrow> tcc_rule list" where
  "skip_rules [] = []"
| "skip_rules (r # rs) = (if rule_action r \<noteq> None then skip_rules rs else r # rs)"

lemma skip_rules_length: "length (skip_rules rs) \<le> length rs"
  by (induction rs) auto

function match_rules ::
  "(tcc_action \<Rightarrow> 's \<Rightarrow> (int \<times> 's) result) \<Rightarrow> tcc_rule list \<Rightarrow> u8 list \<Rightarrow> (u32 \<Rightarrow> u32) \<Rightarrow> u32 \<Rightarrow> 's \<Rightarrow> (int \<times> 's) result" where
  "match_rules act [] raw ntohs protocol st = Inr (-1, st)"
| "match_rules act (r # rs) raw ntohs protocol st =
     (case rule_action r of
        None \<Rightarrow> match_rules act rs raw ntohs protocol st
      | Some a \<Rightarrow>
          rbind (match_all (matches_of r) raw ntohs protocol) (\<lambda>ok.
            if ok
            then rbind (act a st) (\<lambda>(res, st).
              if res \<noteq> -1 then Inr (res, st)
              else match_rules act (drop 1 (skip_rules (r # rs))) raw ntohs protocol st)
            else match_rules act rs raw ntohs protocol st))"
  by pat_completeness auto

termination
proof (relation "measure (\<lambda>(act, rs, raw, ntohs, protocol, st). length rs)")
  fix act :: "tcc_action \<Rightarrow> 's \<Rightarrow> (int \<times> 's) result" and r :: tcc_rule and rs :: "tcc_rule list" and raw :: "u8 list"
    and ntohs :: "u32 \<Rightarrow> u32" and protocol :: u32 and st x :: 's and a
  assume "rule_action r = Some a"
  then show "((act, drop 1 (skip_rules (r # rs)), raw, ntohs, protocol, x), act, r # rs, raw, ntohs, protocol, st)
      \<in> measure (\<lambda>(act, rs, raw, ntohs, protocol, st). length rs)"
    using skip_rules_length [of rs] by simp
qed auto

text \<open>
  \<^verbatim>\<open>match\<close>, on the single block of the context. The class of the result is a part of the state the
  actions change.
\<close>

definition match_packet ::
  "(nat \<Rightarrow> f64) \<Rightarrow> tcc_rule list list \<Rightarrow> u8 list \<Rightarrow> int \<Rightarrow> (u32 \<Rightarrow> u32) \<Rightarrow> u32 \<Rightarrow> u32 \<times> match_state \<Rightarrow> (int \<times> u32 \<times> match_state) result" where
  "match_packet clock blocks raw len ntohs protocol st =
     (case blocks of
        [] \<Rightarrow> Inl (E_undef ''null block'')
      | [rules] \<Rightarrow> match_rules (\<lambda>a (cls, st). run_action clock a len cls st) rules raw ntohs protocol st
      | _ \<Rightarrow> Inl (E_errorf ''match.c cannot handle multiple blocks''))"

section \<open>Correctness of the extraction\<close>

definition raw_bit :: "u8 list \<Rightarrow> nat \<Rightarrow> bool" where
  "raw_bit data i = bit (data ! (i div 8)) (7 - i mod 8)"

lemma raw_bit_byte: "q < 8 \<Longrightarrow> raw_bit data (8 * i + 7 - q) = bit (data ! i) q"
proof -
  assume q: "q < 8"
  obtain p where p: "p = 7 - q" by blast
  have e: "8 * i + 7 - q = 8 * i + p" "p < 8" "7 - p = q" using p q by simp_all
  have "(8 * i + p) div 8 = i" "(8 * i + p) mod 8 = p" using e(2) by simp_all
  then show ?thesis unfolding e(1) raw_bit_def by (simp only: e(3))
qed

definition bits_word :: "(nat \<Rightarrow> bool) \<Rightarrow> nat \<Rightarrow> nat \<Rightarrow> u32" where
  "bits_word f s k = of_nat (bits_val f s k)"

lemma bit_bits_word: "bit (bits_word f s k) q \<longleftrightarrow> q < 32 \<and> q < k \<and> f (s + k - 1 - q)"
  by (simp add: bits_word_def bit_of_nat_iff possible_bit_word bit_bits_val)

lemma bits_word_byte:
  assumes "s + k = 8 * i"
  shows "push_bit 8 (bits_word (raw_bit data) s k) OR ucast (data ! i) = bits_word (raw_bit data) s (k + 8)"
proof (rule bit_word_eqI)
  fix q assume "q < LENGTH(32)"
  then have q: "q < 32" by simp
  show "bit (push_bit 8 (bits_word (raw_bit data) s k) OR ucast (data ! i)) q = bit (bits_word (raw_bit data) s (k + 8)) q"
  proof (cases "q < 8")
    case True
    have "s + (k + 8) - 1 - q = 8 * i + 7 - q" using assms by simp
    then show ?thesis
      using True q raw_bit_byte [OF True, of data i] by (simp add: bit_or_iff bit_push_bit_iff bit_ucast_iff bit_bits_word)
  next
    case False
    then have "s + (k + 8) - 1 - q = s + k - 1 - (q - 8)" by simp
    moreover have "\<not> bit (data ! i) q" using False bit_imp_le_length [of "data ! i" q] by auto
    ultimately show ?thesis
      using False q by (auto simp: bit_or_iff bit_push_bit_iff bit_ucast_iff bit_bits_word)
  qed
qed

lemma bits_word_first:
  assumes "s = 8 * i + r" "r < 8"
  shows "ucast (data ! i) AND (push_bit (8 - r) 1 - 1 :: u32) = bits_word (raw_bit data) s (8 - r)"
proof -
  have m: "push_bit (8 - r) 1 - 1 = (mask (8 - r) :: u32)" by (simp add: mask_eq_exp_minus_1 push_bit_of_1)
  show ?thesis unfolding m
  proof (rule bit_word_eqI)
    fix q assume "q < LENGTH(32)"
    moreover have "s + (8 - r) - 1 - q = 8 * i + 7 - q" using assms by simp
    ultimately show "bit (ucast (data ! i) AND mask (8 - r) :: u32) q = bit (bits_word (raw_bit data) s (8 - r)) q"
      using raw_bit_byte [of q data i] by (auto simp: bit_and_iff bit_ucast_iff bit_mask_iff bit_bits_word)
  qed
qed

lemma bits_word_drop:
  assumes "n \<le> k" "k \<le> 32"
  shows "drop_bit (k - n) (bits_word f s k) = bits_word f s n"
proof (rule bit_word_eqI)
  fix q
  have "q + (k - n) < k \<longleftrightarrow> q < n" "q < n \<Longrightarrow> s + k - 1 - (q + (k - n)) = s + n - 1 - q" using assms by auto
  then show "bit (drop_bit (k - n) (bits_word f s k)) q = bit (bits_word f s n) q"
    using assms by (auto simp: bit_drop_bit_eq bit_bits_word add.commute)
qed

lemma extract_loop_ok:
  "\<lbrakk>s + k = 8 * i; s + n \<le> 8 * length data\<rbrakk> \<Longrightarrow>
   \<exists>k'. extract_loop data (int i) (int n - int k) (bits_word (raw_bit data) s k) =
       Inr (bits_word (raw_bit data) s k', int n - int k') \<and> (s + k') mod 8 = 0 \<and> n \<le> k' \<and> (k' = k \<or> k' < n + 8)"
proof (induction "n - k" arbitrary: k i rule: less_induct)
  case less
  show ?case
  proof (cases "k < n")
    case True
    then have "i < length data" using less.prems by linarith
    then have "read_byte data (int i) = Inr (data ! i)" by (simp add: read_byte_def)
    moreover have e: "int n - int k - 8 = int n - int (k + 8)" "int i + 1 = int (i + 1)" by simp_all
    ultimately have step: "extract_loop data (int i) (int n - int k) (bits_word (raw_bit data) s k) =
        extract_loop data (int (i + 1)) (int n - int (k + 8)) (bits_word (raw_bit data) s (k + 8))"
      using True by (subst extract_loop.simps) (simp only: e rbind.simps bits_word_byte [OF less.prems(1)], simp)
    have "n - (k + 8) < n - k" "s + (k + 8) = 8 * (i + 1)" using True less.prems by simp_all
    from less.hyps [OF this less.prems(2)] step True show ?thesis by auto
  next
    case False
    then show ?thesis using less.prems by (subst extract_loop.simps) (auto intro!: exI [of _ k])
  qed
qed

lemma extract_bits_ok:
  assumes n: "0 < n" "n + s mod 8 \<le> 32" "s + n \<le> 8 * length data"
  shows "extract_bits data (int s) (int n) = Inr (bits_word (raw_bit data) s n)"
proof -
  define i r where "i = s div 8" and "r = s mod 8"
  have s: "s = 8 * i + r" "r < 8" by (simp_all add: i_def r_def)
  have "i < length data" using n s by linarith
  then have b: "read_byte data (int i) = Inr (data ! i)" by (simp add: read_byte_def)
  have sr: "s + (8 - r) = 8 * (i + 1)" using s by simp
  from extract_loop_ok [OF sr n(3)] obtain k where k:
      "extract_loop data (int (i + 1)) (int n - int (8 - r)) (bits_word (raw_bit data) s (8 - r)) =
         Inr (bits_word (raw_bit data) s k, int n - int k)" "(s + k) mod 8 = 0" "n \<le> k" "k = 8 - r \<or> k < n + 8"
    by (elim exE conjE) (rule that)
  have "s + k = 8 * i + (r + k)" using s(1) by simp
  then have "(r + k) mod 8 = 0" using k(2) by (metis mod_mult_self4)
  then have "8 dvd r + k" by (rule mod_0_imp_dvd)
  then obtain j where j: "r + k = 8 * j" by blast
  have nr: "n + r \<le> 32" using n(2) r_def by simp
  have "j \<le> 4" using k(4) j nr s(2) by (elim disjE) linarith+
  then have k32: "k \<le> 32" "k - n < 8" using j k(4) n(1) s(2) by linarith+
  have e: "int s div 8 = int i" "int s mod 8 = int r" "int i + 1 = int (i + 1)" "8 - int r = int (8 - r)"
    using s(2) by (simp_all only: i_def r_def zdiv_int zmod_int of_nat_numeral of_nat_add of_nat_1 of_nat_diff less_imp_le)
  note e = e nat_int
  have "\<not> int n + int r > 32" using n(2) r_def by linarith
  then have "extract_bits data (int s) (int n) =
      (if int n - int k = 0 then Inr (bits_word (raw_bit data) s k)
       else if - (int n - int k) < 32 then Inr (drop_bit (nat (- (int n - int k))) (bits_word (raw_bit data) s k)) else Inl (E_undef ''shift count''))"
    by (simp only: extract_bits_def e Let_def b rbind.simps bits_word_first [OF s] k(1) split if_False)
  also have "\<dots> = Inr (bits_word (raw_bit data) s n)"
  proof (cases "k = n")
    case False
    have "nat (- (int n - int k)) = k - n" "- (int n - int k) < 32" "int n - int k \<noteq> 0" using k(3) k32(2) False by simp_all
    then show ?thesis using bits_word_drop [OF k(3) k32(1)] by simp
  qed simp
  finally show ?thesis .
qed


section \<open>Offsets\<close>

text \<open>
  The groups the matcher can evaluate on a packet: every access is inside the packet and spans at
  most 32 bits from the start of its first byte, and the sum stays a positive \<^verbatim>\<open>int\<close>.
\<close>

fun group_start :: "tcc_group \<Rightarrow> u8 list \<Rightarrow> nat" where
  "group_start (G_offset n b f off len shift) raw =
     group_start b raw + push_bit (nat shift) (bits_val (raw_bit raw) (group_start f raw + nat off) (nat len))"
| "group_start g raw = 0"

fun access_fits :: "u8 list \<Rightarrow> nat \<Rightarrow> int \<Rightarrow> int \<Rightarrow> bool" where
  "access_fits raw s off len \<longleftrightarrow> 0 \<le> off \<and> 0 < len \<and> len + (int s + off) mod 8 \<le> 32 \<and> int s + off + len \<le> 8 * int (length raw)"

fun group_fits :: "tcc_group \<Rightarrow> u8 list \<Rightarrow> bool" where
  "group_fits G_raw raw \<longleftrightarrow> True"
| "group_fits G_meta raw \<longleftrightarrow> False"
| "group_fits (G_offset n b f off len shift) raw \<longleftrightarrow>
     group_fits b raw \<and> group_fits f raw \<and> 0 \<le> shift \<and> shift < 32 \<and> access_fits raw (group_start f raw) off len \<and>
     group_start (G_offset n b f off len shift) raw < 2147483648"

lemma extract_at:
  assumes "access_fits raw s off len"
  shows "extract_bits raw (int s + off) len = Inr (bits_word (raw_bit raw) (s + nat off) (nat len))"
proof -
  have e: "int s + off = int (s + nat off)" "len = int (nat len)" using assms by simp_all
  have "extract_bits raw (int (s + nat off)) (int (nat len)) = Inr (bits_word (raw_bit raw) (s + nat off) (nat len))"
  proof (rule extract_bits_ok)
    show "0 < nat len" using assms by simp
    show "nat len + (s + nat off) mod 8 \<le> 32"
    proof -
      have "(int s + off) mod 8 = int ((s + nat off) mod 8)" unfolding e(1) by (simp only: zmod_int of_nat_numeral)
      moreover have "len + (int s + off) mod 8 \<le> 32" using assms by simp
      ultimately show ?thesis using e(2) by linarith
    qed
    show "s + nat off + nat len \<le> 8 * length raw" 
    proof -
      have "int s + off + len \<le> 8 * int (length raw)" using assms by simp
      then show ?thesis using e by linarith
    qed
  qed
  then show ?thesis by (simp only: e [symmetric])
qed

lemma bits_val_less: "bits_val f p n < 2 ^ n"
  by (induction n) auto

lemma offset_ok:
  "group_fits g raw \<Longrightarrow> offset g raw = Inr (int (group_start g raw))"
proof (induction g)
  case (G_offset n b f off len shift)
  let ?v = "bits_val (raw_bit raw) (group_start f raw + nat off) (nat len)"
  have fits: "access_fits raw (group_start f raw) off len" "0 \<le> shift" "shift < 32"
    and less: "group_start b raw + push_bit (nat shift) ?v < 2147483648"
    using G_offset.prems by simp_all
  have "(word_of_int (int (group_start b raw)) :: u32) + push_bit (nat shift) (bits_word (raw_bit raw) (group_start f raw + nat off) (nat len)) =
      of_nat (group_start b raw + push_bit (nat shift) ?v)"
    by (simp add: bits_word_def push_bit_eq_mult)
  moreover have "sint (of_nat (group_start b raw + push_bit (nat shift) ?v) :: u32) = int (group_start b raw + push_bit (nat shift) ?v)"
  proof -
    have "unat (of_nat (group_start b raw + push_bit (nat shift) ?v) :: u32) = group_start b raw + push_bit (nat shift) ?v"
      using less by (simp only: unsigned_of_nat) (simp add: take_bit_nat_eq_self)
    then show ?thesis using less by (subst sint_small_32) simp_all
  qed
  ultimately show ?case
    using G_offset extract_at [OF fits(1)] fits(2,3) by simp
qed simp_all

section \<open>Matches\<close>

definition match_fits :: "tcc_match \<Rightarrow> u8 list \<Rightarrow> bool" where
  "match_fits m raw \<longleftrightarrow>
     (let f = match_field m
      in group_fits (tf_group f) raw \<and> access_fits raw (group_start (tf_group f) raw) (tf_offset f) (tf_length f) \<and>
         tf_length f \<le> 32 \<and> tf_length f \<le> 8 * int (length (match_data m)))"

text \<open>The bits of the packet are those of the data, which are aligned to the right.\<close>

definition match_holds :: "tcc_match \<Rightarrow> u8 list \<Rightarrow> bool" where
  "match_holds m raw \<longleftrightarrow>
     (let f = match_field m; n = nat (tf_length f); p = group_start (tf_group f) raw + nat (tf_offset f)
      in \<forall>k<n. raw_bit raw (p + k) = raw_bit (match_data m) (nat ((- tf_length f) mod 8) + k))"

lemma bits_word_eq_iff:
  assumes "n \<le> 32"
  shows "bits_word f p n = bits_word f' p' n \<longleftrightarrow> (\<forall>k<n. f (p + k) = f' (p' + k))"
proof
  assume eq: "bits_word f p n = bits_word f' p' n"
  show "\<forall>k<n. f (p + k) = f' (p' + k)"
  proof (intro allI impI)
    fix k assume k: "k < n"
    have "bit (bits_word f p n) (n - 1 - k) = bit (bits_word f' p' n) (n - 1 - k)" using eq by simp
    moreover have "p + n - 1 - (n - 1 - k) = p + k" "p' + n - 1 - (n - 1 - k) = p' + k" "n - 1 - k < n" "n - 1 - k < 32"
      using k assms by auto
    ultimately show "f (p + k) = f' (p' + k)" by (simp only: bit_bits_word simp_thms)
  qed
next
  assume "\<forall>k<n. f (p + k) = f' (p' + k)"
  then show "bits_word f p n = bits_word f' p' n"
    unfolding bits_word_def by (metis bits_val_cong)
qed

lemma match_1_ok:
  assumes "match_fits m raw"
  shows "match_1 m raw ntohs protocol = Inr (match_holds m raw)"
proof -
  let ?f = "match_field m" let ?s = "group_start (tf_group ?f) raw"
  have fits: "group_fits (tf_group ?f) raw" "access_fits raw ?s (tf_offset ?f) (tf_length ?f)"
      "tf_length ?f \<le> 32" "tf_length ?f \<le> 8 * int (length (match_data m))"
    using assms by (simp_all add: match_fits_def Let_def)
  define n where "n = nat (tf_length ?f)"
  have n: "tf_length ?f = int n" "0 < n" using fits(2) by (simp_all add: n_def)
  define p where "p = nat ((- int n) mod 8)"
  have p: "(- tf_length ?f) mod 8 = int p" unfolding p_def n(1) by simp
  have p8: "p < 8" unfolding p_def by (simp add: nat_less_iff)
  have "(int p + int n) mod 8 = 0" unfolding p [symmetric] n(1) by (simp add: mod_add_left_eq)
  then have "8 dvd p + n" by (metis int_dvd_int_iff mod_0_imp_dvd of_nat_add of_nat_numeral)
  then obtain j where j: "p + n = 8 * j" by blast
  have "n \<le> 32" "n \<le> 8 * length (match_data m)" using fits(3,4) n(1) by linarith+
  then have "j \<le> 4" "j \<le> length (match_data m)" using j p8 by linarith+
  then have "p + n \<le> 8 * length (match_data m)" "n + p mod 8 \<le> 32" using j p8 by simp_all
  then have d: "extract_bits (match_data m) (int p) (int n) = Inr (bits_word (raw_bit (match_data m)) p n)"
    using n(2) by (intro extract_bits_ok) simp_all
  have r: "extract_bits raw (int ?s + tf_offset ?f) (tf_length ?f) = Inr (bits_word (raw_bit raw) (?s + nat (tf_offset ?f)) n)"
    unfolding n_def by (rule extract_at [OF fits(2)])
  have "tf_group ?f \<noteq> G_meta" using fits(1) by auto
  then have "match_1 m raw ntohs protocol =
      Inr (bits_word (raw_bit raw) (?s + nat (tf_offset ?f)) n = bits_word (raw_bit (match_data m)) p n)"
    by (simp only: match_1_def Let_def offset_ok [OF fits(1)] if_False rbind.simps r p d [folded n(1)] refl)
  also have "\<dots> = Inr (match_holds m raw)"
    unfolding match_holds_def Let_def n_def [symmetric] p nat_int bits_word_eq_iff [OF \<open>n \<le> 32\<close>] ..
  finally show ?thesis .
qed

text \<open>The rules a list of matches stands for.\<close>

fun rules_fit :: "u8 list \<Rightarrow> tcc_rule list \<Rightarrow> bool" where
  "rules_fit raw rs \<longleftrightarrow> list_all (\<lambda>r. list_all (\<lambda>m. match_fits m raw) (matches_of r)) rs"

lemma match_all_ok:
  "list_all (\<lambda>m. match_fits m raw) ms \<Longrightarrow>
     match_all ms raw ntohs protocol = Inr (list_all (\<lambda>m. match_holds m raw) ms)"
  by (induction ms) (simp_all add: match_1_ok)

section \<open>Policers\<close>

text \<open>
  The tokens of a policer are between zero and its depth, whatever the clock does: when it goes
  backwards, the negative sum is a large unsigned number and the bucket is filled.
\<close>

definition bucket_ok :: "my_bucket \<Rightarrow> bool" where
  "bucket_ok b \<longleftrightarrow> unat (pb_initial b) \<le> unat (pb_depth b) \<and> unat (pb_depth b) < 2147483648 \<and>
     0 \<le> pb_tokens b \<and> pb_tokens b \<le> int (unat (pb_depth b))"

definition policers_ok :: "match_state \<Rightarrow> bool" where
  "policers_ok st \<longleftrightarrow> (\<forall>i b. policers st i = Some b \<longrightarrow> bucket_ok b)"

lemma load_ok: "policers_ok st \<Longrightarrow> load_bucket i st = Inr b \<Longrightarrow> bucket_ok b"
  by (auto simp: policers_ok_def load_bucket_def split: option.splits)

lemma store_ok: "policers_ok st \<Longrightarrow> bucket_ok b \<Longrightarrow> policers_ok (store_bucket i b st)"
  by (auto simp: policers_ok_def store_bucket_def)

lemma time_ok: "policers_ok st \<Longrightarrow> get_time clock st = (now, st') \<Longrightarrow> policers_ok st'"
  by (auto simp: policers_ok_def get_time_def)

lemma depth_sint: "bucket_ok b \<Longrightarrow> sint (pb_depth b) = int (unat (pb_depth b)) \<and> sint (pb_initial b) = int (unat (pb_initial b))"
  by (simp add: bucket_ok_def sint_small_32)

lemma initialize_ok: "policers_ok st \<Longrightarrow> initialize_bucket clock bs st = Inr st' \<Longrightarrow> policers_ok st'"
proof (induction clock bs st rule: initialize_bucket.induct)
  case (2 clock i overflow st)
  then obtain b where b: "load_bucket i st = Inr b" by (auto simp: rbind_Inr_iff)
  have ok: "bucket_ok b" using load_ok 2(1) b by blast
  show ?case
  proof (cases "initialized b")
    case False
    obtain now st1 where t: "get_time clock st = (now, st1)" by fastforce
    with False 2 b obtain tot where st': "st' = store_bucket i (b\<lparr>initialized := True, pb_tokens := sint (pb_initial b),
        max_time := f64_div (f64_of_int tot) (f64_of_u32 (pb_rate b)), last_refill := now\<rparr>) st1"
      by (auto simp: rbind_Inr_iff Let_def)
    have "policers_ok st1" by (rule time_ok [OF 2(1) t])
    moreover have "uint (pb_initial b) \<le> uint (pb_depth b)" using ok by (simp only: bucket_ok_def uint_nat of_nat_le_iff)
    ultimately show ?thesis unfolding st' using ok depth_sint [OF ok] by (intro store_ok) (simp_all add: bucket_ok_def)
  qed (use 2 b in simp)
qed simp

lemma pour_ok: "policers_ok st \<Longrightarrow> pour bs tokens st = Inr st' \<Longrightarrow> policers_ok st'"
proof (induction bs tokens st rule: pour.induct)
  case (2 i bs tokens st)
  show ?case
  proof (cases "tokens = 0")
    case False
    then obtain b where b: "load_bucket i st = Inr b" using "2.prems" by (auto simp: rbind_Inr_iff)
    have ok: "bucket_ok b" using load_ok "2.prems"(1) b by blast
    define tot where "tot = pb_tokens b + tokens"
    have range: "- 2147483648 \<le> tot" "tot \<le> 2147483647"
      using "2.prems"(2) False b by (auto simp: tot_def Let_def split: if_splits)
    show ?thesis
    proof (cases "(word_of_int tot :: u32) \<le> pb_depth b")
      case True
      have "0 \<le> tot"
      proof (rule ccontr)
        assume neg: "\<not> 0 \<le> tot"
        have "uint (word_of_int tot :: u32) = (tot + 4294967296) mod 4294967296" by (simp add: uint_word_of_int)
        also have "\<dots> = tot + 4294967296" by (rule mod_pos_pos_trivial) (use neg range in simp_all)
        finally have "2147483648 \<le> uint (word_of_int tot :: u32)" using range by simp
        moreover have "uint (word_of_int tot :: u32) \<le> uint (pb_depth b)" using True by (simp only: word_le_def)
        moreover have "int (unat (pb_depth b)) < 2147483648" using ok unfolding bucket_ok_def by linarith
        then have "uint (pb_depth b) < 2147483648" by (simp only: uint_nat)
        ultimately show False by simp
      qed
      then have "uint (word_of_int tot :: u32) = tot" using range by (simp add: uint_word_of_int)
      then have "tot \<le> int (unat (pb_depth b))" using True by (simp add: word_le_def)
      then have "bucket_ok (b\<lparr>pb_tokens := tot\<rparr>)" using ok \<open>0 \<le> tot\<close> by (simp add: bucket_ok_def)
      moreover have "st' = store_bucket i (b\<lparr>pb_tokens := tot\<rparr>) st"
        using "2.prems"(2) False b True range by (simp add: tot_def Let_def)
      ultimately show ?thesis using store_ok [OF "2.prems"(1)] by simp
    next
      case over: False
      have "bucket_ok (b\<lparr>pb_tokens := sint (pb_depth b)\<rparr>)" using ok depth_sint [OF ok] by (simp add: bucket_ok_def)
      then have "policers_ok (store_bucket i (b\<lparr>pb_tokens := sint (pb_depth b)\<rparr>) st)" by (rule store_ok [OF "2.prems"(1)])
      moreover have "pour bs (sint (word_of_int tot - pb_depth b)) (store_bucket i (b\<lparr>pb_tokens := sint (pb_depth b)\<rparr>) st) = Inr st'"
        using "2.prems"(2) False b over range by (simp add: tot_def Let_def)
      ultimately show ?thesis using "2.IH" [OF False b tot_def] over range by auto
    qed
  qed (use "2.prems" in simp)
qed simp

lemma refill_ok: "policers_ok st \<Longrightarrow> refill_bucket clock bs st = Inr st' \<Longrightarrow> policers_ok st'"
proof (induction clock bs st rule: refill_bucket.induct)
  case (2 clock i overflow st)
  then obtain st1 b where 1: "initialize_bucket clock (i # overflow) st = Inr st1" "load_bucket i st1 = Inr b"
    by (auto simp: rbind_Inr_iff simp del: initialize_bucket.simps)
  obtain now st2 where t: "get_time clock st1 = (now, st2)" by fastforce
  from 2(2) 1 t obtain tokens where p: "pour (i # overflow) tokens (store_bucket i (b\<lparr>last_refill := now\<rparr>) st2) = Inr st'"
    by (auto simp: rbind_Inr_iff Let_def simp del: pour.simps initialize_bucket.simps)
  have st1: "policers_ok st1" by (rule initialize_ok [OF 2(1) 1(1)])
  moreover have "bucket_ok (b\<lparr>last_refill := now\<rparr>)" using load_ok [OF st1 1(2)] by (simp add: bucket_ok_def)
  ultimately show ?case using pour_ok [OF store_ok [OF time_ok [OF _ t]] p] by blast
qed simp

lemma run_action_ok:
  "\<lbrakk>policers_ok st; 0 \<le> len; run_action clock a len cls st = Inr (res, cls', st')\<rbrakk> \<Longrightarrow> policers_ok st'"
proof (induction a arbitrary: st)
  case (A_conform bucket yes no)
  then obtain st1 where 1: "refill_bucket clock bucket st = Inr st1"
      "run_action clock yes len cls st1 = Inr (res, cls', st') \<or> run_action clock no len cls st1 = Inr (res, cls', st')"
    by (auto simp: rbind_Inr_iff split: if_splits)
  with A_conform.IH A_conform.prems(2) refill_ok [OF A_conform.prems(1) 1(1)] show ?case by blast
next
  case (A_count bucket a)
  then obtain st1 b where 1: "refill_bucket clock bucket st = Inr st1" "load_bucket (hd bucket) st1 = Inr b"
      "run_action clock a len cls (store_bucket (hd bucket) (b\<lparr>pb_tokens := (if pb_tokens b < policed_len len b then 0
         else pb_tokens b - policed_len len b)\<rparr>) st1) = Inr (res, cls', st')"
    by (auto simp: rbind_Inr_iff Let_def)
  have st1: "policers_ok st1" by (rule refill_ok [OF A_count.prems(1) 1(1)])
  have "0 \<le> policed_len len b" using A_count.prems(2) by (simp add: policed_len_def)
  then have "bucket_ok (b\<lparr>pb_tokens := (if pb_tokens b < policed_len len b then 0 else pb_tokens b - policed_len len b)\<rparr>)"
    using load_ok [OF st1 1(2)] by (auto simp: bucket_ok_def)
  from A_count.IH [OF store_ok [OF st1 this] A_count.prems(2) 1(3)] show ?case .
qed (auto split: list.splits)

section \<open>Properties\<close>

text \<open>
  C22: Bits are read exactly. \<open>extract_bits\<close> of \<open>n\<close> bits from bit \<open>s\<close> of a buffer on, the most significant
  bit of the first byte being bit 0, yields the number these bits stand for, when they are inside
  the buffer and end within 32 bits of the start of the first byte.
\<close>

theorem extract_bits_exact:
  assumes "0 < n" "n + s mod 8 \<le> 32" "s + n \<le> 8 * length data"
  shows "\<exists>w. extract_bits data (int s) (int n) = Inr w \<and> unat w = bits_val (raw_bit data) s n"
proof -
  have "bits_val (raw_bit data) s n < 2 ^ 32"
    using bits_val_less [of "raw_bit data" s n] assms(2) power_increasing [of n 32 "2 :: nat"] by linarith
  then have "unat (bits_word (raw_bit data) s n) = bits_val (raw_bit data) s n"
    by (simp only: bits_word_def unsigned_of_nat) (simp add: take_bit_nat_eq_self)
  then show ?thesis using extract_bits_ok [OF assms] by blast
qed

lemma extract_bits_exact_witness:
  "\<exists>w. extract_bits [0x12, 0x34] (int 4) (int 8) = Inr w \<and> unat w = bits_val (raw_bit [0x12, 0x34]) 4 8"
  by (rule extract_bits_exact) simp_all

text \<open>
  C18: A policer never holds a negative number of tokens or more than its depth, in whatever way its
  action and the policers it overflows to are used, and whatever the clock says.
\<close>

theorem policers_within_depth:
  assumes "policers_ok st" "0 \<le> len" "run_action clock a len cls st = Inr (res, cls', st')"
  shows "policers_ok st'"
  using run_action_ok [OF assms] .

definition full_bucket :: my_bucket where
  "full_bucket = \<lparr>pb_rate = 0, pb_mpu = 0, pb_depth = 2000, pb_initial = 2000, pb_tokens = 2000, last_refill = F_zero False,
     max_time = F_zero False, initialized = True\<rparr>"

lemma policers_within_depth_witness:
  "\<exists>st'. run_action (\<lambda>i. F_zero False) (A_count [1] A_drop) 1500 0 \<lparr>policers = [1 \<mapsto> full_bucket], calls = 0\<rparr> = Inr (2, 0, st') \<and>
     policers_ok st' \<and> map_option pb_tokens (policers st' 1) = Some 500"
proof -
  let ?st = "\<lparr>policers = [1 \<mapsto> full_bucket], calls = 0\<rparr>"
  obtain st' where st': "run_action (\<lambda>i. F_zero False) (A_count [1] A_drop) 1500 0 ?st = Inr (2, 0, st')"
      "map_option pb_tokens (policers st' 1) = Some 500"
    by (simp add: full_bucket_def load_bucket_def store_bucket_def get_time_def policed_len_def Let_def
        f64_sub_def f64_of_u32_def f64_round_def)
  have "policers_ok ?st" by (auto simp: policers_ok_def full_bucket_def bucket_ok_def)
  from policers_within_depth [OF this _ st'(1)] st' show ?thesis by auto
qed

end
