(* ===== verification/If_Ext_Scan.thy ===== *)
theory If_Ext_Scan
  imports If_Ext_Rules
begin

text \<open>
  The table of offset groups of \<^verbatim>\<open>tcc/if_ext.c\<close> is written before the rules. This theory shows that
  its numbers are unambiguous, and that the walk \<open>dump_rules\<close> makes finds every group it needs in
  the table that \<open>scan_offsets\<close> has built.
\<close>

section \<open>Well-formed tables\<close>

text \<open>The numbers of a table are different and an entry refers to earlier entries and to the roots.\<close>

fun groups_wf :: "nat set \<Rightarrow> offset_group list \<Rightarrow> bool" where
  "groups_wf K [] \<longleftrightarrow> True"
| "groups_wf K (g # gs) \<longleftrightarrow>
     og_number g \<notin> K \<and> og_base g \<in> K \<and> og_value_base g \<in> K \<and> groups_wf (insert (og_number g) K) gs"

definition numbers :: "group_table \<Rightarrow> nat set" where
  "numbers gt = og_number ` set (offset_groups gt)"

definition table_wf :: "field_state \<Rightarrow> group_table \<Rightarrow> bool" where
  "table_wf fs gt \<longleftrightarrow> groups_wf (set (field_roots fs)) (offset_groups gt) \<and>
     (\<forall>n\<in>numbers gt. AUTO_OFFSET_GROUP_BASE \<le> n \<and> n < next_offset_group gt) \<and> AUTO_OFFSET_GROUP_BASE \<le> next_offset_group gt"

definition known :: "field_state \<Rightarrow> group_table \<Rightarrow> nat \<Rightarrow> bool" where
  "known fs gt g \<longleftrightarrow> g \<in> set (field_roots fs) \<or> g \<in> numbers gt"

lemma groups_wf_append: "groups_wf K (gs @ hs) \<longleftrightarrow> groups_wf K gs \<and> groups_wf (K \<union> og_number ` set gs) hs"
  by (induction gs arbitrary: K) auto

lemma known_mono: "known fs gt g \<Longrightarrow> table_extends gt gt' \<Longrightarrow> known fs gt' g"
  by (auto simp: known_def numbers_def table_extends_def)

lemma free_group: "n \<le> free_group fs n \<and> \<not> offset_group_taken (free_group fs n) fs"
  by (induction fs n rule: free_group.induct) (subst (1 2) free_group.simps, auto)

definition keeps_table :: "field_state \<Rightarrow> group_table \<Rightarrow> (nat \<times> group_table) result \<Rightarrow> bool" where
  "keeps_table fs gt r \<longleftrightarrow>
     (\<forall>n gt'. r = Inr (n, gt') \<longrightarrow> table_wf fs gt' \<and> known fs gt' n \<and> table_extends gt gt')"

lemma lookup_keeps:
  assumes "table_wf fs gt" "known fs gt b" "known fs gt vb"
  shows "keeps_table fs gt (Inr (lookup_offset_group fs b vb off len shift gt))"
proof (cases "find (same_group b vb off len shift) (offset_groups gt)")
  case (Some g)
  then have "og_number g \<in> numbers gt" by (auto simp: numbers_def find_Some_iff)
  then show ?thesis
    using assms Some by (simp add: keeps_table_def lookup_offset_group_def known_def)
next
  case None
  define n where "n = free_group fs (next_offset_group gt)"
  have n: "next_offset_group gt \<le> n" "n \<notin> set (field_roots fs)"
    using free_group [of "next_offset_group gt" fs] by (auto simp: n_def offset_group_taken_def)
  moreover have "n \<notin> numbers gt" using n(1) assms(1) by (auto simp: table_wf_def)
  ultimately show ?thesis
    using assms None
    by (auto simp: keeps_table_def lookup_offset_group_def n_def [symmetric] table_wf_def groups_wf_append numbers_def
        known_def Let_def table_extends_def)
qed

lemma access_keeps:
  assumes "table_wf fs gt" "known fs gt b" "known fs gt vb"
  shows "keeps_table fs gt (group_of_access fs b vb m shift off sz gt)"
proof -
  have "keeps_table fs gt (Inr (b, gt))" using assms by (simp add: keeps_table_def)
  moreover have "keeps_table fs gt (Inl e)" for e by (simp add: keeps_table_def)
  ultimately show ?thesis
    unfolding group_of_access_def Let_def using lookup_keeps [OF assms] by (simp split: prod.split)
qed

lemma keeps_bind:
  assumes r: "keeps_table fs gt r" and f: "\<And>n gt'. table_wf fs gt' \<Longrightarrow> known fs gt' n \<Longrightarrow> table_extends gt gt' \<Longrightarrow> keeps_table fs gt' (f n gt')"
  shows "keeps_table fs gt (rbind r (\<lambda>(n, gt). f n gt))"
  unfolding keeps_table_def
proof (intro allI impI)
  fix n gt'
  assume "rbind r (\<lambda>(n, gt). f n gt) = Inr (n, gt')"
  then obtain m gt1 where 1: "r = Inr (m, gt1)" "f m gt1 = Inr (n, gt')" by (auto simp: rbind_Inr_iff)
  then have "table_wf fs gt1" "known fs gt1 m" "table_extends gt gt1" using r unfolding keeps_table_def by blast+
  moreover from f [OF this] 1(2) have "table_wf fs gt'" "known fs gt' n" "table_extends gt1 gt'" by (auto simp: keeps_table_def)
  ultimately show "table_wf fs gt' \<and> known fs gt' n \<and> table_extends gt gt'" by (blast intro: table_extends_trans)
qed

text \<open>The roots inside an offset are roots of the program.\<close>

fun roots_in :: "nat set \<Rightarrow> data \<Rightarrow> bool" where
  "roots_in R (D_op t dsc a b c) \<longleftrightarrow>
     (dsc = op_field_root \<longrightarrow> (case b of D_field_root g \<Rightarrow> g \<in> R | _ \<Rightarrow> True)) \<and> roots_in R a \<and> roots_in R b \<and> roots_in R c"
| "roots_in R d \<longleftrightarrow> True"

lemmas new_op = new_offset_group.simps [of _ _ _ _ _ "D_op t dsc a b c" for t dsc a b c, simplified]

lemma groups_keep:
  "\<lbrakk>table_wf fs gt; known fs gt b; known fs gt vb; roots_in (set (field_roots fs)) d\<rbrakk> \<Longrightarrow>
     keeps_table fs gt (new_offset_group fs b vb m shift d gt) \<and> keeps_table fs gt (build_offset_group fs b vb d gt)"
proof (induction d arbitrary: b vb m shift gt)
  case (D_op t dsc x y z)
  let ?d = "D_op t dsc x y z"
  have err: "keeps_table fs gt (Inl e)" for e by (simp add: keeps_table_def)
  have roots: "roots_in (set (field_roots fs)) x" "roots_in (set (field_roots fs)) y"
    "dsc = op_field_root \<Longrightarrow> y = D_field_root g \<Longrightarrow> known fs gt g" for g
    using D_op.prems(4) by (auto simp: known_def)
  note IHx = D_op.IH(1) [OF _ _ _ roots(1)] and IHy = D_op.IH(2) [OF _ _ _ roots(2)]
  have new: "keeps_table fs gt (new_offset_group fs b vb m shift ?d gt)" for m shift
  proof -
    have off: "keeps_table fs gt (rbind (build_offset_group fs vb vb y gt) (\<lambda>(vb, gt). new_offset_group fs b vb m shift x gt))"
    proof (rule keeps_bind)
      show "keeps_table fs gt (build_offset_group fs vb vb y gt)"
        using IHy [OF D_op.prems(1,3,3)] by blast
      fix n gt' assume *: "table_wf fs gt'" "known fs gt' n" "table_extends gt gt'"
      then have "known fs gt' b" using D_op.prems(2) known_mono by blast
      then show "keeps_table fs gt' (new_offset_group fs b n m shift x gt')"
        using IHx * by blast
    qed
    consider "dsc = op_access" | "dsc = op_shift_left" | "dsc = op_shift_right" | "dsc = op_and"
      | "dsc = op_field_root" | "dsc = op_offset"
      | "dsc \<notin> {op_access, op_shift_left, op_shift_right, op_and, op_field_root, op_offset}" by blast
    then show ?thesis
    proof cases
      case 1
      show ?thesis unfolding new_op using access_keeps [OF D_op.prems(1-3)] err by (simp add: 1 split: data.split)
    next
      case 2
      have "keeps_table fs gt (new_offset_group fs b vb m' s' x gt)" for m' s' using IHx [OF D_op.prems(1-3)] by blast
      then show ?thesis unfolding new_op using err by (simp add: 2 split: data.split)
    next
      case 3
      have "keeps_table fs gt (new_offset_group fs b vb m' s' x gt)" for m' s' using IHx [OF D_op.prems(1-3)] by blast
      then show ?thesis unfolding new_op using err by (simp add: 3 split: data.split)
    next
      case 4
      have "keeps_table fs gt (new_offset_group fs b vb m' s' x gt)" "keeps_table fs gt (new_offset_group fs b vb m' s' y gt)" for m' s'
        using IHx [OF D_op.prems(1-3)] IHy [OF D_op.prems(1-3)] by blast+
      then show ?thesis unfolding new_op using err by (cases x) (simp_all add: 4 split: data.split)
    next
      case 5
      have "keeps_table fs gt (new_offset_group fs b g m' s' x gt)" if "y = D_field_root g" for g m' s'
        using IHx [OF D_op.prems(1,2) roots(3) [OF 5 that]] by blast
      then show ?thesis unfolding new_op using err by (simp add: 5 split: data.split)
    next
      case 6
      then show ?thesis unfolding new_op using off by simp
    next
      case 7
      then show ?thesis unfolding new_op using err by simp
    qed
  qed
  have sum: "keeps_table fs gt (rbind (build_offset_group fs b vb x gt) (\<lambda>(b, gt). build_offset_group fs b vb y gt))"
  proof (rule keeps_bind)
    show "keeps_table fs gt (build_offset_group fs b vb x gt)"
      using IHx [OF D_op.prems(1-3)] by blast
    fix n gt' assume *: "table_wf fs gt'" "known fs gt' n" "table_extends gt gt'"
    then have "known fs gt' vb" using D_op.prems(3) known_mono by blast
    then show "keeps_table fs gt' (build_offset_group fs n vb y gt')" using IHy * by blast
  qed
  show ?case
    using new sum by (simp add: build_offset_group.simps [of _ _ _ "D_op _ _ _ _ _"])
qed (simp_all add: keeps_table_def new_offset_group.simps build_offset_group.simps)

lemma get_offset_group_keeps:
  "\<lbrakk>table_wf fs gt; known fs gt b; roots_in (set (field_roots fs)) d\<rbrakk> \<Longrightarrow> keeps_table fs gt (get_offset_group fs d b gt)"
  by (cases d) (auto simp: get_offset_group_def groups_keep keeps_table_def [of _ _ "Inl _"])

section \<open>A group is found again\<close>

text \<open>A call that is repeated on the same or a longer table yields the same group and adds nothing.\<close>

lemma find_append: "find P (xs @ ys) = (case find P xs of Some x \<Rightarrow> Some x | None \<Rightarrow> find P ys)"
  by (induction xs) auto

lemma lookup_again:
  assumes "lookup_offset_group fs b vb off len shift gt = (n, gt1)" "table_extends gt1 gt2"
  shows "lookup_offset_group fs b vb off len shift gt2 = (n, gt2)"
  using assms
  by (auto simp: lookup_offset_group_def table_extends_def find_append same_group_def Let_def split: option.splits)

definition repeats :: "(group_table \<Rightarrow> (nat \<times> group_table) result) \<Rightarrow> group_table \<Rightarrow> bool" where
  "repeats f gt \<longleftrightarrow> (\<forall>n gt1 gt2. f gt = Inr (n, gt1) \<longrightarrow> table_extends gt gt1 \<and> (table_extends gt1 gt2 \<longrightarrow> f gt2 = Inr (n, gt2)))"

lemma repeats_access: "repeats (group_of_access fs b vb m shift off sz) gt"
proof -
  have "table_extends gt gt1" if "lookup_offset_group fs b vb o' l' s' gt = (n, gt1)" for o' l' s' n gt1
    using that by (rule lookup_offset_group_ok)
  then show ?thesis
    unfolding repeats_def group_of_access_def by (auto simp: Let_def lookup_again split: prod.splits if_splits)
qed

lemma repeats_error: "repeats (\<lambda>gt. Inl e) gt"
  by (simp add: repeats_def)

lemma repeats_bind:
  assumes f: "repeats f gt" and g: "\<And>n gt. repeats (g n) gt"
  shows "repeats (\<lambda>gt. rbind (f gt) (\<lambda>(n, gt). g n gt)) gt"
  unfolding repeats_def
proof (intro allI impI)
  fix n gt1 gt2
  assume "rbind (f gt) (\<lambda>(n, gt). g n gt) = Inr (n, gt1)"
  then obtain m gt' where 1: "f gt = Inr (m, gt')" "g m gt' = Inr (n, gt1)" by (auto simp: rbind_Inr_iff)
  from f 1(1) have f': "table_extends gt gt'" "\<And>gt2. table_extends gt' gt2 \<Longrightarrow> f gt2 = Inr (m, gt2)"
    unfolding repeats_def by blast+
  from g [of m gt'] 1(2) have g': "table_extends gt' gt1" "\<And>gt2. table_extends gt1 gt2 \<Longrightarrow> g m gt2 = Inr (n, gt2)"
    unfolding repeats_def by blast+
  show "table_extends gt gt1 \<and> (table_extends gt1 gt2 \<longrightarrow> rbind (f gt2) (\<lambda>(n, gt). g n gt) = Inr (n, gt2))"
    using f' g' table_extends_trans by auto
qed

lemma groups_again: "repeats (new_offset_group fs b vb m shift d) gt \<and> repeats (build_offset_group fs b vb d) gt"
proof (induction d arbitrary: b vb m shift gt)
  case (D_op t dsc x y z)
  note IH = D_op.IH [THEN conjunct1] D_op.IH [THEN conjunct2]
  have new: "repeats (new_offset_group fs b vb m shift (D_op t dsc x y z)) gt" for m shift
  proof -
    consider "dsc = op_access" | "dsc = op_shift_left" | "dsc = op_shift_right" | "dsc = op_and"
      | "dsc = op_field_root" | "dsc = op_offset"
      | "dsc \<notin> {op_access, op_shift_left, op_shift_right, op_and, op_field_root, op_offset}" by blast
    then show ?thesis
    proof cases
      case 1
      have "new_offset_group fs b vb m shift (D_op t dsc x y z) =
          (case (y, z) of (D_unum off, D_unum sz) \<Rightarrow> group_of_access fs b vb m shift off sz | _ \<Rightarrow> (\<lambda>gt. Inl E_assert))"
        by (intro ext, subst new_op) (simp add: 1 split: data.split)
      then show ?thesis using repeats_access repeats_error by (simp split: data.split)
    next
      case 2
      have "new_offset_group fs b vb m shift (D_op t dsc x y z) =
          (case y of D_unum k \<Rightarrow> (if 32 \<le> k then (\<lambda>gt. Inl (E_undef ''shift count''))
             else new_offset_group fs b vb (drop_bit (unat k) m) (shift + uint k) x) | _ \<Rightarrow> (\<lambda>gt. Inl (E_errorf ''bad left shift'')))"
        by (intro ext, subst new_op) (simp add: 2 split: data.split)
      then show ?thesis using repeats_error IH(1) by (simp split: data.split)
    next
      case 3
      have "new_offset_group fs b vb m shift (D_op t dsc x y z) =
          (case y of D_unum k \<Rightarrow> (if 32 \<le> k then (\<lambda>gt. Inl (E_undef ''shift count''))
             else new_offset_group fs b vb (push_bit (unat k) m) (shift - uint k) x) | _ \<Rightarrow> (\<lambda>gt. Inl (E_errorf ''bad right shift'')))"
        by (intro ext, subst new_op) (simp add: 3 split: data.split)
      then show ?thesis using repeats_error IH(1) by (simp split: data.split)
    next
      case 4
      have "new_offset_group fs b vb m shift (D_op t dsc x y z) =
          (case x of D_unum k \<Rightarrow> new_offset_group fs b vb (m AND k) shift y
           | _ \<Rightarrow> (case y of D_unum k \<Rightarrow> new_offset_group fs b vb (m AND k) shift x | _ \<Rightarrow> (\<lambda>gt. Inl (E_errorf ''no constant in and''))))"
        by (intro ext, subst new_op, cases x) (simp_all add: 4 split: data.split)
      moreover have "repeats (case y of D_unum k \<Rightarrow> new_offset_group fs b vb (m AND k) shift x | _ \<Rightarrow> (\<lambda>gt. Inl (E_errorf ''no constant in and''))) gt"
        using repeats_error IH(1) by (simp split: data.split)
      ultimately show ?thesis using IH(2) by (cases x) simp_all
    next
      case 5
      have "new_offset_group fs b vb m shift (D_op t dsc x y z) =
          (case y of D_field_root g \<Rightarrow> new_offset_group fs b g m shift x | _ \<Rightarrow> (\<lambda>gt. Inl (E_undef ''union member field_root'')))"
        by (intro ext, subst new_op) (simp add: 5 split: data.split)
      then show ?thesis using repeats_error IH(1) by (simp split: data.split)
    next
      case 6
      have "new_offset_group fs b vb m shift (D_op t dsc x y z) =
          (\<lambda>gt. rbind (build_offset_group fs vb vb y gt) (\<lambda>(vb, gt). new_offset_group fs b vb m shift x gt))"
        by (intro ext, subst new_op) (simp add: 6)
      then show ?thesis using repeats_bind [OF IH(5) IH(1)] by simp
    next
      case 7
      have "new_offset_group fs b vb m shift (D_op t dsc x y z) = (\<lambda>gt. Inl (E_errorf ''bad operator''))"
        by (intro ext, subst new_op) (use 7 in simp)
      then show ?thesis using repeats_error by simp
    qed
  qed
  have "build_offset_group fs b vb (D_op t dsc x y z) =
      (if dsc = op_plus then (\<lambda>gt. rbind (build_offset_group fs b vb x gt) (\<lambda>(b, gt). build_offset_group fs b vb y gt))
       else new_offset_group fs b vb 0xffffffff 3 (D_op t dsc x y z))"
    by (intro ext) (simp add: build_offset_group.simps [of _ _ _ "D_op _ _ _ _ _"])
  then show ?case using repeats_bind [OF IH(4) IH(5)] new by simp
qed (simp_all add: repeats_def new_offset_group.simps build_offset_group.simps)

lemma get_offset_group_again: "repeats (get_offset_group fs d b) gt"
proof (cases d)
  case (D_op t dsc x y z)
  have "get_offset_group fs d b = (if dsc = op_offset then build_offset_group fs b b y else (\<lambda>gt. Inl E_assert))"
    by (intro ext) (simp add: get_offset_group_def D_op)
  then show ?thesis using groups_again repeats_error by simp
qed (simp_all add: get_offset_group_def [abs_def] repeats_error)

section \<open>The walk over a scanned expression\<close>

definition scanned :: "field_state \<Rightarrow> data \<Rightarrow> nat \<Rightarrow> group_table \<Rightarrow> bool" where
  "scanned fs d g gt \<longleftrightarrow> (\<exists>gt0 gt1. do_scan_offsets fs d g gt0 = Inr gt1 \<and> table_extends gt1 gt)"

lemma do_scan_extends: "do_scan_offsets fs d g gt = Inr gt' \<Longrightarrow> table_extends gt gt'"
proof (induction d arbitrary: g gt gt')
  case (D_op t dsc a b c)
  from D_op.prems obtain g1 g2 gt1 gt2 gt3 where 1:
      "(if dsc = op_offset then get_offset_group fs (D_op t dsc a b c) g1 gt else Inr (g1, gt)) = Inr (g2, gt1)"
      "do_scan_offsets fs a g2 gt1 = Inr gt2" "do_scan_offsets fs b g2 gt2 = Inr gt3" "do_scan_offsets fs c g2 gt3 = Inr gt'"
    by (auto simp: rbind_Inr_iff)
  have "table_extends gt gt1"
    using 1(1) get_offset_group_again [of fs "D_op t dsc a b c" g1 gt] by (auto simp: repeats_def split: if_splits)
  with D_op.IH 1(2-4) show ?case by (blast intro: table_extends_trans)
qed simp_all

lemma do_scan_wf:
  "\<lbrakk>do_scan_offsets fs d g gt = Inr gt'; table_wf fs gt; known fs gt g; roots_in (set (field_roots fs)) d\<rbrakk> \<Longrightarrow> table_wf fs gt'"
proof (induction d arbitrary: g gt gt')
  case (D_op t dsc a b c)
  from D_op.prems(1) obtain g1 g2 gt1 gt2 gt3 where 1:
      "(if dsc = op_field_root then (case b of D_field_root g \<Rightarrow> Inr g | _ \<Rightarrow> Inl (E_undef ''union member field_root'')) else Inr g) = Inr g1"
      "(if dsc = op_offset then get_offset_group fs (D_op t dsc a b c) g1 gt else Inr (g1, gt)) = Inr (g2, gt1)"
      "do_scan_offsets fs a g2 gt1 = Inr gt2" "do_scan_offsets fs b g2 gt2 = Inr gt3" "do_scan_offsets fs c g2 gt3 = Inr gt'"
    by (auto simp: rbind_Inr_iff simp del: roots_in.simps)
  have roots: "roots_in (set (field_roots fs)) a" "roots_in (set (field_roots fs)) b" "roots_in (set (field_roots fs)) c"
    using D_op.prems(4) by simp_all
  have "known fs gt g1"
    using 1(1) D_op.prems(3,4) by (auto simp: known_def split: if_splits data.splits)
  then have "table_wf fs gt1 \<and> known fs gt1 g2"
    using 1(2) get_offset_group_keeps [OF D_op.prems(2) _ D_op.prems(4), of g1] D_op.prems(2)
    by (auto simp: keeps_table_def split: if_splits)
  moreover have "known fs gt2 g2" "known fs gt3 g2"
    using calculation do_scan_extends [OF 1(3)] do_scan_extends [OF 1(4)] known_mono by blast+
  ultimately show ?case using D_op.IH 1(3-5) roots by blast
qed simp_all

lemma scanned_op:
  assumes "scanned fs (D_op t dsc a b c) g gt" "dsc \<noteq> op_field_root" "dsc \<noteq> op_offset"
  shows "scanned fs a g gt" "scanned fs b g gt"
proof -
  from assms obtain gt0 gt1 gt2 gt3 where "do_scan_offsets fs a g gt0 = Inr gt1" "do_scan_offsets fs b g gt1 = Inr gt2"
      "do_scan_offsets fs c g gt2 = Inr gt3" "table_extends gt3 gt"
    by (auto simp: scanned_def rbind_Inr_iff)
  then show "scanned fs a g gt" "scanned fs b g gt"
    unfolding scanned_def using do_scan_extends by (blast intro: table_extends_trans)+
qed

lemma scanned_root: "scanned fs (D_op t op_field_root a (D_field_root h) c) g gt \<Longrightarrow> scanned fs a h gt"
  by (auto simp: scanned_def rbind_Inr_iff) (blast intro: table_extends_trans do_scan_extends)

lemma scanned_offset:
  assumes "scanned fs (D_op t op_offset a b c) g gt"
  shows "\<exists>h. get_offset_group fs (D_op t op_offset a b c) g gt = Inr (h, gt) \<and> scanned fs a h gt"
proof -
  from assms obtain h gt0 gt1 gt2 gt3 gt4 where 1: "get_offset_group fs (D_op t op_offset a b c) g gt0 = Inr (h, gt1)"
      "do_scan_offsets fs a h gt1 = Inr gt2" "do_scan_offsets fs b h gt2 = Inr gt3" "do_scan_offsets fs c h gt3 = Inr gt4"
      "table_extends gt4 gt"
    by (auto simp: scanned_def rbind_Inr_iff)
  have 2: "table_extends gt2 gt" using 1(3-5) do_scan_extends by (blast intro: table_extends_trans)
  then have "table_extends gt1 gt" using do_scan_extends [OF 1(2)] by (blast intro: table_extends_trans)
  then have "get_offset_group fs (D_op t op_offset a b c) g gt = Inr (h, gt)"
    using get_offset_group_again [of fs "D_op t op_offset a b c" g gt0] 1(1) by (auto simp: repeats_def)
  then show ?thesis using 1(2) 2 by (auto simp: scanned_def)
qed

text \<open>The accesses stay below the sign bit of a bit number.\<close>

fun small_accesses :: "data \<Rightarrow> bool" where
  "small_accesses (D_op t dsc a b c) \<longleftrightarrow>
     (dsc = op_access \<longrightarrow> (case u_unum b of Inr off \<Rightarrow> unat off < 268435456 | _ \<Rightarrow> True)) \<and> small_accesses a \<and> small_accesses b"
| "small_accesses d \<longleftrightarrow> True"

definition bits_ok :: "field_state \<Rightarrow> group_table \<Rightarrow> rule_bit list \<Rightarrow> bool" where
  "bits_ok fs gt bs \<longleftrightarrow> (\<forall>b\<in>set bs. known fs gt (bm_group b) \<and> 0 \<le> bm_offset b)"

fun line_ok :: "field_state \<Rightarrow> group_table \<Rightarrow> ext_line \<Rightarrow> bool" where
  "line_ok fs gt (Match bs d) \<longleftrightarrow> bits_ok fs gt bs"

definition st_ok :: "field_state \<Rightarrow> rule_state \<Rightarrow> bool" where
  "st_ok fs st \<longleftrightarrow> bits_ok fs (groups st) (pending st) \<and> list_all (line_ok fs (groups st)) (lines_out st)"

lemma bit_match_bits:
  "bits_ok fs gt bs \<Longrightarrow> known fs gt g \<Longrightarrow> 0 \<le> off \<Longrightarrow> bits_ok fs gt (snd (bit_match g off v bs))"
  by (auto simp: bits_ok_def bit_match_def split: option.splits)

lemma word_match_bits:
  "bits_ok fs gt bs \<Longrightarrow> known fs gt g \<Longrightarrow> 0 \<le> off \<Longrightarrow> bits_ok fs gt (snd (word_match g off m v bs))"
proof (induction g off m v bs rule: word_match.induct)
  case (1 g off m v bs)
  show ?case
  proof (cases "m \<noteq> 0 \<and> bit m 31")
    case True
    obtain ok bs1 where b: "bit_match g off (bit v 31) bs = (ok, bs1)" by fastforce
    have bs1: "bits_ok fs gt bs1" using bit_match_bits [OF "1.prems", of "bit v 31"] b by simp
    show ?thesis
      using True b bs1 "1.IH"(1) [OF _ _ b [symmetric] refl _ bs1 "1.prems"(2)] "1.prems"(3)
      by (subst word_match.simps) (simp del: push_bit_Suc)
  next
    case False
    then show ?thesis
      using "1.IH"(2) "1.prems" by (subst word_match.simps) (auto simp del: push_bit_Suc)
  qed
qed

lemma match_words_bits:
  "\<lbrakk>bits_ok fs gt bs; known fs gt g; 0 \<le> off; list_all (\<lambda>i. i \<le> 3) ws\<rbrakk> \<Longrightarrow> bits_ok fs gt (snd (match_words ws g off m v bs))"
proof (induction ws arbitrary: bs)
  case (Cons i ws)
  obtain ok bs1 where w: "word_match g (off + (3 - int i) * 32) (word_v m i) (word_v v i) bs = (ok, bs1)" by fastforce
  have "0 \<le> off + (3 - int i) * 32" using Cons.prems(3,4) by simp
  from word_match_bits [OF Cons.prems(1,2) this, of "word_v m i" "word_v v i"] w have "bits_ok fs gt bs1" by simp
  then show ?case using w Cons by simp
qed simp

lemma decompose_match_bits:
  "\<lbrakk>bits_ok fs gt bs; known fs gt g; 0 \<le> off\<rbrakk> \<Longrightarrow> bits_ok fs gt (snd (decompose_match g off len m v bs))"
  unfolding decompose_match_def do_decompose_match_def
  using match_words_bits [of fs gt bs g off "[3, 2, 1, 0]"] by (simp only: list.pred_inject if_split) simp

text \<open>What the walk keeps: the table is the scanned one, and the bits refer to its groups.\<close>

definition walks :: "field_state \<Rightarrow> rule_state \<Rightarrow> (bool \<times> rule_state) result \<Rightarrow> bool" where
  "walks fs st r \<longleftrightarrow> (\<forall>ok st'. r = Inr (ok, st') \<longrightarrow> groups st' = groups st \<and> st_ok fs st')"

lemma walks_error: "walks fs st (Inl e)"
  by (simp add: walks_def)

lemma walks_bind:
  "walks fs st r \<Longrightarrow> (\<And>ok st'. st_ok fs st' \<Longrightarrow> groups st' = groups st \<Longrightarrow> walks fs st (f ok st')) \<Longrightarrow>
     walks fs st (rbind r (\<lambda>(ok, st). f ok st))"
proof (cases r)
  case (Inr p)
  assume r: "walks fs st r" and f: "\<And>ok st'. st_ok fs st' \<Longrightarrow> groups st' = groups st \<Longrightarrow> walks fs st (f ok st')"
  obtain ok st' where p: "p = (ok, st')" by (cases p)
  from r Inr p have "st_ok fs st'" "groups st' = groups st" unfolding walks_def by blast+
  from f [OF this, of ok] show ?thesis unfolding Inr p by simp
qed (simp add: walks_error)

definition walkable :: "field_state \<Rightarrow> data \<Rightarrow> nat \<Rightarrow> rule_state \<Rightarrow> bool" where
  "walkable fs d g st \<longleftrightarrow> st_ok fs st \<and> table_wf fs (groups st) \<and> known fs (groups st) g \<and> scanned fs d g (groups st) \<and>
     roots_in (set (field_roots fs)) d \<and> small_accesses d"

lemma walkable_op:
  assumes "walkable fs (D_op t dsc a b c) g st" "dsc \<noteq> op_field_root" "dsc \<noteq> op_offset"
  shows "walkable fs a g st" "walkable fs b g st"
  using assms scanned_op [of fs t dsc a b c g "groups st"] by (auto simp: walkable_def)

lemma walkable_root: "walkable fs (D_op t op_field_root a (D_field_root h) c) g st \<Longrightarrow> walkable fs a h st"
  using scanned_root [of fs t a h c g "groups st"] by (auto simp: walkable_def known_def)

lemma walkable_offset:
  assumes "walkable fs (D_op t op_offset a b c) g st"
  shows "\<exists>h. get_offset_group fs (D_op t op_offset a b c) g (groups st) = Inr (h, groups st) \<and> walkable fs a h st"
proof -
  from scanned_offset [of fs t a b c g "groups st"] assms obtain h
    where h: "get_offset_group fs (D_op t op_offset a b c) g (groups st) = Inr (h, groups st)" "scanned fs a h (groups st)"
    by (auto simp: walkable_def)
  have "keeps_table fs (groups st) (get_offset_group fs (D_op t op_offset a b c) g (groups st))"
    using assms by (intro get_offset_group_keeps) (auto simp: walkable_def)
  then have "known fs (groups st) h" using h(1) by (simp add: keeps_table_def)
  then show ?thesis using h assms by (auto simp: walkable_def)
qed

lemma walkable_state: "walkable fs d g st \<Longrightarrow> st_ok fs st' \<Longrightarrow> groups st' = groups st \<Longrightarrow> walkable fs d g st'"
  by (simp add: walkable_def)

lemma match_access_walks: "walkable fs d g st \<Longrightarrow> walks fs st (match_access fs g m v d st)"
proof (induction d arbitrary: g m)
  case (D_op t dsc a b c)
  consider "dsc = op_access" | "dsc = op_and" | "dsc = op_field_root" | "dsc = op_offset"
    | "dsc \<notin> {op_access, op_and, op_field_root, op_offset}" by blast
  then show ?case
  proof cases
    case 1
    have "walks fs st (let (ok, bs) = decompose_match g (sint (off * 8)) (sint bits) m v (pending st) in Inr (ok, st\<lparr>pending := bs\<rparr>))"
      if "u_unum b = Inr off" for off bits
    proof -
      have "sint (off * 8) = int (8 * unat off)"
        by (rule sint_times_8) (use D_op.prems that 1 in \<open>simp add: walkable_def\<close>)
      then have "bits_ok fs (groups st) (snd (decompose_match g (sint (off * 8)) (sint bits) m v (pending st)))"
        using D_op.prems by (intro decompose_match_bits) (auto simp: walkable_def st_ok_def)
      then show ?thesis
        using D_op.prems by (auto simp: walks_def walkable_def st_ok_def Let_def split: prod.splits)
    qed
    then show ?thesis
      unfolding 1 by (cases "u_unum b"; cases "u_unum c") (auto simp: walks_error)
  next
    case 2
    from D_op.IH(1) [OF walkable_op(1) [OF D_op.prems]] 2
    have "walks fs st (match_access fs g m' v a st)" for m' by simp
    then show ?thesis
      using 2 by (auto simp: walks_def rbind_Inr_iff split: if_splits)
  next
    case 3
    show ?thesis
    proof (cases "\<exists>h. b = D_field_root h")
      case True
      then obtain h where h: "b = D_field_root h" by blast
      from D_op.prems have "walkable fs a h st" unfolding 3 h by (rule walkable_root)
      then show ?thesis using D_op.IH(1) 3 h by simp
    qed (use 3 in \<open>cases b; simp add: walks_error\<close>)
  next
    case 4
    from D_op.prems obtain h where h: "get_offset_group fs (D_op t op_offset a b c) g (groups st) = Inr (h, groups st)"
        "walkable fs a h st"
      unfolding 4 using walkable_offset by blast
    then show ?thesis using D_op.IH(1) [OF h(2)] 4 by simp
  qed (simp add: walks_error)
qed (simp_all add: walks_error)


lemma dump_match_walks: "walkable fs d g st \<Longrightarrow> walks fs st (dump_match fs d g st)"
proof (cases d)
  case (D_op t dsc a b c)
  assume ok: "walkable fs d g st"
  show ?thesis
  proof (cases "dsc = op_eq")
    case True
    obtain l r where lr: "(if is_op a then (a, b) else (b, a)) = (l, r)" by fastforce
    have "walkable fs a g st" "walkable fs b g st"
      using walkable_op [of fs t dsc a b c g st] ok D_op True by auto
    then have l: "walkable fs l g st" using lr by (auto split: if_splits)
    have "walks fs st (rbind (data_convert r dt_ipv6) (\<lambda>b. rbind (u_u128 b) (\<lambda>v. match_access fs g (u128_not (u128_from_32 0)) v l st)))"
      using match_access_walks [OF l] by (auto simp: walks_def rbind_Inr_iff)
    then show ?thesis
      unfolding dump_match_def D_op using True lr by (simp add: walks_error)
  qed (simp add: dump_match_def D_op walks_error)
qed (simp_all add: dump_match_def walks_error)

lemma sort_bits_ok: "bits_ok fs gt bs \<Longrightarrow> bits_ok fs gt (sort_bits bs)"
  using mset_eq_setD [OF sort_bits_mset [of bs]] by (simp add: bits_ok_def)

lemma dump_action_walks: "st_ok fs st \<Longrightarrow> walks fs st (Inr (ok, dump_action d st))"
  by (simp add: walks_def dump_action_def st_ok_def sort_bits_ok bits_ok_def [of _ _ "[]"])

lemma walks_drop: "st_ok fs st' \<Longrightarrow> groups st' = groups st \<Longrightarrow> walks fs st (Inr (ok, st'\<lparr>pending := []\<rparr>))"
  by (simp add: walks_def st_ok_def bits_ok_def)

lemma walks_result: "walks fs st r \<Longrightarrow> walks fs st (rbind r (\<lambda>(ok, st). Inr (f ok, st)))"
proof (cases r)
  case (Inr p)
  assume "walks fs st r"
  then show ?thesis unfolding Inr walks_def by (cases p) simp
qed (simp add: walks_error)

lemma walks_state: "groups st' = groups st \<Longrightarrow> walks fs st' r = walks fs st r"
  by (simp add: walks_def)

lemma dump_walks:
  "walkable fs d g st \<Longrightarrow>
     walks fs st (dump_or fs u d g st) \<and> walks fs st (dump_and fs d g st) \<and> walks fs st (dump_other fs d g st)"
proof (induction d arbitrary: g st u)
  case (D_op t dsc a b c)
  let ?d = "D_op t dsc a b c"
  note ok = D_op.prems
  have st: "st_ok fs st" using ok by (simp add: walkable_def)
  have IHb: "walks fs st (dump_or fs u b g st')" "walks fs st (dump_and fs b g st')"
    if "walkable fs b g st" "st_ok fs st'" "groups st' = groups st" for st' u
    using D_op.IH(2) [OF walkable_state [OF that]] walks_state [OF that(3)] by blast+
  have other: "walks fs st (dump_other fs ?d g st)"
  proof -
    consider "dsc = op_eq" | "action_tree ?d" "dsc \<noteq> op_eq" | "\<not> action_tree ?d" "dsc = op_field_root"
      | "\<not> action_tree ?d" "dsc = op_offset" | "\<not> action_tree ?d" "dsc \<notin> {op_eq, op_field_root, op_offset}" by blast
    then show ?thesis
    proof cases
      case 1
      then show ?thesis using dump_match_walks [OF ok] by (simp add: dump_other_op)
    next
      case 2
      then show ?thesis using dump_action_walks [OF st] other_action [OF 2(1)] by simp
    next
      case 3
      show ?thesis
      proof (cases "\<exists>h. b = D_field_root h")
        case True
        then obtain h where h: "b = D_field_root h" by blast
        from ok have "walkable fs a h st" unfolding 3 h by (rule walkable_root)
        then show ?thesis using D_op.IH(1) 3 h by (simp add: dump_other_op)
      qed (use 3 in \<open>cases b; simp add: dump_other_op walks_error\<close>)
    next
      case 4
      from ok obtain h where h: "get_offset_group fs (D_op t op_offset a b c) g (groups st) = Inr (h, groups st)"
          "walkable fs a h st"
        unfolding 4 using walkable_offset by blast
      then show ?thesis using D_op.IH(1) [OF h(2)] 4 by (simp add: dump_other_op)
    next
      case 5
      then show ?thesis by (simp add: dump_other_op walks_error)
    qed
  qed
  have "and": "walks fs st (dump_and fs ?d g st)"
  proof (cases "dsc = op_logical_and \<and> \<not> action_tree ?d")
    case True
    then have ab: "walkable fs a g st" "walkable fs b g st" using walkable_op [OF ok] by simp_all
    have "walks fs st (rbind (dump_other fs a g st) (\<lambda>(ok, st). if \<not> ok then Inr (False, st\<lparr>pending := []\<rparr>) else dump_and fs b g st))"
      using D_op.IH(1) [OF ab(1)] IHb(2) [OF ab(2)] walks_drop by (intro walks_bind) auto
    then show ?thesis using True by (auto simp add: dump_and.simps [of _ "D_op _ _ _ _ _"] del: action_tree.simps)
  qed (use other in \<open>auto simp add: dump_and.simps [of _ "D_op _ _ _ _ _"] del: action_tree.simps\<close>)
  have "walks fs st (dump_or fs u ?d g st)"
  proof (cases "dsc = op_logical_or \<and> \<not> action_tree ?d")
    case True
    then have ab: "walkable fs a g st" "walkable fs b g st" using walkable_op [OF ok] by simp_all
    have "walks fs st (rbind (dump_and fs a g st) (\<lambda>(ok, st). dump_or fs (if ok then True else u) b g st))"
      using D_op.IH(1) [OF ab(1)] IHb(1) [OF ab(2)] by (intro walks_bind) auto
    then show ?thesis using True by (auto simp add: dump_or.simps [of _ _ "D_op _ _ _ _ _"] del: action_tree.simps)
  qed (use walks_result [OF "and"] in \<open>auto simp add: dump_or.simps [of _ _ "D_op _ _ _ _ _"] del: action_tree.simps\<close>)
  with "and" other show ?case by blast
next
  case (D_decision r c)
  have st: "st_ok fs st" using D_decision by (simp add: walkable_def)
  show ?case
    using dump_action_walks [OF st] by (simp add: dump_or.simps dump_and.simps dump_other.simps walks_result)
qed (simp_all add: dump_or.simps dump_and.simps dump_other.simps walks_error)

text \<open>Nothing is missing from the table when the rules are written.\<close>

lemma dump_rules_walk:
  assumes scan: "scan_offsets fs d gt = Inr gt1" and wf: "table_wf fs gt" "0 \<in> set (field_roots fs)"
    and form: "roots_in (set (field_roots fs)) d" "small_accesses d" and dump: "dump_rules fs d gt1 = Inr (gt2, ls)"
  shows "gt2 = gt1" "table_wf fs gt1" "list_all (line_ok fs gt1) ls"
proof -
  have known: "known fs gt 0" using wf(2) by (simp add: known_def)
  show wf1: "table_wf fs gt1" using do_scan_wf [OF scan [unfolded scan_offsets_def] wf(1) known form(1)] .
  let ?st = "\<lparr>groups = gt1, pending = [], lines_out = []\<rparr>"
  have "scanned fs d 0 gt1" using scan unfolding scanned_def scan_offsets_def by (blast intro: table_extends_refl)
  then have "walkable fs d 0 ?st" using wf1 form wf(2) by (simp add: walkable_def st_ok_def bits_ok_def known_def)
  then have "walks fs ?st (dump_or fs True d 0 ?st)" using dump_walks by blast
  then show "gt2 = gt1" "list_all (line_ok fs gt1) ls"
    using dump by (auto simp: dump_rules_def walks_def st_ok_def rbind_Inr_iff)
qed

end
