(* ===== verification/Ext_Lines.thy ===== *)
theory Ext_Lines
  imports Match If_Ext_Scan
begin

text \<open>
  The external interface as a whole: the lines that \<^verbatim>\<open>tcc/if_ext.c\<close> writes, read by the parser of
  \<^verbatim>\<open>tcc/ext/tccext.c\<close>, make \<^verbatim>\<open>tcc/ext/match.c\<close> decide as the expression does.
\<close>

section \<open>Numbers in hexadecimal digits and bytes\<close>

fun hex_val :: "string \<Rightarrow> nat" where
  "hex_val [] = 0"
| "hex_val (c # cs) = hex_value c * 16 ^ length cs + hex_val cs"

fun bytes_val :: "u8 list \<Rightarrow> nat" where
  "bytes_val [] = 0"
| "bytes_val (b # bs) = unat b * 256 ^ length bs + bytes_val bs"

lemma bytes_val_less: "bytes_val bs < 256 ^ length bs"
proof (induction bs)
  case (Cons b bs)
  have "unat b + 1 \<le> 256" using unsigned_less [of b, where ?'a = nat] by simp
  then have "(unat b + 1) * 256 ^ length bs \<le> 256 * 256 ^ length bs" by (rule mult_le_mono1)
  moreover have "unat b * 256 ^ length bs + bytes_val bs < (unat b + 1) * 256 ^ length bs"
    using Cons by (simp only: add_mult_distrib mult_1 nat_add_left_cancel_less)
  ultimately show ?case by (simp only: bytes_val.simps list.size power_Suc add_Suc_right add_0_right)
qed simp

lemma bit_low_part: "x < 2 ^ m \<Longrightarrow> bit (a * 2 ^ m + x) q \<longleftrightarrow> (if q < m then bit x q else bit a (q - m))" for x a :: nat
proof -
  assume x: "x < 2 ^ m"
  have x': "take_bit m x = x" using x by (simp add: take_bit_nat_eq_self)
  have "\<not> (bit (push_bit m a) n \<and> bit x n)" for n
    using x' by (metis bit_push_bit_iff bit_take_bit_iff not_le)
  then have "a * 2 ^ m + x = push_bit m a OR x"
    by (simp add: push_bit_eq_mult disjunctive_add)
  moreover have "bit x q \<Longrightarrow> q < m" using x' by (metis bit_take_bit_iff)
  ultimately show ?thesis by (auto simp: bit_or_iff bit_push_bit_iff)
qed

lemma raw_bit_Cons: "raw_bit (b # bs) i = (if i < 8 then bit b (7 - i) else raw_bit bs (i - 8))"
proof (cases "i < 8")
  case False
  then obtain j where "i = j + 8" by (metis le_add_diff_inverse2 not_less)
  then show ?thesis by (simp add: raw_bit_def)
qed (simp add: raw_bit_def)

lemma raw_bit_val: "i < 8 * length ds \<Longrightarrow> raw_bit ds i = bit (bytes_val ds) (8 * length ds - 1 - i)"
proof (induction ds arbitrary: i)
  case (Cons b ds)
  have "bytes_val ds < 2 ^ (8 * length ds)" using bytes_val_less [of ds] by (simp add: power_mult)
  note low = bit_low_part [OF this, of "unat b" "8 * length (b # ds) - 1 - i"]
  have v: "bytes_val (b # ds) = unat b * 2 ^ (8 * length ds) + bytes_val ds"
    by (simp only: bytes_val.simps power_mult) simp
  show ?case
  proof (cases "i < 8")
    case True
    then have "8 * length (b # ds) - 1 - i = 8 * length ds + (7 - i)" by simp
    moreover have "\<not> 8 * length ds + (7 - i) < 8 * length ds" by simp
    ultimately show ?thesis using True low unfolding v by (simp only: raw_bit_Cons bit_unsigned_iff) (simp add: possible_bit_def)
  next
    case False
    then have "8 * length (b # ds) - 1 - i < 8 * length ds" "8 * length (b # ds) - 1 - i = 8 * length ds - 1 - (i - 8)"
      using Cons.prems by auto
    then show ?thesis using False low Cons.IH [of "i - 8"] Cons.prems unfolding v by (simp add: raw_bit_Cons)
  qed
qed simp

lemma raw_bit_append: "i < 8 * length ds \<Longrightarrow> raw_bit (ds @ es) i = raw_bit ds i"
  by (auto simp: raw_bit_def nth_append less_mult_imp_div_less mult.commute)

lemma hex_value_less: "is_xdigit c \<Longrightarrow> hex_value c < 16"
  by (auto simp: is_xdigit_def is_digit_def hex_value_def)

lemma unat_nibble: "is_xdigit c \<Longrightarrow> unat (nibble c) = hex_value c"
  using hex_value_less [of c] by (simp add: nibble_def unsigned_of_nat take_bit_nat_eq_self)

lemma unat_pair: "is_xdigit a \<Longrightarrow> is_xdigit b \<Longrightarrow> unat (push_bit 4 (nibble a) OR nibble b) = 16 * hex_value a + hex_value b"
proof -
  assume a: "is_xdigit a" and b: "is_xdigit b"
  have x: "hex_value b < 2 ^ 4" using hex_value_less [OF b] by simp
  obtain s where s: "s = hex_value a * 2 ^ 4 + hex_value b" by blast
  have "push_bit 4 (nibble a) OR nibble b = of_nat s"
  proof (rule bit_word_eqI)
    fix q assume "q < LENGTH(8)"
    then have q: "q < 8" by simp
    have "\<not> bit (hex_value b) q" if "4 \<le> q"
      using x that by (metis bit_take_bit_iff leD take_bit_nat_eq_self)
    then show "bit (push_bit 4 (nibble a) OR nibble b) q = bit (of_nat s :: u8) q"
      using q bit_low_part [OF x, of "hex_value a" q] unfolding s [symmetric]
      by (auto simp: nibble_def bit_or_iff bit_push_bit_iff bit_of_nat_iff possible_bit_word)
  qed
  moreover have "s < 256" using hex_value_less [OF a] hex_value_less [OF b] s by simp
  then have "unat (of_nat s :: u8) = s" by (simp only: unsigned_of_nat) (simp add: take_bit_nat_eq_self)
  ultimately show ?thesis using s by simp
qed

lemma pair_up_length: "length (pair_up s) = length s div 2"
  by (induction s rule: pair_up.induct) auto

lemma pair_up_val: "even (length s) \<Longrightarrow> list_all is_xdigit s \<Longrightarrow> bytes_val (pair_up s) = hex_val s"
proof (induction s rule: pair_up.induct)
  case (1 a b cs)
  obtain k where k: "length cs = 2 * k" using 1(2) by auto
  have "(256 :: nat) ^ k = 16 ^ (2 * k)" by (simp add: power_mult)
  then show ?case using 1 k by (simp add: unat_pair pair_up_length algebra_simps)
qed auto

lemma hex_bytes_val:
  assumes "list_all is_xdigit s"
  shows "bytes_val (hex_bytes s) = hex_val s" "length (hex_bytes s) = (length s + 1) div 2"
proof -
  show "length (hex_bytes s) = (length s + 1) div 2"
    by (cases s) (auto simp: hex_bytes_def pair_up_length)
  show "bytes_val (hex_bytes s) = hex_val s"
  proof (cases "odd (length s)")
    case True
    then obtain c cs where c: "s = c # cs" by (cases s) auto
    obtain k where k: "length cs = 2 * k" using True c by auto
    have "(256 :: nat) ^ k = 16 ^ (2 * k)" by (simp add: power_mult)
    then show ?thesis using assms True c k by (simp add: hex_bytes_def unat_nibble pair_up_val pair_up_length)
  qed (use assms in \<open>simp add: hex_bytes_def pair_up_val\<close>)
qed

lemma hex_val_strip: "hex_val (dropWhile (\<lambda>c. c = CHR ''0'') s) = hex_val s"
  by (induction s) (auto simp: hex_value_def)

lemma bytes_val_replicate: "bytes_val (replicate n 0 @ ds) = bytes_val ds"
  by (induction n) auto

section \<open>The bits of a match\<close>

text \<open>The number that the bits of a run stand for.\<close>

fun run_val :: "rule_bit list \<Rightarrow> nat" where
  "run_val [] = 0"
| "run_val (b # bs) = of_bool (bm_value b) * 2 ^ length bs + run_val bs"

lemma run_val_less: "run_val bs < 2 ^ length bs"
  by (induction bs) auto

lemma bit_run_val: "k < length bs \<Longrightarrow> bit (run_val bs) (length bs - 1 - k) = bm_value (bs ! k)"
proof (induction bs arbitrary: k)
  case (Cons b bs)
  note low = bit_low_part [OF run_val_less [of bs], of "of_bool (bm_value b)" "length (b # bs) - 1 - k"]
  show ?case
  proof (cases k)
    case (Suc j)
    then have "length (b # bs) - 1 - k < length bs" "length (b # bs) - 1 - k = length bs - 1 - j" using Cons.prems by auto
    then show ?thesis using Suc low Cons by simp
  qed (use low in \<open>simp add: bit_0\<close>)
qed simp

lemma upper_hex: "n < 16 \<Longrightarrow> is_xdigit (upper_hex n) \<and> hex_value (upper_hex n) = n"
  by (auto simp: upper_hex_def is_xdigit_def is_digit_def hex_value_def of_char_of)

lemma nibbles_ok:
  "\<lbrakk>n < 16; 2 ^ ((length bs + 3) mod 4 + 1) dvd n\<rbrakk> \<Longrightarrow> bs \<noteq> [] \<Longrightarrow>
     list_all is_xdigit (nibbles n bs) \<and> length (nibbles n bs) = (length bs + 3) div 4 \<and>
     hex_val (nibbles n bs) = n * 16 ^ ((length bs + 3) div 4 - 1) + run_val bs"
proof (induction n bs rule: nibbles.induct)
  case (2 n b bs)
  define k where "k = length bs mod 4"
  define j where "j = length bs div 4"
  have len: "length bs = 4 * j + k" "k < 4" by (simp_all add: k_def j_def)
  have k4: "(length (b # bs) + 3) mod 4 = k" by (simp add: k_def)
  have dvd: "2 ^ (k + 1) dvd n" using "2.prems"(2) unfolding k4 .
  define m where "m = n OR push_bit k (of_bool (bm_value b))"
  have m: "m = n + 2 ^ k * of_bool (bm_value b)"
  proof -
    obtain q where q: "n = q * 2 ^ (k + 1)" using dvd by (metis dvd_div_mult_self)
    have "\<not> bit n k" using bit_low_part [of 0 "k + 1" q k] q by simp
    then have "n + push_bit k (of_bool (bm_value b)) = n OR push_bit k (of_bool (bm_value b))"
      by (intro disjunctive_add) (auto simp: bit_push_bit_iff bit_of_bool_iff bit_1_iff)
    then show ?thesis unfolding m_def by (simp add: push_bit_eq_mult mult.commute)
  qed
  have "m < 16"
  proof -
    obtain q where q: "n = q * 2 ^ (k + 1)" using dvd by (metis dvd_div_mult_self)
    consider "k = 0" | "k = 1" | "k = 2" | "k = 3" using len(2) by linarith
    then show ?thesis using q "2.prems"(1) m by cases (cases "bm_value b"; simp; linarith)+
  qed
  have p16: "(16 :: nat) ^ j = 2 ^ (4 * j)" by (simp only: power_mult) simp
  show ?case
  proof (cases "k = 0")
    case True
    have bs: "length bs = 4 * j" using len True by simp
    have n: "nibbles n (b # bs) = upper_hex m # nibbles 0 bs"
      using True by (simp add: k_def m_def Let_def)
    have "list_all is_xdigit (nibbles 0 bs) \<and> length (nibbles 0 bs) = j \<and> hex_val (nibbles 0 bs) = run_val bs"
    proof (cases "bs = []")
      case True then show ?thesis using bs by simp
    next
      case False
      have "(length bs + 3) div 4 = j" using bs by simp
      then show ?thesis using "2.IH"(1) [OF k_def m_def] False by (simp add: True)
    qed
    then show ?thesis
      unfolding n using upper_hex [OF \<open>m < 16\<close>] m bs True by (simp add: algebra_simps p16)
  next
    case False
    have n: "nibbles n (b # bs) = nibbles m bs"
      using False by (simp add: k_def m_def Let_def)
    have bs: "bs \<noteq> []" "(length bs + 3) div 4 = j + 1" "(length (b # bs) + 3) div 4 = j + 1"
      using len False by auto
    have "length bs + 3 = 4 * (j + 1) + (k - 1)" "k - 1 < 4" using len False by simp_all
    then have k1: "(length bs + 3) mod 4 = k - 1" by simp
    have "2 ^ k dvd m" using dvd unfolding m by (simp add: power_add dvd_mult_right)
    then have "2 ^ ((length bs + 3) mod 4 + 1) dvd m" using k1 False by simp
    from "2.IH"(2) [OF k_def m_def False \<open>m < 16\<close> this bs(1)]
    show ?thesis unfolding n bs(2,3) using m len by (simp add: algebra_simps power_add p16)
  qed
qed simp


lemma nibbles_run:
  assumes "bs \<noteq> []"
  shows "list_all is_xdigit (nibbles 0 bs)" "length (nibbles 0 bs) = (length bs + 3) div 4"
    "hex_val (nibbles 0 bs) = run_val bs"
  using nibbles_ok [of 0 bs] assms by simp_all

section \<open>Reading a match\<close>

lemma scan_sep: "scan_lit '':'' (CHR '':'' # cs) = Some cs"
  by (simp add: is_space_def)

lemma scan_field_dec:
  assumes "cs = [] \<or> \<not> is_digit (hd cs) \<and> hd cs \<noteq> CHR ''x'' \<and> hd cs \<noteq> CHR ''X''"
  shows "scan_field (dec_int b @ '':'' @ dec_int off @ '':'' @ dec_int n @ cs) = Some ((b, off, n), cs)"
proof -
  have 1: "scan_i (dec_int b @ CHR '':'' # r) = Some (b, CHR '':'' # r)" for b r
    by (subst scan_i_dec_int) (simp_all add: is_digit_def)
  show ?thesis
    by (simp only: scan_field_def 1 scan_sep scan_i_dec_int [OF assms] Option.bind.bind_lunit prod.case append.simps)
qed

lemma dropWhile_head: "rest = [] \<or> \<not> P (hd rest) \<Longrightarrow> dropWhile P (xs @ rest) = dropWhile P xs @ rest"
  by (induction xs) (cases rest; auto)+

lemma takeWhile_head: "list_all P xs \<Longrightarrow> rest = [] \<or> \<not> P (hd rest) \<Longrightarrow> takeWhile P (xs @ rest) = xs"
  by (induction xs) (cases rest; auto)+

definition run_text :: "rule_bit list \<Rightarrow> string" where
  "run_text bs = dec (bm_group (hd bs)) @ '':'' @ dec_int (bm_offset (hd bs)) @ '':'' @ dec (length bs) @ ''=0x'' @ nibbles 0 bs"

text \<open>The bits of the data of a match, which are aligned to the right in its bytes.\<close>

definition data_bits :: "rule_bit list \<Rightarrow> u8 list \<Rightarrow> bool" where
  "data_bits bs d \<longleftrightarrow> length bs \<le> 8 * length d \<and>
     (\<forall>k<length bs. raw_bit d (nat ((- int (length bs)) mod 8) + k) = bm_value (bs ! k))"

lemma align_data_ok:
  assumes n: "0 < length bs" and ds: "bytes_val ds = run_val bs" "length ds \<le> (length bs + 7) div 8"
  shows "\<exists>d. align_data (int (length bs)) ds = Inr d \<and> data_bits bs d"
proof -
  define n where "n = length bs"
  define L where "L = (n + 7) div 8"
  define E where "E = replicate (L - length ds) 0 @ ds"
  define d where "d = E @ replicate ((L + 3) div 4 * 4 - L) 0"
  have "(int n + 7) div 8 = int L" unfolding L_def by (simp only: zdiv_int of_nat_add of_nat_numeral)
  then have a: "align_data (int n) ds = Inr d"
    using ds(2) unfolding n_def [symmetric] L_def [symmetric]
    by (simp add: align_data_def Let_def d_def E_def)
  have E: "length E = L" "bytes_val E = run_val bs"
    using ds unfolding n_def [symmetric] L_def [symmetric] by (simp_all add: E_def bytes_val_replicate)
  obtain p where p: "(- int n) mod 8 = int p" by (metis pos_mod_sign zero_less_numeral nonneg_int_cases)
  have "p < 8" using p pos_mod_bound [of 8 "- int n"] by simp
  moreover have "(int p + int n) mod 8 = 0" unfolding p [symmetric] by (simp add: mod_add_left_eq)
  then have "8 dvd p + n" by (metis int_dvd_int_iff mod_0_imp_dvd of_nat_add of_nat_numeral)
  ultimately have pn: "p + n = 8 * L" unfolding L_def by presburger
  have "raw_bit d (p + k) = bm_value (bs ! k)" if k: "k < n" for k
  proof -
    have "raw_bit d (p + k) = raw_bit E (p + k)"
      unfolding d_def by (rule raw_bit_append) (use k pn E in simp)
    also have "\<dots> = bit (run_val bs) (8 * L - 1 - (p + k))"
      using raw_bit_val [of "p + k" E] k pn E by simp
    also have "8 * L - 1 - (p + k) = length bs - 1 - k" using pn k by (simp add: n_def)
    also have "bit (run_val bs) \<dots> = bm_value (bs ! k)" by (rule bit_run_val) (use k n_def in simp)
    finally show ?thesis .
  qed
  moreover have "n \<le> 8 * length d" using pn E by (simp add: d_def)
  ultimately show ?thesis using a p by (auto simp: data_bits_def n_def)
qed

lemma parse_match_run:
  assumes bs: "bs \<noteq> []" and g: "find_group ctx (int (bm_group (hd bs))) = Inr G"
    and rest: "rest = [] \<or> \<not> is_xdigit (hd rest)"
  shows "\<exists>d. parse_match ctx (run_text bs @ rest) =
      Inr (\<lparr>match_field = \<lparr>tf_group = G, tf_offset = bm_offset (hd bs), tf_length = int (length bs)\<rparr>, match_data = d\<rparr>, rest)
    \<and> data_bits bs d"
proof -
  let ?hex = "dropWhile (\<lambda>c. c = CHR ''0'') (nibbles 0 bs)"
  note nib = nibbles_run [OF bs]
  have line: "run_text bs @ rest = dec_int (int (bm_group (hd bs))) @ '':'' @ dec_int (bm_offset (hd bs)) @ '':'' @
      dec_int (int (length bs)) @ (''=0x'' @ nibbles 0 bs @ rest)"
    by (simp add: run_text_def dec_int_of_nat)
  have "scan_field (run_text bs @ rest) = Some ((int (bm_group (hd bs)), bm_offset (hd bs), int (length bs)), ''=0x'' @ nibbles 0 bs @ rest)"
    unfolding line by (rule scan_field_dec) (simp add: is_digit_def)
  then have f: "parse_field ctx (run_text bs @ rest) =
      Inr (\<lparr>tf_group = G, tf_offset = bm_offset (hd bs), tf_length = int (length bs)\<rparr>, ''=0x'' @ nibbles 0 bs @ rest)"
    by (simp add: parse_field_def g)
  have x: "list_all is_xdigit ?hex" using nib(1) by (metis list_all_iff set_dropWhileD)
  have strip: "dropWhile (\<lambda>c. c = CHR ''0'') (nibbles 0 bs @ rest) = ?hex @ rest"
    using rest by (intro dropWhile_head) (auto simp: is_xdigit_def is_digit_def)
  have hex: "takeWhile is_xdigit (?hex @ rest) = ?hex" by (rule takeWhile_head [OF x rest])
  have "length ?hex \<le> (length bs + 3) div 4" using length_dropWhile_le nib(2) by metis
  then have "length (hex_bytes ?hex) \<le> (length bs + 7) div 8" using hex_bytes_val(2) [OF x] by linarith
  moreover have "bytes_val (hex_bytes ?hex) = run_val bs" using hex_bytes_val(1) [OF x] nib(3) by (simp add: hex_val_strip)
  ultimately obtain d where d: "align_data (int (length bs)) (hex_bytes ?hex) = Inr d" "data_bits bs d"
    using align_data_ok [of bs "hex_bytes ?hex"] bs by auto
  then show ?thesis
    using f strip hex by (simp add: parse_match_def Let_def)
qed

section \<open>Reading a rule\<close>

text \<open>The bits that the matcher reads for the groups of a context.\<close>

definition read_bits :: "tcc_context \<Rightarrow> u8 list \<Rightarrow> bit_source" where
  "read_bits ctx raw g i =
     (case find_group ctx (int g) of Inr G \<Rightarrow> raw_bit raw (group_start G raw + i) | Inl e \<Rightarrow> False)"

definition group_found :: "tcc_context \<Rightarrow> nat \<Rightarrow> bool" where
  "group_found ctx g \<longleftrightarrow> (case find_group ctx (int g) of Inr G \<Rightarrow> True | Inl e \<Rightarrow> False)"

definition bits_found :: "tcc_context \<Rightarrow> rule_bit list \<Rightarrow> bool" where
  "bits_found ctx bs \<longleftrightarrow> list_all (\<lambda>b. group_found ctx (bm_group b) \<and> 0 \<le> bm_offset b) bs"

lemma take_run_split:
  "take_run g p bs = (r, rest) \<Longrightarrow> bs = r @ rest \<and> (\<forall>k<length r. bm_group (r ! k) = g \<and> bm_offset (r ! k) = p + int k + 1)"
proof (induction g p bs arbitrary: r rule: take_run.induct)
  case (2 g p b bs)
  show ?case
  proof (cases "bm_group b = g \<and> bm_offset b = p + 1")
    case True
    then obtain r' where r': "take_run g (p + 1) bs = (r', rest)" "r = b # r'"
      using "2.prems" by (auto simp: Let_def split: prod.splits)
    from "2.IH" [OF True r'(1)] True show ?thesis
      unfolding r'(2) by (auto simp: nth_Cons split: nat.splits)
  next
    case False
    then have "r = [] \<and> rest = b # bs" using "2.prems" by auto
    then show ?thesis by simp
  qed
qed simp

text \<open>A match reads what the bits of its run say.\<close>

lemma run_holds:
  assumes run: "\<forall>k<length bs. bm_group (bs ! k) = g \<and> bm_offset (bs ! k) = p + int k" and bs: "bs \<noteq> []" "0 \<le> p"
    and g: "find_group ctx (int g) = Inr G" and d: "data_bits bs d"
  shows "match_holds \<lparr>match_field = \<lparr>tf_group = G, tf_offset = p, tf_length = int (length bs)\<rparr>, match_data = d\<rparr> raw \<longleftrightarrow>
    matches (read_bits ctx raw) bs"
proof -
  have "matches (read_bits ctx raw) bs \<longleftrightarrow>
      (\<forall>k<length bs. read_bits ctx raw (bm_group (bs ! k)) (nat (bm_offset (bs ! k))) = bm_value (bs ! k))"
    by (simp add: matches_def list_all_length)
  also have "\<dots> \<longleftrightarrow> (\<forall>k<length bs. raw_bit raw (group_start G raw + nat p + k) = bm_value (bs ! k))"
    using run bs(2) g by (intro all_cong) (simp add: read_bits_def nat_add_distrib add.assoc)
  also have "\<dots> \<longleftrightarrow> (\<forall>k<length bs. raw_bit raw (group_start G raw + nat p + k) = raw_bit d (nat ((- int (length bs)) mod 8) + k))"
    using d unfolding data_bits_def by auto
  finally show ?thesis by (simp add: match_holds_def Let_def)
qed

definition reads :: "tcc_context \<Rightarrow> tcc_match list \<Rightarrow> rule_bit list \<Rightarrow> bool" where
  "reads ctx ms bs \<longleftrightarrow> (\<forall>raw. list_all (\<lambda>m. match_holds m raw) ms \<longleftrightarrow> matches (read_bits ctx raw) bs)"

lemma collect_bits_run:
  "take_run (bm_group b) (bm_offset b) bs = (r, rest) \<Longrightarrow>
     collect_bits (b # bs) = CHR '' '' # run_text (b # r) @ collect_bits rest"
  by (simp add: run_text_def)

lemma collect_bits_head: "\<exists>t. collect_bits bs @ CHR '' '' # r = CHR '' '' # t"
proof (cases bs)
  case (Cons b bs')
  obtain run rest where run: "take_run (bm_group b) (bm_offset b) bs' = (run, rest)" by fastforce
  show ?thesis unfolding Cons collect_bits_run [OF run] by simp
qed simp

lemma parse_matches_bits:
  "\<lbrakk>bits_found ctx bs; r = [] \<or> \<not> is_digit (hd r)\<rbrakk> \<Longrightarrow>
     \<exists>ms. parse_matches ctx (step (collect_bits bs @ CHR '' '' # r)) = Inr (ms, r) \<and> reads ctx ms bs"
proof (induction bs rule: collect_bits.induct)
  case 1
  then show ?case by (subst parse_matches.simps) (auto simp: step_def reads_def)
next
  case (2 b bs)
  obtain run rest where run: "take_run (bm_group b) (bm_offset b) bs = (run, rest)" by fastforce
  note split = take_run_split [OF run]
  have found: "bits_found ctx rest" "group_found ctx (bm_group b)" "0 \<le> bm_offset b"
    using "2.prems"(1) split by (auto simp: bits_found_def)
  from found(2) obtain G where G: "find_group ctx (int (bm_group b)) = Inr G"
    by (auto simp: group_found_def split: sum.splits)
  let ?tail = "collect_bits rest @ CHR '' '' # r"
  have space: "hd ?tail = CHR '' ''" using collect_bits_head [of rest r] by auto
  have tail: "?tail = [] \<or> \<not> is_xdigit (hd ?tail)" unfolding space by (simp add: is_xdigit_def is_digit_def)
  from parse_match_run [OF _ _ tail, of "b # run" ctx G] G obtain d where d:
      "parse_match ctx (run_text (b # run) @ ?tail) =
        Inr (\<lparr>match_field = \<lparr>tf_group = G, tf_offset = bm_offset b, tf_length = int (length (b # run))\<rparr>, match_data = d\<rparr>, ?tail)"
      "data_bits (b # run) d" by auto
  from "2.IH" [OF run [symmetric] refl found(1) "2.prems"(2)] obtain ms where ms:
      "parse_matches ctx (step ?tail) = Inr (ms, r)" "reads ctx ms rest" by blast
  have start: "run_text (b # run) @ ?tail \<noteq> []" "is_digit (hd (run_text (b # run) @ ?tail))"
    using dec_cases [of "bm_group b"] by (auto simp: run_text_def)
  let ?m = "\<lparr>match_field = \<lparr>tf_group = G, tf_offset = bm_offset b, tf_length = int (length (b # run))\<rparr>, match_data = d\<rparr>"
  have "step (collect_bits (b # bs) @ CHR '' '' # r) = run_text (b # run) @ ?tail"
    unfolding collect_bits_run [OF run] by (simp add: step_def)
  then have "parse_matches ctx (step (collect_bits (b # bs) @ CHR '' '' # r)) = Inr (?m # ms, r)"
    using start d(1) ms(1) by (simp add: parse_matches.simps [of ctx "run_text (b # run) @ ?tail"])
  moreover have "match_holds ?m raw \<longleftrightarrow> matches (read_bits ctx raw) (b # run)" for raw
    by (rule run_holds [OF _ _ found(3) G d(2)]) (use split in \<open>auto simp: nth_Cons split: nat.splits\<close>)
  then have "reads ctx (?m # ms) (b # bs)"
    using ms(2) split by (simp add: reads_def)
  ultimately show ?case by blast
qed

text \<open>None of the characters ends the line.\<close>

definition plain :: "char \<Rightarrow> bool" where
  "plain c \<longleftrightarrow> c \<noteq> CHR 0x0A \<and> c \<noteq> CHR ''#''"

lemma plain_digit: "is_digit c \<Longrightarrow> plain c"
  by (auto simp: is_digit_def plain_def)

lemma plain_dec [simp]: "list_all plain (dec n)" "list_all plain (dec_int i)"
  using dec_digits plain_digit by (auto simp: list_all_iff dec_int_def plain_def [of "CHR ''-''"])

lemma plain_run: "bs \<noteq> [] \<Longrightarrow> list_all plain (run_text bs)"
proof -
  assume "bs \<noteq> []"
  then have "list_all is_xdigit (nibbles 0 bs)" by (rule nibbles_run)
  then have "list_all plain (nibbles 0 bs)"
    by (rule list.pred_mono_strong) (auto simp: is_xdigit_def is_digit_def plain_def)
  then show ?thesis by (simp add: run_text_def) (simp add: plain_def)
qed

lemma plain_collect: "list_all plain (collect_bits bs)"
proof (induction bs rule: collect_bits.induct)
  case (2 b bs)
  obtain r rest where run: "take_run (bm_group b) (bm_offset b) bs = (r, rest)" by fastforce
  show ?case
    unfolding collect_bits_run [OF run] using "2.IH" [OF run [symmetric] refl] plain_run [of "b # r"] by (simp add: plain_def [of "CHR '' ''"])
qed simp

lemma cut_line: "list_all plain l \<Longrightarrow> takeWhile (\<lambda>c. c \<noteq> CHR 0x0A \<and> c \<noteq> CHR ''#'') (l @ [CHR 0x0A]) = l"
  by (rule takeWhile_head) (simp_all add: plain_def [abs_def])

lemma scan_word:
  assumes "list_all (\<lambda>c. \<not> is_space c) w" "w \<noteq> []" "length w \<le> n" "rest = [] \<or> is_space (hd rest)"
  shows "scan_s n (w @ rest) = Some (w, rest)"
proof -
  have "skip_space (w @ rest) = w @ rest" using assms(1,2) by (cases w) (auto simp: skip_space_def)
  moreover have "takeWhile (\<lambda>c. \<not> is_space c) (w @ rest) = w" by (rule takeWhile_head) (use assms in auto)
  ultimately show ?thesis using assms(2,3) by (cases n) (simp_all add: scan_s_def)
qed

lemma parse_line_word:
  assumes "list_all plain (w @ CHR '' '' # s)" "list_all (\<lambda>c. \<not> is_space c) w" "w \<noteq> []" "length w \<le> 1024"
  shows "parse_line ctx (w @ CHR '' '' # s @ [CHR 0x0A]) = parse_keyword ctx w s"
proof -
  have "scan_s 1024 (w @ CHR '' '' # s) = Some (w, CHR '' '' # s)"
    by (rule scan_word [OF assms(2-4)]) (simp add: is_space_def)
  then show ?thesis
    using cut_line [OF assms(1)] assms(3) by (simp add: parse_line_def step_def)
qed

text \<open>A line of a rule adds a rule that tests its bits.\<close>

definition add_rules :: "tcc_rule list \<Rightarrow> tcc_context \<Rightarrow> tcc_context" where
  "add_rules rs ctx = change_block (\<lambda>b. b\<lparr>bl_rules := bl_rules b @ rs\<rparr>) ctx"

definition rule_for :: "(data \<Rightarrow> nat) \<Rightarrow> tcc_context \<Rightarrow> ext_line \<Rightarrow> tcc_rule \<Rightarrow> bool" where
  "rule_for number ctx l r \<longleftrightarrow>
     (case l of Match bs d \<Rightarrow>
        reads ctx (matches_of r) bs \<and> rule_action r \<noteq> None \<and> find_action ctx (int (number d)) = Inr (rule_action r))"

definition line_found :: "(data \<Rightarrow> nat) \<Rightarrow> tcc_context \<Rightarrow> ext_line \<Rightarrow> bool" where
  "line_found number ctx l \<longleftrightarrow>
     (case l of Match bs d \<Rightarrow>
        bits_found ctx bs \<and> (case find_action ctx (int (number d)) of Inr (Some a) \<Rightarrow> True | _ \<Rightarrow> False))"

lemma parse_rule_line:
  assumes "line_found number ctx l"
  shows "\<exists>r. parse_line ctx (line_text number l) = Inr (add_rules [r] ctx) \<and> rule_for number ctx l r"
proof -
  obtain bs d where l: "l = Match bs d" by (cases l)
  from assms obtain a where found: "bits_found ctx bs" and a: "find_action ctx (int (number d)) = Inr (Some a)"
    by (auto simp: l line_found_def split: sum.splits option.splits)
  let ?s = "''action '' @ dec (number d)"
  have "?s = [] \<or> \<not> is_digit (hd ?s)" by (simp add: is_digit_def)
  from parse_matches_bits [OF found this] obtain ms where ms:
      "parse_matches ctx (step (collect_bits bs @ CHR '' '' # ?s)) = Inr (ms, ?s)" "reads ctx ms bs" by blast
  obtain t where t: "collect_bits bs @ CHR '' '' # ?s = CHR '' '' # t"
    using collect_bits_head by blast
  have "line_text number l = ''match'' @ (collect_bits bs @ CHR '' '' # ?s) @ [CHR 0x0A]"
    by (simp add: line_text_def l)
  then have line: "line_text number l = ''match'' @ CHR '' '' # t @ [CHR 0x0A]" unfolding t by simp
  have "list_all plain (collect_bits bs @ CHR '' '' # ?s)"
    using plain_collect [of bs] by simp (simp add: plain_def)
  then have "list_all plain (''match'' @ CHR '' '' # t)" unfolding t by (simp add: plain_def)
  then have 1: "parse_line ctx (line_text number l) = parse_keyword ctx ''match'' t"
    unfolding line by (rule parse_line_word) (simp_all add: is_space_def)
  have st: "step (collect_bits bs @ CHR '' '' # ?s) = t" unfolding t by (simp add: step_def)
  have "scan_lit '' action '' ?s = Some (dec (number d))"
  proof -
    have "skip_space (dec (number d)) = dec (number d)"
      using dec_cases [of "number d"] digit_not_space by (intro skip_space_nonspace) auto
    then show ?thesis by (simp add: is_space_def skip_space_def)
  qed
  moreover have "scan_i (dec (number d)) = Some (int (number d), [])"
    using scan_i_dec_int [of "[]" "int (number d)"] by (simp add: dec_int_of_nat)
  moreover have "cx_blocks ctx \<noteq> []" using a by (auto simp: find_action_def current_block_def)
  ultimately have "parse_rule ctx t = Inr (add_rules [\<lparr>matches_of = ms, rule_action = Some a\<rparr>] ctx)"
    using ms(1) a unfolding st by (simp add: parse_rule_def add_rules_def add_rule_def [abs_def])
  then show ?thesis
    using ms(2) a unfolding 1 by (auto simp: parse_keyword_def rule_for_def l)
qed

section \<open>Reading all rules\<close>

lemma add_rules_context:
  "find_group (add_rules rs ctx) g = find_group ctx g" "find_action (add_rules rs ctx) i = find_action ctx i"
  by (cases "cx_blocks ctx"; simp add: add_rules_def find_group_def find_action_def current_block_def)+

lemma add_rules_append: "add_rules rs' (add_rules rs ctx) = add_rules (rs @ rs') ctx"
  by (cases "cx_blocks ctx") (simp_all add: add_rules_def)

lemma reads_context: "(\<And>g. find_group ctx' g = find_group ctx g) \<Longrightarrow> reads ctx' = reads ctx"
  by (intro ext) (simp add: reads_def read_bits_def [abs_def])

lemma rule_for_add: "rule_for number (add_rules rs ctx) l r = rule_for number ctx l r"
  by (cases l) (simp add: rule_for_def add_rules_context reads_context [of "add_rules rs ctx" ctx])

lemma line_found_add: "line_found number (add_rules rs ctx) l = line_found number ctx l"
  by (cases l) (simp add: line_found_def bits_found_def [abs_def] group_found_def add_rules_context)

lemma parse_rule_lines:
  "list_all (line_found number ctx) ls \<Longrightarrow> cx_blocks ctx \<noteq> [] \<Longrightarrow>
     \<exists>rs. parse_lines ctx (map (line_text number) ls) = Inr (add_rules rs ctx) \<and> list_all2 (rule_for number ctx) ls rs"
proof (induction ls arbitrary: ctx)
  case Nil
  then show ?case by (cases "cx_blocks ctx") (auto simp: add_rules_def intro!: exI [of _ "[]"])
next
  case (Cons l ls)
  from parse_rule_line [of number ctx l] Cons.prems obtain r where r:
      "parse_line ctx (line_text number l) = Inr (add_rules [r] ctx)" "rule_for number ctx l r" by auto
  have "cx_blocks (add_rules [r] ctx) \<noteq> []" using Cons.prems by (cases "cx_blocks ctx") (simp_all add: add_rules_def)
  with Cons.IH [of "add_rules [r] ctx"] Cons.prems obtain rs where rs:
      "parse_lines (add_rules [r] ctx) (map (line_text number) ls) = Inr (add_rules rs (add_rules [r] ctx))"
      "list_all2 (rule_for number ctx) ls rs"
    by (auto simp: line_found_add [abs_def] rule_for_add [abs_def])
  with r show ?case by (auto simp: add_rules_append intro!: exI [of _ "r # rs"])
qed

text \<open>
  The matcher runs the action of the first rule that holds. When the action yields -1 the matcher goes
  on behind the next barrier; an expression has none, so the result is the action's all the same.
\<close>

fun first_line :: "bit_source \<Rightarrow> ext_line list \<Rightarrow> data option" where
  "first_line B [] = None"
| "first_line B (Match bs d # ls) = (if matches B bs then Some d else first_line B ls)"

definition act_line ::
  "(tcc_action \<Rightarrow> 's \<Rightarrow> (int \<times> 's) result) \<Rightarrow> (data \<Rightarrow> nat) \<Rightarrow> tcc_context \<Rightarrow> data \<Rightarrow> 's \<Rightarrow> (int \<times> 's) result" where
  "act_line act number ctx d st =
     (case find_action ctx (int (number d)) of Inr (Some a) \<Rightarrow> act a st | _ \<Rightarrow> Inl (E_undef ''null action''))"

lemma skip_all: "list_all2 (rule_for number ctx) ls rs \<Longrightarrow> skip_rules rs = []"
  by (induction ls rs rule: list_all2_induct) (auto simp: rule_for_def split: ext_line.splits)

lemma match_rules_lines:
  assumes "list_all2 (rule_for number ctx) ls rs" "rules_fit raw rs"
  shows "match_rules act rs raw ntohs protocol st =
    (case first_line (read_bits ctx raw) ls of None \<Rightarrow> Inr (-1, st) | Some d \<Rightarrow> act_line act number ctx d st)"
  using assms(1,2)
proof (induction ls rs rule: list_all2_induct)
  case (Cons l ls r rs)
  obtain bs d where l: "l = Match bs d" by (cases l)
  from Cons.hyps(1) obtain a where a: "reads ctx (matches_of r) bs" "rule_action r = Some a"
      "find_action ctx (int (number d)) = Inr (Some a)"
    by (auto simp: rule_for_def l)
  have fit: "list_all (\<lambda>m. match_fits m raw) (matches_of r)" "rules_fit raw rs" using Cons.prems by simp_all
  have m: "match_all (matches_of r) raw ntohs protocol = Inr (matches (read_bits ctx raw) bs)"
    using match_all_ok [OF fit(1)] a(1) by (simp add: reads_def)
  have skip: "drop 1 (skip_rules (r # rs)) = []" using skip_all [OF Cons.hyps(2)] a(2) by simp
  show ?case
  proof (cases "matches (read_bits ctx raw) bs")
    case True
    then have "match_rules act (r # rs) raw ntohs protocol st = act a st"
      using m a(2) skip by (cases "act a st") auto
    then show ?thesis using True l a(3) by (simp add: act_line_def)
  next
    case False
    then show ?thesis using m a(2) l Cons.IH [OF fit(2)] by simp
  qed
qed simp

lemma rules_run_first:
  "rules_run E B ls s = (case first_line B ls of None \<Rightarrow> (V_false, s) | Some d \<Rightarrow> xrun E (0, 0) d s)"
proof (induction ls)
  case (Cons l ls)
  then show ?case by (cases l) simp
qed simp

section \<open>Offset groups\<close>

text \<open>\<open>dump_offsets\<close> writes one line for each entry of the table.\<close>

definition offset_text :: "offset_group \<Rightarrow> string" where
  "offset_text g =
     ''offset '' @ dec (og_number g) @ '' = '' @ dec (og_base g) @ ''+('' @ dec (og_value_base g) @ '':'' @
     dec_int (og_offset g) @ '':'' @ dec_int (og_length g) @ '' << '' @ dec_int (og_shift g) @ '')'' @ [CHR 0x0A]"

section \<open>Reading the offset groups\<close>

text \<open>The group that an entry of the table becomes.\<close>

definition entry_found :: "tcc_context \<Rightarrow> offset_group \<Rightarrow> bool" where
  "entry_found ctx g \<longleftrightarrow>
     (case (find_group ctx (int (og_base g)), find_group ctx (int (og_value_base g))) of
        (Inr b, Inr v) \<Rightarrow>
          find_group ctx (int (og_number g)) = Inr (G_offset (int (og_number g)) b v (og_offset g) (og_length g) (og_shift g))
      | _ \<Rightarrow> False)"

lemma scan_blank: "skip_space (CHR '' '' # s) = skip_space s"
  by (simp add: skip_space_def is_space_def)

lemma skip_dec: "skip_space (dec n @ s) = dec n @ s"
  using dec_cases [of n] digit_not_space by (intro skip_space_nonspace) auto

lemma scan_i_dec: "s = [] \<or> \<not> is_digit (hd s) \<and> hd s \<noteq> CHR ''x'' \<and> hd s \<noteq> CHR ''X'' \<Longrightarrow> scan_i (dec n @ s) = Some (int n, s)"
  using scan_i_dec_int [of s "int n"] by (simp add: dec_int_of_nat)

lemma skip_dec_int: "skip_space (dec_int i @ s) = dec_int i @ s"
  using dec_cases [of "nat i"] digit_not_space
  by (intro skip_space_nonspace) (auto simp: dec_int_def is_space_def)

definition offset_args :: "offset_group \<Rightarrow> string" where
  "offset_args g =
     dec (og_number g) @ '' = '' @ dec (og_base g) @ ''+('' @ dec (og_value_base g) @ '':'' @ dec_int (og_offset g) @ '':'' @
     dec_int (og_length g) @ '' << '' @ dec_int (og_shift g) @ '')''"

lemma parse_offset_args:
  assumes b: "find_group ctx (int (og_base g)) = Inr b" and v: "find_group ctx (int (og_value_base g)) = Inr v"
    and n: "int (og_number g) \<notin> set (map fst (cx_groups ctx))"
  shows "parse_offset ctx (offset_args g) =
    Inr (ctx\<lparr>cx_groups := (int (og_number g),
      G_offset (int (og_number g)) b v (og_offset g) (og_length g) (og_shift g)) # cx_groups ctx\<rparr>)"
proof -
  have lit: "scan_lit '' = '' (CHR '' '' # CHR ''='' # CHR '' '' # dec m @ s) = Some (dec m @ s)" for m s
    by (simp add: is_space_def skip_space_def [of "CHR ''='' # _"] scan_blank skip_dec)
  have opn: "scan_lit ''+('' (CHR ''+'' # CHR ''('' # s) = Some s" for s by (simp add: is_space_def)
  have shift: "Option.bind (scan_lit ''<< '' (step ('' << '' @ dec_int (og_shift g) @ '')''))) scan_i = Some (og_shift g, '')'')"
    by (simp add: step_def is_space_def scan_blank skip_dec_int scan_i_dec_int is_digit_def)
  have field: "parse_field ctx (dec (og_value_base g) @ '':'' @ dec_int (og_offset g) @ '':'' @ dec_int (og_length g) @ s) =
      Inr (\<lparr>tf_group = v, tf_offset = og_offset g, tf_length = og_length g\<rparr>, s)" if "s = '' << '' @ dec_int (og_shift g) @ '')''" for s
    using scan_field_dec [of s "int (og_value_base g)" "og_offset g" "og_length g"] that v
    by (simp add: parse_field_def dec_int_of_nat is_digit_def)
  show ?thesis
    using n b shift field
    by (simp add: parse_offset_def offset_args_def scan_i_dec is_digit_def lit opn del: scan_lit.simps)
qed

lemma offset_text_line: "parse_line ctx (offset_text g) = parse_offset ctx (offset_args g)"
proof -
  have "offset_text g = ''offset'' @ CHR '' '' # offset_args g @ [CHR 0x0A]" by (simp add: offset_text_def offset_args_def)
  moreover have "parse_line ctx (''offset'' @ CHR '' '' # offset_args g @ [CHR 0x0A]) = parse_keyword ctx ''offset'' (offset_args g)"
    by (rule parse_line_word) (simp_all add: is_space_def offset_args_def, simp add: plain_def)
  ultimately show ?thesis by (simp add: parse_keyword_def)
qed

lemma parse_offset_line:
  assumes b: "group_found ctx (og_base g)" and v: "group_found ctx (og_value_base g)"
    and n: "int (og_number g) \<notin> set (map fst (cx_groups ctx))" "2 \<le> og_number g"
  shows "\<exists>ctx'. parse_line ctx (offset_text g) = Inr ctx' \<and> cx_blocks ctx' = cx_blocks ctx \<and>
    map fst (cx_groups ctx') = int (og_number g) # map fst (cx_groups ctx) \<and>
    (\<forall>k. k \<noteq> og_number g \<longrightarrow> find_group ctx' (int k) = find_group ctx (int k)) \<and>
    find_group ctx' (int (og_number g)) = Inr (G_offset (int (og_number g)) (projr (find_group ctx (int (og_base g))))
      (projr (find_group ctx (int (og_value_base g)))) (og_offset g) (og_length g) (og_shift g))"
proof -
  from b v obtain G V where G: "find_group ctx (int (og_base g)) = Inr G" "find_group ctx (int (og_value_base g)) = Inr V"
    by (auto simp: group_found_def split: sum.splits)
  show ?thesis
    unfolding offset_text_line using parse_offset_args [OF G n(1)] n(2) G
    by (auto simp: find_group_def META_FIELD_ROOT_def)
qed

lemma parse_offset_lines:
  "\<lbrakk>groups_wf K gs; \<forall>k\<in>K. group_found ctx k; set (map fst (cx_groups ctx)) \<subseteq> int ` K; list_all (\<lambda>g. 2 \<le> og_number g) gs\<rbrakk> \<Longrightarrow>
     \<exists>ctx'. parse_lines ctx (map offset_text gs) = Inr ctx' \<and> cx_blocks ctx' = cx_blocks ctx \<and>
       (\<forall>k\<in>K. find_group ctx' (int k) = find_group ctx (int k)) \<and> list_all (entry_found ctx') gs"
proof (induction gs arbitrary: K ctx)
  case (Cons g gs)
  have g: "og_number g \<notin> K" "og_base g \<in> K" "og_value_base g \<in> K" "groups_wf (insert (og_number g) K) gs"
    using Cons.prems(1) by simp_all
  have n: "int (og_number g) \<notin> set (map fst (cx_groups ctx))" using g(1) Cons.prems(3) by auto
  from parse_offset_line [OF _ _ n] g Cons.prems obtain ctx1 where c1: "parse_line ctx (offset_text g) = Inr ctx1"
      "cx_blocks ctx1 = cx_blocks ctx" "map fst (cx_groups ctx1) = int (og_number g) # map fst (cx_groups ctx)"
      "\<And>k. k \<noteq> og_number g \<Longrightarrow> find_group ctx1 (int k) = find_group ctx (int k)"
      "find_group ctx1 (int (og_number g)) = Inr (G_offset (int (og_number g)) (projr (find_group ctx (int (og_base g))))
         (projr (find_group ctx (int (og_value_base g)))) (og_offset g) (og_length g) (og_shift g))"
    by auto
  have same: "\<And>k. k \<in> K \<Longrightarrow> find_group ctx1 (int k) = find_group ctx (int k)" using c1(4) g(1) by metis
  have "\<forall>k\<in>insert (og_number g) K. group_found ctx1 k"
    using Cons.prems(2) same c1(5) by (auto simp: group_found_def)
  moreover have "set (map fst (cx_groups ctx1)) \<subseteq> int ` insert (og_number g) K"
    unfolding c1(3) using Cons.prems(3) by auto
  ultimately obtain ctx' where c': "parse_lines ctx1 (map offset_text gs) = Inr ctx'" "cx_blocks ctx' = cx_blocks ctx1"
      "\<forall>k\<in>insert (og_number g) K. find_group ctx' (int k) = find_group ctx1 (int k)" "list_all (entry_found ctx') gs"
    using Cons.IH [OF g(4), of ctx1] Cons.prems(4) by (simp only: list.pred_inject) blast
  have find: "find_group ctx' (int k) = find_group ctx (int k)" if "k \<in> K" for k using c'(3) same that by simp
  have "entry_found ctx' g"
    using bspec [OF c'(3), of "og_number g"] c1(5) find [OF g(2)] find [OF g(3)] Cons.prems(2) g(2,3)
    by (auto simp: entry_found_def group_found_def split: sum.splits dest!: bspec)
  then show ?case using c1(1,2) c' find by auto
qed auto

lemma entry_bits: "entry_found ctx g \<Longrightarrow> group_bits (read_bits ctx raw) g"
proof -
  assume "entry_found ctx g"
  then obtain b v where g: "find_group ctx (int (og_base g)) = Inr b" "find_group ctx (int (og_value_base g)) = Inr v"
      "find_group ctx (int (og_number g)) = Inr (G_offset (int (og_number g)) b v (og_offset g) (og_length g) (og_shift g))"
    by (auto simp: entry_found_def split: sum.splits)
  have "bits_val (read_bits ctx raw (og_value_base g)) (nat (og_offset g)) (nat (og_length g)) =
      bits_val (raw_bit raw) (group_start v raw + nat (og_offset g)) (nat (og_length g))"
    by (rule bits_val_cong) (simp add: read_bits_def g add.assoc)
  then show ?thesis by (simp add: group_bits_def read_bits_def g ac_simps)
qed

lemma read_table_bits:
  assumes "field_roots fs = [0]" "\<And>i. P 0 i = raw_bit raw i" "list_all (entry_found ctx) (offset_groups gt)"
  shows "table_bits fs gt P (read_bits ctx raw)"
  using assms entry_bits by (auto simp: table_bits_def list_all_iff read_bits_def find_group_def)

section \<open>From the expression to the decision\<close>

definition raw_packet :: "u8 list \<Rightarrow> nat \<Rightarrow> 128 word \<Rightarrow> nat \<Rightarrow> 128 word" where
  "raw_packet raw r off n = of_nat (bits_val (raw_bit raw) (8 * unat off) n)"

lemma raw_packet_linked: "packet E = raw_packet raw \<Longrightarrow> linked E (\<lambda>r. raw_bit raw)"
  by (auto simp: linked_def raw_packet_def bit_of_nat_iff possible_bit_word bit_bits_val)

lemma table_wf_reset: "table_wf fs reset_offsets"
  by (simp add: table_wf_def reset_offsets_def numbers_def)

lemma line_ok_found:
  assumes "field_roots fs = [0]" "list_all (entry_found ctx) (offset_groups gt)" "line_ok fs gt (Match bs d)"
    "find_action ctx (int (number d)) = Inr (Some a)"
  shows "line_found number ctx (Match bs d)"
proof -
  have "group_found ctx g" if g: "known fs gt g" for g
  proof (cases "g = 0")
    case True
    then show ?thesis by (simp add: group_found_def find_group_def)
  next
    case False
    with g assms(1) obtain og where og: "og \<in> set (offset_groups gt)" "og_number og = g"
      by (auto simp: known_def numbers_def)
    then have "entry_found ctx og" using assms(2) by (simp add: list_all_iff)
    then show ?thesis using og(2) by (auto simp: entry_found_def group_found_def split: sum.splits)
  qed
  then show ?thesis using assms(3,4) by (auto simp: line_found_def bits_found_def bits_ok_def list_all_iff)
qed

text \<open>The actions of all lines are in the block.\<close>

definition actions_found :: "(data \<Rightarrow> nat) \<Rightarrow> tcc_context \<Rightarrow> ext_line list \<Rightarrow> bool" where
  "actions_found number ctx ls \<longleftrightarrow>
     list_all (\<lambda>l. case find_action ctx (int (number (line_action l))) of Inr (Some a) \<Rightarrow> True | _ \<Rightarrow> False) ls"

lemma lines_found:
  assumes "field_roots fs = [0]" "list_all (entry_found ctx) (offset_groups gt)" "list_all (line_ok fs gt) ls"
    "actions_found number ctx ls"
  shows "list_all (line_found number ctx) ls"
  unfolding list_all_iff
proof
  fix l assume l: "l \<in> set ls"
  obtain bs d where bd: "l = Match bs d" by (cases l)
  have "case find_action ctx (int (number d)) of Inr (Some a) \<Rightarrow> True | _ \<Rightarrow> False"
    using assms(4) l bd by (auto simp: actions_found_def list_all_iff)
  then obtain a where "find_action ctx (int (number d)) = Inr (Some a)" by (auto split: sum.splits option.splits)
  from line_ok_found [where number = number and d = d, OF assms(1,2) _ this] show "line_found number ctx l"
    using assms(3) l bd by (auto simp: list_all_iff)
qed

text \<open>What \<open>scan_offsets\<close> and \<open>dump_rules\<close> leave, for the single root of a packet.\<close>

lemma dump_rules_scanned:
  assumes "scan_offsets fs d reset_offsets = Inr gt" "dump_rules fs d gt = Inr (gt', ls)"
    "field_roots fs = [0]" "roots_in {0} d" "small_accesses d"
  shows "gt' = gt" "table_wf fs gt" "list_all (line_ok fs gt) ls"
  using dump_rules_walk [OF assms(1) table_wf_reset _ _ assms(5,2)] assms(3,4) by simp_all

lemma table_numbers: "table_wf fs gt \<Longrightarrow> list_all (\<lambda>g. 2 \<le> og_number g) (offset_groups gt)"
  by (auto simp: table_wf_def numbers_def list_all_iff AUTO_OFFSET_GROUP_BASE_def)

lemma offsets_parse:
  assumes "field_roots fs = [0]" "table_wf fs gt" "cx_groups ctx = []"
  shows "\<exists>ctx1. parse_lines ctx (map offset_text (offset_groups gt)) = Inr ctx1 \<and> cx_blocks ctx1 = cx_blocks ctx \<and>
    list_all (entry_found ctx1) (offset_groups gt)"
proof -
  have "groups_wf {0} (offset_groups gt)" using assms(1,2) by (simp add: table_wf_def)
  from parse_offset_lines [OF this, of ctx] table_numbers [OF assms(2)] assms(3) show ?thesis
    by (auto simp: group_found_def find_group_def)
qed

section \<open>An example\<close>

text \<open>
  The packet has the offset 2 in its first byte; the expression drops packets with a 5 at this offset.
\<close>

definition sample_roots :: field_state where
  "sample_roots = \<lparr>field_list = [], level = 0, next_fid = 0, field_roots = [0]\<rparr>"

definition sample_expr :: data where
  "sample_expr = D_op dt_unum op_offset
     (D_op dt_unum op_logical_and (D_op dt_unum op_eq (D_op dt_unum op_access D_none (D_unum 0) (D_unum 8)) (D_unum 5) D_none)
       (D_decision dr_drop None) D_none)
     (D_op dt_unum op_access D_none (D_unum 0) (D_unum 8)) D_none"

definition sample_table :: group_table where
  "sample_table = \<lparr>offset_groups = [\<lparr>og_number = 100, og_base = 0, og_value_base = 0, og_offset = 0, og_length = 8, og_shift = 3\<rparr>],
     next_offset_group = 101\<rparr>"

definition sample_lines :: "ext_line list" where
  "sample_lines = [Match (map (\<lambda>i. \<lparr>bm_group = 100, bm_offset = int i, bm_value = (i = 5 \<or> i = 7)\<rparr>) [0..<8]) (D_decision dr_drop None)]"

definition sample_block :: tcc_block where
  "sample_block = \<lparr>bl_name = ''eth0'', bl_ingress = True, bl_qdiscs = [], bl_actions = [(1, A_drop)], bl_rules = [], bl_pragmas = [],
     bl_location = location ''device eth0''\<rparr>"

definition sample_context :: tcc_context where
  "sample_context = empty_context\<lparr>cx_blocks := [sample_block]\<rparr>"

definition sample_rules :: "tcc_rule list" where
  "sample_rules = [\<lparr>matches_of = [\<lparr>match_field = \<lparr>tf_group = G_offset 100 G_raw G_raw 0 8 3, tf_offset = 0, tf_length = 8\<rparr>,
     match_data = [5, 0, 0, 0]\<rparr>], rule_action = Some A_drop\<rparr>]"

lemma sample_scan: "scan_offsets sample_roots sample_expr reset_offsets = Inr sample_table"
  by code_simp

lemma sample_dump: "dump_rules sample_roots sample_expr sample_table = Inr (sample_table, sample_lines)"
  by code_simp

lemma sample_form: "roots_in {0} sample_expr" "small_accesses sample_expr" "field_roots sample_roots = [0]"
  by (simp_all add: sample_expr_def sample_roots_def)

lemma sample_actions: "actions_found (\<lambda>d. 1) sample_context sample_lines"
  by code_simp

lemma sample_parse:
  "parse_lines sample_context (map offset_text (offset_groups sample_table) @ map (line_text (\<lambda>d. 1)) sample_lines) =
   Inr (sample_context\<lparr>cx_groups := [(100, G_offset 100 G_raw G_raw 0 8 3)],
     cx_blocks := [sample_block\<lparr>bl_rules := sample_rules\<rparr>]\<rparr>)"
  by code_simp

definition sample_raw :: "u8 list" where
  "sample_raw = [2, 0, 5, 9]"

definition sample_env :: "unit env" where
  "sample_env = \<lparr>packet = raw_packet sample_raw, conforms = (\<lambda>s d. False), counts = (\<lambda>s d. s)\<rparr>"

definition sample_act :: "tcc_action \<Rightarrow> unit \<Rightarrow> (int \<times> unit) result" where
  "sample_act a st = Inr (if a = A_drop then 2 else 0, st)"

lemma bits_val_unfold: "0 < n \<Longrightarrow> bits_val f p n = 2 * bits_val f p (n - 1) + of_bool (f (p + (n - 1)))"
  by (cases n) simp_all

lemma sample_byte: "bits_val (raw_bit sample_raw) 0 8 = 2" "bits_val (raw_bit sample_raw) 16 8 = 5"
  by (simp_all add: bits_val_unfold raw_bit_def sample_raw_def)

lemma sample_start: "group_start (G_offset 100 G_raw G_raw 0 8 3) sample_raw = 16"
  by (simp add: sample_byte push_bit_eq_mult)

lemma sample_fit: "rules_fit sample_raw sample_rules"
  using sample_start by (simp add: sample_rules_def match_fits_def sample_raw_def)

lemma sample_selects: "list_ex (\<lambda>k. list_ex (\<lambda>j. selects 0xffffffff 8 k j \<and> 0 \<le> (3 :: int) + int k) [0..<33]) [0..<33]"
proof -
  have "selects 0xffffffff 8 0 8" by (simp add: selects_def mask_eq_exp_minus_1 take_bit_eq_mod)
  then have "\<exists>k\<in>set [0..<33]. \<exists>j\<in>set [0..<33]. selects 0xffffffff 8 k j \<and> 0 \<le> (3 :: int) + int k"
    by (intro bexI [where x = 0] bexI [where x = 8]) simp_all
  then show ?thesis unfolding list_ex_iff .
qed

lemma sample_neval: "raw_packet sample_raw 0 0 8 = 2" "raw_packet sample_raw 0 2 8 = 5"
  by (simp_all add: raw_packet_def sample_byte)

lemma sample_rule_form: "rule_form sample_roots sample_env (0, 0) sample_expr"
  using sample_selects sample_neval
  by (simp add: sample_expr_def sample_roots_def sample_env_def eq_test_def offset_ok_op form_ok_op in_range_def bit_size_def)

section \<open>Properties\<close>



text \<open>Rules that stand for the lines of an expression decide like the expression.\<close>

lemma rules_decide:
  assumes "scan_offsets fs d reset_offsets = Inr gt" "dump_rules fs d gt = Inr (gt', ls)"
    "field_roots fs = [0]" "roots_in {0} d" "small_accesses d"
    "packet E = raw_packet raw" "rule_form fs E (0, 0) d"
    "list_all (entry_found ctx1) (offset_groups gt)" "list_all2 (rule_for number ctx1) ls rs" "rules_fit raw rs"
  shows "\<exists>choice. set_option choice \<subseteq> line_action ` set ls \<and>
    (\<forall>s. xrun E (0, 0) d s = (case choice of None \<Rightarrow> (V_false, s) | Some e \<Rightarrow> xrun E (0, 0) e s)) \<and>
    (\<forall>st. match_rules act rs raw ntohs protocol st =
       (case choice of None \<Rightarrow> Inr (-1, st) | Some e \<Rightarrow> act_line act number ctx1 e st))"
proof -
  note scan = dump_rules_scanned [OF assms(1-5)]
  let ?B = "read_bits ctx1 raw"
  have "linked E (\<lambda>r. raw_bit raw)" by (rule raw_packet_linked) fact
  from dump_rules_ok [OF this assms(7), of gt] assms(2,3) scan(1) have
      "\<forall>B s. table_bits fs gt (\<lambda>r. raw_bit raw) B \<longrightarrow> rules_run E B ls s = xrun E (0, 0) d s" by auto
  then have run: "rules_run E ?B ls s = xrun E (0, 0) d s" for s
    using read_table_bits [where P = "\<lambda>r. raw_bit raw", OF assms(3) refl assms(8)] by blast
  have "match_rules act rs raw ntohs protocol st =
      (case first_line ?B ls of None \<Rightarrow> Inr (-1, st) | Some e \<Rightarrow> act_line act number ctx1 e st)" for st
    by (rule match_rules_lines [OF assms(9,10)])
  moreover have "xrun E (0, 0) d s = (case first_line ?B ls of None \<Rightarrow> (V_false, s) | Some e \<Rightarrow> xrun E (0, 0) e s)" for s
    unfolding run [symmetric] by (rule rules_run_first)
  moreover have "set_option (first_line ?B ls) \<subseteq> line_action ` set ls"
    by (induction ls rule: first_line.induct [where ?a0.0 = ?B]) auto
  ultimately show ?thesis by blast
qed



text \<open>
  C17: The table of offset groups that is written before the rules is complete. After \<open>scan_offsets\<close>
  the walk of \<open>dump_rules\<close> over the same expression creates no group; the numbers in the table
  are different from each other and from the roots, every entry refers to the roots and to earlier entries,
  and every bit of a line belongs to a group of the table or to a root.
\<close>

theorem dump_rules_adds_no_group:
  assumes "scan_offsets fs d gt = Inr gt1" "table_wf fs gt" "0 \<in> set (field_roots fs)"
    "roots_in (set (field_roots fs)) d" "small_accesses d" "dump_rules fs d gt1 = Inr (gt2, ls)"
  shows "gt2 = gt1 \<and> table_wf fs gt1 \<and> list_all (line_ok fs gt1) ls"
  using dump_rules_walk [OF assms] by blast

lemma dump_rules_adds_no_group_witness:
  "sample_table = sample_table \<and> table_wf sample_roots sample_table \<and> list_all (line_ok sample_roots sample_table) sample_lines"
  by (rule dump_rules_adds_no_group [OF sample_scan table_wf_reset _ _ sample_form(2) sample_dump])
    (use sample_form in simp_all)


end
