(* ===== verification/Actdb_Lines.thy ===== *)
theory Actdb_Lines
  imports Actdb_Store Ext_Lines
begin

text \<open>
  \<^verbatim>\<open>tcc/iflib_actdb.c\<close>, third part: the nodes of the store get numbers, and each becomes a line that the
  parser of \<^verbatim>\<open>tcc/ext/tccext.c\<close> reads.

  The walks follow the children of a node. Children have smaller indices than their parents in a store
  (\<open>db_ok\<close>); a walk stops with an error where this does not hold, so that it ends on any list of nodes.
\<close>

fun each :: "('a \<Rightarrow> 's \<Rightarrow> 's result) \<Rightarrow> 'a list \<Rightarrow> 's \<Rightarrow> 's result" where
  "each f [] st = Inr st"
| "each f (x # xs) st = rbind (f x st) (each f xs)"

section \<open>Numbers\<close>

text \<open>
  The first pass of \<open>assign_indices\<close>: a class gets the low byte of its number when no other class has it.
  The state is the number of every node, -1 for none, and the table of the numbers taken.
\<close>

function assign_preferred ::
  "class_info \<Rightarrow> node list \<Rightarrow> nat \<Rightarrow> (nat \<Rightarrow> int) \<times> int list \<Rightarrow> ((nat \<Rightarrow> int) \<times> int list) result" where
  "assign_preferred info cs i st =
     (case cs ! i of
        N_conform p c1 c0 \<Rightarrow>
          if c1 < i \<and> c0 < i
          then rbind (assign_preferred info cs c0 st) (\<lambda>st. assign_preferred info cs c1 st)
          else Inl E_abort
      | N_count p c1 \<Rightarrow> if c1 < i then assign_preferred info cs c1 st else Inl E_abort
      | N_class None \<Rightarrow> if fst st i = -1 then Inl (E_undef ''null class'') else Inr st
      | N_class (Some c) \<Rightarrow>
          let n = uint (and (cls_number info c) 0xff)
          in if fst st i = -1 \<and> n \<notin> set (snd st) then Inr ((fst st)(i := n), snd st @ [n]) else Inr st
      | _ \<Rightarrow> Inr st)"
  by pat_completeness auto

termination assign_preferred
  by (relation "measure (\<lambda>(info, cs, i, st). i)") auto

declare assign_preferred.simps [simp del]

text \<open>
  The table is sorted for the second pass and \<open>preferred\<close> points into it; \<open>rest\<close> is the table from
  there on, without the -1 that ends it and that no index is equal to.
\<close>

definition number_available_fast :: "int \<Rightarrow> int list \<Rightarrow> bool \<times> int list" where
  "number_available_fast index rest =
     (let rest = (case rest of x # xs \<Rightarrow> if x < index then xs else rest | [] \<Rightarrow> [])
      in (rest = [] \<or> hd rest \<noteq> index, rest))"

function next_number :: "int \<Rightarrow> int list \<Rightarrow> int \<times> int list" where
  "next_number index rest =
     (let (ok, rest') = number_available_fast index rest
      in if ok then (index, rest') else next_number (index + 1) rest')"
  by pat_completeness auto

lemma number_taken:
  "number_available_fast index rest = (False, rest') \<Longrightarrow> \<exists>xs. rest' = index # xs \<and> (\<exists>ys. rest = ys @ rest')"
  by (cases rest) (auto simp: number_available_fast_def Let_def neq_Nil_conv split: if_split_asm)

termination next_number
proof (relation "measure (\<lambda>(index, rest). length (filter (\<lambda>x. index \<le> x) rest))")
  fix index rest x ok rest'
  assume "x = number_available_fast index rest" "(ok, rest') = x" "\<not> ok"
  then obtain xs ys where r: "rest' = index # xs" "rest = ys @ rest'"
    using number_taken [of index rest rest'] by auto
  have "length (filter (\<lambda>x. index + 1 \<le> x) xs) \<le> length (filter (\<lambda>x. index \<le> x) xs)"
    by (induction xs) auto
  then show "((index + 1, rest'), index, rest) \<in> measure (\<lambda>(index, rest). length (filter (\<lambda>x. index \<le> x) rest))"
    by (simp add: r)
qed simp

declare next_number.simps [simp del]

text \<open>The second pass: every other node gets the next number that is free.\<close>

definition take_number :: "nat \<Rightarrow> (nat \<Rightarrow> int) \<times> int \<times> int list \<Rightarrow> (nat \<Rightarrow> int) \<times> int \<times> int list" where
  "take_number i st =
     (case st of (num, index, rest) \<Rightarrow>
        if num i \<noteq> -1 then st
        else let (index, rest) = next_number index rest in (num(i := index), index + 1, rest))"

function assign_rest :: "node list \<Rightarrow> nat \<Rightarrow> (nat \<Rightarrow> int) \<times> int \<times> int list \<Rightarrow> ((nat \<Rightarrow> int) \<times> int \<times> int list) result" where
  "assign_rest cs i st =
     rbind (case cs ! i of
        N_conform p c1 c0 \<Rightarrow>
          if c1 < i \<and> c0 < i then rbind (assign_rest cs c0 st) (\<lambda>st. assign_rest cs c1 st) else Inl E_abort
      | N_count p c1 \<Rightarrow> if c1 < i then assign_rest cs c1 st else Inl E_abort
      | _ \<Rightarrow> Inr st)
     (\<lambda>st. Inr (take_number i st))"
  by pat_completeness auto

termination assign_rest
  by (relation "measure (\<lambda>(cs, i, st). i)") auto

declare assign_rest.simps [simp del]

definition assign_indices :: "class_info \<Rightarrow> action_db \<Rightarrow> (nat \<Rightarrow> int) result" where
  "assign_indices info db =
     rbind (each (assign_preferred info (cells db)) (roots db) (\<lambda>_. -1, [])) (\<lambda>(num, table).
     rbind (each (assign_rest (cells db)) (roots db) (num, 0, sort table)) (\<lambda>(num, _, _). Inr num))"

section \<open>Lines\<close>

text \<open>\<open>dump_items\<close> with \<^verbatim>\<open>dump_all\<close> off; \<open>pol\<close> gives the number of a policer.\<close>

function dump_items :: "(nat \<Rightarrow> u32) \<Rightarrow> class_info \<Rightarrow> node list \<Rightarrow> (nat \<Rightarrow> int) \<Rightarrow> nat \<Rightarrow> bool \<Rightarrow> string result" where
  "dump_items pol info cs num i first =
     (if num i \<noteq> -1 \<and> \<not> first then Inr ('' action '' @ dec_int (num i))
      else case cs ! i of
        N_conform p c1 c0 \<Rightarrow>
          if c1 < i \<and> c0 < i
          then rbind (dump_items pol info cs num c1 False) (\<lambda>yes.
               rbind (dump_items pol info cs num c0 False) (\<lambda>no.
               Inr ('' conform '' @ dec (unat (pol p)) @ yes @ no)))
          else Inl E_abort
      | N_count p c1 \<Rightarrow>
          if c1 < i
          then rbind (dump_items pol info cs num c1 False) (\<lambda>yes. Inr ('' count '' @ dec (unat (pol p)) @ yes))
          else Inl E_abort
      | N_class None \<Rightarrow> Inl (E_undef ''null class'')
      | N_class (Some c) \<Rightarrow>
          (case cls_qdisc info c of
             None \<Rightarrow> Inl (E_undef ''null qdisc'')
           | Some q \<Rightarrow> Inr ('' class '' @ dec (unat q) @ '':'' @ dec (unat (cls_number info c))))
      | N_drop \<Rightarrow> Inr '' drop''
      | N_unspec \<Rightarrow> Inr '' unspec'')"
  by pat_completeness auto

termination dump_items
  by (relation "measure (\<lambda>(pol, info, cs, num, i, top). i)") auto

declare dump_items.simps [simp del]

text \<open>The state is the flag \<open>dumped\<close> of every node and the lines written.\<close>

function dump_subtree ::
  "(nat \<Rightarrow> u32) \<Rightarrow> class_info \<Rightarrow> node list \<Rightarrow> (nat \<Rightarrow> int) \<Rightarrow> nat \<Rightarrow> (nat \<Rightarrow> bool) \<times> string list \<Rightarrow>
   ((nat \<Rightarrow> bool) \<times> string list) result" where
  "dump_subtree pol info cs num i st =
     rbind (case cs ! i of
        N_conform p c1 c0 \<Rightarrow>
          if c1 < i \<and> c0 < i
          then rbind (dump_subtree pol info cs num c0 st) (\<lambda>st. dump_subtree pol info cs num c1 st)
          else Inl E_abort
      | N_count p c1 \<Rightarrow> if c1 < i then dump_subtree pol info cs num c1 st else Inl E_abort
      | _ \<Rightarrow> Inr st)
     (\<lambda>(dumped, ls).
        if dumped i then Inr (dumped, ls)
        else rbind (dump_items pol info cs num i True) (\<lambda>items.
          Inr (dumped(i := True), ls @ [''action '' @ dec_int (num i) @ '' ='' @ items @ [CHR 0x0A]])))"
  by pat_completeness auto

termination dump_subtree
  by (relation "measure (\<lambda>(pol, info, cs, num, i, st). i)") auto

declare dump_subtree.simps [simp del]

definition write_actions :: "(nat \<Rightarrow> u32) \<Rightarrow> class_info \<Rightarrow> action_db \<Rightarrow> ((nat \<Rightarrow> int) \<times> string list) result" where
  "write_actions pol info db =
     rbind (assign_indices info db) (\<lambda>num.
     rbind (each (dump_subtree pol info (cells db) num) (roots db) (\<lambda>_. False, [])) (\<lambda>(_, ls). Inr (num, ls)))"

section \<open>Stores whose walks end well\<close>

text \<open>The nodes on and below a node.\<close>

function below :: "node list \<Rightarrow> nat \<Rightarrow> nat list" where
  "below cs i = i # concat (map (\<lambda>c. if c < i then below cs c else []) (rev (children (cs ! i))))"
  by pat_completeness auto

termination below
  by (relation "measure (\<lambda>(cs, i). i)") auto

declare below.simps [simp del]

lemma below_self: "i \<in> set (below cs i)"
  by (subst below.simps) simp

text \<open>What the walks need of a node: its children come before it, and its class has a number.\<close>

definition node_ok :: "class_info \<Rightarrow> node list \<Rightarrow> nat \<Rightarrow> bool" where
  "node_ok info cs i \<longleftrightarrow>
     i < length cs \<and> (\<forall>c \<in> set (children (cs ! i)). c < i) \<and>
     (case cs ! i of N_class None \<Rightarrow> False | N_class (Some c) \<Rightarrow> cls_qdisc info c \<noteq> None | _ \<Rightarrow> True)"

definition walk_ok :: "class_info \<Rightarrow> node list \<Rightarrow> nat \<Rightarrow> bool" where
  "walk_ok info cs i \<longleftrightarrow> (\<forall>j \<in> set (below cs i). node_ok info cs j)"

lemma below_conform:
  assumes "walk_ok info cs i" "cs ! i = N_conform p c1 c0"
  shows "c1 < i" "c0 < i" "below cs i = i # below cs c0 @ below cs c1" "walk_ok info cs c0" "walk_ok info cs c1"
proof -
  have "node_ok info cs i" using assms(1) below_self by (auto simp: walk_ok_def)
  then show c: "c1 < i" "c0 < i" using assms(2) by (auto simp: node_ok_def)
  show b: "below cs i = i # below cs c0 @ below cs c1" using c assms(2) by (subst below.simps) simp
  show "walk_ok info cs c0" "walk_ok info cs c1" using assms(1) by (auto simp: walk_ok_def b)
qed

lemma below_count:
  assumes "walk_ok info cs i" "cs ! i = N_count p c1"
  shows "c1 < i" "below cs i = i # below cs c1" "walk_ok info cs c1"
proof -
  have "node_ok info cs i" using assms(1) below_self by (auto simp: walk_ok_def)
  then show c: "c1 < i" using assms(2) by (auto simp: node_ok_def)
  show b: "below cs i = i # below cs c1" using c assms(2) by (subst below.simps) simp
  show "walk_ok info cs c1" using assms(1) by (auto simp: walk_ok_def b)
qed

lemma below_leaf: "leaf (cs ! i) \<Longrightarrow> below cs i = [i]"
  by (subst below.simps) (simp add: leaf_children)

lemma walk_class: "walk_ok info cs i \<Longrightarrow> cs ! i = N_class c \<Longrightarrow> \<exists>c' q. c = Some c' \<and> cls_qdisc info c' = Some q"
  using bspec [OF _ below_self, of cs i "node_ok info cs"] by (auto simp: walk_ok_def node_ok_def split: option.splits)

section \<open>The numbers differ\<close>

definition named :: "(nat \<Rightarrow> int) \<Rightarrow> nat set" where
  "named num = {i. num i \<noteq> -1}"

text \<open>A later table of numbers keeps the earlier numbers.\<close>

definition keeps :: "(nat \<Rightarrow> int) \<Rightarrow> (nat \<Rightarrow> int) \<Rightarrow> bool" where
  "keeps num num' \<longleftrightarrow> (\<forall>i. num i \<noteq> -1 \<longrightarrow> num' i = num i)"

lemma keeps_refl [simp]: "keeps num num"
  by (simp add: keeps_def)

lemma keeps_trans: "keeps a b \<Longrightarrow> keeps b c \<Longrightarrow> keeps a c"
  by (simp add: keeps_def)

lemma keeps_named: "keeps a b \<Longrightarrow> named a \<subseteq> named b"
  by (auto simp: keeps_def named_def)

definition preferred_ok :: "(nat \<Rightarrow> int) \<times> int list \<Rightarrow> bool" where
  "preferred_ok st \<longleftrightarrow> inj_on (fst st) (named (fst st)) \<and> fst st ` named (fst st) \<subseteq> set (snd st) \<and> distinct (snd st) \<and>
     (\<forall>n \<in> set (snd st). 0 \<le> n)"

lemma inj_on_new:
  assumes "inj_on num (named num)" "n \<notin> num ` named num" "num i = -1" "0 \<le> n"
  shows "inj_on (num(i := n)) (named (num(i := n)))" "named (num(i := n)) = insert i (named num)"
    "(num(i := n)) ` named (num(i := n)) = insert n (num ` named num)"
proof -
  show e: "named (num(i := n)) = insert i (named num)" using assms(4) by (auto simp: named_def)
  have i: "i \<notin> named num" using assms(3) by (simp add: named_def)
  then have s: "(num(i := n)) ` named num = num ` named num" by (intro image_cong) auto
  show "inj_on (num(i := n)) (named (num(i := n)))"
    using assms(1,2) i unfolding e by (auto simp: inj_on_def)
  show "(num(i := n)) ` named (num(i := n)) = insert n (num ` named num)"
    unfolding e image_insert s by simp
qed

lemma assign_preferred_ok:
  "walk_ok info cs i \<Longrightarrow> preferred_ok st \<Longrightarrow> \<exists>st'. assign_preferred info cs i st = Inr st' \<and> preferred_ok st'"
proof (induction info cs i st rule: assign_preferred.induct)
  case (1 info cs i st)
  show ?case
  proof (cases "cs ! i")
    case (N_conform p c1 c0)
    note b = below_conform [OF "1.prems"(1) N_conform]
    obtain st1 where 1: "assign_preferred info cs c0 st = Inr st1" "preferred_ok st1"
      using "1.IH"(1) [OF N_conform conjI [OF b(1,2)] b(4) "1.prems"(2)] by blast
    then show ?thesis
      using "1.IH"(2) [OF N_conform conjI [OF b(1,2)] 1(1) b(5) 1(2)] b(1,2) N_conform by (subst assign_preferred.simps) simp
  next
    case (N_count p c1)
    note b = below_count [OF "1.prems"(1) N_count]
    show ?thesis
      using "1.IH"(3) [OF N_count b(1,3) "1.prems"(2)] b(1) N_count by (subst assign_preferred.simps) simp
  next
    case (N_class c)
    then obtain c' where c: "c = Some c'" using walk_class [OF "1.prems"(1)] by blast
    let ?n = "uint (and (cls_number info c') 0xff)"
    show ?thesis
    proof (cases "fst st i = -1 \<and> ?n \<notin> set (snd st)")
      case True
      then have "?n \<notin> fst st ` named (fst st)" using "1.prems"(2) by (auto simp: preferred_ok_def)
      then have "preferred_ok ((fst st)(i := ?n), snd st @ [?n])"
        using "1.prems"(2) True inj_on_new [of "fst st" ?n i] by (auto simp: preferred_ok_def)
      then show ?thesis using N_class c True by (subst assign_preferred.simps) (simp add: Let_def)
    next
      case False
      then have "assign_preferred info cs i st = Inr st"
        using N_class c by (subst assign_preferred.simps) (auto simp: Let_def)
      then show ?thesis using "1.prems"(2) by blast
    qed
  qed (use "1.prems"(2) in \<open>subst assign_preferred.simps, simp\<close>)+
qed

text \<open>
  The rest of the table is sorted and starts at most one below the index: it never has to move by more
  than one entry.
\<close>

definition table_ok :: "int list \<Rightarrow> int \<Rightarrow> int list \<Rightarrow> bool" where
  "table_ok table index rest \<longleftrightarrow> sorted_wrt (<) rest \<and> 0 \<le> index \<and> (\<forall>x \<in> set rest. index - 1 \<le> x) \<and>
     (\<forall>x \<in> set table. x \<in> set rest \<or> x < index)"

lemma number_available_ok:
  assumes "table_ok table index rest" "number_available_fast index rest = (ok, rest')"
  shows "table_ok table index rest'" "\<forall>x \<in> set rest'. index \<le> x" "ok \<longleftrightarrow> index \<notin> set rest'"
proof -
  have r: "rest' = (case rest of x # xs \<Rightarrow> if x < index then xs else rest | [] \<Rightarrow> [])" "ok \<longleftrightarrow> rest' = [] \<or> hd rest' \<noteq> index"
    using assms(2) by (auto simp: number_available_fast_def Let_def)
  show "table_ok table index rest'" and ge: "\<forall>x \<in> set rest'. index \<le> x"
  proof -
    show "table_ok table index rest'"
      using assms(1) unfolding r(1) by (cases rest) (auto simp: table_ok_def)
    have "index \<le> y" if "y \<in> set rest'" for y
    proof (cases rest)
      case (Cons x xs)
      then show ?thesis using assms(1) that r(1) by (cases "x < index") (auto simp: table_ok_def dest!: bspec)
    qed (use that r(1) in simp)
    then show "\<forall>y \<in> set rest'. index \<le> y" by blast
  qed
  then show "ok \<longleftrightarrow> index \<notin> set rest'"
    using r(2) by (cases rest') (auto simp: table_ok_def)
qed

lemma next_number_ok:
  "table_ok table index rest \<Longrightarrow> next_number index rest = (index', rest') \<Longrightarrow>
     index \<le> index' \<and> index' \<notin> set table \<and> table_ok table (index' + 1) rest'"
proof (induction index rest arbitrary: index' rest' rule: next_number.induct)
  case (1 index rest)
  obtain ok r where a: "number_available_fast index rest = (ok, r)" by fastforce
  note t = number_available_ok [OF "1.prems"(1) a]
  show ?case
  proof (cases ok)
    case True
    then have "index' = index" "rest' = r" using "1.prems"(2) a by (simp_all add: next_number.simps [of index])
    then show ?thesis using t True by (fastforce simp: table_ok_def)
  next
    case False
    have "table_ok table (index + 1) r" using t by (fastforce simp: table_ok_def)
    moreover have "next_number (index + 1) r = (index', rest')"
      using "1.prems"(2) a False by (simp add: next_number.simps [of index])
    ultimately show ?thesis using "1.IH" [OF a [symmetric] refl False] by fastforce
  qed
qed

definition numbers_ok :: "int list \<Rightarrow> (nat \<Rightarrow> int) \<times> int \<times> int list \<Rightarrow> bool" where
  "numbers_ok table st \<longleftrightarrow> (case st of (num, index, rest) \<Rightarrow>
     table_ok table index rest \<and> inj_on num (named num) \<and>
     (\<forall>i \<in> named num. 0 \<le> num i \<and> (num i \<in> set table \<or> num i < index)))"

lemma numbers_ok_next:
  assumes "numbers_ok table (num, index, rest)" "num i = -1" "next_number index rest = (index', rest')"
  shows "numbers_ok table (num(i := index'), index' + 1, rest')"
proof -
  have n: "index \<le> index'" "index' \<notin> set table" "table_ok table (index' + 1) rest'" "0 \<le> index"
    using next_number_ok [OF _ assms(3)] assms(1) by (auto simp: numbers_ok_def table_ok_def)
  have "index' \<notin> num ` named num" using assms(1) n(1,2) by (fastforce simp: numbers_ok_def)
  then show ?thesis
    using assms(1,2) n inj_on_new [of num index' i] by (fastforce simp: numbers_ok_def)
qed

lemma take_number_ok:
  assumes "numbers_ok table st"
  shows "numbers_ok table (take_number i st)" "keeps (fst st) (fst (take_number i st))" "i \<in> named (fst (take_number i st))"
proof -
  obtain num index rest where st: "st = (num, index, rest)" by (cases st)
  obtain index' rest' where n: "next_number index rest = (index', rest')" by fastforce
  have "0 \<le> index'" using next_number_ok [OF _ n] assms by (fastforce simp: st numbers_ok_def table_ok_def)
  then show "numbers_ok table (take_number i st)" "keeps (fst st) (fst (take_number i st))" "i \<in> named (fst (take_number i st))"
    using numbers_ok_next [OF assms [unfolded st] _ n] assms by (auto simp: st n take_number_def keeps_def named_def)
qed

lemma assign_rest_ok:
  "walk_ok info cs i \<Longrightarrow> numbers_ok table st \<Longrightarrow> \<exists>st'. assign_rest cs i st = Inr st' \<and> numbers_ok table st' \<and>
     keeps (fst st) (fst st') \<and> set (below cs i) \<subseteq> named (fst st')"
proof (induction cs i st rule: assign_rest.induct)
  case (1 cs i st)
  show ?case
  proof (cases "cs ! i")
    case (N_conform p c1 c0)
    note b = below_conform [OF "1.prems"(1) N_conform]
    obtain st1 where 1: "assign_rest cs c0 st = Inr st1" "numbers_ok table st1" "keeps (fst st) (fst st1)"
        "set (below cs c0) \<subseteq> named (fst st1)"
      using "1.IH"(1) [OF N_conform conjI [OF b(1,2)] b(4) "1.prems"(2)] by blast
    obtain st2 where 2: "assign_rest cs c1 st1 = Inr st2" "numbers_ok table st2" "keeps (fst st1) (fst st2)"
        "set (below cs c1) \<subseteq> named (fst st2)"
      using "1.IH"(2) [OF N_conform conjI [OF b(1,2)] 1(1) b(5) 1(2)] by blast
    note o = take_number_ok [OF 2(2), of i]
    have "assign_rest cs i st = Inr (take_number i st2)"
      using N_conform b(1,2) 1(1) 2(1) by (subst assign_rest.simps) simp
    moreover have "keeps (fst st) (fst (take_number i st2))" using 1(3) 2(3) o(2) keeps_trans by blast
    moreover have "set (below cs i) \<subseteq> named (fst (take_number i st2))"
      using 1(4) 2(4) keeps_named [OF 2(3)] keeps_named [OF o(2)] o(3) by (simp add: b(3)) blast
    ultimately show ?thesis using o(1) by blast
  next
    case (N_count p c1)
    note b = below_count [OF "1.prems"(1) N_count]
    obtain st2 where 2: "assign_rest cs c1 st = Inr st2" "numbers_ok table st2" "keeps (fst st) (fst st2)"
        "set (below cs c1) \<subseteq> named (fst st2)"
      using "1.IH"(3) [OF N_count b(1,3) "1.prems"(2)] by blast
    note o = take_number_ok [OF 2(2), of i]
    have "assign_rest cs i st = Inr (take_number i st2)"
      using N_count b(1) 2(1) by (subst assign_rest.simps) simp
    moreover have "set (below cs i) \<subseteq> named (fst (take_number i st2))"
      using 2(4) keeps_named [OF o(2)] o(3) by (auto simp: b(2))
    ultimately show ?thesis using o(1) keeps_trans [OF 2(3) o(2)] by blast
  qed (use take_number_ok [OF "1.prems"(2), of i] below_leaf [of cs i] in \<open>simp_all add: assign_rest.simps [of cs i]\<close>)
qed

lemma each_preferred_ok:
  "\<forall>i \<in> set is. walk_ok info cs i \<Longrightarrow> preferred_ok st \<Longrightarrow>
     \<exists>st'. each (assign_preferred info cs) is st = Inr st' \<and> preferred_ok st'"
proof (induction "is" arbitrary: st)
  case (Cons i "is")
  then obtain st1 where "assign_preferred info cs i st = Inr st1" "preferred_ok st1"
    using assign_preferred_ok [of info cs i st] by auto
  then show ?case using Cons by simp
qed simp

lemma each_rest_ok:
  "\<forall>i \<in> set is. walk_ok info cs i \<Longrightarrow> numbers_ok table st \<Longrightarrow>
     \<exists>st'. each (assign_rest cs) is st = Inr st' \<and> numbers_ok table st' \<and> keeps (fst st) (fst st') \<and>
       (\<forall>i \<in> set is. set (below cs i) \<subseteq> named (fst st'))"
proof (induction "is" arbitrary: st)
  case (Cons i "is")
  then obtain st1 where 1: "assign_rest cs i st = Inr st1" "numbers_ok table st1" "keeps (fst st) (fst st1)"
      "set (below cs i) \<subseteq> named (fst st1)"
    using assign_rest_ok [of info cs i table st] by auto
  obtain st2 where 2: "each (assign_rest cs) is st1 = Inr st2" "numbers_ok table st2" "keeps (fst st1) (fst st2)"
      "\<forall>i \<in> set is. set (below cs i) \<subseteq> named (fst st2)"
    using Cons.IH [OF _ 1(2)] Cons.prems(1) by auto
  then show ?case using 1 keeps_trans [OF 1(3) 2(3)] keeps_named [OF 2(3)] by auto
qed simp

text \<open>Every node below an entry point gets a number, and no two nodes get the same.\<close>

lemma assign_indices_ok:
  assumes "\<forall>i \<in> set (roots db). walk_ok info (cells db) i"
  shows "\<exists>num. assign_indices info db = Inr num \<and> inj_on num (named num) \<and> (\<forall>i \<in> named num. 0 \<le> num i) \<and>
    (\<forall>i \<in> set (roots db). set (below (cells db) i) \<subseteq> named num)"
proof -
  have "preferred_ok (\<lambda>_. -1, [])" by (simp add: preferred_ok_def named_def)
  then obtain num table where 1: "each (assign_preferred info (cells db)) (roots db) (\<lambda>_. -1, []) = Inr (num, table)"
      "preferred_ok (num, table)"
    using each_preferred_ok [OF assms] by fastforce
  have "sorted_wrt (<) (sort table)" using 1(2) by (simp add: preferred_ok_def strict_sorted_iff)
  then have "numbers_ok table (num, 0, sort table)"
    using 1(2) by (fastforce simp: preferred_ok_def numbers_ok_def table_ok_def)
  then obtain num' index rest where 2: "each (assign_rest (cells db)) (roots db) (num, 0, sort table) = Inr (num', index, rest)"
      "numbers_ok table (num', index, rest)" "\<forall>i \<in> set (roots db). set (below (cells db) i) \<subseteq> named num'"
    using each_rest_ok [OF assms] by fastforce
  then show ?thesis using 1(1) by (auto simp: assign_indices_def numbers_ok_def)
qed

end
