(* ===== verification/Actdb_Text.thy ===== *)
theory Actdb_Text
  imports Actdb_Lines
begin

text \<open>
  The lines of the actions are read back: the parser of \<^verbatim>\<open>tcc/ext/tccext.c\<close> gets the tree of each node
  under the number of the node.
\<close>

section \<open>Reading one line\<close>

definition separate :: "string \<Rightarrow> bool" where
  "separate s \<longleftrightarrow> s = [] \<or> (\<exists>t. s = CHR '' '' # t)"

lemma scan_separate: "separate s \<Longrightarrow> scan_i (dec n @ s) = Some (int n, s)"
  by (rule scan_i_dec) (auto simp: separate_def is_digit_def)

lemma parse_action_blank: "parse_action ctx (CHR '' '' # s) = parse_action ctx s"
  by (simp add: parse_action.simps [of ctx "CHR '' '' # s"] parse_action.simps [of ctx s])

lemma parse_action_ref:
  assumes "find_action ctx (int n) = Inr (Some a)" "separate s"
  shows "parse_action ctx (''action '' @ dec n @ s) = Inr (a, step s, ctx)"
  by (subst parse_action.simps) (simp add: is_space_def skip_dec scan_blank scan_separate assms)

lemma parse_action_conform:
  assumes "find_bucket ctx (int p) = Inr b" "find_action ctx (int y) = Inr (Some a)" "find_action ctx (int n) = Inr (Some a')"
  shows "parse_action ctx (''conform '' @ dec p @ '' action '' @ dec y @ '' action '' @ dec n) = Inr (A_conform (bucket_chain b) a a', [], ctx)"
proof -
  have "parse_action ctx (step ('' action '' @ dec y @ '' action '' @ dec n)) = Inr (a, ''action '' @ dec n, ctx)"
    using parse_action_ref [OF assms(2), of "'' action '' @ dec n"] by (simp add: step_def separate_def)
  moreover have "parse_action ctx (''action '' @ dec n) = Inr (a', [], ctx)"
    using parse_action_ref [OF assms(3), of "[]"] by (simp add: step_def separate_def)
  moreover have "separate ('' action '' @ dec y @ '' action '' @ dec n)" by (simp add: separate_def)
  ultimately show ?thesis
    by (subst parse_action.simps) (simp add: is_space_def skip_dec scan_blank scan_separate assms(1) step_def)
qed

lemma parse_action_count:
  assumes "find_bucket ctx (int p) = Inr b" "find_action ctx (int y) = Inr (Some a)"
  shows "parse_action ctx (''count '' @ dec p @ '' action '' @ dec y) = Inr (A_count (bucket_chain b) a, [], ctx)"
proof -
  have "parse_action ctx (step ('' action '' @ dec y)) = Inr (a, [], ctx)"
    using parse_action_ref [OF assms(2), of "[]"] by (simp add: step_def separate_def)
  moreover have "separate ('' action '' @ dec y)" by (simp add: separate_def)
  ultimately show ?thesis
    by (subst parse_action.simps) (simp add: is_space_def skip_dec scan_blank scan_separate assms(1) step_def)
qed

lemma parse_action_class:
  "parse_action ctx (''class '' @ dec q @ '':'' @ dec c) =
   Inr (A_class [\<lparr>class_qdisc = int q, class_index = int c\<rparr>], [], change_block (know_class (int q) (int c)) ctx)"
proof -
  have 1: "scan_i (CHR '' '' # dec q @ '':'' @ dec c) = Some (int q, '':'' @ dec c)"
    using scan_i_dec [of "'':'' @ dec c" q] by (simp add: scan_i_def signed_def scan_blank is_digit_def)
  have 2: "scan_i (dec c) = Some (int c, [])" using scan_i_dec [of "[]" c] by simp
  have "parse_class_list ctx (''s '' @ dec q @ '':'' @ dec c) =
      Inr ([\<lparr>class_qdisc = int q, class_index = int c\<rparr>], [], change_block (know_class (int q) (int c)) ctx)"
    using 1 2 by (subst parse_class_list.simps) (simp add: step_def is_space_def Let_def del: change_block.simps)
  then show ?thesis by (subst parse_action.simps) (simp add: is_space_def)
qed

lemma parse_action_simple:
  "parse_action ctx ''drop'' = Inr (A_drop, [], ctx)" "parse_action ctx ''unspec'' = Inr (A_unspec, [], ctx)"
  by (simp_all add: parse_action.simps [of ctx "''drop''"] parse_action.simps [of ctx "''unspec''"] is_space_def)

text \<open>A line of a node.\<close>

lemma parse_actions_line:
  assumes "cx_blocks ctx \<noteq> []" "find_action ctx (int n) = Inr None" "parse_action ctx items = Inr (a, [], ctx1)"
    "items \<noteq> []" "hd items \<noteq> CHR '' ''" "hd items \<noteq> CHR ''a''" "list_all plain items"
  shows "parse_line ctx (''action '' @ dec n @ '' = '' @ items @ [CHR 0x0A]) =
    Inr (change_block (\<lambda>b. b\<lparr>bl_actions := (int n, a) # bl_actions b\<rparr>) ctx1)"
proof -
  have "parse_line ctx (''action'' @ CHR '' '' # (dec n @ '' = '' @ items) @ [CHR 0x0A]) = parse_keyword ctx ''action'' (dec n @ '' = '' @ items)"
    by (rule parse_line_word) (use assms(7) in \<open>simp_all add: is_space_def, simp add: plain_def\<close>)
  moreover have "scan_number ''unrecognized action definition'' (dec n @ '' = '' @ items) = Inr (int n, items)"
    using scan_separate [of "'' = '' @ items" n] by (simp add: scan_number_def separate_def is_space_def scan_blank step_def skip_space_nonspace)
  moreover have "dropWhile (\<lambda>c. c = CHR '' '') items = items" using assms(4,5) by (cases items) auto
  moreover have "scan_lit ''action '' items = None" using assms(4,6) by (cases items) (auto simp: is_space_def)
  ultimately show ?thesis
    using assms(1-3) by (simp add: parse_keyword_def parse_actions_def del: change_block.simps scan_lit.simps)
qed

section \<open>The action a tree is read as\<close>

fun ext_action :: "(nat \<Rightarrow> int list) \<Rightarrow> class_info \<Rightarrow> action \<Rightarrow> tcc_action" where
  "ext_action ch info (At_conform p yes no) = A_conform (ch p) (ext_action ch info yes) (ext_action ch info no)"
| "ext_action ch info (At_count p a) = A_count (ch p) (ext_action ch info a)"
| "ext_action ch info (At_class None) = A_null"
| "ext_action ch info (At_class (Some c)) =
     (case cls_qdisc info c of
        None \<Rightarrow> A_null
      | Some q \<Rightarrow> A_class [\<lparr>class_qdisc = uint q, class_index = uint (cls_number info c)\<rparr>])"
| "ext_action ch info At_drop = A_drop"
| "ext_action ch info At_unspec = A_unspec"

text \<open>The buckets of the policers.\<close>

definition bucket_of :: "(nat \<Rightarrow> u32) \<Rightarrow> tcc_context \<Rightarrow> nat \<Rightarrow> tcc_bucket option" where
  "bucket_of pol ctx p = (case find_bucket ctx (uint (pol p)) of Inr b \<Rightarrow> Some b | Inl _ \<Rightarrow> None)"

definition chain_of :: "(nat \<Rightarrow> u32) \<Rightarrow> tcc_context \<Rightarrow> nat \<Rightarrow> int list" where
  "chain_of pol ctx p = (case bucket_of pol ctx p of Some b \<Rightarrow> bucket_chain b | None \<Rightarrow> [])"

fun has_bucket :: "(nat \<Rightarrow> u32) \<Rightarrow> tcc_context \<Rightarrow> node \<Rightarrow> bool" where
  "has_bucket pol ctx (N_conform p _ _) \<longleftrightarrow> bucket_of pol ctx p \<noteq> None"
| "has_bucket pol ctx (N_count p _) \<longleftrightarrow> bucket_of pol ctx p \<noteq> None"
| "has_bucket pol ctx _ \<longleftrightarrow> True"

lemma bucket_found:
  assumes "bucket_of pol ctx p \<noteq> None"
  shows "\<exists>b. find_bucket ctx (int (unat (pol p))) = Inr b \<and> chain_of pol ctx p = bucket_chain b"
  using assms by (auto simp: bucket_of_def chain_of_def uint_nat [symmetric] split: sum.splits)

section \<open>Reading the lines of a store\<close>

definition with_actions :: "tcc_qdisc list \<Rightarrow> (int \<times> tcc_action) list \<Rightarrow> tcc_context \<Rightarrow> tcc_context" where
  "with_actions qs acts ctx = change_block (\<lambda>b. b\<lparr>bl_qdiscs := qs, bl_actions := acts\<rparr>) ctx"

lemma with_actions_facts:
  assumes "cx_blocks ctx \<noteq> []"
  shows "cx_blocks (with_actions qs acts ctx) \<noteq> []"
    and "find_action (with_actions qs acts ctx) k = Inr (map_of acts k)"
    and "find_bucket (with_actions qs acts ctx) = find_bucket ctx"
    and "bucket_of pol (with_actions qs acts ctx) = bucket_of pol ctx"
    and "change_block (\<lambda>b. b\<lparr>bl_actions := a # bl_actions b\<rparr>) (with_actions qs acts ctx) = with_actions qs (a # acts) ctx"
    and "\<exists>qs'. change_block (know_class q c) (with_actions qs acts ctx) = with_actions qs' acts ctx"
proof -
  obtain b bs where b: "cx_blocks ctx = b # bs" using assms by (cases "cx_blocks ctx") auto
  show "cx_blocks (with_actions qs acts ctx) \<noteq> []" "find_action (with_actions qs acts ctx) k = Inr (map_of acts k)"
    "find_bucket (with_actions qs acts ctx) = find_bucket ctx"
    "change_block (\<lambda>b. b\<lparr>bl_actions := a # bl_actions b\<rparr>) (with_actions qs acts ctx) = with_actions qs (a # acts) ctx"
    by (auto simp: with_actions_def b find_action_def current_block_def find_bucket_def)
  then show "bucket_of pol (with_actions qs acts ctx) = bucket_of pol ctx" by (simp add: bucket_of_def fun_eq_iff)
  have k: "\<exists>qs'. know_class q c x = x\<lparr>bl_qdiscs := qs'\<rparr>" for x
    by (auto simp: know_class_def fudge_class_def fudge_qdisc_def Let_def split: option.splits
        intro: exI [of _ "bl_qdiscs x"])
  obtain qs' where "know_class q c (b\<lparr>bl_qdiscs := qs, bl_actions := acts\<rparr>) = b\<lparr>bl_qdiscs := qs', bl_actions := acts\<rparr>"
  proof -
    obtain qs' where "know_class q c (b\<lparr>bl_qdiscs := qs, bl_actions := acts\<rparr>) =
        (b\<lparr>bl_qdiscs := qs, bl_actions := acts\<rparr>)\<lparr>bl_qdiscs := qs'\<rparr>"
      using k by blast
    also have "\<dots> = b\<lparr>bl_qdiscs := qs', bl_actions := acts\<rparr>" by (cases b) simp
    finally show thesis by (rule that)
  qed
  then show "\<exists>qs'. change_block (know_class q c) (with_actions qs acts ctx) = with_actions qs' acts ctx"
    by (auto simp: with_actions_def b)
qed

text \<open>What has been read after some lines: the actions of the nodes that are dumped.\<close>

definition written ::
  "tcc_context \<Rightarrow> (nat \<Rightarrow> u32) \<Rightarrow> class_info \<Rightarrow> node list \<Rightarrow> (nat \<Rightarrow> int) \<Rightarrow> (nat \<Rightarrow> bool) \<times> string list \<Rightarrow> bool" where
  "written ctx pol info cs num st \<longleftrightarrow>
     (\<exists>qs acts. parse_lines ctx (snd st) = Inr (with_actions qs acts ctx) \<and>
        (\<forall>i t. fst st i \<and> stands cs t i \<longrightarrow> map_of acts (num i) = Some (ext_action (chain_of pol ctx) info t)) \<and>
        fst ` set acts \<subseteq> num ` Collect (fst st) \<and> Collect (fst st) \<subseteq> named num)"

definition children_read ::
  "tcc_context \<Rightarrow> (nat \<Rightarrow> u32) \<Rightarrow> class_info \<Rightarrow> node list \<Rightarrow> (nat \<Rightarrow> int) \<Rightarrow> (int \<times> tcc_action) list \<Rightarrow> node \<Rightarrow> bool" where
  "children_read ctx pol info cs num acts n \<longleftrightarrow>
     (\<forall>c \<in> set (children n). \<forall>t. stands cs t c \<longrightarrow> map_of acts (num c) = Some (ext_action (chain_of pol ctx) info t))"

lemma dec_int_nonneg: "0 \<le> i \<Longrightarrow> dec_int i = dec (nat i)"
  by (simp add: dec_int_def)

lemma dump_items_ref: "num c \<noteq> -1 \<Longrightarrow> 0 \<le> num c \<Longrightarrow> dump_items pol info cs num c False = Inr ('' action '' @ dec (nat (num c)))"
  by (subst dump_items.simps) (simp add: dec_int_nonneg)

lemma plain_word: "list_all plain ''conform ''" "list_all plain ''count ''" "list_all plain ''class ''" "list_all plain '' action ''"
    "list_all plain ''drop''" "list_all plain ''unspec''" "plain CHR '':''"
  by (simp_all add: plain_def)

lemma dump_items_read:
  assumes "walk_ok info cs i" "stands cs t i" "set (below cs i) \<subseteq> named num" "\<forall>j \<in> named num. 0 \<le> num j"
    "has_bucket pol ctx (cs ! i)" "cx_blocks ctx \<noteq> []" "children_read ctx pol info cs num acts (cs ! i)"
  shows "\<exists>items qs'. dump_items pol info cs num i True = Inr (CHR '' '' # items) \<and>
    parse_action (with_actions qs acts ctx) items = Inr (ext_action (chain_of pol ctx) info t, [], with_actions qs' acts ctx) \<and>
    items \<noteq> [] \<and> hd items \<noteq> CHR '' '' \<and> hd items \<noteq> CHR ''a'' \<and> list_all plain items"
proof (cases t)
  case (At_conform p yes no)
  then obtain c1 c0 where n: "cs ! i = N_conform p c1 c0" "stands cs yes c1" "stands cs no c0"
    using assms(2) unfolding At_conform stands_conform by blast
  note b = below_conform [OF assms(1) n(1)]
  have c: "c1 \<in> named num" "c0 \<in> named num" using assms(3) below_self [of c1 cs] below_self [of c0 cs] by (auto simp: b(3))
  then have num: "num c1 \<noteq> -1" "num c0 \<noteq> -1" "0 \<le> num c1" "0 \<le> num c0" using assms(4) by (auto simp: named_def)
  have d: "dump_items pol info cs num i True = Inr ('' conform '' @ dec (unat (pol p)) @
      ('' action '' @ dec (nat (num c1))) @ ('' action '' @ dec (nat (num c0))))"
    using n(1) b(1,2) dump_items_ref [where num = num, OF num(1,3)] dump_items_ref [where num = num, OF num(2,4)]
    by (subst dump_items.simps) simp
  obtain bk where bk: "find_bucket ctx (int (unat (pol p))) = Inr bk" "chain_of pol ctx p = bucket_chain bk"
    using bucket_found [of pol ctx p] assms(5) n(1) by auto
  have "map_of acts (num c1) = Some (ext_action (chain_of pol ctx) info yes)"
    "map_of acts (num c0) = Some (ext_action (chain_of pol ctx) info no)"
    using assms(7) n by (simp_all add: children_read_def)
  then show ?thesis
    using d parse_action_conform [of "with_actions qs acts ctx" "unat (pol p)" bk "nat (num c1)" _ "nat (num c0)"] num(3,4)
      bk with_actions_facts(2,3) [OF assms(6)]
    by (auto simp: At_conform plain_def)
next
  case (At_count p a)
  then obtain c1 where n: "cs ! i = N_count p c1" "stands cs a c1"
    using assms(2) unfolding At_count stands_count by blast
  note b = below_count [OF assms(1) n(1)]
  have c: "c1 \<in> named num" using assms(3) below_self [of c1 cs] by (auto simp: b(2))
  then have num: "num c1 \<noteq> -1" "0 \<le> num c1" using assms(4) by (auto simp: named_def)
  have d: "dump_items pol info cs num i True = Inr ('' count '' @ dec (unat (pol p)) @ ('' action '' @ dec (nat (num c1))))"
    using n(1) b(1) dump_items_ref [where num = num, OF num] by (subst dump_items.simps) simp
  obtain bk where bk: "find_bucket ctx (int (unat (pol p))) = Inr bk" "chain_of pol ctx p = bucket_chain bk"
    using bucket_found [of pol ctx p] assms(5) n(1) by auto
  have "map_of acts (num c1) = Some (ext_action (chain_of pol ctx) info a)"
    using assms(7) n by (simp add: children_read_def)
  then show ?thesis
    using d parse_action_count [of "with_actions qs acts ctx" "unat (pol p)" bk "nat (num c1)"] num(2)
      bk with_actions_facts(2,3) [OF assms(6)]
    by (auto simp: At_count plain_def)
next
  case (At_class c)
  then have n: "cs ! i = N_class c" using assms(2) by simp
  then obtain c' q where c: "c = Some c'" "cls_qdisc info c' = Some q" using walk_class [OF assms(1)] by blast
  have d: "dump_items pol info cs num i True = Inr ('' class '' @ dec (unat q) @ '':'' @ dec (unat (cls_number info c')))"
    using n c by (subst dump_items.simps) simp
  obtain qs' where "change_block (know_class (int (unat q)) (int (unat (cls_number info c')))) (with_actions qs acts ctx) =
      with_actions qs' acts ctx"
    using with_actions_facts(6) [OF assms(6)] by blast
  then show ?thesis
    using d parse_action_class [of "with_actions qs acts ctx" "unat q" "unat (cls_number info c')"] c
    by (auto simp: At_class uint_nat [symmetric] plain_def simp del: change_block.simps)
next
  case At_drop
  then have "dump_items pol info cs num i True = Inr '' drop''" using assms(2) by (subst dump_items.simps) simp
  then show ?thesis using At_drop by (auto simp: parse_action_simple plain_def intro!: exI [of _ qs])
next
  case At_unspec
  then have "dump_items pol info cs num i True = Inr '' unspec''" using assms(2) by (subst dump_items.simps) simp
  then show ?thesis using At_unspec by (auto simp: parse_action_simple plain_def intro!: exI [of _ qs])
qed

definition dump_own ::
  "(nat \<Rightarrow> u32) \<Rightarrow> class_info \<Rightarrow> node list \<Rightarrow> (nat \<Rightarrow> int) \<Rightarrow> nat \<Rightarrow> (nat \<Rightarrow> bool) \<times> string list \<Rightarrow>
   ((nat \<Rightarrow> bool) \<times> string list) result" where
  "dump_own pol info cs num i st =
     (if fst st i then Inr st
      else rbind (dump_items pol info cs num i True) (\<lambda>items.
        Inr ((fst st)(i := True), snd st @ [''action '' @ dec_int (num i) @ '' ='' @ items @ [CHR 0x0A]])))"

lemma dump_subtree_own:
  "dump_subtree pol info cs num i st =
     rbind (case cs ! i of
        N_conform p c1 c0 \<Rightarrow>
          if c1 < i \<and> c0 < i
          then rbind (dump_subtree pol info cs num c0 st) (\<lambda>st. dump_subtree pol info cs num c1 st)
          else Inl E_abort
      | N_count p c1 \<Rightarrow> if c1 < i then dump_subtree pol info cs num c1 st else Inl E_abort
      | _ \<Rightarrow> Inr st) (dump_own pol info cs num i)"
  by (subst dump_subtree.simps) (rule arg_cong [where f = "rbind _"], auto simp: dump_own_def fun_eq_iff)

text \<open>What a store needs for its lines to be written and read.\<close>

definition printable ::
  "tcc_context \<Rightarrow> (nat \<Rightarrow> u32) \<Rightarrow> class_info \<Rightarrow> node list \<Rightarrow> (nat \<Rightarrow> int) \<Rightarrow> nat \<Rightarrow> bool" where
  "printable ctx pol info cs num i \<longleftrightarrow> walk_ok info cs i \<and> set (below cs i) \<subseteq> named num \<and>
     (\<forall>j \<in> set (below cs i). has_bucket pol ctx (cs ! j) \<and> (\<exists>t. stands cs t j))"

lemma dump_own_ok:
  assumes "printable ctx pol info cs num i" "inj_on num (named num)" "\<forall>j \<in> named num. 0 \<le> num j" "cx_blocks ctx \<noteq> []"
    "written ctx pol info cs num st" "\<forall>c \<in> set (children (cs ! i)). fst st c"
  shows "\<exists>st'. dump_own pol info cs num i st = Inr st' \<and> written ctx pol info cs num st' \<and>
    (\<forall>j. fst st j \<longrightarrow> fst st' j) \<and> fst st' i"
proof (cases "fst st i")
  case True
  then show ?thesis using assms(5) by (auto simp: dump_own_def)
next
  case False
  from assms(1) obtain t where t: "walk_ok info cs i" "stands cs t i" "set (below cs i) \<subseteq> named num" "has_bucket pol ctx (cs ! i)"
    unfolding printable_def using below_self [of i cs] by blast
  from assms(5) obtain qs acts where w: "parse_lines ctx (snd st) = Inr (with_actions qs acts ctx)"
      "\<forall>i t. fst st i \<and> stands cs t i \<longrightarrow> map_of acts (num i) = Some (ext_action (chain_of pol ctx) info t)"
      "fst ` set acts \<subseteq> num ` Collect (fst st)" "Collect (fst st) \<subseteq> named num"
    by (auto simp: written_def)
  have "children_read ctx pol info cs num acts (cs ! i)" using assms(6) w(2) by (simp add: children_read_def)
  from dump_items_read [OF t(1,2,3) assms(3) t(4) assms(4) this] obtain items qs' where it:
      "dump_items pol info cs num i True = Inr (CHR '' '' # items)"
      "parse_action (with_actions qs acts ctx) items = Inr (ext_action (chain_of pol ctx) info t, [], with_actions qs' acts ctx)"
      "items \<noteq> []" "hd items \<noteq> CHR '' ''" "hd items \<noteq> CHR ''a''" "list_all plain items"
    by blast
  have i: "i \<in> named num" "0 \<le> num i" using t(3) below_self [of i cs] assms(3) by auto
  have other: "num j \<noteq> num i" if "fst st j" for j
    using that False w(4) i(1) assms(2) by (auto simp: inj_on_def)
  let ?line = "''action '' @ dec_int (num i) @ '' ='' @ CHR '' '' # items @ [CHR 0x0A]"
  let ?acts = "(num i, ext_action (chain_of pol ctx) info t) # acts"
  have "map_of acts (num i) = None" using other w(3) by (fastforce simp: map_of_eq_None_iff)
  then have "find_action (with_actions qs acts ctx) (int (nat (num i))) = Inr None"
    using i(2) with_actions_facts(2) [OF assms(4)] by simp
  from parse_actions_line [OF with_actions_facts(1) [OF assms(4)] this it(2-6)]
  have "parse_line (with_actions qs acts ctx) ?line = Inr (with_actions qs' ?acts ctx)"
    using i(2) with_actions_facts(5) [OF assms(4)] by (simp add: dec_int_nonneg)
  then have "parse_lines ctx (snd st @ [?line]) = Inr (with_actions qs' ?acts ctx)"
    by (simp add: parse_lines_append w(1))
  moreover have "map_of ?acts (num j) = Some (ext_action (chain_of pol ctx) info u)"
    if "((fst st)(i := True)) j" "stands cs u j" for j u
    using that w(2) other [of j] stands_tree [OF t(2), of u] by (auto split: if_split_asm)
  ultimately have "written ctx pol info cs num ((fst st)(i := True), snd st @ [?line])"
    unfolding written_def using w(3,4) i(1) by (intro exI [of _ qs'] exI [of _ ?acts]) (auto split: if_split_asm)
  then show ?thesis using False it(1) by (auto simp: dump_own_def)
qed

lemma printable_conform:
  assumes "printable ctx pol info cs num i" "cs ! i = N_conform p c1 c0"
  shows "printable ctx pol info cs num c1" "printable ctx pol info cs num c0"
  using assms below_conform [of info cs i p c1 c0] by (auto simp: printable_def)

lemma printable_count:
  assumes "printable ctx pol info cs num i" "cs ! i = N_count p c1"
  shows "printable ctx pol info cs num c1"
  using assms below_count [of info cs i p c1] by (auto simp: printable_def)

lemma dump_subtree_ok:
  assumes "inj_on num (named num)" "\<forall>j \<in> named num. 0 \<le> num j" "cx_blocks ctx \<noteq> []"
  shows "printable ctx pol info cs num i \<Longrightarrow> written ctx pol info cs num st \<Longrightarrow>
    \<exists>st'. dump_subtree pol info cs num i st = Inr st' \<and> written ctx pol info cs num st' \<and>
      (\<forall>j. fst st j \<longrightarrow> fst st' j) \<and> fst st' i"
proof (induction i arbitrary: st rule: less_induct)
  case (less i)
  note own = dump_own_ok [OF less.prems(1) assms]
  show ?case
  proof (cases "cs ! i")
    case (N_conform p c1 c0)
    note b = below_conform [OF _ N_conform, of info] printable_conform [OF less.prems(1) N_conform]
    have c: "c1 < i" "c0 < i" using b(1,2) less.prems(1) by (auto simp: printable_def)
    obtain st1 where 1: "dump_subtree pol info cs num c0 st = Inr st1" "written ctx pol info cs num st1"
        "\<forall>j. fst st j \<longrightarrow> fst st1 j" "fst st1 c0"
      using less.IH [OF c(2) b(7) less.prems(2)] by blast
    obtain st2 where 2: "dump_subtree pol info cs num c1 st1 = Inr st2" "written ctx pol info cs num st2"
        "\<forall>j. fst st1 j \<longrightarrow> fst st2 j" "fst st2 c1"
      using less.IH [OF c(1) b(6) 1(2)] by blast
    have "\<forall>c \<in> set (children (cs ! i)). fst st2 c" using 1(4) 2(3,4) N_conform by simp
    from own [OF 2(2) this] show ?thesis
      using 1 2 c N_conform by (subst dump_subtree_own) auto
  next
    case (N_count p c1)
    have c: "c1 < i" using below_count(1) [OF _ N_count, of info] less.prems(1) by (auto simp: printable_def)
    obtain st2 where 2: "dump_subtree pol info cs num c1 st = Inr st2" "written ctx pol info cs num st2"
        "\<forall>j. fst st j \<longrightarrow> fst st2 j" "fst st2 c1"
      using less.IH [OF c printable_count [OF less.prems(1) N_count] less.prems(2)] by blast
    have "\<forall>c \<in> set (children (cs ! i)). fst st2 c" using 2(4) N_count by simp
    from own [OF 2(2) this] show ?thesis
      using 2 c N_count by (subst dump_subtree_own) auto
  qed (use own [OF less.prems(2)] in \<open>simp_all add: dump_subtree_own [of pol info cs num i]\<close>)
qed

lemma each_subtree_ok:
  assumes "inj_on num (named num)" "\<forall>j \<in> named num. 0 \<le> num j" "cx_blocks ctx \<noteq> []"
  shows "\<forall>i \<in> set is. printable ctx pol info cs num i \<Longrightarrow> written ctx pol info cs num st \<Longrightarrow>
    \<exists>st'. each (dump_subtree pol info cs num) is st = Inr st' \<and> written ctx pol info cs num st' \<and>
      (\<forall>j. fst st j \<longrightarrow> fst st' j) \<and> (\<forall>i \<in> set is. fst st' i)"
proof (induction "is" arbitrary: st)
  case (Cons i "is")
  obtain st1 where 1: "dump_subtree pol info cs num i st = Inr st1" "written ctx pol info cs num st1"
      "\<forall>j. fst st j \<longrightarrow> fst st1 j" "fst st1 i"
    using dump_subtree_ok [OF assms _ Cons.prems(2)] Cons.prems(1) by (meson list.set_intros(1))
  obtain st2 where "each (dump_subtree pol info cs num) is st1 = Inr st2" "written ctx pol info cs num st2"
      "\<forall>j. fst st1 j \<longrightarrow> fst st2 j" "\<forall>i \<in> set is. fst st2 i"
    using Cons.IH [OF _ 1(2)] Cons.prems(1) by auto
  then show ?case using 1 by auto
qed auto

section \<open>All actions of a configuration\<close>

fun policers_of :: "action \<Rightarrow> nat set" where
  "policers_of (At_conform p yes no) = insert p (policers_of yes \<union> policers_of no)"
| "policers_of (At_count p a) = insert p (policers_of a)"
| "policers_of a = {}"

definition tree_fits :: "(nat \<Rightarrow> u32) \<Rightarrow> class_info \<Rightarrow> tcc_context \<Rightarrow> action \<Rightarrow> bool" where
  "tree_fits pol info ctx t \<longleftrightarrow> keyed info t \<and> (\<forall>p \<in> policers_of t. bucket_of pol ctx p \<noteq> None)"

lemma subtree_keyed: "keyed info t \<Longrightarrow> u \<in> subtrees t \<Longrightarrow> keyed info u"
  by (induction t) auto

lemma subtree_policers: "u \<in> subtrees t \<Longrightarrow> policers_of u \<subseteq> policers_of t"
  by (induction t) auto

lemma tree_fits_subtree: "tree_fits pol info ctx t \<Longrightarrow> u \<in> subtrees t \<Longrightarrow> tree_fits pol info ctx u"
  unfolding tree_fits_def using subtree_keyed subtree_policers by blast

lemma db_below: "db_ok T info db \<Longrightarrow> i < length (cells db) \<Longrightarrow> \<forall>j \<in> set (below (cells db) i). j < length (cells db)"
proof (induction i rule: less_induct)
  case (less i)
  have c: "c < i" if "c \<in> set (children (cells db ! i))" for c
    using that less.prems by (auto simp: db_ok_def)
  have "\<forall>j \<in> set (below (cells db) c). j < length (cells db)" if "c \<in> set (children (cells db ! i))" for c
    using less.IH [OF c [OF that] less.prems(1)] c [OF that] less.prems(2) by simp
  then show ?case using less.prems(2) by (subst below.simps) auto
qed

lemma cell_fits:
  assumes "db_ok T info db" "\<forall>t \<in> T. tree_fits pol info ctx t" "j < length (cells db)"
  shows "node_ok info (cells db) j" "has_bucket pol ctx (cells db ! j)" "\<exists>t. stands (cells db) t j"
proof -
  obtain t where t: "t \<in> T" "stands (cells db) t j" using db_ok_tree [OF assms(1,3)] by blast
  then have f: "tree_fits pol info ctx t" using assms(2) by blast
  show "\<exists>t. stands (cells db) t j" using t(2) by blast
  show "has_bucket pol ctx (cells db ! j)"
    using t(2) f by (cases t) (auto simp: tree_fits_def split: node.splits)
  have "case cells db ! j of N_class None \<Rightarrow> False | N_class (Some c) \<Rightarrow> cls_qdisc info c \<noteq> None | _ \<Rightarrow> True"
    using t(2) f by (cases t) (auto simp: tree_fits_def split: node.splits option.splits)
  then show "node_ok info (cells db) j" using assms(1,3) by (simp add: node_ok_def db_ok_def)
qed

lemma store_printable:
  assumes "db_ok T info db" "\<forall>t \<in> T. tree_fits pol info ctx t" "i < length (cells db)" "set (below (cells db) i) \<subseteq> named num"
  shows "printable ctx pol info (cells db) num i"
  using cell_fits [OF assms(1,2)] db_below [OF assms(1,3)] assms(4) by (auto simp: printable_def walk_ok_def)

lemma write_actions_ok:
  assumes "db_ok T info db" "\<forall>t \<in> T. tree_fits pol info ctx t" "\<forall>i \<in> set (roots db). i < length (cells db)"
    "current_block ctx = Inr b" "bl_actions b = []"
  shows "\<exists>num ls qs acts. write_actions pol info db = Inr (num, ls) \<and> parse_lines ctx ls = Inr (with_actions qs acts ctx) \<and>
    (\<forall>i \<in> set (roots db). \<forall>t. stands (cells db) t i \<longrightarrow> 0 \<le> num i \<and> map_of acts (num i) = Some (ext_action (chain_of pol ctx) info t)) \<and>
    inj_on num (set (roots db))"
proof -
  have blocks: "cx_blocks ctx \<noteq> []" using assms(4) by (auto simp: current_block_def)
  have "\<forall>i \<in> set (roots db). walk_ok info (cells db) i"
    using assms(3) cell_fits(1) [OF assms(1,2)] db_below [OF assms(1)] by (auto simp: walk_ok_def)
  from assign_indices_ok [OF this] obtain num where num: "assign_indices info db = Inr num" "inj_on num (named num)"
      "\<forall>i \<in> named num. 0 \<le> num i" "\<forall>i \<in> set (roots db). set (below (cells db) i) \<subseteq> named num"
    by blast
  have "with_actions (bl_qdiscs b) [] ctx = ctx"
    using assms(4,5) by (auto simp: with_actions_def current_block_def split: list.splits)
  then have "written ctx pol info (cells db) num (\<lambda>_. False, [])"
    unfolding written_def by (intro exI [of _ "bl_qdiscs b"] exI [of _ "[]"]) simp
  moreover have "\<forall>i \<in> set (roots db). printable ctx pol info (cells db) num i"
    using assms(3) store_printable [OF assms(1,2)] num(4) by blast
  ultimately obtain st where st: "each (dump_subtree pol info (cells db) num) (roots db) (\<lambda>_. False, []) = Inr st"
      "written ctx pol info (cells db) num st" "\<forall>i \<in> set (roots db). fst st i"
    using each_subtree_ok [OF num(2,3) blocks] by blast
  obtain dumped ls where "st = (dumped, ls)" by (cases st)
  moreover from this st(2) obtain qs acts where "parse_lines ctx ls = Inr (with_actions qs acts ctx)"
      "\<forall>i t. dumped i \<and> stands (cells db) t i \<longrightarrow> map_of acts (num i) = Some (ext_action (chain_of pol ctx) info t)"
    by (auto simp: written_def)
  moreover have "set (roots db) \<subseteq> named num" using num(4) below_self by blast
  ultimately show ?thesis
    using num(1-3) st(1,3) inj_on_subset [OF num(2)]
    by (intro exI [of _ num] exI [of _ ls] exI [of _ qs] exI [of _ acts]) (auto simp: write_actions_def)
qed

lemma register_roots:
  "register_actions info d db = Inr db' \<Longrightarrow> db_ok T info db \<Longrightarrow> no_clash T \<Longrightarrow> action_tree_of d = Inr t \<Longrightarrow> subtrees t \<subseteq> T \<Longrightarrow>
     keyed info t \<Longrightarrow> \<forall>i \<in> set (roots db). i < length (cells db) \<Longrightarrow> \<forall>i \<in> set (roots db'). i < length (cells db')"
proof -
  assume a: "register_actions info d db = Inr db'" "db_ok T info db" "no_clash T" "action_tree_of d = Inr t" "subtrees t \<subseteq> T"
    "keyed info t" "\<forall>i \<in> set (roots db). i < length (cells db)"
  obtain i db1 where i: "unique_action info t db = Inr (i, db1)" "grows db db1" "stands (cells db1) t i"
    using unique_ok [OF a(2,3,5,6)] by (rule node_atD) blast
  have "\<forall>j \<in> set (roots db1). j < length (cells db1)" using a(7) i(2) by (auto simp: grows_def)
  then show ?thesis using a(1,4) i(1) stands_less [OF i(3)] by (auto simp: register_actions_def to_unique_def split: if_split_asm)
qed

lemma register_all_roots:
  "register_all info ds db = Inr db' \<Longrightarrow> db_ok T info db \<Longrightarrow> no_clash T \<Longrightarrow>
     \<forall>d \<in> set ds. \<exists>t. action_tree_of d = Inr t \<and> subtrees t \<subseteq> T \<and> keyed info t \<Longrightarrow>
     \<forall>i \<in> set (roots db). i < length (cells db) \<Longrightarrow> \<forall>i \<in> set (roots db'). i < length (cells db')"
proof (induction ds arbitrary: db)
  case (Cons d ds)
  then obtain t where t: "action_tree_of d = Inr t" "subtrees t \<subseteq> T" "keyed info t" by auto
  from Cons.prems(1) obtain db1 where 1: "register_actions info d db = Inr db1" "register_all info ds db1 = Inr db'"
    by (auto simp: rbind_Inr_iff)
  have "db_ok T info db1"
    using to_unique_ok [OF Cons.prems(2,3) t(2,3)] 1(1) t(1) by (auto simp: register_actions_def)
  then show ?case
    using Cons.IH [OF 1(2) _ Cons.prems(3)] register_roots [OF 1(1) Cons.prems(2,3) t Cons.prems(5)] Cons.prems(4) by auto
qed auto

text \<open>The whole way of the actions: registered, looked up, written and read.\<close>

lemma actions_written:
  assumes "\<forall>d \<in> set ds. \<exists>t. action_tree_of d = Inr t \<and> tree_fits pol info ctx t" "no_clash (trees_of ds)"
    "current_block ctx = Inr b" "bl_actions b = []"
  shows "\<exists>db num ls qs acts. register_all info ds empty_db = Inr db \<and> write_actions pol info db = Inr (num, ls) \<and>
    parse_lines ctx ls = Inr (with_actions qs acts ctx) \<and>
    (\<forall>d \<in> set ds. \<exists>t i. action_tree_of d = Inr t \<and> get_action info d db = Inr (i, db) \<and> 0 \<le> num i \<and>
       map_of acts (num i) = Some (ext_action (chain_of pol ctx) info t))"
proof -
  let ?T = "trees_of ds"
  have sub: "subtrees t \<subseteq> ?T" if "d \<in> set ds" "action_tree_of d = Inr t" for d t
    unfolding trees_of_def
    by (rule subset_trans [OF _ UN_upper [of d "set ds"]]) (use that in auto)
  have fits: "\<forall>t \<in> ?T. tree_fits pol info ctx t"
    using assms(1) tree_fits_subtree by (auto simp: trees_of_def split: sum.splits)
  have ds: "\<forall>d \<in> set ds. \<exists>t. action_tree_of d = Inr t \<and> subtrees t \<subseteq> ?T \<and> keyed info t"
    using assms(1) sub unfolding tree_fits_def by blast
  obtain db where db: "register_all info ds empty_db = Inr db" "db_ok ?T info db"
      "\<forall>d \<in> set ds. \<forall>t. action_tree_of d = Inr t \<longrightarrow> registered db t"
    using register_all_ok [OF db_ok_empty assms(2) ds] by blast
  have "\<forall>i \<in> set (roots db). i < length (cells db)"
    by (rule register_all_roots [OF db(1) db_ok_empty assms(2) ds]) (simp add: empty_db_def)
  from write_actions_ok [OF db(2) fits this assms(3,4)] obtain num ls qs acts where w:
      "write_actions pol info db = Inr (num, ls)" "parse_lines ctx ls = Inr (with_actions qs acts ctx)"
      "\<forall>i \<in> set (roots db). \<forall>t. stands (cells db) t i \<longrightarrow> 0 \<le> num i \<and> map_of acts (num i) = Some (ext_action (chain_of pol ctx) info t)"
    by blast
  have "\<exists>t i. action_tree_of d = Inr t \<and> get_action info d db = Inr (i, db) \<and> 0 \<le> num i \<and>
      map_of acts (num i) = Some (ext_action (chain_of pol ctx) info t)" if d: "d \<in> set ds" for d
  proof -
    obtain t where t: "action_tree_of d = Inr t" "keyed info t" using ds d by blast
    then obtain i where i: "i \<in> set (roots db)" "stands (cells db) t i" using db(3) d by (auto simp: registered_def)
    have "get_action info d db = Inr (i, db)"
      by (rule get_action_found [OF db(2) assms(2) sub [OF d t(1)] t(2,1) i(2)])
    then show ?thesis using t(1) i w(3) by blast
  qed
  then show ?thesis using db(1) w(1,2) by blast
qed

end
