(* ===== verification/Ext_Interface.thy ===== *)
theory Ext_Interface
  imports Actdb_Text
begin

text \<open>
  \<^verbatim>\<open>tcc/if_ext.c\<close> and \<^verbatim>\<open>tcc/iflib_actdb.c\<close> together: the actions, the offset groups and the rules of an
  expression are written, the parser of \<^verbatim>\<open>tcc/ext/tccext.c\<close> reads them, and the matcher decides on packets.
\<close>

section \<open>Every action of a rule is registered\<close>

text \<open>The decisions that \<open>dump_actions\<close> registers.\<close>

fun action_parts :: "data \<Rightarrow> data list" where
  "action_parts (D_op t dsc a b c) =
     (if action_tree (D_op t dsc a b c) then [D_op t dsc a b c] else action_parts a @ action_parts b @ action_parts c)"
| "action_parts d = (if action_tree d then [d] else [])"

lemma dump_actions_parts: "dump_actions f d r = fold f (action_parts d) r"
  by (induction f d r rule: dump_actions.induct) auto

lemma register_fold:
  "fold (\<lambda>d r. rbind r (register_actions info d)) ds (Inr db) = register_all info ds db"
proof (induction ds arbitrary: db)
  case (Cons d ds)
  have "fold (\<lambda>d r. rbind r (register_actions info d)) ds (Inl e) = Inl e" for e
    by (induction ds) auto
  then show ?case using Cons by (cases "register_actions info d db") auto
qed simp

text \<open>The lines of a walk are those that were there and lines of actions in \<open>S\<close>.\<close>

definition adds_lines :: "data set \<Rightarrow> rule_state \<Rightarrow> (bool \<times> rule_state) result \<Rightarrow> bool" where
  "adds_lines S st r \<longleftrightarrow>
     (\<forall>ok st'. r = Inr (ok, st') \<longrightarrow> line_action ` set (lines_out st') \<subseteq> line_action ` set (lines_out st) \<union> S)"

lemma adds_lines_Inl [simp]: "adds_lines S st (Inl e)"
  by (simp add: adds_lines_def)

lemma adds_lines_same: "lines_out st' = lines_out st \<Longrightarrow> adds_lines S st (Inr (ok, st'))"
  by (auto simp: adds_lines_def)

lemma adds_lines_groups: "adds_lines S (st\<lparr>groups := gt\<rparr>) r \<longleftrightarrow> adds_lines S st r"
  by (simp add: adds_lines_def)

lemma adds_lines_mono: "adds_lines S st r \<Longrightarrow> S \<subseteq> S' \<Longrightarrow> adds_lines S' st r"
  unfolding adds_lines_def by blast

lemma adds_lines_bind:
  assumes "adds_lines S st m" "\<And>ok st'. m = Inr (ok, st') \<Longrightarrow> adds_lines S st' (f (ok, st'))"
  shows "adds_lines S st (rbind m f)"
  unfolding adds_lines_def
proof (intro allI impI)
  fix ok st2 assume "rbind m f = Inr (ok, st2)"
  then obtain ok1 st1 where m: "m = Inr (ok1, st1)" "f (ok1, st1) = Inr (ok, st2)"
    by (auto simp: rbind_Inr_iff)
  have "line_action ` set (lines_out st2) \<subseteq> line_action ` set (lines_out st1) \<union> S"
    using assms(2) [OF m(1)] m(2) by (simp add: adds_lines_def)
  moreover have "line_action ` set (lines_out st1) \<subseteq> line_action ` set (lines_out st) \<union> S"
    using assms(1) m(1) by (simp add: adds_lines_def)
  ultimately show "line_action ` set (lines_out st2) \<subseteq> line_action ` set (lines_out st) \<union> S" by auto
qed

lemma adds_lines_result: "adds_lines S st r \<Longrightarrow> adds_lines S st (rbind r (\<lambda>(ok, st). Inr (f ok, st)))"
  by (rule adds_lines_bind) (simp_all add: adds_lines_same)

lemma adds_lines_rbind: "(\<And>x. m = Inr x \<Longrightarrow> adds_lines S st (f x)) \<Longrightarrow> adds_lines S st (rbind m f)"
  by (cases m) auto

lemma match_access_lines: "adds_lines {} st (match_access fs g m v d st)"
proof (induction d arbitrary: g m st)
  case (D_op t dsc a b c)
  consider "dsc = op_access" | "dsc = op_and" | "dsc = op_field_root" | "dsc = op_offset"
    | "dsc \<notin> {op_access, op_and, op_field_root, op_offset}" by blast
  then show ?case
  proof cases
    case 1
    have "adds_lines {} st (let (ok, bs) = decompose_match g x y m v (pending st) in Inr (ok, st\<lparr>pending := bs\<rparr>))" for x y
      by (simp add: Let_def adds_lines_same split: prod.split)
    then show ?thesis using 1 by (cases "u_unum c"; cases "u_unum b") simp_all
  next
    case 2
    have "adds_lines {} st (rbind (data_convert b dt_ipv6) (\<lambda>b. rbind (u_u128 b) (\<lambda>k. match_access fs g (u128_and m k) v a st)))"
      by (intro adds_lines_rbind D_op.IH(1))
    then show ?thesis using 2 by simp
  next
    case 3
    then show ?thesis using D_op.IH(1) by (cases b) simp_all
  next
    case 4
    have "adds_lines {} st (match_access fs h m v a (st\<lparr>groups := gt\<rparr>))" for h gt
      using D_op.IH(1) [where st = "st\<lparr>groups := gt\<rparr>"] by (simp add: adds_lines_groups)
    then have "adds_lines {} st (rbind (get_offset_group fs (D_op t op_offset a b c) g (groups st))
        (\<lambda>(g, gt). match_access fs g m v a (st\<lparr>groups := gt\<rparr>)))"
      by (intro adds_lines_rbind) (simp split: prod.split)
    then show ?thesis using 4 by simp
  qed simp
qed simp_all

lemma dump_match_lines: "adds_lines {} st (dump_match fs d g st)"
proof (cases d)
  case (D_op t dsc a b c)
  obtain l r where lr: "(if is_op a then (a, b) else (b, a)) = (l, r)" by fastforce
  then show ?thesis
    unfolding dump_match_def D_op using match_access_lines by (auto simp: lr intro!: adds_lines_rbind)
qed (simp_all add: dump_match_def)

lemma dump_action_lines: "adds_lines {d} st (Inr (ok, dump_action d st))"
  by (auto simp: adds_lines_def dump_action_def)

lemma dump_lines:
  "adds_lines (set (action_parts d)) st (dump_or fs u d g st) \<and>
   adds_lines (set (action_parts d)) st (dump_and fs d g st) \<and>
   adds_lines (set (action_parts d)) st (dump_other fs d g st)"
proof (induction d arbitrary: g st u)
  case (D_op t dsc a b c)
  let ?d = "D_op t dsc a b c"
  let ?S = "set (action_parts ?d)"
  have part: "set (action_parts a) \<subseteq> ?S" "set (action_parts b) \<subseteq> ?S" if "\<not> action_tree ?d"
    using that by auto
  have other: "adds_lines ?S st (dump_other fs ?d g st)"
  proof -
    consider "dsc = op_eq" | "action_tree ?d" "dsc \<noteq> op_eq" | "\<not> action_tree ?d" "dsc = op_field_root"
      | "\<not> action_tree ?d" "dsc = op_offset" | "\<not> action_tree ?d" "dsc \<notin> {op_eq, op_field_root, op_offset}" by blast
    then show ?thesis
    proof cases
      case 1
      then show ?thesis using adds_lines_mono [OF dump_match_lines] by (simp add: dump_other_op)
    next
      case 2
      have "?S = {?d}" by (simp only: action_parts.simps 2(1) if_True list.set)
      then show ?thesis using dump_action_lines [of ?d] other_action [OF 2(1)] by (simp del: action_tree.simps)
    next
      case 3
      have "adds_lines ?S st (dump_or fs True a h st)" for h using D_op.IH(1) adds_lines_mono [OF _ part(1) [OF 3(1)]] by blast
      then show ?thesis using 3 by (cases b) (simp_all add: dump_other_op)
    next
      case 4
      have "adds_lines ?S st (dump_or fs True a h (st\<lparr>groups := gt\<rparr>))" for h gt
        using D_op.IH(1) [where st = "st\<lparr>groups := gt\<rparr>"] adds_lines_mono [OF _ part(1) [OF 4(1)]] by (simp add: adds_lines_groups del: action_parts.simps)
      then have "adds_lines ?S st (rbind (get_offset_group fs (D_op t op_offset a b c) g (groups st))
          (\<lambda>(g, gt). dump_or fs True a g (st\<lparr>groups := gt\<rparr>)))"
        by (intro adds_lines_rbind) (simp del: action_parts.simps split: prod.split)
      then show ?thesis using 4 by (simp add: dump_other_op del: action_parts.simps)
    next
      case 5
      then show ?thesis by (simp add: dump_other_op)
    qed
  qed
  have "and": "adds_lines ?S st (dump_and fs ?d g st)"
  proof (cases "dsc = op_logical_and \<and> \<not> action_tree ?d")
    case True
    have "adds_lines ?S st (rbind (dump_other fs a g st) (\<lambda>(ok, st). if \<not> ok then Inr (False, st\<lparr>pending := []\<rparr>) else dump_and fs b g st))"
      using D_op.IH(1,2) adds_lines_mono [OF _ part(1)] adds_lines_mono [OF _ part(2)] True
      by (intro adds_lines_bind) (auto simp: adds_lines_same simp del: action_parts.simps action_tree.simps)
    then show ?thesis using True by (auto simp add: dump_and.simps [of _ "D_op _ _ _ _ _"] del: action_tree.simps)
  qed (use other in \<open>auto simp add: dump_and.simps [of _ "D_op _ _ _ _ _"] del: action_tree.simps\<close>)
  have "adds_lines ?S st (dump_or fs u ?d g st)"
  proof (cases "dsc = op_logical_or \<and> \<not> action_tree ?d")
    case True
    have "adds_lines ?S st (rbind (dump_and fs a g st) (\<lambda>(ok, st). dump_or fs (if ok then True else u) b g st))"
      using D_op.IH(1,2) adds_lines_mono [OF _ part(1)] adds_lines_mono [OF _ part(2)] True
      by (intro adds_lines_bind) (auto simp del: action_parts.simps action_tree.simps)
    then show ?thesis using True by (auto simp add: dump_or.simps [of _ _ "D_op _ _ _ _ _"] del: action_tree.simps)
  qed (use adds_lines_result [OF "and"] in \<open>auto simp add: dump_or.simps [of _ _ "D_op _ _ _ _ _"] del: action_tree.simps\<close>)
  with "and" other show ?case by blast
next
  case (D_decision r c)
  then show ?case
    using dump_action_lines [of "D_decision r c"] by (simp add: dump_or.simps dump_and.simps dump_other.simps adds_lines_result)
qed (simp_all add: dump_or.simps dump_and.simps dump_other.simps)

lemma dump_rules_actions: "dump_rules fs d gt = Inr (gt', ls) \<Longrightarrow> line_action ` set ls \<subseteq> set (action_parts d)"
  using dump_lines [of d "\<lparr>groups = gt, pending = [], lines_out = []\<rparr>" fs True 0]
  by (auto simp: dump_rules_def rbind_Inr_iff adds_lines_def)

section \<open>Buckets\<close>

text \<open>
  What \<open>param_get\<close> finds for a policer: the numbers of the parameters that are present. A number that is
  not present keeps the value it had for another policer, which the model does not follow.
\<close>

record policer =
  pl_number :: u32
  pl_rate :: "u32 option"
  pl_peakrate :: bool
  pl_mpu :: "u32 option"
  pl_burst :: "u32 option"
  pl_overflow :: "nat option"
  pl_pragma :: "string list"

definition add_bucket :: "(nat \<Rightarrow> policer) \<Rightarrow> nat \<Rightarrow> nat list \<Rightarrow> nat list result" where
  "add_bucket pls p bs =
     (if pl_rate (pls p) = None \<and> pl_peakrate (pls p)
      then Inl (E_errorf ''if_ext only supports single-rate token bucket policer'')
      else Inr (if p \<in> set bs then bs else bs @ [p]))"

definition collect_police :: "(nat \<Rightarrow> policer) \<Rightarrow> nat \<Rightarrow> nat list \<Rightarrow> nat list result" where
  "collect_police pls p bs =
     rbind (case pl_overflow (pls p) of Some q \<Rightarrow> add_bucket pls q bs | None \<Rightarrow> Inr bs) (add_bucket pls p)"

fun collect_buckets :: "(nat \<Rightarrow> policer) \<Rightarrow> data \<Rightarrow> nat list \<Rightarrow> nat list result" where
  "collect_buckets pls (D_police p) bs = collect_police pls p bs"
| "collect_buckets pls (D_bucket p) bs = collect_police pls p bs"
| "collect_buckets pls (D_op t dsc a b c) bs =
     rbind (collect_buckets pls a bs) (\<lambda>bs. rbind (collect_buckets pls b bs) (\<lambda>bs. collect_buckets pls c bs))"
| "collect_buckets pls d bs = Inr bs"

definition present :: "u32 option \<Rightarrow> u32 result" where
  "present v = (case v of Some v \<Rightarrow> Inr v | None \<Rightarrow> Inl (E_undef ''stale parameter''))"

definition bucket_args :: "(nat \<Rightarrow> policer) \<Rightarrow> nat \<Rightarrow> u32 \<Rightarrow> u32 \<Rightarrow> string" where
  "bucket_args pls p rate burst =
     dec_int (sint (pl_number (pls p))) @ '' = '' @ dec (unat rate) @ '' '' @
     dec (case pl_mpu (pls p) of Some m \<Rightarrow> unat m | None \<Rightarrow> 0) @ '' '' @ dec (unat burst) @ '' '' @ dec (unat burst) @ '' '' @
     dec_int (case pl_overflow (pls p) of Some q \<Rightarrow> sint (pl_number (pls q)) | None \<Rightarrow> 0) @
     concat (map (\<lambda>s. CHR '' '' # s) (pl_pragma (pls p)))"

fun dump_buckets :: "(nat \<Rightarrow> policer) \<Rightarrow> nat list \<Rightarrow> string list result" where
  "dump_buckets pls [] = Inr []"
| "dump_buckets pls (p # ps) =
     rbind (present (pl_rate (pls p))) (\<lambda>rate.
     rbind (present (pl_burst (pls p))) (\<lambda>burst.
     rbind (dump_buckets pls ps) (\<lambda>ls.
       Inr ((''bucket '' @ bucket_args pls p rate burst @ [CHR 0x0A]) # ls))))"

section \<open>The buckets are read\<close>

text \<open>
  \<open>collect_buckets\<close> lists the bucket a policer overflows to, but not the one that bucket overflows to.
\<close>

fun police_ids :: "data \<Rightarrow> nat set" where
  "police_ids (D_police p) = {p}"
| "police_ids (D_bucket p) = {p}"
| "police_ids (D_op t dsc a b c) = police_ids a \<union> police_ids b \<union> police_ids c"
| "police_ids d = {}"

definition buckets_of :: "(nat \<Rightarrow> policer) \<Rightarrow> data \<Rightarrow> nat set" where
  "buckets_of pls d = police_ids d \<union> {q. \<exists>p \<in> police_ids d. pl_overflow (pls p) = Some q}"

text \<open>Every bucket has a rate and a burst, and its number fits an \<^verbatim>\<open>int\<close>.\<close>

definition bucket_fits :: "(nat \<Rightarrow> policer) \<Rightarrow> nat \<Rightarrow> bool" where
  "bucket_fits pls p \<longleftrightarrow> pl_rate (pls p) \<noteq> None \<and> pl_burst (pls p) \<noteq> None \<and> pl_number (pls p) \<noteq> 0 \<and>
     uint (pl_number (pls p)) < 2 ^ 31 \<and> list_all (list_all plain) (pl_pragma (pls p))"

definition one_level :: "(nat \<Rightarrow> policer) \<Rightarrow> nat set \<Rightarrow> bool" where
  "one_level pls P \<longleftrightarrow> (\<forall>p \<in> P. \<forall>q. pl_overflow (pls p) = Some q \<longrightarrow> pl_overflow (pls q) = None)"

fun in_order :: "(nat \<Rightarrow> policer) \<Rightarrow> nat set \<Rightarrow> nat list \<Rightarrow> bool" where
  "in_order pls S [] \<longleftrightarrow> True"
| "in_order pls S (p # ps) \<longleftrightarrow> (\<forall>q. pl_overflow (pls p) = Some q \<longrightarrow> q \<in> S) \<and> p \<notin> S \<and> in_order pls (insert p S) ps"

lemma in_order_snoc:
  "in_order pls S (ps @ [p]) \<longleftrightarrow> in_order pls S ps \<and> p \<notin> S \<union> set ps \<and> (\<forall>q. pl_overflow (pls p) = Some q \<longrightarrow> q \<in> S \<union> set ps)"
  by (induction ps arbitrary: S) auto

lemma add_bucket_ok:
  assumes "in_order pls {} bs" "bucket_fits pls p" "\<forall>q. pl_overflow (pls p) = Some q \<longrightarrow> q \<in> set bs"
  shows "\<exists>bs'. add_bucket pls p bs = Inr bs' \<and> in_order pls {} bs' \<and> set bs' = insert p (set bs)"
  using assms by (auto simp: add_bucket_def bucket_fits_def in_order_snoc)

lemma collect_police_ok:
  assumes "in_order pls {} bs" "\<forall>q \<in> buckets_of pls (D_police p). bucket_fits pls q" "one_level pls {p}"
  shows "\<exists>bs'. collect_police pls p bs = Inr bs' \<and> in_order pls {} bs' \<and> set bs' = buckets_of pls (D_police p) \<union> set bs"
proof (cases "pl_overflow (pls p)")
  case None
  then show ?thesis
    using add_bucket_ok [OF assms(1), of p] assms(2) by (auto simp: collect_police_def buckets_of_def)
next
  case (Some q)
  obtain bs1 where 1: "add_bucket pls q bs = Inr bs1" "in_order pls {} bs1" "set bs1 = insert q (set bs)"
    using add_bucket_ok [OF assms(1), of q] assms(2,3) Some by (auto simp: buckets_of_def one_level_def)
  then show ?thesis
    using add_bucket_ok [OF 1(2), of p] assms(2) Some by (auto simp: collect_police_def buckets_of_def)
qed

lemma collect_buckets_ok:
  "in_order pls {} bs \<Longrightarrow> \<forall>q \<in> buckets_of pls d. bucket_fits pls q \<Longrightarrow> one_level pls (police_ids d) \<Longrightarrow>
     \<exists>bs'. collect_buckets pls d bs = Inr bs' \<and> in_order pls {} bs' \<and> set bs' = buckets_of pls d \<union> set bs"
proof (induction d arbitrary: bs)
  case (D_op t dsc a b c)
  have split: "buckets_of pls (D_op t dsc a b c) = buckets_of pls a \<union> buckets_of pls b \<union> buckets_of pls c"
    by (auto simp: buckets_of_def)
  have one: "one_level pls (police_ids a)" "one_level pls (police_ids b)" "one_level pls (police_ids c)"
    using D_op.prems(3) by (auto simp: one_level_def)
  obtain bs1 where 1: "collect_buckets pls a bs = Inr bs1" "in_order pls {} bs1" "set bs1 = buckets_of pls a \<union> set bs"
    using D_op.IH(1) [OF D_op.prems(1) _ one(1)] D_op.prems(2) split by auto
  obtain bs2 where 2: "collect_buckets pls b bs1 = Inr bs2" "in_order pls {} bs2" "set bs2 = buckets_of pls b \<union> set bs1"
    using D_op.IH(2) [OF 1(2) _ one(2)] D_op.prems(2) split by auto
  obtain bs3 where 3: "collect_buckets pls c bs2 = Inr bs3" "in_order pls {} bs3" "set bs3 = buckets_of pls c \<union> set bs2"
    using D_op.IH(3) [OF 2(2) _ one(3)] D_op.prems(2) split by auto
  then show ?case using 1 2 split by auto
next
  case (D_police p)
  then show ?case using collect_police_ok [of pls bs p] by simp
next
  case (D_bucket p)
  moreover have "buckets_of pls (D_bucket p) = buckets_of pls (D_police p)" by (simp add: buckets_of_def)
  ultimately show ?case using collect_police_ok [of pls bs p] by simp
qed (simp_all add: buckets_of_def)

lemma scan_blank_first: "scan_i (CHR '' '' # s) = scan_i s" "scan_lu (CHR '' '' # s) = scan_lu s"
  by (simp_all add: scan_i_def scan_lu_def signed_def scan_blank)

lemma scan_lu_dec: "separate s \<Longrightarrow> scan_lu (dec n @ s) = Some (int n, s)"
proof -
  assume s: "separate s"
  have "scan_dec (dec k @ s) = Some (k, s)" for k
    using read_dec_roundtrip [of s k] s dec_cases [of k] by (auto simp: scan_dec_def separate_def is_digit_def split: list.split)
  then have "signed scan_dec (dec_int (int n) @ s) = Some (int n, s)" by (rule signed_dec)
  then show ?thesis by (simp add: scan_lu_def dec_int_of_nat)
qed

lemma scan_int_separate: "separate s \<Longrightarrow> scan_i (dec_int i @ s) = Some (i, s)"
  by (rule scan_i_dec_int) (auto simp: separate_def is_digit_def)

lemma separate_simps [simp]: "separate []" "separate (CHR '' '' # s)" "separate (concat (map (\<lambda>s. CHR '' '' # s) ws))"
  by (cases ws; simp add: separate_def)+

lemma plain_words: "list_all (list_all plain) ws \<Longrightarrow> list_all plain (concat (map (\<lambda>s. CHR '' '' # s) ws))"
  by (induction ws) (auto simp: plain_def [of "CHR '' ''"])

text \<open>The bucket a line adds.\<close>

definition bucket_read :: "(nat \<Rightarrow> policer) \<Rightarrow> nat \<Rightarrow> tcc_bucket \<Rightarrow> bool" where
  "bucket_read pls p b \<longleftrightarrow> bk_index b = sint (pl_number (pls p)) \<and> pl_rate (pls p) = Some (bk_rate b) \<and>
     pl_burst (pls p) = Some (bk_depth b) \<and> bk_initial b = bk_depth b \<and>
     bk_mpu b = (case pl_mpu (pls p) of Some m \<Rightarrow> uint m | None \<Rightarrow> 0) \<and>
     (pl_overflow (pls p) = None \<longrightarrow> bk_overflow b = [])"

lemma parse_bucket_text:
  assumes "separate rest"
  shows "parse_bucket ctx (dec_int i @ '' = '' @ dec r @ '' '' @ dec m @ '' '' @ dec d @ '' '' @ dec n @ '' '' @ dec_int ov @ rest) =
    (if list_ex (\<lambda>b. bk_index b = i) (cx_buckets ctx) then parse_error ''duplicate bucket index''
     else rbind (if ov \<noteq> 0 then rbind (find_bucket ctx ov) (\<lambda>b. Inr (bucket_chain b)) else Inr []) (\<lambda>chain.
       Inr (ctx\<lparr>cx_buckets := \<lparr>bk_index = i, bk_rate = word_of_nat r, bk_mpu = int m, bk_depth = word_of_nat d,
         bk_initial = word_of_nat n, bk_overflow = chain, bk_pragmas = parse_pragmas rest,
         bk_location = location (''police '' @ dec_int i)\<rparr> # cx_buckets ctx\<rparr>)))"
proof -
  have lit: "scan_lit '' = '' (CHR '' '' # CHR ''='' # CHR '' '' # s) = Some (skip_space s)" for s
    by (simp add: is_space_def scan_blank skip_space_nonspace)
  show ?thesis
    unfolding parse_bucket_def Let_def
    by (simp add: assms lit skip_dec scan_lu_dec scan_separate scan_int_separate scan_blank_first del: scan_lit.simps)
qed

lemma parse_bucket_line:
  assumes "bucket_fits pls p" "pl_rate (pls p) = Some rate" "pl_burst (pls p) = Some burst"
    "\<forall>b \<in> set (cx_buckets ctx). bk_index b \<noteq> sint (pl_number (pls p))"
    "\<forall>q. pl_overflow (pls p) = Some q \<longrightarrow> pl_number (pls q) \<noteq> 0 \<and> (\<exists>b \<in> set (cx_buckets ctx). bk_index b = sint (pl_number (pls q)))"
  shows "\<exists>b. parse_line ctx (''bucket '' @ bucket_args pls p rate burst @ [CHR 0x0A]) = Inr (ctx\<lparr>cx_buckets := b # cx_buckets ctx\<rparr>) \<and>
    bucket_read pls p b"
proof -
  have "list_all plain (bucket_args pls p rate burst)"
    using assms(1) by (simp add: bucket_args_def bucket_fits_def plain_words) (simp add: plain_def)
  then have "list_all plain (''bucket'' @ CHR '' '' # bucket_args pls p rate burst)" by (simp add: plain_def)
  then have 1: "parse_line ctx (''bucket'' @ CHR '' '' # bucket_args pls p rate burst @ [CHR 0x0A]) =
      parse_keyword ctx ''bucket'' (bucket_args pls p rate burst)"
    by (rule parse_line_word) (simp_all add: is_space_def)
  have new: "\<not> list_ex (\<lambda>b. bk_index b = sint (pl_number (pls p))) (cx_buckets ctx)"
    using assms(4) by (auto simp: list_ex_iff)
  have unat_word: "word_of_nat (unat w) = w" for w :: u32 by simp
  have mpu: "int (case pl_mpu (pls p) of Some m \<Rightarrow> unat m | None \<Rightarrow> 0) = (case pl_mpu (pls p) of Some m \<Rightarrow> uint m | None \<Rightarrow> 0)"
    by (simp split: option.split)
  let ?over = "(case pl_overflow (pls p) of Some q \<Rightarrow> sint (pl_number (pls q)) | None \<Rightarrow> 0)"
  have "\<exists>chain. (if ?over \<noteq> 0 then rbind (find_bucket ctx ?over) (\<lambda>b. Inr (bucket_chain b)) else Inr []) = Inr chain \<and>
      (pl_overflow (pls p) = None \<longrightarrow> chain = [])"
  proof (cases "pl_overflow (pls p)")
    case (Some q)
    then obtain b where "find (\<lambda>b. bk_index b = sint (pl_number (pls q))) (cx_buckets ctx) = Some b"
      using assms(5) by (cases "find (\<lambda>b. bk_index b = sint (pl_number (pls q))) (cx_buckets ctx)") (auto simp: find_None_iff)
    then show ?thesis using Some by (simp add: find_bucket_def)
  qed simp
  then obtain chain where chain: "(if ?over \<noteq> 0 then rbind (find_bucket ctx ?over) (\<lambda>b. Inr (bucket_chain b)) else Inr []) = Inr chain"
      "pl_overflow (pls p) = None \<longrightarrow> chain = []" by (elim exE conjE) (rule that)
  have key: "parse_keyword ctx ''bucket'' s = parse_bucket ctx s" for s by (simp add: parse_keyword_def)
  have as_line: "''bucket '' @ s @ [CHR 0x0A] = ''bucket'' @ CHR '' '' # s @ [CHR 0x0A]" for s by simp
  have "parse_bucket ctx (bucket_args pls p rate burst) = Inr (ctx\<lparr>cx_buckets := \<lparr>bk_index = sint (pl_number (pls p)), bk_rate = rate,
      bk_mpu = (case pl_mpu (pls p) of Some m \<Rightarrow> uint m | None \<Rightarrow> 0), bk_depth = burst, bk_initial = burst, bk_overflow = chain,
      bk_pragmas = parse_pragmas (concat (map (\<lambda>s. CHR '' '' # s) (pl_pragma (pls p)))),
      bk_location = location (''police '' @ dec_int (sint (pl_number (pls p))))\<rparr> # cx_buckets ctx\<rparr>)"
    unfolding bucket_args_def parse_bucket_text [OF separate_simps(3)]
    by (simp only: new if_False chain(1) rbind.simps mpu unat_word)
  moreover have "bucket_read pls p \<lparr>bk_index = sint (pl_number (pls p)), bk_rate = rate,
      bk_mpu = (case pl_mpu (pls p) of Some m \<Rightarrow> uint m | None \<Rightarrow> 0), bk_depth = burst, bk_initial = burst, bk_overflow = chain,
      bk_pragmas = ps, bk_location = l\<rparr>" for ps l
    using assms(2,3) chain(2) by (simp add: bucket_read_def)
  ultimately show ?thesis unfolding as_line 1 key by blast
qed

text \<open>All lines of the buckets in \<open>ps\<close>, when those of \<open>S\<close> have been read.\<close>

definition buckets_read :: "(nat \<Rightarrow> policer) \<Rightarrow> nat set \<Rightarrow> tcc_bucket list \<Rightarrow> bool" where
  "buckets_read pls S bks \<longleftrightarrow> bk_index ` set bks = (\<lambda>p. sint (pl_number (pls p))) ` S \<and>
     (\<forall>p \<in> S. \<exists>b. find (\<lambda>b. bk_index b = sint (pl_number (pls p))) bks = Some b \<and> bucket_read pls p b)"

lemma buckets_read_insert:
  assumes "buckets_read pls S bks" "bucket_read pls p b" "\<forall>q \<in> S. sint (pl_number (pls q)) \<noteq> sint (pl_number (pls p))"
  shows "buckets_read pls (insert p S) (b # bks)"
proof -
  have b: "bk_index b = sint (pl_number (pls p))" using assms(2) by (simp add: bucket_read_def)
  have "\<exists>c. find (\<lambda>b. bk_index b = sint (pl_number (pls q))) (b # bks) = Some c \<and> bucket_read pls q c" if "q \<in> insert p S" for q
  proof (cases "q \<in> S")
    case True
    then have "bk_index b \<noteq> sint (pl_number (pls q))" using assms(3) b by fastforce
    then show ?thesis using assms(1) True by (simp add: buckets_read_def)
  qed (use that b assms(2) in auto)
  then show ?thesis using assms(1) b by (simp add: buckets_read_def)
qed

lemma dump_buckets_read:
  "in_order pls S ps \<Longrightarrow> \<forall>p \<in> S \<union> set ps. bucket_fits pls p \<Longrightarrow> inj_on (\<lambda>p. pl_number (pls p)) (S \<union> set ps) \<Longrightarrow>
     buckets_read pls S (cx_buckets ctx) \<Longrightarrow>
     \<exists>ls bks. dump_buckets pls ps = Inr ls \<and> parse_lines ctx ls = Inr (ctx\<lparr>cx_buckets := bks\<rparr>) \<and> buckets_read pls (S \<union> set ps) bks"
proof (induction ps arbitrary: S ctx)
  case Nil
  then show ?case by (auto intro!: exI [of _ "cx_buckets ctx"])
next
  case (Cons p ps)
  have fits: "bucket_fits pls p" using Cons.prems(2) by simp
  then obtain rate burst where v: "pl_rate (pls p) = Some rate" "pl_burst (pls p) = Some burst"
    by (auto simp: bucket_fits_def)
  have p: "p \<notin> S" "in_order pls (insert p S) ps" "\<forall>q. pl_overflow (pls p) = Some q \<longrightarrow> q \<in> S"
    using Cons.prems(1) by simp_all
  have other: "sint (pl_number (pls q)) \<noteq> sint (pl_number (pls p))" if "q \<in> S" for q
    using that p(1) Cons.prems(3) signed_word_eqI [of "pl_number (pls q)" "pl_number (pls p)"]
    by (fastforce simp: inj_on_def)
  have idx: "bk_index ` set (cx_buckets ctx) = (\<lambda>p. sint (pl_number (pls p))) ` S"
    using Cons.prems(4) by (simp add: buckets_read_def)
  have new: "\<forall>b \<in> set (cx_buckets ctx). bk_index b \<noteq> sint (pl_number (pls p))"
  proof
    fix b assume "b \<in> set (cx_buckets ctx)"
    then have "bk_index b \<in> (\<lambda>p. sint (pl_number (pls p))) ` S" using idx by blast
    then obtain q where "q \<in> S" "bk_index b = sint (pl_number (pls q))" by blast
    then show "bk_index b \<noteq> sint (pl_number (pls p))" using other [of q] by simp
  qed
  have over: "\<forall>q. pl_overflow (pls p) = Some q \<longrightarrow> pl_number (pls q) \<noteq> 0 \<and> (\<exists>b \<in> set (cx_buckets ctx). bk_index b = sint (pl_number (pls q)))"
  proof (intro allI impI)
    fix q assume "pl_overflow (pls p) = Some q"
    then have q: "q \<in> S" using p(3) by blast
    then have "sint (pl_number (pls q)) \<in> bk_index ` set (cx_buckets ctx)" unfolding idx by blast
    then show "pl_number (pls q) \<noteq> 0 \<and> (\<exists>b \<in> set (cx_buckets ctx). bk_index b = sint (pl_number (pls q)))"
      using q Cons.prems(2) by (auto simp: bucket_fits_def)
  qed
  obtain b where b: "parse_line ctx (''bucket '' @ bucket_args pls p rate burst @ [CHR 0x0A]) = Inr (ctx\<lparr>cx_buckets := b # cx_buckets ctx\<rparr>)"
      "bucket_read pls p b"
    using parse_bucket_line [OF fits v new over] by blast
  have "buckets_read pls (insert p S) (b # cx_buckets ctx)"
    by (rule buckets_read_insert [OF Cons.prems(4) b(2)]) (use other in blast)
  from Cons.IH [OF p(2) _ _, of "ctx\<lparr>cx_buckets := b # cx_buckets ctx\<rparr>"] this Cons.prems(2,3)
  obtain ls bks where "dump_buckets pls ps = Inr ls" "parse_lines (ctx\<lparr>cx_buckets := b # cx_buckets ctx\<rparr>) ls = Inr (ctx\<lparr>cx_buckets := bks\<rparr>)"
      "buckets_read pls (insert p S \<union> set ps) bks"
    by auto
  then show ?case using v b(1) by (auto simp: present_def)
qed

section \<open>The policers of an action have buckets\<close>

lemma add_actions_policers:
  "add_actions d next otherwise = Inr t \<Longrightarrow> policers_of t \<subseteq> police_ids d \<union> police_ids next \<union> police_ids otherwise"
proof (induction "size d + size next + size otherwise" arbitrary: d "next" otherwise t rule: less_induct)
  case less
  have police: "police_of a = Inr p \<Longrightarrow> p \<in> police_ids a" for a p
    by (cases a) (auto simp: police_of_def)
  show ?case
  proof (cases d)
    case (D_decision r c)
    then show ?thesis using less.prems
      by (subst (asm) add_actions.simps) (auto simp: make_decision_def split: decision_result.splits)
  next
    case (D_op ty dsc a b c)
    show ?thesis
      using less.prems [unfolded D_op]
    proof (cases rule: add_actions_op)
      case lor
      have "policers_of t \<subseteq> police_ids a \<union> police_ids D_none \<union> police_ids b"
        by (rule less.hyps [OF _ lor(2)]) (simp add: D_op)
      then show ?thesis by (auto simp: D_op)
    next
      case land
      have "policers_of t \<subseteq> police_ids a \<union> police_ids b \<union> police_ids otherwise"
        by (rule less.hyps [OF _ land(2)]) (simp add: D_op)
      then show ?thesis by (auto simp: D_op)
    next
      case (conform p yes no)
      have "policers_of yes \<subseteq> police_ids next \<union> police_ids D_none \<union> police_ids otherwise"
        by (rule less.hyps [OF _ conform(4)]) (simp add: D_op)
      moreover have "policers_of no \<subseteq> police_ids otherwise \<union> police_ids D_none \<union> police_ids D_none"
        by (rule less.hyps [OF _ conform(5)]) (simp add: D_op)
      ultimately show ?thesis using police [OF conform(2)] by (auto simp: D_op conform(3))
    next
      case (count p yes)
      have "policers_of yes \<subseteq> police_ids next \<union> police_ids D_none \<union> police_ids otherwise"
        by (rule less.hyps [OF _ count(4)]) (simp add: D_op)
      then show ?thesis using police [OF count(2)] by (auto simp: D_op count(3))
    qed
  qed (use less.prems in \<open>simp_all add: add_actions.simps\<close>)
qed

lemma repeated_policers: "policers_of (repeated_actions path t) \<subseteq> policers_of t"
proof (induction path t rule: repeated_actions.induct)
  case (1 path p yes no)
  show ?case
  proof (cases "map_of path p")
    case None
    then show ?thesis using "1.IH"(1,2) by auto
  next
    case (Some v)
    then show ?thesis using "1.IH"(3) [OF Some] by (cases v) auto
  qed
qed auto

lemma tree_policers: "action_tree_of d = Inr t \<Longrightarrow> policers_of t \<subseteq> police_ids d"
  using add_actions_policers [of d D_none D_none] repeated_policers by (fastforce simp: action_tree_of_def rbind_Inr_iff)

lemma parts_policers: "e \<in> set (action_parts d) \<Longrightarrow> police_ids e \<subseteq> police_ids d"
  by (induction d) (auto split: if_split_asm simp del: action_tree.simps)

section \<open>The whole output\<close>

text \<open>\<open>dump_action\<close> looks the number of the action up while it prints the rule.\<close>

fun rule_lines :: "class_info \<Rightarrow> (nat \<Rightarrow> int) \<Rightarrow> ext_line list \<Rightarrow> action_db \<Rightarrow> string list result" where
  "rule_lines info num [] db = Inr []"
| "rule_lines info num (Match bs d # ls) db =
     rbind (get_action info d db) (\<lambda>(i, db).
     rbind (rule_lines info num ls db) (\<lambda>ts.
       Inr ((''match'' @ collect_bits bs @ '' action '' @ dec_int (num i) @ [CHR 0x0A]) # ts)))"

definition dump_if_ext_global :: "(nat \<Rightarrow> policer) \<Rightarrow> group_table \<Rightarrow> nat list \<Rightarrow> string list result" where
  "dump_if_ext_global pls gt bs =
     rbind (dump_buckets pls bs) (\<lambda>ls. Inr (map offset_text (offset_groups gt) @ ls))"

definition dump_if_ext_local ::
  "(nat \<Rightarrow> policer) \<Rightarrow> class_info \<Rightarrow> field_state \<Rightarrow> data \<Rightarrow> group_table \<Rightarrow> string list result" where
  "dump_if_ext_local pls info fs d gt =
     rbind (dump_actions (\<lambda>e r. rbind r (register_actions info e)) d (Inr empty_db)) (\<lambda>db.
     rbind (write_actions (\<lambda>p. pl_number (pls p)) info db) (\<lambda>(num, als).
     rbind (dump_rules fs d gt) (\<lambda>(gt, ls).
     rbind (rule_lines info num ls db) (\<lambda>rls. Inr (als @ rls)))))"

text \<open>
  The end of \<open>dump_if_ext_expr\<close> and \<open>dump_callback\<close>, for a combined expression (\<^verbatim>\<open>no_combine\<close> and
  \<^verbatim>\<open>use_bit_tree\<close> are off).
\<close>

definition dump_if_ext ::
  "(nat \<Rightarrow> policer) \<Rightarrow> class_info \<Rightarrow> field_state \<Rightarrow> data \<Rightarrow> string list result" where
  "dump_if_ext pls info fs d =
     rbind (scan_offsets fs d reset_offsets) (\<lambda>gt.
     rbind (collect_buckets pls d []) (\<lambda>bs.
     rbind (dump_if_ext_global pls gt bs) (\<lambda>gls.
     rbind (dump_if_ext_local pls info fs d gt) (\<lambda>lls. Inr (gls @ lls)))))"

text \<open>What the policers, the classes and the actions of an expression have to be like.\<close>

definition policers_fit :: "(nat \<Rightarrow> policer) \<Rightarrow> data \<Rightarrow> bool" where
  "policers_fit pls d \<longleftrightarrow> (\<forall>p \<in> buckets_of pls d. bucket_fits pls p) \<and> one_level pls (police_ids d) \<and>
     inj_on (\<lambda>p. pl_number (pls p)) (buckets_of pls d)"

definition actions_fit :: "class_info \<Rightarrow> data \<Rightarrow> bool" where
  "actions_fit info d \<longleftrightarrow> no_clash (trees_of (action_parts d)) \<and>
     (\<forall>e \<in> set (action_parts d). (case action_tree_of e of Inr t \<Rightarrow> keyed info t | Inl _ \<Rightarrow> False) \<and> no_stale_test e)"

lemma rule_lines_text:
  assumes "\<forall>l \<in> set ls. \<exists>i. get_action info (line_action l) db = Inr (i, db) \<and> 0 \<le> num i"
  shows "rule_lines info num ls db = Inr (map (line_text (\<lambda>d. nat (num (fst (projr (get_action info d db)))))) ls)"
  using assms
proof (induction ls)
  case (Cons l ls)
  then show ?case by (cases l) (auto simp: line_text_def dec_int_nonneg)
qed simp

lemma local_lines:
  assumes "actions_fit info d" "\<forall>p \<in> police_ids d. bucket_of (\<lambda>p. pl_number (pls p)) ctx p \<noteq> None"
    "current_block ctx = Inr b" "bl_actions b = []" "dump_rules fs d gt = Inr (gt', ls)"
  shows "\<exists>als qs acts number. dump_if_ext_local pls info fs d gt = Inr (als @ map (line_text number) ls) \<and>
    parse_lines ctx als = Inr (with_actions qs acts ctx) \<and>
    (\<forall>e \<in> set (action_parts d). \<exists>t. action_tree_of e = Inr t \<and> no_stale_test e \<and>
       map_of acts (int (number e)) = Some (ext_action (chain_of (\<lambda>p. pl_number (pls p)) ctx) info t))"
proof -
  let ?pol = "\<lambda>p. pl_number (pls p)"
  have fits: "\<forall>e \<in> set (action_parts d). \<exists>t. action_tree_of e = Inr t \<and> tree_fits ?pol info ctx t"
  proof
    fix e assume e: "e \<in> set (action_parts d)"
    then obtain t where t: "action_tree_of e = Inr t" "keyed info t"
      using assms(1) by (cases "action_tree_of e") (auto simp: actions_fit_def)
    have "policers_of t \<subseteq> police_ids d" using tree_policers [OF t(1)] parts_policers [OF e] by blast
    then have "tree_fits ?pol info ctx t" using assms(2) t(2) unfolding tree_fits_def by blast
    then show "\<exists>t. action_tree_of e = Inr t \<and> tree_fits ?pol info ctx t" using t(1) by blast
  qed
  have "no_clash (trees_of (action_parts d))" using assms(1) by (simp add: actions_fit_def)
  from actions_written [OF fits this assms(3,4)] obtain db num als qs acts where w:
      "register_all info (action_parts d) empty_db = Inr db" "write_actions ?pol info db = Inr (num, als)"
      "parse_lines ctx als = Inr (with_actions qs acts ctx)"
      "\<forall>e \<in> set (action_parts d). \<exists>t i. action_tree_of e = Inr t \<and> get_action info e db = Inr (i, db) \<and> 0 \<le> num i \<and>
         map_of acts (num i) = Some (ext_action (chain_of ?pol ctx) info t)"
    by blast
  let ?number = "\<lambda>d. nat (num (fst (projr (get_action info d db))))"
  have "line_action ` set ls \<subseteq> set (action_parts d)" by (rule dump_rules_actions [OF assms(5)])
  then have "\<forall>l \<in> set ls. \<exists>i. get_action info (line_action l) db = Inr (i, db) \<and> 0 \<le> num i"
    using w(4) by blast
  then have "rule_lines info num ls db = Inr (map (line_text ?number) ls)" by (rule rule_lines_text)
  then have "dump_if_ext_local pls info fs d gt = Inr (als @ map (line_text ?number) ls)"
    using w(1,2) assms(5) by (simp add: dump_if_ext_local_def dump_actions_parts register_fold)
  moreover have "\<exists>t. action_tree_of e = Inr t \<and> no_stale_test e \<and> map_of acts (int (?number e)) = Some (ext_action (chain_of ?pol ctx) info t)"
    if e: "e \<in> set (action_parts d)" for e
  proof -
    obtain t i where "action_tree_of e = Inr t" "get_action info e db = Inr (i, db)" "0 \<le> num i"
        "map_of acts (num i) = Some (ext_action (chain_of ?pol ctx) info t)"
      using w(4) e by blast
    moreover have "no_stale_test e" using assms(1) e by (simp add: actions_fit_def)
    ultimately show ?thesis by simp
  qed
  ultimately show ?thesis using w(3) by blast
qed

section \<open>The output is read\<close>

lemma offset_lines_buckets:
  "parse_lines ctx (map offset_text gs) = Inr ctx' \<Longrightarrow> cx_buckets ctx' = cx_buckets ctx"
proof (induction gs arbitrary: ctx)
  case (Cons g gs)
  have "parse_offset ctx l = Inr ctx1 \<Longrightarrow> cx_buckets ctx1 = cx_buckets ctx" for l ctx1
    by (auto simp: parse_offset_def rbind_Inr_iff need_Inr parse_error_def Let_def simp del: scan_lit.simps
        split: option.splits prod.splits if_splits)
  then show ?case using Cons by (auto simp: rbind_Inr_iff offset_text_line)
qed simp

lemma entry_found_groups: "cx_groups ctx' = cx_groups ctx \<Longrightarrow> entry_found ctx' = entry_found ctx"
proof -
  assume "cx_groups ctx' = cx_groups ctx"
  then have "find_group ctx' = find_group ctx" by (intro ext) (simp add: find_group_def)
  then show ?thesis by (intro ext) (simp add: entry_found_def cong: sum.case_cong)
qed

lemma with_actions_context:
  assumes "cx_blocks ctx = b # bs"
  shows "cx_groups (with_actions qs acts ctx) = cx_groups ctx" "cx_buckets (with_actions qs acts ctx) = cx_buckets ctx"
    "cx_blocks (with_actions qs acts ctx) = b\<lparr>bl_qdiscs := qs, bl_actions := acts\<rparr> # bs"
  by (simp_all add: with_actions_def assms)

lemma dump_if_ext_parts:
  assumes "dump_if_ext pls info fs d = Inr ls"
  obtains gt bs bls als gt' rls where "scan_offsets fs d reset_offsets = Inr gt" "collect_buckets pls d [] = Inr bs"
    "dump_buckets pls bs = Inr bls" "dump_if_ext_local pls info fs d gt = Inr als" "dump_rules fs d gt = Inr (gt', rls)"
    "ls = map offset_text (offset_groups gt) @ bls @ als"
proof -
  from assms obtain gt bs bls als where 1: "scan_offsets fs d reset_offsets = Inr gt" "collect_buckets pls d [] = Inr bs"
      "dump_buckets pls bs = Inr bls" "dump_if_ext_local pls info fs d gt = Inr als"
      "ls = map offset_text (offset_groups gt) @ bls @ als"
    by (auto simp: dump_if_ext_def dump_if_ext_global_def rbind_Inr_iff)
  from 1(4) obtain gt' rls where "dump_rules fs d gt = Inr (gt', rls)"
    by (auto simp: dump_if_ext_local_def rbind_Inr_iff)
  with 1 show thesis by (intro that) assumption+
qed

text \<open>The context after the lines of an expression, and what its rules and buckets are.\<close>

lemma dump_if_ext_read:
  assumes "dump_if_ext pls info fs d = Inr ls" "field_roots fs = [0]" "roots_in {0} d" "small_accesses d"
    "policers_fit pls d" "actions_fit info d"
    "cx_groups ctx = []" "cx_buckets ctx = []" "current_block ctx = Inr b0" "bl_actions b0 = []" "bl_rules b0 = []"
  shows "\<exists>ctx' ctx1 b gt gt' rls number. parse_lines ctx ls = Inr ctx' \<and> current_block ctx' = Inr b \<and>
    buckets_read pls (buckets_of pls d) (cx_buckets ctx') \<and>
    scan_offsets fs d reset_offsets = Inr gt \<and> dump_rules fs d gt = Inr (gt', rls) \<and>
    list_all (entry_found ctx1) (offset_groups gt) \<and> list_all2 (rule_for number ctx1) rls (bl_rules b) \<and>
    (\<forall>e \<in> line_action ` set rls. \<exists>t. action_tree_of e = Inr t \<and> no_stale_test e \<and>
       find_action ctx1 (int (number e)) = Inr (Some (ext_action (chain_of (\<lambda>p. pl_number (pls p)) ctx') info t)))"
proof -
  let ?pol = "\<lambda>p. pl_number (pls p)"
  from assms(1) obtain gt bs bls lls gt' rls where p: "scan_offsets fs d reset_offsets = Inr gt" "collect_buckets pls d [] = Inr bs"
      "dump_buckets pls bs = Inr bls" "dump_if_ext_local pls info fs d gt = Inr lls" "dump_rules fs d gt = Inr (gt', rls)"
      "ls = map offset_text (offset_groups gt) @ bls @ lls"
    by (rule dump_if_ext_parts)
  note scan = dump_rules_scanned [OF p(1,5) assms(2-4)]
  obtain bs0 where b0: "cx_blocks ctx = b0 # bs0" using assms(9) by (auto simp: current_block_def split: list.splits)
  from offsets_parse [OF assms(2) scan(2) assms(7)] obtain ctx1 where 1:
      "parse_lines ctx (map offset_text (offset_groups gt)) = Inr ctx1" "cx_blocks ctx1 = cx_blocks ctx"
      "list_all (entry_found ctx1) (offset_groups gt)" by blast
  have bk1: "cx_buckets ctx1 = []" using offset_lines_buckets [OF 1(1)] assms(8) by simp
  have order: "in_order pls {} bs" "set bs = buckets_of pls d"
    using collect_buckets_ok [of pls "[]" d] p(2) assms(5) by (auto simp: policers_fit_def)
  obtain bks where 2: "parse_lines ctx1 bls = Inr (ctx1\<lparr>cx_buckets := bks\<rparr>)" "buckets_read pls (buckets_of pls d) bks"
    using dump_buckets_read [OF order(1), of ctx1] order(2) assms(5) bk1 p(3)
    by (auto simp: policers_fit_def buckets_read_def [of _ "{}"])
  let ?ctx2 = "ctx1\<lparr>cx_buckets := bks\<rparr>"
  have "\<forall>p \<in> police_ids d. bucket_of ?pol ?ctx2 p \<noteq> None"
  proof
    fix p assume "p \<in> police_ids d"
    then have "p \<in> buckets_of pls d" by (simp add: buckets_of_def)
    moreover from this have "uint (?pol p) = sint (?pol p)"
    proof -
      have "uint (?pol p) < 2 ^ 31" using \<open>p \<in> buckets_of pls d\<close> assms(5) by (auto simp: policers_fit_def bucket_fits_def)
      then have "signed_take_bit 31 (uint (?pol p)) = uint (?pol p)" by (intro signed_take_bit_int_eq_self order_trans [OF _ uint_ge_0]) auto
      then show ?thesis by (simp add: sint_uint)
    qed
    ultimately show "bucket_of ?pol ?ctx2 p \<noteq> None"
      using 2(2) by (fastforce simp: bucket_of_def find_bucket_def buckets_read_def)
  qed
  moreover have "current_block ?ctx2 = Inr b0" using 1(2) b0 by (simp add: current_block_def)
  ultimately obtain als qs acts number where 3: "dump_if_ext_local pls info fs d gt = Inr (als @ map (line_text number) rls)"
      "parse_lines ?ctx2 als = Inr (with_actions qs acts ?ctx2)"
      "\<forall>e \<in> set (action_parts d). \<exists>t. action_tree_of e = Inr t \<and> no_stale_test e \<and>
         map_of acts (int (number e)) = Some (ext_action (chain_of ?pol ?ctx2) info t)"
    using local_lines [OF assms(6) _ _ assms(10) p(5)] by blast
  let ?ctx3 = "with_actions qs acts ?ctx2"
  have blocks: "cx_blocks ?ctx2 = b0 # bs0" using 1(2) b0 by simp
  note wa = with_actions_context [OF blocks, of qs acts]
  have acts: "find_action ?ctx3 k = Inr (map_of acts k)" for k
    by (rule with_actions_facts(2)) (simp add: blocks)
  have found3: "list_all (entry_found ?ctx3) (offset_groups gt)"
    using 1(3) entry_found_groups [of ?ctx3 ctx1] wa(1) by simp
  have lines: "\<forall>e \<in> line_action ` set rls. \<exists>t. action_tree_of e = Inr t \<and> no_stale_test e \<and>
      find_action ?ctx3 (int (number e)) = Inr (Some (ext_action (chain_of ?pol ?ctx2) info t))"
    using 3(3) dump_rules_actions [OF p(5)] acts by auto
  have "actions_found number ?ctx3 rls"
    unfolding actions_found_def list_all_iff
  proof
    fix l assume "l \<in> set rls"
    then obtain a where "find_action ?ctx3 (int (number (line_action l))) = Inr (Some a)" using lines by blast
    then show "case find_action ?ctx3 (int (number (line_action l))) of Inr (Some a) \<Rightarrow> True | _ \<Rightarrow> False" by simp
  qed
  from parse_rule_lines [OF lines_found [OF assms(2) found3 scan(3) this]] obtain rs where rs:
      "parse_lines ?ctx3 (map (line_text number) rls) = Inr (add_rules rs ?ctx3)" "list_all2 (rule_for number ?ctx3) rls rs"
    using wa(3) by auto
  have "lls = als @ map (line_text number) rls" using p(4) 3(1) by simp
  then have "parse_lines ctx ls = Inr (add_rules rs ?ctx3)"
    using p(6) 1(1) 2(1) 3(2) rs(1) by (simp add: parse_lines_append)
  moreover have "current_block (add_rules rs ?ctx3) = Inr (b0\<lparr>bl_qdiscs := qs, bl_actions := acts, bl_rules := rs\<rparr>)"
    using wa(3) assms(11) by (simp add: add_rules_def current_block_def)
  moreover have bk: "cx_buckets (add_rules rs ?ctx3) = bks" using wa(2,3) by (simp add: add_rules_def)
  moreover have "chain_of ?pol (add_rules rs ?ctx3) = chain_of ?pol ?ctx2"
    using bk by (simp add: chain_of_def bucket_of_def find_bucket_def fun_eq_iff)
  ultimately show ?thesis using 2(2) p(1,5) found3 rs(2) lines
    by (intro exI [of _ "add_rules rs ?ctx3"] exI [of _ ?ctx3]
        exI [of _ "b0\<lparr>bl_qdiscs := qs, bl_actions := acts, bl_rules := rs\<rparr>"] exI [of _ gt] exI [of _ gt'] exI [of _ rls] exI [of _ number])
      simp
qed

section \<open>An example\<close>

text \<open>
  Packets that begin with a 2 are policed: they go to class 1:4 while the bucket 7 has tokens, which
  they use up, and are dropped otherwise. The bucket 7 overflows to the bucket 9.
\<close>

definition token_action :: data where
  "token_action = D_op dt_unum op_logical_or
     (D_op dt_unum op_logical_and (D_op dt_unum op_conform (D_bucket 1) D_none D_none)
       (D_op dt_unum op_logical_and (D_op dt_unum op_count (D_bucket 1) D_none D_none) (D_decision dr_class (Some (Class 0))) D_none)
       D_none)
     (D_decision dr_drop None) D_none"

definition token_expr :: data where
  "token_expr = D_op dt_unum op_logical_and
     (D_op dt_unum op_eq (D_op dt_unum op_access D_none (D_unum 0) (D_unum 8)) (D_unum 2) D_none) token_action D_none"

definition token_tree :: action where
  "token_tree = At_conform 1 (At_count 1 (At_class (Some (Class 0)))) At_drop"

definition token_policers :: "nat \<Rightarrow> policer" where
  "token_policers p =
     \<lparr>pl_number = (if p = 1 then 7 else 9), pl_rate = Some 1000, pl_peakrate = False, pl_mpu = None, pl_burst = Some 2000,
      pl_overflow = (if p = 1 then Some 2 else None), pl_pragma = [''fast'']\<rparr>"

definition token_classes :: class_info where
  "token_classes = \<lparr>cls_qdisc = \<lambda>_. Some 1, cls_number = \<lambda>_. 4\<rparr>"

definition token_block :: tcc_block where
  "token_block = \<lparr>bl_name = ''eth0'', bl_ingress = True, bl_qdiscs = [], bl_actions = [], bl_rules = [], bl_pragmas = [],
     bl_location = location ''device eth0''\<rparr>"

definition token_context :: tcc_context where
  "token_context = empty_context\<lparr>cx_blocks := [token_block]\<rparr>"

definition token_db :: action_db where
  "token_db = \<lparr>cells = [N_drop, N_class (Some (Class 0)), N_count 1 1, N_conform 1 2 0],
     referers = (\<lambda>_. [])(1 := [2], 0 := [3], 2 := [3]), hash = (\<lambda>_. [])(0 := [0], 22 := [1]), roots = [3]\<rparr>"

lemma token_tree_of: "action_tree_of token_action = Inr token_tree"
  by (simp add: action_tree_of_def token_action_def token_tree_def add_actions.simps police_of_def make_decision_def)

lemma token_parts: "action_parts token_expr = [token_action]"
  by (simp add: token_expr_def token_action_def)

lemma token_key: "hash_key token_classes (N_class (Some (Class 0))) = Inr 22" "hash_key token_classes N_drop = Inr 0"
  by (simp_all add: hash_key_def HASH_ENTRIES_def token_classes_def)

lemma token_register: "register_all token_classes [token_action] empty_db = Inr token_db"
  by (simp add: register_actions_def token_tree_of token_tree_def to_unique_def empty_db_def hash_find_def token_key
      common_referer_def add_referer_def add_cell_def Let_def token_db_def numeral_2_eq_2 numeral_3_eq_3)

definition token_numbers :: "nat \<Rightarrow> int" where
  "token_numbers = (\<lambda>_. -1)(1 := 4, 0 := 0, 2 := 1, 3 := 2)"

lemma token_indices: "assign_indices token_classes token_db = Inr token_numbers"
  by (simp add: assign_indices_def token_db_def assign_preferred.simps assign_rest.simps take_number_def next_number.simps
      number_available_fast_def Let_def token_classes_def token_numbers_def)


lemma token_dec: "dec 0 = ''0''" "dec 1 = ''1''" "dec (Suc 0) = ''1''" "dec 2 = ''2''" "dec 4 = ''4''" "dec 7 = ''7''" "dec 9 = ''9''" "dec 1000 = ''1000''" "dec 2000 = ''2000''"
  by code_simp+

lemma token_dumped: "each (dump_subtree (\<lambda>p. pl_number (token_policers p)) token_classes (cells token_db) token_numbers) (roots token_db) (\<lambda>_. False, []) =
    Inr ((\<lambda>_. False)(0 := True, 1 := True, 2 := True, 3 := True), [''action 0 = drop'' @ [CHR 0x0A], ''action 4 = class 1:4'' @ [CHR 0x0A], ''action 1 = count 7 action 4'' @ [CHR 0x0A],
      ''action 2 = conform 7 action 1 action 0'' @ [CHR 0x0A]])"
  by (simp add: token_db_def dump_subtree.simps dump_items.simps token_numbers_def token_classes_def token_policers_def dec_int_def token_dec)


definition token_match :: "rule_bit list" where
  "token_match = map (\<lambda>i. \<lparr>bm_group = 0, bm_offset = int i, bm_value = (i = 6)\<rparr>) [0..<8]"

lemma token_scan: "scan_offsets sample_roots token_expr reset_offsets = Inr reset_offsets"
  by (simp add: scan_offsets_def token_expr_def token_action_def)

lemma token_rules: "dump_rules sample_roots token_expr reset_offsets = Inr (reset_offsets, [Match token_match token_action])"
  by code_simp

lemma token_collect: "collect_buckets token_policers token_expr [] = Inr [2, 1]"
  by (simp add: token_expr_def token_action_def collect_police_def add_bucket_def token_policers_def)

lemma token_buckets: "dump_buckets token_policers [2, 1] =
    Inr [''bucket 9 = 1000 0 2000 2000 0 fast'' @ [CHR 0x0A], ''bucket 7 = 1000 0 2000 2000 9 fast'' @ [CHR 0x0A]]"
  by (simp add: present_def bucket_args_def token_policers_def dec_int_def token_dec)

lemma token_text: "collect_bits token_match = '' 0:0:8=0x02''"
  by code_simp

definition token_output :: "string list" where
  "token_output =
     [''bucket 9 = 1000 0 2000 2000 0 fast'' @ [CHR 0x0A], ''bucket 7 = 1000 0 2000 2000 9 fast'' @ [CHR 0x0A],
      ''action 0 = drop'' @ [CHR 0x0A], ''action 4 = class 1:4'' @ [CHR 0x0A], ''action 1 = count 7 action 4'' @ [CHR 0x0A],
      ''action 2 = conform 7 action 1 action 0'' @ [CHR 0x0A], ''match 0:0:8=0x02 action 2'' @ [CHR 0x0A]]"

lemma token_get: "get_action token_classes token_action token_db = Inr (3, token_db)"
  by (simp add: get_action_def token_tree_of token_tree_def token_db_def hash_find_def token_key common_referer_def)

lemma token_dump: "dump_if_ext token_policers token_classes sample_roots token_expr = Inr token_output"
proof -
  have o: "offset_groups reset_offsets = []" "token_numbers 3 = 2" by (simp_all add: reset_offsets_def token_numbers_def)
  show ?thesis
    using token_dumped
    by (simp add: dump_if_ext_def token_scan token_collect dump_if_ext_global_def token_buckets dump_if_ext_local_def dump_actions_parts
        token_parts register_fold token_register write_actions_def token_indices token_rules token_get token_text token_output_def
        o dec_int_def token_dec del: fold.simps register_all.simps dump_buckets.simps One_nat_def)
qed

definition token_ext_action :: tcc_action where
  "token_ext_action = A_conform [7, 9] (A_count [7, 9] (A_class [\<lparr>class_qdisc = 1, class_index = 4\<rparr>])) A_drop"

definition token_rule :: tcc_rule where
  "token_rule = \<lparr>matches_of = [\<lparr>match_field = \<lparr>tf_group = G_raw, tf_offset = 0, tf_length = 8\<rparr>, match_data = [2, 0, 0, 0]\<rparr>],
     rule_action = Some token_ext_action\<rparr>"

definition token_bucket :: "int \<Rightarrow> int list \<Rightarrow> tcc_bucket" where
  "token_bucket i overflow =
     \<lparr>bk_index = i, bk_rate = 1000, bk_mpu = 0, bk_depth = 2000, bk_initial = 2000, bk_overflow = overflow,
      bk_pragmas = [''fast''], bk_location = location (''police '' @ dec_int i)\<rparr>"

definition token_block_read :: tcc_block where
  "token_block_read =
     token_block\<lparr>bl_qdiscs := [\<lparr>qd_type = None, qd_index = 1, qd_params = [],
         qd_classes = [Tcc_class 4 [] [] (bl_location token_block) None []], qd_pragmas = [], qd_location = bl_location token_block\<rparr>],
       bl_actions := [(2, token_ext_action), (1, A_count [7, 9] (A_class [\<lparr>class_qdisc = 1, class_index = 4\<rparr>])),
         (4, A_class [\<lparr>class_qdisc = 1, class_index = 4\<rparr>]), (0, A_drop)],
       bl_rules := [token_rule]\<rparr>"

definition token_read :: tcc_context where
  "token_read = token_context\<lparr>cx_buckets := [token_bucket 7 [9], token_bucket 9 []], cx_blocks := [token_block_read]\<rparr>"

lemma token_parse: "parse_lines token_context token_output = Inr token_read"
  by code_simp

lemma token_policers_fit: "policers_fit token_policers token_expr"
proof -
  have b: "buckets_of token_policers token_expr = {1, 2}"
    by (auto simp: buckets_of_def token_expr_def token_action_def token_policers_def)
  have f: "bucket_fits token_policers p" for p
    by (simp add: bucket_fits_def token_policers_def) (simp add: plain_def)
  have "inj_on (\<lambda>p. pl_number (token_policers p)) {1, 2}" by (simp add: inj_on_def token_policers_def)
  then show ?thesis
    using f by (simp add: policers_fit_def b) (simp add: one_level_def token_policers_def)
qed

lemma token_actions_fit: "actions_fit token_classes token_expr"
proof -
  have s: "no_stale_test token_action"
    by (simp add: no_stale_test_def token_action_def add_actions.simps police_of_def make_decision_def)
  have "trees_of (action_parts token_expr) = subtrees token_tree"
    by (simp add: trees_of_def token_parts token_tree_of)
  then have "no_clash (trees_of (action_parts token_expr))" by (simp add: no_clash_def token_tree_def)
  then show ?thesis using s by (simp add: actions_fit_def token_parts token_tree_of) (simp add: token_tree_def token_classes_def)
qed

definition token_env :: "nat env" where
  "token_env = \<lparr>packet = raw_packet sample_raw, conforms = (\<lambda>s d. 0 < s), counts = (\<lambda>s d. s - 1)\<rparr>"

lemma token_form: "roots_in {0} token_expr" "small_accesses token_expr" "rule_form sample_roots token_env (0, 0) token_expr"
  "police_view token_env = token_env" "packet token_env = raw_packet sample_raw"
  using sample_neval
  by (simp_all add: token_expr_def token_action_def sample_roots_def token_env_def eq_test_def form_ok_op in_range_def bit_size_def police_view_def)

lemma token_fit: "rules_fit sample_raw (bl_rules token_block_read)"
  by (simp add: token_block_read_def token_rule_def match_fits_def sample_raw_def)

lemma token_empty: "cx_groups token_context = []" "cx_buckets token_context = []" "current_block token_context = Inr token_block"
  "bl_actions token_block = []" "bl_rules token_block = []" "current_block token_read = Inr token_block_read"
  by (simp_all add: token_context_def empty_context_def token_block_def current_block_def token_read_def)

section \<open>Properties\<close>





definition chain_policers :: "nat \<Rightarrow> policer" where
  "chain_policers p =
     \<lparr>pl_number = word_of_nat (6 + p), pl_rate = Some 1000, pl_peakrate = False, pl_mpu = None, pl_burst = Some 2000,
      pl_overflow = (if p < 3 then Some (p + 1) else None), pl_pragma = []\<rparr>"


end
