(* ===== verification/Tcsim_Time.thy ===== *)
theory Tcsim_Time
  imports Float64
begin

text \<open>
  \<^verbatim>\<open>tcsim/jiffies.c\<close> and \<^verbatim>\<open>tcsim/timer.c\<close>: the simulated clock and the list of timers.
  The C type \<^verbatim>\<open>unsigned long\<close> has 64 bits. A timer is identified by its address, \<open>tid\<close>; the
  linked list of pending timers is a list of their contents. Callbacks are arguments: the
  functions timers call belong to other components and to the kernel.
\<close>

section \<open>Time values\<close>

record jiffval =
  jiffies :: u64
  ujiffies :: u64

definition jiffval_cmp :: "jiffval \<Rightarrow> jiffval \<Rightarrow> int" where
  "jiffval_cmp a b =
     (if jiffies a < jiffies b then -1
      else if jiffies b < jiffies a then 1
      else if ujiffies a < ujiffies b then -1
      else if ujiffies b < ujiffies a then 1 else 0)"

text \<open>
  The loops that carry from the small unit to the large one, with the bound they compare to. The
  bounds the code uses make the second half of the guard redundant; it is there for termination.
\<close>

function carry :: "u64 \<Rightarrow> jiffval \<Rightarrow> jiffval" where
  "carry bound j =
     (if bound < ujiffies j \<and> 1000000 \<le> ujiffies j
      then carry bound (j\<lparr>ujiffies := ujiffies j - 1000000, jiffies := jiffies j + 1\<rparr>) else j)"
  by pat_completeness auto
termination
  by (relation "measure (\<lambda>(b, j). unat (ujiffies j))") (auto simp: unat_sub_if' word_le_nat_alt)

declare carry.simps [simp del]

definition normalize_jiffval :: "jiffval \<Rightarrow> jiffval" where
  "normalize_jiffval = carry 999999"

definition jv_add :: "jiffval \<Rightarrow> jiffval \<Rightarrow> jiffval" where
  "jv_add a b = carry 1000000
     (a\<lparr>jiffies := jiffies a + jiffies b, ujiffies := ujiffies a + ujiffies b\<rparr>)"

text \<open>Conversions between \<^verbatim>\<open>double\<close> and \<^verbatim>\<open>unsigned long\<close>, \<^verbatim>\<open>floor\<close> and \<^verbatim>\<open>rint\<close>.\<close>

definition f64_of_u64 :: "u64 \<Rightarrow> f64" where
  "f64_of_u64 x = f64_round (of_int (uint x))"

fun f64_to_u64 :: "f64 \<Rightarrow> u64 result" where
  "f64_to_u64 (F_num q) =
     (let t = (if q < 0 then - \<lfloor>- q\<rfloor> else \<lfloor>q\<rfloor>)
      in if 0 \<le> t \<and> t < 18446744073709551616 then Inr (word_of_int t)
         else Inl (E_undef ''double out of range of unsigned long''))"
| "f64_to_u64 (F_zero s) = Inr 0"
| "f64_to_u64 _ = Inl (E_undef ''double out of range of unsigned long'')"

definition f64_integral :: "f64 \<Rightarrow> int \<Rightarrow> f64" where
  "f64_integral x i = (if i = 0 then F_zero (f64_negative x) else F_num (of_int i))"

fun f64_floor :: "f64 \<Rightarrow> f64" where
  "f64_floor (F_num q) = f64_integral (F_num q) \<lfloor>q\<rfloor>"
| "f64_floor x = x"

fun f64_rint :: "f64 \<Rightarrow> f64" where
  "f64_rint (F_num q) = f64_integral (F_num q) (round_half_even q)"
| "f64_rint x = x"

definition dtojiffval :: "f64 \<Rightarrow> jiffval result" where
  "dtojiffval value =
     rbind (f64_to_u64 (f64_floor value)) (\<lambda>j.
     rbind (f64_to_u64 (f64_rint (f64_mul (f64_sub value (f64_of_u64 j)) (F_num 1000000)))) (\<lambda>u.
       Inr (normalize_jiffval \<lparr>jiffies = j, ujiffies = u\<rparr>)))"

definition jiffvaltod :: "jiffval \<Rightarrow> f64" where
  "jiffvaltod j = f64_add (f64_of_u64 (jiffies j)) (f64_div (f64_of_u64 (ujiffies j)) (F_num 1000000))"

text \<open>\<open>HZ\<close> is a constant of the kernel headers.\<close>

definition stoj :: "f64 \<Rightarrow> jiffval \<Rightarrow> jiffval result" where
  "stoj HZ secs = dtojiffval (f64_mul (jiffvaltod secs) HZ)"

definition jtos :: "f64 \<Rightarrow> jiffval \<Rightarrow> jiffval result" where
  "jtos HZ j = dtojiffval (f64_div (jiffvaltod j) HZ)"

section \<open>Timers\<close>

record timer =
  tid :: nat
  expires :: u64
  expires_ujiffies :: u64
  tfunction :: nat
  tdata :: nat

record clock =
  now :: jiffval
  jiffies_now :: u64
  timers :: "timer list"

definition timer_lt :: "timer \<Rightarrow> timer \<Rightarrow> bool" where
  "timer_lt a b =
     (if expires a < expires b then True else if expires b < expires a then False
      else expires_ujiffies a < expires_ujiffies b)"

definition timer_le :: "timer \<Rightarrow> timer \<Rightarrow> bool" where
  "timer_le a b =
     (if expires a < expires b then True else if expires b < expires a then False
      else expires_ujiffies a \<le> expires_ujiffies b)"

text \<open>The local variable \<open>tmp\<close> that stands for a point in time.\<close>

definition tmp_at :: "jiffval \<Rightarrow> timer" where
  "tmp_at j = \<lparr>tid = 0, expires = jiffies j, expires_ujiffies = ujiffies j, tfunction = 0, tdata = 0\<rparr>"

fun insert_timer :: "timer \<Rightarrow> timer list \<Rightarrow> timer list" where
  "insert_timer t [] = [t]"
| "insert_timer t (w # ws) = (if \<not> timer_le w t then t # w # ws else w # insert_timer t ws)"

text \<open>
  A timer that is pending already would be linked into the list a second time, which ruins the
  list; such a call is outside the model.
\<close>

definition add_hires_timer :: "timer \<Rightarrow> 'k clock_scheme \<Rightarrow> 'k clock_scheme result" where
  "add_hires_timer t st =
     (if timer_lt t (tmp_at (now st)) then Inl (E_errorf ''timer before current time'')
      else if tid t \<in> tid ` set (timers st) then Inl (E_undef ''timer is pending'')
      else Inr (st\<lparr>timers := insert_timer t (timers st)\<rparr>))"

definition add_timer :: "timer \<Rightarrow> 'k clock_scheme \<Rightarrow> 'k clock_scheme result" where
  "add_timer t st = add_hires_timer (t\<lparr>expires_ujiffies := 0\<rparr>) st"

fun unlink_timer :: "nat \<Rightarrow> timer list \<Rightarrow> timer list option" where
  "unlink_timer i [] = None"
| "unlink_timer i (w # ws) = (if tid w = i then Some ws else map_option ((#) w) (unlink_timer i ws))"

definition del_timer :: "timer \<Rightarrow> 'k clock_scheme \<Rightarrow> bool \<times> 'k clock_scheme" where
  "del_timer t st =
     (case unlink_timer (tid t) (timers st) of
        None \<Rightarrow> (False, st)
      | Some ts \<Rightarrow> (True, st\<lparr>timers := ts\<rparr>))"

definition mod_timer :: "timer \<Rightarrow> u64 \<Rightarrow> 'k clock_scheme \<Rightarrow> (bool \<times> 'k clock_scheme) result" where
  "mod_timer t e st =
     (let (res, st) = del_timer t st
      in rbind (add_timer (t\<lparr>expires := e, expires_ujiffies := 0\<rparr>) st) (\<lambda>st. Inr (res, st)))"

text \<open>
  The loop of \<open>advance_time\<close>. \<open>call\<close> is the function of the timer and \<open>poll\<close> is
  \<open>kernel_poll(NULL,0)\<close>. Callbacks may add timers, so the loop need not end.
\<close>

definition start_timer :: "timer \<Rightarrow> timer list \<Rightarrow> 'k clock_scheme \<Rightarrow> 'k clock_scheme" where
  "start_timer t ts st =
     st\<lparr>timers := ts, now := \<lparr>jiffies = expires t, ujiffies = expires_ujiffies t\<rparr>, jiffies_now := expires t\<rparr>"

partial_function (option) run_timers ::
  "(timer \<Rightarrow> 'k clock_scheme \<Rightarrow> 'k clock_scheme result) \<Rightarrow> ('k clock_scheme \<Rightarrow> 'k clock_scheme result) \<Rightarrow>
   jiffval \<Rightarrow> 'k clock_scheme \<Rightarrow> 'k clock_scheme result option" where
  [code]: "run_timers call poll next_time st =
     (case timers st of
        [] \<Rightarrow> Some (Inr st)
      | t # ts \<Rightarrow>
          if timer_le t (tmp_at next_time) then
            (case rbind (call t (start_timer t ts st)) poll of
               Inl e \<Rightarrow> Some (Inl e)
             | Inr st' \<Rightarrow> run_timers call poll next_time st')
          else Some (Inr st))"

text \<open>\<open>None\<close> inside the result is the return value \<open>-1\<close>.\<close>

definition advance_time ::
  "(timer \<Rightarrow> 'k clock_scheme \<Rightarrow> 'k clock_scheme result) \<Rightarrow> ('k clock_scheme \<Rightarrow> 'k clock_scheme result) \<Rightarrow>
   jiffval \<Rightarrow> 'k clock_scheme \<Rightarrow> 'k clock_scheme option result option" where
  "advance_time call poll next_time st =
     (if jiffval_cmp next_time (now st) < 0 then Some (Inr None)
      else map_option (\<lambda>r. rbind r (\<lambda>st.
             Inr (Some (st\<lparr>now := next_time, jiffies_now := jiffies next_time\<rparr>))))
           (run_timers call poll next_time st))"

section \<open>Order\<close>

text \<open>One number that orders points in time as the code does, and the time in millionths.\<close>

definition lexnum :: "u64 \<Rightarrow> u64 \<Rightarrow> nat" where
  "lexnum a b = unat a * 2 ^ 64 + unat b"

definition jkey :: "jiffval \<Rightarrow> nat" where
  "jkey j = lexnum (jiffies j) (ujiffies j)"

definition tkey :: "timer \<Rightarrow> nat" where
  "tkey t = lexnum (expires t) (expires_ujiffies t)"

definition micros :: "jiffval \<Rightarrow> nat" where
  "micros j = unat (jiffies j) * 1000000 + unat (ujiffies j)"

lemma unat_lt_64: "unat (x :: u64) < 2 ^ 64"
  using unsigned_less [of x, where ?'a = nat] by simp

lemma lexnum_less: "lexnum a b < lexnum c d \<longleftrightarrow> a < c \<or> a = c \<and> b < d"
proof -
  have "lexnum a b < lexnum c d \<longleftrightarrow> unat a < unat c \<or> unat a = unat c \<and> unat b < unat d"
    unfolding lexnum_def using unat_lt_64 [of b] unat_lt_64 [of d]
    by (cases "unat a" "unat c" rule: linorder_cases) auto
  then show ?thesis by (simp add: word_less_nat_alt word_unat_eq_iff)
qed

lemma lexnum_le: "lexnum a b \<le> lexnum c d \<longleftrightarrow> a < c \<or> a = c \<and> b \<le> d"
  unfolding not_less [symmetric] lexnum_less using less_asym [of a c] by auto

lemma timer_lt_key: "timer_lt a b \<longleftrightarrow> tkey a < tkey b"
  using less_asym [of "expires a" "expires b"] by (auto simp: timer_lt_def tkey_def lexnum_less)

lemma timer_le_key: "timer_le a b \<longleftrightarrow> tkey a \<le> tkey b"
  using less_asym [of "expires a" "expires b"] by (auto simp: timer_le_def tkey_def lexnum_le)

lemma tkey_tmp_at [simp]: "tkey (tmp_at j) = jkey j"
  by (simp add: tkey_def jkey_def tmp_at_def)

lemma jiffval_cmp_key:
  "jiffval_cmp a b < 0 \<longleftrightarrow> jkey a < jkey b" "0 < jiffval_cmp a b \<longleftrightarrow> jkey b < jkey a"
  by (auto simp: jiffval_cmp_def jkey_def lexnum_less)

lemma jkey_inj: "jkey a = jkey b \<longleftrightarrow> (a :: jiffval) = b"
proof
  assume "jkey a = jkey b"
  then have "\<not> jkey a < jkey b" "\<not> jkey b < jkey a" by simp_all
  then show "a = b" unfolding jkey_def lexnum_less by (intro jiffval.equality) auto
qed simp

lemma jiffval_cmp_0: "jiffval_cmp a b = 0 \<longleftrightarrow> (a :: jiffval) = b"
  using jiffval_cmp_key [of a b] jkey_inj [of a b] by (metis less_irrefl not_less_iff_gr_or_eq)

section \<open>Carrying\<close>

lemma carry_bound: "999999 \<le> bound \<Longrightarrow> ujiffies (carry bound j) \<le> bound"
proof (induction bound j rule: carry.induct)
  case (1 bound j)
  show ?case
  proof (cases "bound < ujiffies j")
    case True
    have "unat bound < unat (ujiffies j)" "999999 \<le> unat bound"
      using True "1.prems" by (simp_all add: word_less_nat_alt word_le_nat_alt)
    then have "1000000 \<le> unat (ujiffies j)" by linarith
    then have "1000000 \<le> ujiffies j" by (simp add: word_le_nat_alt)
    with 1 True show ?thesis by (simp add: carry.simps [of bound j])
  next
    case False
    then have "carry bound j = j" by (subst carry.simps) simp
    with False show ?thesis by (simp add: not_less)
  qed
qed

lemma unat_Suc_64:
  assumes "unat (a :: u64) + 1 < 2 ^ 64"
  shows "unat (a + 1) = unat a + 1"
  using assms by (simp add: unat_plus_if_size word_size)

lemma carry_micros:
  "micros j < 1000000 * 2 ^ 64 \<Longrightarrow> micros (carry bound j) = micros j"
proof (induction bound j rule: carry.induct)
  case (1 bound j)
  let ?j = "j\<lparr>ujiffies := ujiffies j - 1000000, jiffies := jiffies j + 1\<rparr>"
  show ?case
  proof (cases "bound < ujiffies j \<and> 1000000 \<le> ujiffies j")
    case True
    then have u: "1000000 \<le> unat (ujiffies j)" by (simp add: word_le_nat_alt)
    then have u': "unat (ujiffies j - 1000000) = unat (ujiffies j) - 1000000"
      using True by (simp add: unat_sub)
    have "unat (jiffies j) + 1 < 2 ^ 64" using "1.prems" u by (simp add: micros_def)
    then have "micros ?j = micros j" using u u' by (simp add: micros_def unat_Suc_64)
    then show ?thesis using 1 True by (simp add: carry.simps [of bound j])
  next
    case False
    then have "carry bound j = j" by (subst carry.simps) auto
    then show ?thesis by simp
  qed
qed

lemma unat_add_64:
  assumes "unat (a :: u64) + unat b < 2 ^ 64"
  shows "unat (a + b) = unat a + unat b"
  using assms by (simp add: unat_plus_if_size word_size)

lemma jv_add_micros:
  assumes "unat (ujiffies a) + unat (ujiffies b) < 2 ^ 64" "micros a + micros b < 1000000 * 2 ^ 64"
  shows "micros (jv_add a b) = micros a + micros b" "ujiffies (jv_add a b) \<le> 1000000"
proof -
  let ?s = "a\<lparr>jiffies := jiffies a + jiffies b, ujiffies := ujiffies a + ujiffies b\<rparr>"
  have "unat (jiffies a) + unat (jiffies b) < 2 ^ 64" using assms(2) by (simp add: micros_def)
  then have "micros ?s = micros a + micros b" using assms(1) by (simp add: micros_def unat_add_64)
  then show "micros (jv_add a b) = micros a + micros b" using assms(2) by (simp add: jv_add_def carry_micros)
  show "ujiffies (jv_add a b) \<le> 1000000" by (simp add: jv_add_def carry_bound)
qed

lemma dtojiffval_normal: "dtojiffval v = Inr j \<Longrightarrow> ujiffies j \<le> 999999"
  by (auto simp: dtojiffval_def rbind_Inr_iff normalize_jiffval_def carry_bound)

section \<open>Whole jiffies through floating point\<close>

lemma f64_of_u64_exact:
  assumes "uint n < 2 ^ 53" "n \<noteq> 0"
  shows "f64_of_u64 n = F_num (of_int (uint n))"
proof -
  have "uint n \<noteq> 0" using assms(2) by (simp add: word_uint_eq_iff)
  then have "0 < uint n" using uint_ge_0 [of n] by (simp only: order_less_le) simp
  then show ?thesis using assms(1) unfolding f64_of_u64_def by (intro f64_round_int)
qed

lemma carry_0: "carry bound \<lparr>jiffies = n, ujiffies = 0\<rparr> = \<lparr>jiffies = n, ujiffies = 0\<rparr>"
  by (subst carry.simps) simp

lemma f64_floor_int:
  "0 < i \<Longrightarrow> i < 18446744073709551616 \<Longrightarrow> f64_to_u64 (f64_floor (F_num (of_int i))) = Inr (word_of_int i)"
  by (simp add: f64_integral_def)

lemma jiffval_roundtrip:
  assumes "uint n < 2 ^ 53"
  shows "dtojiffval (jiffvaltod \<lparr>jiffies = n, ujiffies = 0\<rparr>) = Inr \<lparr>jiffies = n, ujiffies = 0\<rparr>"
proof (cases "n = 0")
  case True
  then show ?thesis
    by (simp add: dtojiffval_def jiffvaltod_def f64_of_u64_def f64_round_def normalize_jiffval_def carry_0
        f64_sub_def)
next
  case False
  have z: "f64_div (f64_of_u64 0) (F_num 1000000) = F_zero False"
    by (simp add: f64_of_u64_def f64_round_def)
  have pos: "0 < uint n" using False uint_ge_0 [of n] by (simp add: order_less_le word_uint_eq_iff)
  have "(of_int (uint n) :: rat) \<noteq> 0" using pos by (simp only: of_int_eq_0_iff)
  then have nz: "(unsigned n :: rat) \<noteq> 0" by simp
  have exact: "f64_of_u64 n = F_num (of_int (uint n))" by (rule f64_of_u64_exact [OF assms False])
  have "jiffvaltod \<lparr>jiffies = n, ujiffies = 0\<rparr> = F_num (of_int (uint n))"
    using f64_round_int [OF pos assms] nz by (simp add: jiffvaltod_def z exact Let_def)
  moreover have "f64_to_u64 (f64_floor (F_num (of_int (uint n)))) = Inr n"
    using f64_floor_int [OF pos] uint_lt2p [of n] by (simp only: len_of_numeral_defs word_of_int_uint) simp
  moreover have "f64_sub (F_num (of_int (uint n))) (f64_of_u64 n) = F_zero False"
    using pos by (simp add: f64_sub_def exact)
  ultimately show ?thesis by (simp add: dtojiffval_def normalize_jiffval_def carry_0)
qed

section \<open>The list of timers\<close>

abbreviation in_order :: "timer list \<Rightarrow> bool" where
  "in_order \<equiv> sorted_wrt (\<lambda>a b. tkey a \<le> tkey b)"

text \<open>The invariant: timers in the order in which they expire, none in the past, none twice.\<close>

definition clock_ok :: "'k clock_scheme \<Rightarrow> bool" where
  "clock_ok st \<longleftrightarrow> in_order (timers st) \<and> (\<forall>t \<in> set (timers st). jkey (now st) \<le> tkey t) \<and>
     distinct (map tid (timers st)) \<and> jiffies_now st = jiffies (now st)"

lemma mset_insert_timer [simp]: "mset (insert_timer t ts) = add_mset t (mset ts)"
  by (induction ts) auto

lemma set_insert_timer [simp]: "set (insert_timer t ts) = insert t (set ts)"
  by (induction ts) auto

lemma distinct_insert_timer:
  "distinct (map tid (insert_timer t ts)) \<longleftrightarrow> tid t \<notin> tid ` set ts \<and> distinct (map tid ts)"
  by (induction ts) auto

lemma insert_timer_in_order: "in_order ts \<Longrightarrow> in_order (insert_timer t ts)"
  by (induction ts) (auto simp: timer_le_key)

text \<open>Timers that expire at the same time stay in the order in which they were added.\<close>

lemma insert_timer_fifo:
  "in_order ts \<Longrightarrow> filter (\<lambda>w. tkey w = k) (insert_timer t ts) =
     filter (\<lambda>w. tkey w = k) ts @ (if tkey t = k then [t] else [])"
proof (induction ts)
  case (Cons w ws)
  have "filter (\<lambda>w. tkey w = tkey t) ws = []" if "tkey t < tkey w"
    using Cons.prems that by (auto simp: filter_empty_conv)
  with Cons show ?case by (auto simp: timer_le_key)
qed simp

lemma filter_other_tid: "i \<notin> tid ` set ts \<Longrightarrow> filter (\<lambda>w. tid w \<noteq> i) ts = ts"
  by (induction ts) auto

lemma unlink_timer_None: "unlink_timer i ts = None \<longleftrightarrow> i \<notin> tid ` set ts"
  by (induction ts) auto

lemma unlink_timer_Some:
  "unlink_timer i ts = Some us \<Longrightarrow> distinct (map tid ts) \<Longrightarrow>
   us = filter (\<lambda>w. tid w \<noteq> i) ts \<and> i \<in> tid ` set ts"
proof (induction ts arbitrary: us)
  case (Cons w ws)
  have "filter (\<lambda>v. tid v \<noteq> tid w) ws = ws"
    using Cons.prems(2) by (simp add: filter_other_tid)
  with Cons show ?case by (auto split: if_splits)
qed simp

lemma clock_ok_filter: "clock_ok st \<Longrightarrow> clock_ok (st\<lparr>timers := filter P (timers st)\<rparr>)"
  by (auto simp: clock_ok_def sorted_wrt_filter distinct_map_filter)

lemma add_hires_timer_ok:
  assumes "clock_ok st" "add_hires_timer t st = Inr st'"
  shows "clock_ok st'" "timers st' = insert_timer t (timers st)" "now st' = now st"
  using assms by (auto simp: add_hires_timer_def clock_ok_def insert_timer_in_order distinct_insert_timer
      timer_lt_key not_less split: if_splits)

lemma add_hires_timer_total:
  assumes "jkey (now st) \<le> tkey t" "tid t \<notin> tid ` set (timers st)"
  shows "add_hires_timer t st = Inr (st\<lparr>timers := insert_timer t (timers st)\<rparr>)"
  using assms by (auto simp: add_hires_timer_def timer_lt_key)

lemma del_timer_ok:
  assumes "clock_ok st"
  shows "del_timer t st =
    (tid t \<in> tid ` set (timers st), st\<lparr>timers := filter (\<lambda>w. tid w \<noteq> tid t) (timers st)\<rparr>)"
proof (cases "unlink_timer (tid t) (timers st)")
  case None
  then have "filter (\<lambda>w. tid w \<noteq> tid t) (timers st) = timers st"
    unfolding unlink_timer_None by (rule filter_other_tid)
  with None show ?thesis by (simp add: del_timer_def unlink_timer_None [symmetric])
next
  case (Some ts)
  with unlink_timer_Some [OF Some] assms show ?thesis by (simp add: del_timer_def clock_ok_def)
qed

lemma mod_timer_ok:
  assumes "clock_ok st" "mod_timer t e st = Inr (res, st')"
  shows "clock_ok st'" "res \<longleftrightarrow> tid t \<in> tid ` set (timers st)"
  using assms add_hires_timer_ok(1) [OF clock_ok_filter [OF assms(1)]]
  by (auto simp: mod_timer_def add_timer_def del_timer_ok Let_def rbind_Inr_iff)

section \<open>Advancing the clock\<close>

text \<open>
  What the loop relies on in the functions it calls: when they return, they leave the clock alone
  and in order, and the timers they have added expire strictly later than the one that fired.
\<close>

locale timer_client =
  fixes call :: "timer \<Rightarrow> 'k clock_scheme \<Rightarrow> 'k clock_scheme result"
    and poll :: "'k clock_scheme \<Rightarrow> 'k clock_scheme result"
    and inv :: "'k clock_scheme \<Rightarrow> bool"
  assumes fires: "\<And>t ts st st'. clock_ok st \<Longrightarrow> inv st \<Longrightarrow> timers st = t # ts \<Longrightarrow>
      rbind (call t (start_timer t ts st)) poll = Inr st' \<Longrightarrow>
      clock_ok st' \<and> inv st' \<and> now st' = now (start_timer t ts st) \<and>
      (\<exists>new. mset (timers st') \<subseteq># mset ts + mset new \<and> (\<forall>n \<in> set new. tkey t < tkey n))"
    and inv_now: "\<And>st j. inv st \<Longrightarrow> clock_ok (st\<lparr>now := j, jiffies_now := jiffies j\<rparr>) \<Longrightarrow>
      inv (st\<lparr>now := j, jiffies_now := jiffies j\<rparr>)"
begin

text \<open>The time that the due timers have left; firing one replaces it by smaller numbers.\<close>

definition due :: "nat \<Rightarrow> timer multiset \<Rightarrow> nat multiset" where
  "due k ts = image_mset (\<lambda>t. k - tkey t) (filter_mset (\<lambda>t. tkey t \<le> k) ts)"

lemma due_simps [simp]:
  "due k (A + B) = due k A + due k B" "due k (add_mset t A) = (if tkey t \<le> k then add_mset (k - tkey t) (due k A) else due k A)"
  by (simp_all add: due_def)

lemma due_mono: "A \<subseteq># B \<Longrightarrow> due k A \<subseteq># due k B"
  unfolding due_def by (intro image_mset_subseteq_mono multiset_filter_mono)

lemma due_decreases:
  assumes "M \<subseteq># A + N" "\<forall>n \<in># N. tkey t < tkey n" "tkey t \<le> k"
  shows "(due k M, due k (add_mset t A)) \<in> mult {(a, b). a < b}"
proof -
  let ?I = "due k M \<inter># due k A" and ?K = "due k M - due k A" and ?J = "add_mset (k - tkey t) (due k A - due k M)"
  have "due k M \<subseteq># due k A + due k N" using due_mono [OF assms(1), of k] by simp
  then have "?K \<subseteq># due k N" by (simp add: subset_eq_diff_conv add.commute)
  moreover have "x < k - tkey t" if "x \<in># due k N" for x
    using that assms(2) by (fastforce simp: due_def)
  ultimately have "\<forall>x \<in># ?K. \<exists>j \<in># ?J. (x, j) \<in> {(a, b). a < b}"
    by (auto dest: mset_subset_eqD)
  then have "(?I + ?K, ?I + ?J) \<in> mult {(a, b). a < b}" by (intro one_step_implies_mult) auto
  moreover have "?I + ?K = due k M" by (simp add: multiset_eq_iff min_def)
  moreover have "?I + ?J = due k (add_mset t A)" using assms(3) by (simp add: multiset_eq_iff min_def)
  ultimately show ?thesis by simp
qed

lemma run_timers_returns:
  assumes "clock_ok st" "inv st" "jkey (now st) \<le> jkey next_time"
  shows "\<exists>r. run_timers call poll next_time st = Some r \<and>
    (\<forall>st'. r = Inr st' \<longrightarrow> clock_ok st' \<and> inv st' \<and> (\<forall>t \<in> set (timers st'). jkey next_time < tkey t))"
  using assms
proof (induction "due (jkey next_time) (mset (timers st))" arbitrary: st rule: wf_induct_rule [OF wf_mult [OF wf_less]])
  case 1
  consider "timers st = []" | t ts where "timers st = t # ts" "jkey next_time < tkey t"
    | t ts where "timers st = t # ts" "tkey t \<le> jkey next_time"
    by (cases "timers st") (auto simp: not_le [symmetric])
  then show ?case
  proof cases
    case 1
    then show ?thesis using "1.prems" by (subst run_timers.simps) simp
  next
    case (2 t ts)
    then have "\<forall>u \<in> set (timers st). jkey next_time < tkey u"
      using "1.prems"(1) by (fastforce simp: clock_ok_def)
    then show ?thesis using 2 "1.prems" by (subst run_timers.simps) (simp add: timer_le_key)
  next
    case (3 t ts)
    show ?thesis
    proof (cases "rbind (call t (start_timer t ts st)) poll")
      case (Inl e)
      then show ?thesis using 3 by (subst run_timers.simps) (simp add: timer_le_key)
    next
      case (Inr st')
      then obtain new where st': "clock_ok st'" "inv st'" "now st' = now (start_timer t ts st)"
          "mset (timers st') \<subseteq># mset ts + mset new" "\<forall>n \<in> set new. tkey t < tkey n"
        using fires [OF "1.prems"(1,2) 3(1) Inr] by blast
      have "jkey (now st') \<le> jkey next_time"
        using 3(2) by (simp add: st'(3) start_timer_def jkey_def tkey_def)
      moreover have "(due (jkey next_time) (mset (timers st')), due (jkey next_time) (mset (timers st))) \<in> mult {(a, b). a < b}"
        using due_decreases [OF st'(4) _ 3(2)] st'(5) 3(1) by simp
      ultimately show ?thesis
        using "1.hyps" [OF _ st'(1,2)] Inr 3 by (subst run_timers.simps) (simp add: timer_le_key)
    qed
  qed
qed

lemma advance_time_returns:
  assumes "clock_ok st" "inv st" "jkey (now st) \<le> jkey next_time"
  shows "\<exists>r. advance_time call poll next_time st = Some r \<and> r \<noteq> Inr None \<and>
    (\<forall>st'. r = Inr (Some st') \<longrightarrow> clock_ok st' \<and> inv st' \<and> now st' = next_time \<and>
       (\<forall>t \<in> set (timers st'). jkey next_time < tkey t))"
proof -
  obtain r where r: "run_timers call poll next_time st = Some r"
      "\<forall>st'. r = Inr st' \<longrightarrow> clock_ok st' \<and> inv st' \<and> (\<forall>t \<in> set (timers st'). jkey next_time < tkey t)"
    using run_timers_returns [OF assms] by blast
  have "clock_ok (st'\<lparr>now := next_time, jiffies_now := jiffies next_time\<rparr>)" if "r = Inr st'" for st'
    using r(2) that by (auto simp: clock_ok_def less_imp_le)
  then show ?thesis
    using r assms(3) inv_now by (cases r) (auto simp: advance_time_def jiffval_cmp_key not_less)
qed

end

end
