(* ===== verification/Tcsim_Net.thy ===== *)
theory Tcsim_Net
  imports Tcsim_Time
begin

text \<open>
  The simulated network of tcsim: packet attributes (\<^verbatim>\<open>tcsim/attr.c\<close>), hosts and routes
  (\<^verbatim>\<open>tcsim/host.c\<close>), and the devices, their transmission and the forwarding of packets
  (\<^verbatim>\<open>tcsim/klink.c\<close>, \<^verbatim>\<open>tcsim/ksvc.c\<close>). Devices are named by their position in \<^verbatim>\<open>dev_base\<close> and hosts by
  their number. The queuing disciplines and \<^verbatim>\<open>netif_schedule\<close>, \<^verbatim>\<open>dev_activate\<close> are kernel code and
  arguments of the definitions; they see the device they belong to only. Every line that the
  simulator prints is an entry of the list \<open>out\<close>.
\<close>

section \<open>Packet attributes\<close>

type_synonym u8 = "8 word"
type_synonym u16 = "16 word"

record attributes =
  present :: u8
  dflt :: u8
  nfmark :: u64
  priority :: u64
  protocol :: u64
  tc_index :: u64

definition attr_nfmark :: u8 where "attr_nfmark = 1"
definition attr_priority :: u8 where "attr_priority = 2"
definition attr_protocol :: u8 where "attr_protocol = 4"
definition attr_tc_index :: u8 where "attr_tc_index = 8"

text \<open>The macro \<open>MERGE\<close> for the attribute with flag \<open>f\<close>; \<open>copy\<close> stores the old value.\<close>

definition merge_attr :: "u8 \<Rightarrow> (attributes \<Rightarrow> attributes) \<Rightarrow> attributes \<Rightarrow> attributes \<Rightarrow> attributes" where
  "merge_attr f copy old new =
     (if present old AND f \<noteq> 0 \<and>
         (present new AND f = 0 \<or> dflt old AND f = 0 \<and> dflt new AND f \<noteq> 0)
      then (copy new)\<lparr>present := present new OR f, dflt := (dflt new AND NOT f) OR (dflt old AND f)\<rparr>
      else new)"

definition merge_attributes :: "attributes \<Rightarrow> attributes \<Rightarrow> attributes" where
  "merge_attributes old new =
     (let new = merge_attr attr_nfmark (\<lambda>n. n\<lparr>nfmark := nfmark old\<rparr>) old new;
          new = merge_attr attr_priority (\<lambda>n. n\<lparr>priority := priority old\<rparr>) old new;
          new = merge_attr attr_protocol (\<lambda>n. n\<lparr>protocol := protocol old\<rparr>) old new
      in merge_attr attr_tc_index (\<lambda>n. n\<lparr>tc_index := tc_index old\<rparr>) old new)"

section \<open>State\<close>

record packet =
  skb_gen :: u32
  skb_data :: "u8 list"
  skb_protocol :: u16
  skb_nfmark :: u64
  skb_priority :: u32
  skb_tc_index :: u16

datatype txing = Tx_none | Tx_busy | Tx_skb packet

record 'q net_device =
  dev_name :: string
  mtu :: nat
  ifindex :: nat
  up :: bool
  tx_queue_len :: nat
  kbps :: int
  txing :: txing
  host :: nat
  peer :: "nat option"
  qdisc :: "'q option"
  qdisc_ingress :: "'q option"
  scheduled :: bool

record 'q kernel =
  k_enqueue :: "'q \<Rightarrow> (packet \<Rightarrow> int \<times> 'q) option"
  k_dequeue :: "'q \<Rightarrow> (packet option \<times> 'q) option"
  k_qlen :: "'q \<Rightarrow> nat"
  k_activate :: "'q net_device \<Rightarrow> 'q net_device"
  k_schedule :: "'q net_device \<Rightarrow> 'q net_device"

record route =
  addr :: u32
  rmask :: u32
  rdev :: nat

datatype event =
    Ev_enqueue jiffval packet nat
  | Ev_refused jiffval u32 nat nat int
  | Ev_ingress jiffval packet nat
  | Ev_short jiffval packet nat
  | Ev_no_route jiffval packet nat u32
  | Ev_dequeue jiffval packet nat
  | Ev_tc jiffval "string list"
  | Ev_echo jiffval "string option"

record 'q sim = clock +
  dev_base :: "'q net_device list"
  hosts :: "route list list"
  generation :: u32
  next_addr :: nat
  dev_polls :: "nat \<Rightarrow> nat option"
  default_attributes :: attributes
  verbose :: int
  preserve :: bool
  out :: "event list"

definition log_event :: "event \<Rightarrow> ('q, 'z) sim_scheme \<Rightarrow> ('q, 'z) sim_scheme" where
  "log_event e st = st\<lparr>out := out st @ [e]\<rparr>"

text \<open>Access through a device pointer; a pointer that is no device is outside the program.\<close>

definition get_dev :: "nat \<Rightarrow> ('q, 'z) sim_scheme \<Rightarrow> 'q net_device result" where
  "get_dev d st = (if d < length (dev_base st) then Inr (dev_base st ! d) else Inl (E_undef ''device pointer''))"

definition put_dev :: "nat \<Rightarrow> 'q net_device \<Rightarrow> ('q, 'z) sim_scheme \<Rightarrow> ('q, 'z) sim_scheme" where
  "put_dev d dev st = st\<lparr>dev_base := (dev_base st)[d := dev]\<rparr>"

section \<open>Hosts and routes\<close>

definition create_host :: "('q, 'z) sim_scheme \<Rightarrow> nat \<times> ('q, 'z) sim_scheme" where
  "create_host st = (length (hosts st), st\<lparr>hosts := hosts st @ [[]]\<rparr>)"

definition route_clash :: "u32 \<Rightarrow> u32 \<Rightarrow> route \<Rightarrow> bool" where
  "route_clash a m rt \<longleftrightarrow> rmask rt AND NOT m = 0 \<and> (addr rt XOR a) AND rmask rt = 0"

definition insert_route :: "u32 \<Rightarrow> u32 \<Rightarrow> nat \<Rightarrow> route list \<Rightarrow> route list result" where
  "insert_route a m d rts =
     (if \<exists>rt \<in> set rts. route_clash (a AND m) m rt then Inl (E_errorf ''route clashes'')
      else Inr (rts @ [\<lparr>addr = a AND m, rmask = m, rdev = d\<rparr>]))"

definition add_route :: "nat \<Rightarrow> u32 \<Rightarrow> u32 \<Rightarrow> nat \<Rightarrow> ('q, 'z) sim_scheme \<Rightarrow> ('q, 'z) sim_scheme result" where
  "add_route h a m d st =
     rbind (get_dev d st) (\<lambda>dev.
       if host dev \<noteq> h then Inl (E_errorf ''route on different host'')
       else if length (hosts st) \<le> h then Inl (E_undef ''host pointer'')
       else rbind (insert_route a m d (hosts st ! h)) (\<lambda>rts. Inr (st\<lparr>hosts := (hosts st)[h := rts]\<rparr>)))"

definition connect_dev :: "nat \<Rightarrow> nat \<Rightarrow> ('q, 'z) sim_scheme \<Rightarrow> ('q, 'z) sim_scheme result" where
  "connect_dev a b st =
     rbind (get_dev a st) (\<lambda>deva. rbind (get_dev b st) (\<lambda>devb.
       if peer deva \<noteq> None then Inl (E_errorf ''device is already connected'')
       else if peer devb \<noteq> None then Inl (E_errorf ''device is already connected'')
       else let st = put_dev a (deva\<lparr>peer := Some b\<rparr>) st
            in rbind (get_dev b st) (\<lambda>devb. Inr (put_dev b (devb\<lparr>peer := Some a\<rparr>) st))))"

section \<open>Devices\<close>

definition lookup_net_device :: "string \<Rightarrow> ('q, 'z) sim_scheme \<Rightarrow> nat option" where
  "lookup_net_device name st =
     map_option fst (find (\<lambda>(i, d). dev_name d = name) (enumerate 0 (dev_base st)))"

definition ll_name_to_index :: "string \<Rightarrow> ('q, 'z) sim_scheme \<Rightarrow> nat" where
  "ll_name_to_index name st =
     (case find (\<lambda>d. dev_name d = name) (dev_base st) of None \<Rightarrow> 0 | Some d \<Rightarrow> ifindex d)"

definition ll_index_to_name :: "nat \<Rightarrow> ('q, 'z) sim_scheme \<Rightarrow> string option" where
  "ll_index_to_name idx st = map_option dev_name (find (\<lambda>d. ifindex d = idx) (dev_base st))"

definition dev_get_by_index :: "nat \<Rightarrow> ('q, 'z) sim_scheme \<Rightarrow> 'q net_device option" where
  "dev_get_by_index idx st = find (\<lambda>d. ifindex d = idx) (dev_base st)"

definition create_net_device ::
  "'q kernel \<Rightarrow> nat \<Rightarrow> string \<Rightarrow> int \<Rightarrow> ('q, 'z) sim_scheme \<Rightarrow> ('q, 'z) sim_scheme result" where
  "create_net_device k h name rate st =
     (if name \<in> dev_name ` set (dev_base st) then Inl (E_errorf ''duplicate interface name'')
      else Inr (st\<lparr>dev_base := dev_base st @
        [k_activate k \<lparr>dev_name = name, mtu = 1500, ifindex = length (dev_base st) + 1, up = True,
           tx_queue_len = 100, kbps = rate, txing = (if rate \<le> 0 then Tx_busy else Tx_none),
           host = h, peer = None, qdisc = None, qdisc_ingress = None, scheduled = False\<rparr>]\<rparr>))"

fun stalled_device :: "'q kernel \<Rightarrow> 'q net_device list \<Rightarrow> unit result" where
  "stalled_device k [] = Inr ()"
| "stalled_device k (d # ds) =
     (if 0 < kbps d then stalled_device k ds
      else case qdisc d of
        None \<Rightarrow> Inl (E_undef ''null qdisc'')
      | Some q \<Rightarrow> if k_qlen k q \<noteq> 0 then Inl (E_errorf ''device is stopped but has unsent packets'')
                  else stalled_device k ds)"

definition find_stalled_devices :: "'q kernel \<Rightarrow> ('q, 'z) sim_scheme \<Rightarrow> unit result" where
  "find_stalled_devices k st = stalled_device k (dev_base st)"

section \<open>Sending\<close>

text \<open>\<open>alloc_skb\<close> and \<open>memcpy\<close>: a packet with the next generation number and the given contents.\<close>

definition alloc_skb :: "u8 list \<Rightarrow> ('q, 'z) sim_scheme \<Rightarrow> packet \<times> ('q, 'z) sim_scheme" where
  "alloc_skb buf st =
     (\<lparr>skb_gen = generation st, skb_data = buf, skb_protocol = 0, skb_nfmark = 0, skb_priority = 0,
       skb_tc_index = 0\<rparr>, st\<lparr>generation := generation st + 1\<rparr>)"

definition kernel_enqueue' ::
  "'q kernel \<Rightarrow> nat \<Rightarrow> packet \<Rightarrow> ('q, 'z) sim_scheme \<Rightarrow> (int \<times> ('q, 'z) sim_scheme) result" where
  "kernel_enqueue' k d skb st =
     rbind (get_dev d st) (\<lambda>dev.
       let dev = k_schedule k dev;
           st = put_dev d dev st;
           st = (if 0 \<le> verbose st then log_event (Ev_enqueue (now st) skb d) st else st)
       in case qdisc dev of
            None \<Rightarrow> Inl (E_undef ''null qdisc'')
          | Some q \<Rightarrow>
              (case k_enqueue k q of
                 None \<Rightarrow> Inl (E_undef ''null function'')
               | Some enq \<Rightarrow>
                   let (res, q) = enq skb;
                       st = put_dev d (dev\<lparr>qdisc := Some q\<rparr>) st
                   in Inr (res, if res \<noteq> 0
                        then log_event (Ev_refused (now st) (skb_gen skb) (length (skb_data skb)) d res) st
                        else st)))"

text \<open>
  The protocol of a packet is kept in host byte order here.
  The total length is stored into the header of what looks like an IPv4 packet; the first byte
  holds the version and the header length.
\<close>

definition set_tot_len :: "u8 list \<Rightarrow> u8 list" where
  "set_tot_len buf =
     (if drop_bit 4 (hd buf) = 4 \<and> 5 \<le> take_bit 4 (hd buf) \<and> 20 \<le> length buf
      then buf[2 := word_of_nat (length buf div 256), 3 := word_of_nat (length buf)] else buf)"

definition kernel_enqueue ::
  "'q kernel \<Rightarrow> nat option \<Rightarrow> u8 list \<Rightarrow> attributes \<Rightarrow> ('q, 'z) sim_scheme \<Rightarrow> (int \<times> ('q, 'z) sim_scheme) result" where
  "kernel_enqueue k dev_opt buf attr st =
     rbind (case dev_opt of
              Some d \<Rightarrow> Inr d
            | None \<Rightarrow>
                (case dev_base st of
                   [] \<Rightarrow> Inl (E_errorf ''no device configured'')
                 | [d] \<Rightarrow> Inr 0
                 | _ \<Rightarrow> Inl (E_errorf ''must specify device when using multiple devices''))) (\<lambda>d.
     rbind (get_dev d st) (\<lambda>dev.
       case qdisc dev of
         None \<Rightarrow> Inl (E_errorf ''device is not configured'')
       | Some q \<Rightarrow>
           (case k_enqueue k q of
              None \<Rightarrow> Inl (E_errorf ''device is not configured'')
            | Some _ \<Rightarrow>
                if buf = [] then Inl (E_undef ''read beyond the packet'')
                else let (skb, st) = alloc_skb buf st
                     in kernel_enqueue' k d
                          (skb\<lparr>skb_data := set_tot_len buf, skb_protocol := word_of_int (uint (protocol attr)),
                             skb_nfmark := nfmark attr, skb_priority := ucast (priority attr),
                             skb_tc_index := ucast (tc_index attr)\<rparr>) st)))"

section \<open>Forwarding\<close>

text \<open>
  The destination address in bytes 16 to 19, in network byte order. Address and mask of a route
  are compared after both sides were brought to the same order.
\<close>

definition dst_addr :: "u8 list \<Rightarrow> u32" where
  "dst_addr b = push_bit 24 (ucast (b ! 16)) OR push_bit 16 (ucast (b ! 17)) OR
     push_bit 8 (ucast (b ! 18)) OR ucast (b ! 19)"

definition route_matches :: "u32 \<Rightarrow> route \<Rightarrow> bool" where
  "route_matches a rt \<longleftrightarrow> (addr rt XOR a) AND rmask rt = 0"

definition find_route :: "u32 \<Rightarrow> route list \<Rightarrow> route option" where
  "find_route a rts = find (route_matches a) rts"

definition NF_ACCEPT :: int where "NF_ACCEPT = 1"

text \<open>The ingress qdisc; the result tells whether the packet goes on.\<close>

definition ingress ::
  "'q kernel \<Rightarrow> nat \<Rightarrow> packet \<Rightarrow> 'q net_device \<Rightarrow> ('q, 'z) sim_scheme \<Rightarrow> (bool \<times> ('q, 'z) sim_scheme) result" where
  "ingress k d skb dev st =
     (case qdisc_ingress dev of
        None \<Rightarrow> Inr (True, st)
      | Some q \<Rightarrow>
          let st = (if 0 \<le> verbose st then log_event (Ev_ingress (now st) skb d) st else st)
          in case k_enqueue k q of
               None \<Rightarrow> Inl (E_undef ''null function'')
             | Some enq \<Rightarrow>
                 let (res, q) = enq skb;
                     st = put_dev d (dev\<lparr>qdisc_ingress := Some q\<rparr>) st
                 in if res \<noteq> NF_ACCEPT
                    then Inr (False, log_event (Ev_refused (now st) (skb_gen skb) (length (skb_data skb)) d res) st)
                    else Inr (True, st))"

definition reset_skb :: "('q, 'z) sim_scheme \<Rightarrow> packet \<Rightarrow> packet" where
  "reset_skb st skb =
     (if preserve st then skb
      else skb\<lparr>skb_nfmark := nfmark (default_attributes st), skb_priority := ucast (priority (default_attributes st)),
             skb_tc_index := ucast (tc_index (default_attributes st))\<rparr>)"

definition incoming :: "'q kernel \<Rightarrow> nat \<Rightarrow> packet \<Rightarrow> ('q, 'z) sim_scheme \<Rightarrow> ('q, 'z) sim_scheme result" where
  "incoming k d skb st =
     (let skb = reset_skb st skb
      in rbind (get_dev d st) (\<lambda>dev.
         rbind (ingress k d skb dev st) (\<lambda>(accept, st).
           if \<not> accept then Inr st
           else if length (skb_data skb) < 20 then Inr (log_event (Ev_short (now st) skb d) st)
           else if length (hosts st) \<le> host dev then Inl (E_undef ''host pointer'')
           else case find_route (dst_addr (skb_data skb)) (hosts st ! host dev) of
             None \<Rightarrow> Inr (log_event (Ev_no_route (now st) skb d (dst_addr (skb_data skb))) st)
           | Some rt \<Rightarrow> rbind (kernel_enqueue' k (rdev rt) skb st) (\<lambda>(res, st). Inr st))))"

section \<open>Transmission\<close>

text \<open>A device that transmits nothing has a null pointer there, which \<open>deliver\<close> would follow.\<close>

definition deliver :: "'q kernel \<Rightarrow> nat \<Rightarrow> ('q, 'z) sim_scheme \<Rightarrow> ('q, 'z) sim_scheme result" where
  "deliver k d st =
     rbind (get_dev d st) (\<lambda>dev.
     rbind (case txing dev of
              Tx_busy \<Rightarrow> Inr st
            | Tx_none \<Rightarrow> Inl (E_undef ''null packet'')
            | Tx_skb skb \<Rightarrow> (case peer dev of None \<Rightarrow> Inr st | Some p \<Rightarrow> incoming k p skb st)) (\<lambda>st.
     rbind (get_dev d st) (\<lambda>dev. Inr (put_dev d (dev\<lparr>txing := Tx_none\<rparr>) st))))"

definition dev_do_poll_fun :: nat where "dev_do_poll_fun = 0"

text \<open>The end of the transmission: \<^verbatim>\<open>jiffvaltod(now)+skb->len*8.0/1000.0/dev->kbps*HZ\<close>.\<close>

definition f64_of_int :: "int \<Rightarrow> f64" where
  "f64_of_int i = f64_round (of_int i)"

definition tx_end :: "f64 \<Rightarrow> jiffval \<Rightarrow> nat \<Rightarrow> int \<Rightarrow> jiffval result" where
  "tx_end HZ j len rate =
     dtojiffval (f64_add (jiffvaltod j)
       (f64_mul (f64_div (f64_div (f64_mul (f64_of_int (int len)) (F_num 8)) (F_num 1000)) (f64_of_int rate)) HZ))"

definition start_tx :: "f64 \<Rightarrow> nat \<Rightarrow> packet \<Rightarrow> ('q, 'z) sim_scheme \<Rightarrow> ('q, 'z) sim_scheme result" where
  "start_tx HZ d skb st =
     rbind (get_dev d st) (\<lambda>dev.
       let st = put_dev d (dev\<lparr>txing := Tx_skb skb\<rparr>) st
       in if kbps dev \<le> 0 then Inr st
          else rbind (tx_end HZ (now st) (length (skb_data skb)) (kbps dev)) (\<lambda>next_time.
            let a = next_addr st;
                st = st\<lparr>next_addr := a + 1, dev_polls := (dev_polls st)(a \<mapsto> d)\<rparr>
            in add_hires_timer \<lparr>tid = a, expires = jiffies next_time, expires_ujiffies = ujiffies next_time,
                 tfunction = dev_do_poll_fun, tdata = a\<rparr> st))"

definition kernel_poll_device ::
  "f64 \<Rightarrow> 'q kernel \<Rightarrow> nat \<Rightarrow> bool \<Rightarrow> ('q, 'z) sim_scheme \<Rightarrow> ('q, 'z) sim_scheme result" where
  "kernel_poll_device HZ k d unbusy st =
     rbind (get_dev d st) (\<lambda>dev.
     rbind (if unbusy \<and> txing dev \<noteq> Tx_none then deliver k d st else Inr st) (\<lambda>st.
     rbind (get_dev d st) (\<lambda>dev.
       if txing dev \<noteq> Tx_none \<or> \<not> scheduled dev then Inr st
       else case qdisc dev of
         None \<Rightarrow> Inr st
       | Some q \<Rightarrow>
           (case k_dequeue k q of
              None \<Rightarrow> Inr st
            | Some (None, q) \<Rightarrow> Inr (put_dev d (dev\<lparr>qdisc := Some q\<rparr>) st)
            | Some (Some skb, q) \<Rightarrow>
                let st = put_dev d (dev\<lparr>qdisc := Some q\<rparr>) st;
                    st = (if 0 \<le> verbose st then log_event (Ev_dequeue (now st) skb d) st else st)
                in start_tx HZ d skb st))))"

text \<open>The loop over all devices; the functions called do not change the list itself.\<close>

fun poll_devices ::
  "f64 \<Rightarrow> 'q kernel \<Rightarrow> nat list \<Rightarrow> bool \<Rightarrow> ('q, 'z) sim_scheme \<Rightarrow> ('q, 'z) sim_scheme result" where
  "poll_devices HZ k [] unbusy st = Inr st"
| "poll_devices HZ k (d # ds) unbusy st =
     rbind (kernel_poll_device HZ k d unbusy st) (poll_devices HZ k ds unbusy)"

definition kernel_poll ::
  "f64 \<Rightarrow> 'q kernel \<Rightarrow> nat option \<Rightarrow> bool \<Rightarrow> ('q, 'z) sim_scheme \<Rightarrow> ('q, 'z) sim_scheme result" where
  "kernel_poll HZ k dev_opt unbusy st =
     (case dev_opt of
        Some d \<Rightarrow> kernel_poll_device HZ k d unbusy st
      | None \<Rightarrow> poll_devices HZ k [0..<length (dev_base st)] unbusy st)"

definition dev_do_poll :: "f64 \<Rightarrow> 'q kernel \<Rightarrow> nat \<Rightarrow> ('q, 'z) sim_scheme \<Rightarrow> ('q, 'z) sim_scheme result" where
  "dev_do_poll HZ k data st =
     (case dev_polls st data of
        None \<Rightarrow> Inl (E_undef ''freed dev_poll'')
      | Some d \<Rightarrow>
          rbind (deliver k d (st\<lparr>dev_polls := (dev_polls st)(data := None)\<rparr>)) (kernel_poll HZ k (Some d) False))"

section \<open>Merging attributes\<close>

text \<open>An attribute of a set: absent, a default, or a value that was given.\<close>

datatype setting = Absent | Default u64 | Given u64

definition setting_of :: "u8 \<Rightarrow> (attributes \<Rightarrow> u64) \<Rightarrow> attributes \<Rightarrow> setting" where
  "setting_of f get a =
     (if present a AND f = 0 then Absent else if dflt a AND f = 0 then Given (get a) else Default (get a))"

fun pick :: "setting \<Rightarrow> setting \<Rightarrow> setting" where
  "pick old Absent = old"
| "pick (Given v) (Default w) = Given v"
| "pick old new = new"

lemmas attr_defs = attr_nfmark_def attr_priority_def attr_protocol_def attr_tc_index_def

lemma attr_bits:
  "bit attr_nfmark n \<longleftrightarrow> n = 0" "bit attr_priority n \<longleftrightarrow> n = 1"
  "bit attr_protocol n \<longleftrightarrow> n = 2" "bit attr_tc_index n \<longleftrightarrow> n = 3"
proof -
  have pow: "bit (2 ^ k :: u8) n \<longleftrightarrow> n = k" if "k < 8" for k
    using that by (auto simp: bit_exp_iff possible_bit_word)
  have flags: "attr_nfmark = 2 ^ 0" "attr_priority = 2 ^ 1" "attr_protocol = 2 ^ 2" "attr_tc_index = 2 ^ 3"
    by (simp_all add: attr_defs)
  show "bit attr_nfmark n \<longleftrightarrow> n = 0" "bit attr_priority n \<longleftrightarrow> n = 1"
    "bit attr_protocol n \<longleftrightarrow> n = 2" "bit attr_tc_index n \<longleftrightarrow> n = 3"
    unfolding flags by (rule pow, simp)+
qed

text \<open>Merging of one attribute: the flags of the others are kept.\<close>

lemma flag_8: "(\<And>n. bit (f :: u8) n \<longleftrightarrow> n = i) \<Longrightarrow> i < 8"
  using bit_imp_le_length [of f i] by simp

lemma and_flag_0:
  assumes "\<And>n. bit f n \<longleftrightarrow> n = i"
  shows "x AND f = 0 \<longleftrightarrow> \<not> bit (x :: u8) i"
  using flag_8 [OF assms] unfolding bit_eq_iff [of "x AND f" 0] by (auto simp: bit_and_iff assms)

lemma bit_8_high: "bit (x :: u8) n \<Longrightarrow> n < 8"
  using bit_imp_le_length [of x n] by simp

lemma merge_attr_flags:
  assumes f: "\<And>n. bit f n \<longleftrightarrow> n = i"
    and copy: "present (copy new) = present new" "dflt (copy new) = dflt new"
  shows "bit (present (merge_attr f copy old new)) j =
      (bit (present new) j \<or> j = i \<and> bit (present old) i)"
    and "bit (dflt (merge_attr f copy old new)) j =
      (if j = i \<and> bit (present old) i \<and> (\<not> bit (present new) i \<or> \<not> bit (dflt old) i \<and> bit (dflt new) i)
       then bit (dflt old) i else bit (dflt new) j)"
  using flag_8 [OF f]
  by (auto simp: merge_attr_def and_flag_0 [OF f] f copy bit_simps dest: bit_8_high)

lemma setting_of_bit:
  assumes "\<And>n. bit f n \<longleftrightarrow> n = i"
  shows "setting_of f get a =
    (if \<not> bit (present a) i then Absent else if bit (dflt a) i then Default (get a) else Given (get a))"
  by (simp add: setting_of_def and_flag_0 [OF assms])

lemma pick_cases:
  "pick old new = (if old \<noteq> Absent \<and> (new = Absent \<or> (\<exists>v. old = Given v) \<and> (\<exists>w. new = Default w)) then old else new)"
  by (cases old; cases new) auto

text \<open>Merging with flag \<open>i\<close> picks the setting of that attribute, and keeps the others.\<close>

lemma merge_attr_this:
  assumes f: "\<And>n. bit f n \<longleftrightarrow> n = i"
    and copy: "present (copy new) = present new" "dflt (copy new) = dflt new" "get (copy new) = get old"
    and get: "\<And>a p d. get (a\<lparr>present := p, dflt := d\<rparr>) = get a"
  shows "setting_of f get (merge_attr f copy old new) = pick (setting_of f get old) (setting_of f get new)"
  using flag_8 [OF f]
  by (auto simp: setting_of_bit [OF f] merge_attr_flags [where copy = copy and new = new, OF f copy(1,2)] pick_cases)
    (auto simp: merge_attr_def and_flag_0 [OF f] get copy)

lemma merge_attr_other:
  assumes f: "\<And>n. bit f n \<longleftrightarrow> n = i" and g: "\<And>n. bit g n \<longleftrightarrow> n = j" "i \<noteq> j"
    and copy: "present (copy new) = present new" "dflt (copy new) = dflt new" "get (copy new) = get new"
    and get: "\<And>a p d. get (a\<lparr>present := p, dflt := d\<rparr>) = get a"
  shows "setting_of g get (merge_attr f copy old new) = setting_of g get new"
  using g(2) by (auto simp: setting_of_bit [OF g(1)] merge_attr_flags [where copy = copy and new = new, OF f copy(1,2)])
    (auto simp: merge_attr_def get copy)

lemma merge_attributes_picks:
  "setting_of attr_nfmark nfmark (merge_attributes old new) =
     pick (setting_of attr_nfmark nfmark old) (setting_of attr_nfmark nfmark new)"
  "setting_of attr_priority priority (merge_attributes old new) =
     pick (setting_of attr_priority priority old) (setting_of attr_priority priority new)"
  "setting_of attr_protocol protocol (merge_attributes old new) =
     pick (setting_of attr_protocol protocol old) (setting_of attr_protocol protocol new)"
  "setting_of attr_tc_index tc_index (merge_attributes old new) =
     pick (setting_of attr_tc_index tc_index old) (setting_of attr_tc_index tc_index new)"
  by (simp_all add: merge_attributes_def merge_attr_this [OF attr_bits(1)] merge_attr_this [OF attr_bits(2)]
      merge_attr_this [OF attr_bits(3)] merge_attr_this [OF attr_bits(4)]
      merge_attr_other [OF attr_bits(1)] merge_attr_other [OF attr_bits(2)]
      merge_attr_other [OF attr_bits(3)] merge_attr_other [OF attr_bits(4)] attr_bits)

section \<open>Routes\<close>

text \<open>
  The invariant of a routing table: no route is covered by one before it. The specification is the
  usual one, the matching route with the longest mask.
\<close>

definition routes_ok :: "route list \<Rightarrow> bool" where
  "routes_ok rts \<longleftrightarrow> sorted_wrt (\<lambda>r1 r2. \<not> route_clash (addr r2) (rmask r2) r1) rts"

definition prefix_mask :: "u32 \<Rightarrow> bool" where
  "prefix_mask m \<longleftrightarrow> (\<exists>n. m = NOT (mask n))"

definition longest_match :: "u32 \<Rightarrow> route list \<Rightarrow> route \<Rightarrow> bool" where
  "longest_match a rts rt \<longleftrightarrow> rt \<in> set rts \<and> route_matches a rt \<and>
     (\<forall>r \<in> set rts. route_matches a r \<longrightarrow> rmask r AND NOT (rmask rt) = 0)"

lemma insert_route_ok: "insert_route a m d rts = Inr rts' \<Longrightarrow> routes_ok rts \<Longrightarrow> routes_ok rts'"
  by (auto simp: insert_route_def routes_ok_def sorted_wrt_append split: if_splits)

lemma and_not_0_bits: "x AND NOT y = 0 \<longleftrightarrow> (\<forall>n. bit x n \<longrightarrow> bit (y :: u32) n)"
  unfolding bit_eq_iff [of "x AND NOT y" 0] by (auto simp: bit_simps dest: bit_32_high)

lemma xor_and_0_bits: "(x XOR y) AND m = 0 \<longleftrightarrow> (\<forall>n. bit m n \<longrightarrow> bit x n = bit (y :: u32) n)"
  unfolding bit_eq_iff [of "(x XOR y) AND m" 0] by (auto simp: bit_simps dest: bit_32_high)

lemma prefix_masks_linear: "prefix_mask p \<Longrightarrow> prefix_mask q \<Longrightarrow> p AND NOT q = 0 \<or> q AND NOT p = 0"
  unfolding prefix_mask_def and_not_0_bits by (auto simp: bit_simps)

lemma matching_routes_clash:
  "route_matches a r1 \<Longrightarrow> route_matches a r2 \<Longrightarrow> rmask r1 AND NOT (rmask r2) = 0 \<Longrightarrow>
   route_clash (addr r2) (rmask r2) r1"
  unfolding route_clash_def route_matches_def xor_and_0_bits and_not_0_bits by metis

lemma find_route_longest:
  assumes "routes_ok rts" "\<forall>r \<in> set rts. prefix_mask (rmask r)" "find_route a rts = Some rt"
  shows "longest_match a rts rt"
  using assms
proof (induction rts)
  case (Cons r rts)
  show ?case
  proof (cases "route_matches a r")
    case True
    have "rmask s AND NOT (rmask r) = 0" if "s \<in> set rts" "route_matches a s" for s
      using Cons.prems(1,2) that prefix_masks_linear [of "rmask r" "rmask s"] matching_routes_clash [OF True that(2)]
      by (auto simp: routes_ok_def)
    then show ?thesis using True Cons.prems(3) by (auto simp: find_route_def longest_match_def)
  next
    case False
    then show ?thesis using Cons by (auto simp: find_route_def longest_match_def routes_ok_def)
  qed
qed (simp add: find_route_def)

lemma longest_match_found:
  assumes "routes_ok rts" "longest_match a rts rt"
  shows "find_route a rts = Some rt"
  using assms
proof (induction rts)
  case (Cons r rts)
  show ?case
  proof (cases "route_matches a r")
    case True
    have "rt = r"
    proof (rule ccontr)
      assume "rt \<noteq> r"
      then have "rt \<in> set rts" "route_matches a rt" "rmask r AND NOT (rmask rt) = 0"
        using Cons.prems(2) True by (auto simp: longest_match_def)
      then show False using Cons.prems(1) matching_routes_clash [OF True] by (auto simp: routes_ok_def)
    qed
    with True show ?thesis by (simp add: find_route_def)
  next
    case False
    then show ?thesis using Cons by (auto simp: find_route_def longest_match_def routes_ok_def)
  qed
qed (simp add: longest_match_def)

lemma find_route_None: "find_route a rts = None \<longleftrightarrow> (\<forall>r \<in> set rts. \<not> route_matches a r)"
  by (auto simp: find_route_def find_None_iff)

section \<open>A kernel with first-in first-out queues\<close>

text \<open>An instance of the kernel argument, with one packet list per device.\<close>

definition fifo_kernel :: "packet list kernel" where
  "fifo_kernel = \<lparr>k_enqueue = (\<lambda>q. Some (\<lambda>p. (0, q @ [p]))),
     k_dequeue = (\<lambda>q. Some (case q of [] \<Rightarrow> (None, []) | p # ps \<Rightarrow> (Some p, ps))),
     k_qlen = length, k_activate = (\<lambda>d. d\<lparr>qdisc := Some []\<rparr>), k_schedule = (\<lambda>d. d\<lparr>scheduled := True\<rparr>)\<rparr>"

end
