(* ===== verification/Tcsim_Tx.thy ===== *)
theory Tcsim_Tx
  imports Tcsim_Net
begin

text \<open>
  What the operations on the simulated network keep: the topology (names, rates, hosts, peers),
  the clock, and the agreement between the packets that devices transmit and the pending timers.
\<close>

section \<open>Frames\<close>

definition topo :: "'q net_device \<Rightarrow> string \<times> nat \<times> int \<times> nat \<times> nat option" where
  "topo d = (dev_name d, ifindex d, kbps d, host d, peer d)"

definition topo_tx :: "'q net_device \<Rightarrow> (string \<times> nat \<times> int \<times> nat \<times> nat option) \<times> txing" where
  "topo_tx d = (topo d, txing d)"

text \<open>
  What the program relies on in the kernel: activating and scheduling a device touch its queue
  only. Stated as a condition on the argument.
\<close>

definition kernel_frame :: "'q kernel \<Rightarrow> bool" where
  "kernel_frame k \<longleftrightarrow> (\<forall>d. topo_tx (k_activate k d) = topo_tx d) \<and> (\<forall>d. topo_tx (k_schedule k d) = topo_tx d)"

definition frame :: "('q net_device \<Rightarrow> 'b) \<Rightarrow> ('q, 'z) sim_scheme \<Rightarrow> ('q, 'z) sim_scheme \<Rightarrow> bool" where
  "frame f st st' \<longleftrightarrow>
     st' = st\<lparr>dev_base := dev_base st', out := out st', generation := generation st'\<rparr> \<and>
     map f (dev_base st') = map f (dev_base st)"

lemma frame_refl [simp]: "frame f st st"
  by (simp add: frame_def)

lemma frame_trans: "frame f st st' \<Longrightarrow> frame f st' st'' \<Longrightarrow> frame f st st''"
  unfolding frame_def by (cases st; cases st'; cases st'') simp

lemma frame_log [simp]: "frame f st (log_event e st)"
  by (simp add: frame_def log_event_def)

lemma frame_length: "frame f st st' \<Longrightarrow> length (dev_base st') = length (dev_base st)"
  unfolding frame_def using map_eq_imp_length_eq by blast

lemma frame_fields:
  assumes "frame f st st'"
  shows "now st' = now st" "jiffies_now st' = jiffies_now st" "timers st' = timers st" "hosts st' = hosts st"
    "next_addr st' = next_addr st" "dev_polls st' = dev_polls st" "verbose st' = verbose st"
  using assms unfolding frame_def by (cases st; cases st'; simp)+

lemma frame_map: "frame f st st' \<Longrightarrow> map f (dev_base st') = map f (dev_base st)"
  unfolding frame_def by blast

lemma frame_nth: "frame f st st' \<Longrightarrow> d < length (dev_base st) \<Longrightarrow> f (dev_base st' ! d) = f (dev_base st ! d)"
  unfolding frame_def by (metis map_eq_imp_length_eq nth_map)

lemma frame_put:
  assumes "d < length (dev_base st)" "f dev = f (dev_base st ! d)"
  shows "frame f st (put_dev d dev st)"
  using assms by (simp add: frame_def put_dev_def map_update list_update_same_conv)

lemma get_dev_Inr: "get_dev d st = Inr dev \<longleftrightarrow> d < length (dev_base st) \<and> dev = dev_base st ! d"
  by (auto simp: get_dev_def)

lemma put_dev_simps [simp]:
  "now (put_dev d dev st) = now st" "timers (put_dev d dev st) = timers st" "verbose (put_dev d dev st) = verbose st"
  "next_addr (put_dev d dev st) = next_addr st" "dev_polls (put_dev d dev st) = dev_polls st"
  "dev_base (put_dev d dev st) = (dev_base st)[d := dev]" "hosts (put_dev d dev st) = hosts st"
  by (simp_all add: put_dev_def)

lemma log_event_simps [simp]:
  "now (log_event e st) = now st" "timers (log_event e st) = timers st" "verbose (log_event e st) = verbose st"
  "next_addr (log_event e st) = next_addr st" "dev_polls (log_event e st) = dev_polls st"
  "dev_base (log_event e st) = dev_base st" "hosts (log_event e st) = hosts st"
  by (simp_all add: log_event_def)

lemma frame_update:
  assumes "frame f st st'" "d < length (dev_base st)" "f dev = f (dev_base st ! d)"
  shows "frame f st (put_dev d dev st')"
  using assms frame_trans [OF assms(1) frame_put [of d st' f dev]] frame_nth [OF assms(1,2)]
  by (simp add: frame_length)

lemma topo_tx_update [simp]:
  "topo_tx (d\<lparr>qdisc := q\<rparr>) = topo_tx d" "topo_tx (d\<lparr>qdisc_ingress := q\<rparr>) = topo_tx d"
  "topo_tx (d\<lparr>scheduled := s\<rparr>) = topo_tx d" "topo (d\<lparr>txing := x\<rparr>) = topo d"
  by (simp_all add: topo_tx_def topo_def)

lemma map_topo_tx: "map topo ds = map fst (map topo_tx ds)" "map txing ds = map snd (map topo_tx ds)"
  by (simp_all add: topo_tx_def)

lemma frame_weaken: "frame topo_tx st st' \<Longrightarrow> frame topo st st'"
  by (simp add: frame_def map_topo_tx(1) del: map_map)

lemma enqueue_frame:
  assumes "kernel_frame k" "kernel_enqueue' k d skb st = Inr (res, st')"
  shows "frame topo_tx st st'"
proof -
  let ?dev = "k_schedule k (dev_base st ! d)"
  let ?st = "if 0 \<le> verbose st then log_event (Ev_enqueue (now st) skb d) (put_dev d ?dev st) else put_dev d ?dev st"
  have d: "d < length (dev_base st)" and t: "topo_tx ?dev = topo_tx (dev_base st ! d)"
    using assms by (auto simp: kernel_enqueue'_def rbind_Inr_iff get_dev_Inr kernel_frame_def)
  have s: "frame topo_tx st ?st"
    using frame_put [of d st topo_tx ?dev] d t frame_trans [OF _ frame_log] by auto
  obtain q where "st' = put_dev d (?dev\<lparr>qdisc := Some q\<rparr>) ?st \<or>
      st' = log_event (Ev_refused (now ?st) (skb_gen skb) (length (skb_data skb)) d res) (put_dev d (?dev\<lparr>qdisc := Some q\<rparr>) ?st)"
    using assms(2) by (auto simp: kernel_enqueue'_def rbind_Inr_iff get_dev_Inr Let_def
        split: option.splits prod.splits if_splits)
  then show ?thesis
    using frame_update [OF s d, of "?dev\<lparr>qdisc := Some q\<rparr>"] t frame_trans [OF _ frame_log] by auto
qed

lemma ingress_frame:
  assumes "ingress k d skb (dev_base st ! d) st = Inr (ok, st')" "d < length (dev_base st)"
  shows "frame topo_tx st st'"
proof (cases "qdisc_ingress (dev_base st ! d)")
  case None
  then show ?thesis using assms by (simp add: ingress_def)
next
  case (Some q)
  let ?st = "if 0 \<le> verbose st then log_event (Ev_ingress (now st) skb d) st else st"
  have s: "frame topo_tx st ?st" by simp
  obtain res q' where "st' = put_dev d ((dev_base st ! d)\<lparr>qdisc_ingress := Some q'\<rparr>) ?st \<or>
      st' = log_event (Ev_refused (now ?st) (skb_gen skb) (length (skb_data skb)) d res)
        (put_dev d ((dev_base st ! d)\<lparr>qdisc_ingress := Some q'\<rparr>) ?st)"
    using assms(1) Some by (auto simp: ingress_def Let_def split: option.splits prod.splits if_splits)
  then show ?thesis
    using frame_update [OF s assms(2), of "(dev_base st ! d)\<lparr>qdisc_ingress := Some q'\<rparr>"] frame_trans [OF _ frame_log]
    by auto
qed

lemma incoming_frame:
  assumes "kernel_frame k" "incoming k d skb st = Inr st'"
  shows "frame topo_tx st st'"
proof -
  let ?skb = "reset_skb st skb"
  have d: "d < length (dev_base st)"
    using assms(2) by (auto simp: incoming_def Let_def rbind_Inr_iff get_dev_Inr)
  then obtain ok st1 where i: "ingress k d ?skb (dev_base st ! d) st = Inr (ok, st1)"
    and rest: "(if \<not> ok then Inr st1
       else if length (skb_data ?skb) < 20 then Inr (log_event (Ev_short (now st1) ?skb d) st1)
       else if length (hosts st1) \<le> host (dev_base st ! d) then Inl (E_undef ''host pointer'')
       else case find_route (dst_addr (skb_data ?skb)) (hosts st1 ! host (dev_base st ! d)) of
         None \<Rightarrow> Inr (log_event (Ev_no_route (now st1) ?skb d (dst_addr (skb_data ?skb))) st1)
       | Some rt \<Rightarrow> rbind (kernel_enqueue' k (rdev rt) ?skb st1) (\<lambda>(res, st). Inr st)) = Inr st'"
    using assms(2) by (auto simp: incoming_def Let_def rbind_Inr_iff get_dev_def)
  have s: "frame topo_tx st st1" by (rule ingress_frame [OF i d])
  have "frame topo_tx st1 st'"
    using rest enqueue_frame [OF assms(1)] by (auto simp: rbind_Inr_iff split: if_splits option.splits)
  with s show ?thesis by (rule frame_trans)
qed

text \<open>\<open>deliver\<close> changes the packet in transmission of its device and of no other.\<close>

lemma deliver_frame:
  assumes "kernel_frame k" "deliver k d st = Inr st'"
  shows "frame topo st st'" "d < length (dev_base st)" "txing (dev_base st ! d) \<noteq> Tx_none"
    "map txing (dev_base st') = (map txing (dev_base st))[d := Tx_none]"
proof -
  show d: "d < length (dev_base st)" using assms(2) by (auto simp: deliver_def rbind_Inr_iff get_dev_Inr)
  obtain st1 where 1: "(case txing (dev_base st ! d) of Tx_busy \<Rightarrow> Inr st | Tx_none \<Rightarrow> Inl (E_undef ''null packet'')
      | Tx_skb skb \<Rightarrow> (case peer (dev_base st ! d) of None \<Rightarrow> Inr st | Some p \<Rightarrow> incoming k p skb st)) = Inr st1"
    and st': "st' = put_dev d ((dev_base st1 ! d)\<lparr>txing := Tx_none\<rparr>) st1"
    using assms(2) by (auto simp: deliver_def rbind_Inr_iff get_dev_Inr)
  show "txing (dev_base st ! d) \<noteq> Tx_none" using 1 by auto
  have f: "frame topo_tx st st1"
    using 1 incoming_frame [OF assms(1)] by (auto split: txing.splits option.splits)
  then have d1: "d < length (dev_base st1)" using d by (simp add: frame_length)
  have "frame topo st1 st'" unfolding st' by (rule frame_put [OF d1]) simp
  with frame_weaken [OF f] show "frame topo st st'" by (rule frame_trans)
  have "map txing (dev_base st1) = map txing (dev_base st)"
    using f unfolding frame_def map_topo_tx(2) by metis
  then show "map txing (dev_base st') = (map txing (dev_base st))[d := Tx_none]"
    by (simp add: st' map_update)
qed

section \<open>Transmissions and timers\<close>

text \<open>
  The timers that end a transmission of device \<open>d\<close>. The invariant: a device with a rate that
  transmits a packet has exactly one of them, every other device has none. \<open>X\<close> holds devices whose
  timer has just expired.
\<close>

definition polls_of :: "('q, 'z) sim_scheme \<Rightarrow> nat \<Rightarrow> timer list" where
  "polls_of st d = filter (\<lambda>t. tfunction t = dev_do_poll_fun \<and> dev_polls st (tdata t) = Some d) (timers st)"

definition sending :: "'q net_device \<Rightarrow> bool" where
  "sending dev \<longleftrightarrow> 0 < kbps dev \<and> txing dev \<noteq> Tx_none"

definition addrs_ok :: "('q, 'z) sim_scheme \<Rightarrow> bool" where
  "addrs_ok st \<longleftrightarrow>
     (\<forall>t \<in> set (timers st). tid t < next_addr st \<and>
        (tfunction t = dev_do_poll_fun \<longrightarrow>
           tdata t = tid t \<and> (\<exists>d < length (dev_base st). dev_polls st (tid t) = Some d)))"

definition tx_except :: "nat set \<Rightarrow> ('q, 'z) sim_scheme \<Rightarrow> bool" where
  "tx_except X st \<longleftrightarrow> clock_ok st \<and> addrs_ok st \<and>
     (\<forall>d < length (dev_base st).
        length (polls_of st d) = (if d \<notin> X \<and> sending (dev_base st ! d) then 1 else 0) \<and>
        (0 < kbps (dev_base st ! d) \<longrightarrow> txing (dev_base st ! d) \<noteq> Tx_busy))"

abbreviation tx_ok :: "('q, 'z) sim_scheme \<Rightarrow> bool" where
  "tx_ok \<equiv> tx_except {}"

lemma sending_topo: "topo_tx a = topo_tx b \<Longrightarrow> sending a = sending b \<and> kbps a = kbps b \<and> txing a = txing b"
  by (simp add: topo_tx_def topo_def sending_def)

lemma tx_except_frame:
  assumes "tx_except X st" "frame topo_tx st st'"
  shows "tx_except X st'"
proof -
  note fields = frame_fields [OF assms(2)] frame_length [OF assms(2)]
  have "sending (dev_base st' ! d) = sending (dev_base st ! d)" "kbps (dev_base st' ! d) = kbps (dev_base st ! d)"
    "txing (dev_base st' ! d) = txing (dev_base st ! d)" if "d < length (dev_base st)" for d
    using frame_nth [OF assms(2) that] sending_topo by blast+
  then show ?thesis
    using assms(1) by (simp add: tx_except_def clock_ok_def addrs_ok_def polls_of_def fields)
qed

lemma deliver_tx:
  assumes "kernel_frame k" "deliver k d st = Inr st'" "tx_except X st" "d \<in> X \<or> kbps (dev_base st ! d) \<le> 0"
  shows "tx_except (X - {d}) st'"
proof -
  note f = deliver_frame [OF assms(1,2)]
  note fields = frame_fields [OF f(1)] frame_length [OF f(1)]
  have tx: "txing (dev_base st' ! e) = (if e = d then Tx_none else txing (dev_base st ! e))"
    if "e < length (dev_base st)" for e
    using arg_cong [OF f(4), of "\<lambda>l. l ! e"] that f(2) fields by (simp add: nth_list_update)
  have kb: "kbps (dev_base st' ! e) = kbps (dev_base st ! e)" if "e < length (dev_base st)" for e
    using frame_nth [OF f(1) that] by (simp add: topo_def)
  have "polls_of st' = polls_of st" by (simp add: polls_of_def fun_eq_iff fields)
  moreover have "clock_ok st'" "addrs_ok st'"
    using assms(3) by (simp_all add: tx_except_def clock_ok_def addrs_ok_def fields)
  moreover have "length (polls_of st d) = 0"
    using assms(3,4) f(2) by (auto simp: tx_except_def sending_def)
  ultimately show ?thesis
    using assms(3) by (auto simp: tx_except_def fields tx kb sending_def)
qed

lemma polls_of_insert:
  "length (filter P (insert_timer t ts)) = length (filter P ts) + (if P t then 1 else 0)"
  by (induction ts) auto

lemma start_tx_ok:
  assumes "tx_except X st" "start_tx HZ d skb st = Inr st'" "txing (dev_base st ! d) = Tx_none" "d \<notin> X"
  shows "tx_except X st'" "map topo (dev_base st') = map topo (dev_base st)" "now st' = now st"
proof -
  have d: "d < length (dev_base st)" using assms(2) by (auto simp: start_tx_def rbind_Inr_iff get_dev_Inr)
  let ?dev = "(dev_base st ! d)\<lparr>txing := Tx_skb skb\<rparr>"
  let ?st = "put_dev d ?dev st"
  have topo: "map topo ((dev_base st)[d := ?dev]) = map topo (dev_base st)"
    using d by (simp add: map_update list_update_same_conv)
  show "tx_except X st'" "map topo (dev_base st') = map topo (dev_base st)" "now st' = now st"
  proof (atomize (full), cases "kbps (dev_base st ! d) \<le> 0")
    case True
    then have st': "st' = ?st" using assms(2) d by (simp add: start_tx_def get_dev_def Let_def)
    have "polls_of st' = polls_of st" by (simp add: st' polls_of_def fun_eq_iff)
    then have "tx_except X st'"
      using assms(1) True d
      by (auto simp: st' tx_except_def clock_ok_def addrs_ok_def sending_def put_dev_def nth_list_update)
    then show "tx_except X st' \<and> map topo (dev_base st') = map topo (dev_base st) \<and> now st' = now st"
      using topo by (simp add: st')
  next
    case False
    then obtain j where "tx_end HZ (now st) (length (skb_data skb)) (kbps (dev_base st ! d)) = Inr j"
      using assms(2) d by (auto simp: start_tx_def get_dev_def Let_def rbind_Inr_iff)
    let ?a = "next_addr st"
    define t where "t = \<lparr>tid = ?a, expires = jiffies j, expires_ujiffies = ujiffies j, tfunction = dev_do_poll_fun, tdata = ?a\<rparr>"
    let ?st1 = "?st\<lparr>next_addr := ?a + 1, dev_polls := (dev_polls st)(?a \<mapsto> d)\<rparr>"
    have add: "add_hires_timer t ?st1 = Inr st'"
      using assms(2) d False \<open>tx_end _ _ _ _ = Inr j\<close> by (simp add: start_tx_def get_dev_def Let_def t_def)
    have old: "\<forall>u \<in> set (timers st). tid u \<noteq> ?a \<and> (tfunction u = dev_do_poll_fun \<longrightarrow> tdata u \<noteq> ?a)"
      using assms(1) by (fastforce simp: tx_except_def addrs_ok_def)
    have "clock_ok ?st1" using assms(1) by (simp add: tx_except_def clock_ok_def put_dev_def)
    note added = add_hires_timer_ok [OF this add]
    have st': "st' = ?st1\<lparr>timers := insert_timer t (timers st)\<rparr>"
      using add by (auto simp: add_hires_timer_def split: if_splits)
    have "addrs_ok st'"
      using assms(1) d by (auto simp: st' tx_except_def addrs_ok_def t_def less_Suc_eq)
    moreover have "length (polls_of st' e) = length (polls_of st e) + (if e = d then 1 else 0)" for e
    proof -
      have "filter (\<lambda>u. tfunction u = dev_do_poll_fun \<and> dev_polls st' (tdata u) = Some e) (timers st) = polls_of st e"
        using old by (auto simp: polls_of_def st' intro!: filter_cong)
      then show ?thesis by (simp add: polls_of_def [of st'] added(2) polls_of_insert) (simp add: st' t_def)
    qed
    ultimately have "tx_except X st'"
      using assms(1,3,4) added(1) d False
      by (auto simp: tx_except_def sending_def nth_list_update st')
    then show "tx_except X st' \<and> map topo (dev_base st') = map topo (dev_base st) \<and> now st' = now st"
      using topo by (simp add: st')
  qed
qed

text \<open>What a step of the simulation keeps besides the invariant.\<close>

definition tx_step :: "('q, 'z) sim_scheme \<Rightarrow> ('q, 'z) sim_scheme \<Rightarrow> bool" where
  "tx_step st st' \<longleftrightarrow> tx_ok st' \<and> map topo (dev_base st') = map topo (dev_base st) \<and> now st' = now st"

lemma tx_step_trans: "tx_step st st' \<Longrightarrow> tx_step st' st'' \<Longrightarrow> tx_step st st''"
  by (simp add: tx_step_def)

lemma tx_step_refl: "tx_ok st \<Longrightarrow> tx_step st st"
  by (simp add: tx_step_def)

lemma tx_step_frame: "tx_ok st \<Longrightarrow> frame topo_tx st st' \<Longrightarrow> tx_step st st'"
  using tx_except_frame [of "{}" st st'] frame_map [OF frame_weaken, of st st'] frame_fields(1) [of topo_tx st st']
  by (simp add: tx_step_def)

lemma poll_device_cases:
  assumes "kernel_poll_device HZ k d False st = Inr st'"
  obtains "st' = st"
  | q where "d < length (dev_base st)" "st' = put_dev d ((dev_base st ! d)\<lparr>qdisc := Some q\<rparr>) st"
  | skb q st1 where "d < length (dev_base st)" "txing (dev_base st ! d) = Tx_none" "start_tx HZ d skb st1 = Inr st'"
      "st1 = put_dev d ((dev_base st ! d)\<lparr>qdisc := Some q\<rparr>) st \<or>
       st1 = log_event (Ev_dequeue (now st) skb d) (put_dev d ((dev_base st ! d)\<lparr>qdisc := Some q\<rparr>) st)"
proof -
  let ?dev = "dev_base st ! d"
  have d: "d < length (dev_base st)"
    using assms by (auto simp: kernel_poll_device_def rbind_Inr_iff get_dev_Inr)
  note unfolds = kernel_poll_device_def get_dev_def Let_def
  show thesis
  proof (cases "txing ?dev \<noteq> Tx_none \<or> \<not> scheduled ?dev \<or> qdisc ?dev = None \<or> k_dequeue k (the (qdisc ?dev)) = None")
    case True
    then have "st' = st" using assms d by (cases "qdisc ?dev") (auto simp: unfolds split: if_splits)
    then show thesis by (rule that(1))
  next
    case False
    then obtain q p q' where q: "qdisc ?dev = Some q" "k_dequeue k q = Some (p, q')" by auto
    show thesis
    proof (cases p)
      case None
      then show thesis using that(2) [OF d, of q'] assms d False q by (simp add: unfolds)
    next
      case (Some skb)
      show thesis
        by (rule that(3) [OF d, where skb = skb and q = q']) (use assms d False q Some in \<open>auto simp: unfolds\<close>)
    qed
  qed
qed

lemma poll_device_tx:
  assumes "tx_ok st" "kernel_poll_device HZ k d False st = Inr st'"
  shows "tx_step st st'"
  using assms(2)
proof (cases rule: poll_device_cases)
  case 1
  then show ?thesis using assms(1) by (simp add: tx_step_refl)
next
  case 2
  then show ?thesis using tx_step_frame [OF assms(1) frame_put [OF 2(1), of topo_tx]] by simp
next
  case (3 skb q st1)
  have put: "frame topo_tx st (put_dev d ((dev_base st ! d)\<lparr>qdisc := q\<rparr>) st)" for q by (rule frame_put [OF 3(1)]) simp
  have "tx_step st st1"
    using 3(4) tx_step_frame [OF assms(1) put] tx_step_frame [OF assms(1) frame_trans [OF put frame_log]] by blast
  moreover have "txing (dev_base st1 ! d) = Tx_none" using 3(1,2,4) by auto
  ultimately show ?thesis using start_tx_ok [OF _ 3(3), of "{}"] by (simp add: tx_step_def)
qed

lemma poll_devices_tx: "tx_ok st \<Longrightarrow> poll_devices HZ k ds False st = Inr st' \<Longrightarrow> tx_step st st'"
proof (induction ds arbitrary: st)
  case (Cons d ds)
  then obtain st1 where "kernel_poll_device HZ k d False st = Inr st1" "poll_devices HZ k ds False st1 = Inr st'"
    by (auto simp: rbind_Inr_iff)
  with Cons poll_device_tx show ?case by (metis tx_step_def tx_step_trans)
qed (simp add: tx_step_refl)

lemma kernel_poll_tx: "tx_ok st \<Longrightarrow> kernel_poll HZ k dev False st = Inr st' \<Longrightarrow> tx_step st st'"
  by (auto simp: kernel_poll_def intro: poll_device_tx poll_devices_tx split: option.splits)

text \<open>The device whose timer is the next to expire is transmitting.\<close>

lemma fired_device:
  assumes "tx_ok st" "timers st = t # ts" "tfunction t = dev_do_poll_fun"
  obtains d where "d < length (dev_base st)" "dev_polls st (tdata t) = Some d" "tdata t = tid t"
    "txing (dev_base st ! d) \<noteq> Tx_none" "txing (dev_base st ! d) \<noteq> Tx_busy"
proof -
  obtain d where d: "tdata t = tid t" "d < length (dev_base st)" "dev_polls st (tid t) = Some d"
    using assms by (auto simp: tx_except_def addrs_ok_def)
  then have "length (polls_of st d) \<noteq> 0" using assms(2,3) by (simp add: polls_of_def)
  then have "sending (dev_base st ! d)" using assms(1) d(2) by (auto simp: tx_except_def split: if_splits)
  with d assms(1) that show thesis by (auto simp: tx_except_def sending_def)
qed

definition fire_state :: "timer \<Rightarrow> timer list \<Rightarrow> ('q, 'z) sim_scheme \<Rightarrow> ('q, 'z) sim_scheme" where
  "fire_state t ts st = (start_timer t ts st)\<lparr>dev_polls := (dev_polls st)(tdata t := None)\<rparr>"

lemma fire_state_ok:
  assumes "tx_ok st" "timers st = t # ts" "tfunction t = dev_do_poll_fun" "dev_polls st (tdata t) = Some d"
  shows "tx_except {d} (fire_state t ts st)"
proof -
  let ?st = "fire_state t ts st"
  have other: "tdata u \<noteq> tdata t" if "u \<in> set ts" "tfunction u = dev_do_poll_fun" for u
  proof -
    have "tid t \<notin> tid ` set ts" "tdata t = tid t" "tdata u = tid u"
      using assms(1,2,3) that by (auto simp: tx_except_def addrs_ok_def clock_ok_def)
    with that(1) show ?thesis by (metis image_eqI)
  qed
  have polls: "length (polls_of st e) = (if e = d then 1 else 0) + length (polls_of ?st e)" for e
  proof -
    have "polls_of ?st e = filter (\<lambda>u. tfunction u = dev_do_poll_fun \<and> dev_polls st (tdata u) = Some e) ts"
      using other by (auto simp: polls_of_def fire_state_def start_timer_def intro!: filter_cong)
    then show ?thesis using assms(2-4) by (simp add: polls_of_def)
  qed
  have "clock_ok ?st"
    using assms(1,2) by (auto simp: tx_except_def clock_ok_def fire_state_def start_timer_def tkey_def jkey_def)
  moreover have "addrs_ok ?st"
    using assms(1,2) other by (auto simp: tx_except_def addrs_ok_def fire_state_def start_timer_def)
  moreover have "dev_base ?st = dev_base st" by (simp add: fire_state_def start_timer_def)
  ultimately show ?thesis
    using assms(1) polls by (fastforce simp: tx_except_def split: if_splits)
qed

lemma dev_do_poll_tx:
  assumes "kernel_frame k" "tx_ok st" "timers st = t # ts" "tfunction t = dev_do_poll_fun"
    "dev_do_poll HZ k (tdata t) (start_timer t ts st) = Inr st'"
  shows "tx_step (start_timer t ts st) st'"
proof -
  obtain d where d: "d < length (dev_base st)" "dev_polls st (tdata t) = Some d"
    using fired_device [OF assms(2-4)] by blast
  then obtain st1 where 1: "deliver k d (fire_state t ts st) = Inr st1" and
      2: "kernel_poll HZ k (Some d) False st1 = Inr st'"
    using assms(5) by (auto simp: dev_do_poll_def fire_state_def start_timer_def rbind_Inr_iff)
  have "tx_ok st1"
    using deliver_tx [OF assms(1) 1 fire_state_ok [OF assms(2-4) d(2)]] by simp
  moreover have "now st1 = now (start_timer t ts st)" "map topo (dev_base st1) = map topo (dev_base (start_timer t ts st))"
    using frame_map [OF deliver_frame(1) [OF assms(1) 1]] frame_fields(1) [OF deliver_frame(1) [OF assms(1) 1]]
    by (simp_all add: fire_state_def)
  ultimately show ?thesis
    using kernel_poll_tx [OF _ 2] by (simp add: tx_step_def)
qed

section \<open>Topology\<close>

text \<open>Peers are mutual; device names differ, and the index of a device is its position.\<close>

definition peers_ok :: "nat \<Rightarrow> (nat \<Rightarrow> nat option) \<Rightarrow> bool" where
  "peers_ok n p \<longleftrightarrow> (\<forall>a < n. \<forall>b. p a = Some b \<longrightarrow> b < n \<and> p b = Some a)"

definition topo_peer :: "string \<times> nat \<times> int \<times> nat \<times> nat option \<Rightarrow> nat option" where
  "topo_peer = (\<lambda>(n, i, r, h, p). p)"

definition topo_index :: "string \<times> nat \<times> int \<times> nat \<times> nat option \<Rightarrow> nat" where
  "topo_index = (\<lambda>(n, i, r, h, p). i)"

definition devs_ok :: "(string \<times> nat \<times> int \<times> nat \<times> nat option) list \<Rightarrow> bool" where
  "devs_ok ts \<longleftrightarrow> distinct (map fst ts) \<and> (\<forall>i < length ts. topo_index (ts ! i) = i + 1) \<and>
     peers_ok (length ts) (\<lambda>i. topo_peer (ts ! i))"

lemma topo_sel [simp]: "fst (topo d) = dev_name d" "topo_index (topo d) = ifindex d" "topo_peer (topo d) = peer d"
  by (simp_all add: topo_def topo_index_def topo_peer_def)

lemma peers_okI: "(\<And>a b. a < n \<Longrightarrow> p a = Some b \<Longrightarrow> b < n \<and> p b = Some a) \<Longrightarrow> peers_ok n p"
  unfolding peers_ok_def by blast

lemma peers_okD: "peers_ok n p \<Longrightarrow> a < n \<Longrightarrow> p a = Some b \<Longrightarrow> b < n \<and> p b = Some a"
  unfolding peers_ok_def by blast

lemma peers_ok_cong: "(\<And>i. i < n \<Longrightarrow> p i = q i) \<Longrightarrow> peers_ok n p \<Longrightarrow> peers_ok n q"
  unfolding peers_ok_def by metis

lemma peers_ok_new:
  assumes "peers_ok n p" "p n = None"
  shows "peers_ok (Suc n) p"
proof (rule peers_okI)
  fix a b assume "a < Suc n" and p: "p a = Some b"
  then have "a < n" using assms(2) by (cases "a = n") auto
  from peers_okD [OF assms(1) this p] show "b < Suc n \<and> p b = Some a" by simp
qed

lemma peers_ok_connect:
  assumes "peers_ok n p" "a < n" "b < n" "p a = None" "p b = None"
  shows "peers_ok n (\<lambda>c. if c = b then Some a else if c = a then Some b else p c)"
proof (rule peers_okI)
  fix c d assume c: "c < n" and p: "(if c = b then Some a else if c = a then Some b else p c) = Some d"
  have "p c = Some d" if "c \<noteq> a" "c \<noteq> b" using p that by simp
  then have "d < n" "p d = Some c" if "c \<noteq> a" "c \<noteq> b"
    using peers_okD [OF assms(1) c] that by blast+
  with assms p show "d < n \<and> (if d = b then Some a else if d = a then Some b else p d) = Some c"
    by (cases "c = a"; cases "c = b") (auto split: if_splits)
qed

definition net_ok :: "('q, 'z) sim_scheme \<Rightarrow> bool" where
  "net_ok st \<longleftrightarrow> devs_ok (map topo (dev_base st)) \<and> (\<forall>rts \<in> set (hosts st). routes_ok rts)"

definition sim_ok :: "('q, 'z) sim_scheme \<Rightarrow> bool" where
  "sim_ok st \<longleftrightarrow> tx_ok st \<and> net_ok st"

text \<open>The operations of a simulation without the \<^verbatim>\<open>poll\<close> command.\<close>

inductive sim_step :: "f64 \<Rightarrow> 'q kernel \<Rightarrow> ('q, 'z) sim_scheme \<Rightarrow> ('q, 'z) sim_scheme \<Rightarrow> bool"
  for HZ :: f64 and k :: "'q kernel" where
  step_host: "sim_step HZ k st (snd (create_host st))"
| step_device: "create_net_device k h name rate st = Inr st' \<Longrightarrow> sim_step HZ k st st'"
| step_route: "add_route h a m d st = Inr st' \<Longrightarrow> sim_step HZ k st st'"
| step_connect: "connect_dev a b st = Inr st' \<Longrightarrow> sim_step HZ k st st'"
| step_send: "kernel_enqueue k dev buf attr st = Inr (res, st1) \<Longrightarrow> kernel_poll HZ k dev False st1 = Inr st' \<Longrightarrow>
    sim_step HZ k st st'"
| step_fire: "timers st = t # ts \<Longrightarrow> tfunction t = dev_do_poll_fun \<Longrightarrow>
    dev_do_poll HZ k (tdata t) (start_timer t ts st) = Inr st1 \<Longrightarrow> kernel_poll HZ k None False st1 = Inr st' \<Longrightarrow>
    sim_step HZ k st st'"
| step_time: "\<forall>t \<in> set (timers st). jkey j \<le> tkey t \<Longrightarrow>
    sim_step HZ k st (st\<lparr>now := j, jiffies_now := jiffies j\<rparr>)"

inductive_cases sim_stepE: "sim_step HZ k st st'"

lemma devs_ok_append:
  assumes "devs_ok ts" "name \<notin> set (map fst ts)"
  shows "devs_ok (ts @ [(name, length ts + 1, r, h, None)])"
proof -
  let ?ts = "ts @ [(name, length ts + 1, r, h, None)]"
  have "peers_ok (length ts) (\<lambda>i. topo_peer (?ts ! i))"
    by (rule peers_ok_cong [OF _ assms(1) [unfolded devs_ok_def, THEN conjunct2, THEN conjunct2]])
      (simp add: nth_append)
  then have "peers_ok (length ?ts) (\<lambda>i. topo_peer (?ts ! i))"
    using peers_ok_new by (simp add: topo_peer_def nth_append)
  with assms show ?thesis by (auto simp: devs_ok_def nth_append topo_index_def less_Suc_eq)
qed

text \<open>A list of devices with the same names and indices and good peers.\<close>

lemma devs_ok_same:
  assumes "devs_ok (map topo ds)" "map dev_name es = map dev_name ds" "map ifindex es = map ifindex ds"
    "peers_ok (length ds) (\<lambda>i. peer (es ! i))"
  shows "devs_ok (map topo es)"
proof -
  have l: "length es = length ds" using map_eq_imp_length_eq [OF assms(2)] .
  have "ifindex (es ! i) = i + 1" if "i < length es" for i
    using that l assms(1) arg_cong [OF assms(3), of "\<lambda>l. l ! i"] by (simp add: devs_ok_def)
  moreover have "map fst (map topo es) = map fst (map topo ds)" using assms(2) by (simp add: comp_def)
  moreover have "peers_ok (length es) (\<lambda>i. topo_peer (map topo es ! i))"
    by (rule peers_ok_cong [OF _ assms(4) [folded l]]) simp
  ultimately show ?thesis using assms(1) unfolding devs_ok_def by simp
qed

lemma create_device_ok:
  assumes "sim_ok st" "kernel_frame k" "create_net_device k h name rate st = Inr st'"
  shows "sim_ok st'"
proof -
  obtain dev where st': "st' = st\<lparr>dev_base := dev_base st @ [dev]\<rparr>"
    and t: "topo dev = (name, length (dev_base st) + 1, rate, h, None)"
    and x: "txing dev = (if rate \<le> 0 then Tx_busy else Tx_none)"
    and n: "name \<notin> dev_name ` set (dev_base st)"
    using assms(2,3)
    by (auto simp: create_net_device_def kernel_frame_def topo_tx_def topo_def split: if_splits)
  have k: "kbps dev = rate" using t by (simp add: topo_def)
  have "name \<notin> set (map fst (map topo (dev_base st)))" using n by (auto simp: topo_def)
  then have "net_ok st'"
    using assms(1) devs_ok_append [of "map topo (dev_base st)" name rate h]
    by (simp add: sim_ok_def net_ok_def st' t)
  moreover have "length (polls_of st' (length (dev_base st))) = 0"
    using assms(1) by (fastforce simp: sim_ok_def tx_except_def addrs_ok_def polls_of_def st' filter_empty_conv)
  moreover have "polls_of st' d = polls_of st d" for d by (simp add: polls_of_def st')
  ultimately show ?thesis
    using assms(1) x k
    by (fastforce simp: sim_ok_def tx_except_def clock_ok_def addrs_ok_def sending_def st' nth_append less_Suc_eq)
qed

text \<open>Changes of the peers keep what the transmission invariant reads.\<close>

lemma tx_ok_devs:
  assumes "tx_ok st" "map kbps ds = map kbps (dev_base st)" "map txing ds = map txing (dev_base st)"
  shows "tx_ok (st\<lparr>dev_base := ds\<rparr>)"
proof -
  have l: "length ds = length (dev_base st)" using map_eq_imp_length_eq [OF assms(2)] .
  have "kbps (ds ! d) = kbps (dev_base st ! d)" "txing (ds ! d) = txing (dev_base st ! d)" if "d < length (dev_base st)" for d
    using that l arg_cong [OF assms(2), of "\<lambda>l. l ! d"] arg_cong [OF assms(3), of "\<lambda>l. l ! d"] by simp_all
  with assms(1) l show ?thesis
    by (simp add: tx_except_def clock_ok_def addrs_ok_def polls_of_def sending_def)
qed

lemma connect_ok:
  assumes "sim_ok st" "connect_dev a b st = Inr st'"
  shows "sim_ok st'"
proof -
  let ?ds = "(dev_base st)[a := (dev_base st ! a)\<lparr>peer := Some b\<rparr>]"
  let ?es = "?ds[b := (?ds ! b)\<lparr>peer := Some a\<rparr>]"
  have ab: "a < length (dev_base st)" "b < length (dev_base st)" "peer (dev_base st ! a) = None" "peer (dev_base st ! b) = None"
    and st': "st' = st\<lparr>dev_base := ?es\<rparr>"
    using assms(2) by (auto simp: connect_dev_def rbind_Inr_iff get_dev_Inr put_dev_def Let_def split: if_splits)
  have "map kbps ?es = map kbps (dev_base st)" "map txing ?es = map txing (dev_base st)"
    using ab by (auto simp: list_eq_iff_nth_eq nth_list_update)
  then have "tx_ok st'" unfolding st' using assms(1) by (intro tx_ok_devs) (auto simp: sim_ok_def)
  moreover have "devs_ok (map topo ?es)"
  proof -
    have old: "devs_ok (map topo (dev_base st))" using assms(1) by (simp add: sim_ok_def net_ok_def)
    have "map dev_name ?es = map dev_name (dev_base st)" "map ifindex ?es = map ifindex (dev_base st)"
      using ab by (auto simp: list_eq_iff_nth_eq nth_list_update)
    moreover have "peers_ok (length (dev_base st)) (\<lambda>i. peer (?es ! i))"
    proof -
      have p: "peers_ok (length (dev_base st)) (\<lambda>i. peer (dev_base st ! i))"
        by (rule peers_ok_cong [where p = "\<lambda>i. topo_peer (map topo (dev_base st) ! i)"]) (use old in \<open>simp_all add: devs_ok_def\<close>)
      show ?thesis
        by (rule peers_ok_cong [OF _ peers_ok_connect [OF p ab]]) (use ab in \<open>auto simp: nth_list_update\<close>)
    qed
    ultimately show ?thesis by (rule devs_ok_same [OF old])
  qed
  ultimately show ?thesis using assms(1) by (simp add: sim_ok_def net_ok_def st')
qed

section \<open>Reachable states\<close>

lemma net_ok_step: "net_ok st \<Longrightarrow> map topo (dev_base st') = map topo (dev_base st) \<Longrightarrow> hosts st' = hosts st \<Longrightarrow> net_ok st'"
  by (simp add: net_ok_def)

lemma add_hires_timer_hosts: "add_hires_timer t st = Inr st' \<Longrightarrow> hosts st' = hosts (st :: ('q, 'z) sim_scheme)"
  by (auto simp: add_hires_timer_def split: if_splits)

lemma start_tx_hosts: "start_tx HZ d skb st = Inr st' \<Longrightarrow> hosts st' = hosts st"
  by (auto simp: start_tx_def rbind_Inr_iff Let_def dest!: add_hires_timer_hosts split: if_splits)

lemma poll_device_hosts: "kernel_poll_device HZ k d False st = Inr st' \<Longrightarrow> hosts st' = hosts st"
  by (erule poll_device_cases) (auto dest: start_tx_hosts)

lemma poll_devices_hosts: "poll_devices HZ k ds False st = Inr st' \<Longrightarrow> hosts st' = hosts st"
  by (induction ds arbitrary: st) (auto simp: rbind_Inr_iff dest!: poll_device_hosts)

lemma kernel_poll_ok:
  assumes "sim_ok st" "kernel_poll HZ k dev False st = Inr st'"
  shows "sim_ok st'"
proof -
  have "hosts st' = hosts st"
    using assms(2) poll_device_hosts poll_devices_hosts by (auto simp: kernel_poll_def split: option.splits)
  with assms kernel_poll_tx [of st HZ k dev st'] net_ok_step [of st st'] show ?thesis
    by (simp add: sim_ok_def tx_step_def)
qed

lemma kernel_enqueue_frame:
  assumes "kernel_frame k" "kernel_enqueue k dev buf attr st = Inr (res, st')"
  shows "frame topo_tx st st'"
proof -
  obtain d skb where e: "kernel_enqueue' k d skb (st\<lparr>generation := generation st + 1\<rparr>) = Inr (res, st')"
    using assms(2) by (auto simp: kernel_enqueue_def rbind_Inr_iff alloc_skb_def Let_def split: option.splits if_splits)
  have "frame topo_tx st (st\<lparr>generation := generation st + 1\<rparr>)" by (simp add: frame_def)
  from frame_trans [OF this enqueue_frame [OF assms(1) e]] show ?thesis .
qed

lemma kernel_enqueue_ok:
  assumes "sim_ok st" "kernel_frame k" "kernel_enqueue k dev buf attr st = Inr (res, st')"
  shows "sim_ok st'"
proof -
  have f: "frame topo_tx st st'" by (rule kernel_enqueue_frame [OF assms(2,3)])
  then show ?thesis
    using assms(1) tx_except_frame [OF _ f, of "{}"] net_ok_step [of st st'] frame_map [OF frame_weaken [OF f]] frame_fields(4) [OF f]
    by (simp add: sim_ok_def)
qed

lemma dev_do_poll_ok:
  assumes "sim_ok st" "kernel_frame k" "timers st = t # ts" "tfunction t = dev_do_poll_fun"
    "dev_do_poll HZ k (tdata t) (start_timer t ts st) = Inr st'"
  shows "sim_ok st'"
proof -
  have tx: "tx_ok st" using assms(1) by (simp add: sim_ok_def)
  obtain d where d: "dev_polls st (tdata t) = Some d" using fired_device [OF tx assms(3,4)] by blast
  then obtain st1 where 1: "deliver k d (fire_state t ts st) = Inr st1" and 2: "kernel_poll HZ k (Some d) False st1 = Inr st'"
    using assms(5) by (auto simp: dev_do_poll_def fire_state_def start_timer_def rbind_Inr_iff)
  have "hosts st1 = hosts st"
    using frame_fields(4) [OF deliver_frame(1) [OF assms(2) 1]] by (simp add: fire_state_def start_timer_def)
  moreover have "hosts st' = hosts st1" using 2 poll_device_hosts by (auto simp: kernel_poll_def)
  moreover have "map topo (dev_base st') = map topo (dev_base st)" "tx_ok st'"
    using dev_do_poll_tx [OF assms(2) tx assms(3-5)] by (simp_all add: tx_step_def start_timer_def)
  ultimately show ?thesis using assms(1) net_ok_step [of st st'] by (simp add: sim_ok_def)
qed

lemma add_route_ok:
  assumes "sim_ok st" "add_route h a m d st = Inr st'"
  shows "sim_ok st'"
proof -
  obtain rts where r: "insert_route a m d (hosts st ! h) = Inr rts" "h < length (hosts st)"
      and st': "st' = st\<lparr>hosts := (hosts st)[h := rts]\<rparr>"
    using assms(2) by (auto simp: add_route_def rbind_Inr_iff not_le split: if_splits)
  have "routes_ok rts" using insert_route_ok [OF r(1)] assms(1) r(2) by (simp add: sim_ok_def net_ok_def)
  then have "\<forall>rts \<in> set (hosts st'). routes_ok rts"
    using assms(1) by (auto simp: st' sim_ok_def net_ok_def dest: set_update_subset_insert [THEN subsetD])
  moreover have "tx_ok st' = tx_ok st"
    by (simp add: st' tx_except_def clock_ok_def addrs_ok_def polls_of_def)
  ultimately show ?thesis using assms(1) by (simp add: sim_ok_def net_ok_def st')
qed

lemma tx_ok_time:
  assumes "tx_ok st" "\<forall>t \<in> set (timers st). jkey j \<le> tkey t"
  shows "tx_ok (st\<lparr>now := j, jiffies_now := jiffies j\<rparr>)"
  using assms by (simp add: tx_except_def clock_ok_def addrs_ok_def polls_of_def)

lemma sim_step_ok:
  assumes "sim_step HZ k st st'" "kernel_frame k" "sim_ok st"
  shows "sim_ok st'"
  using assms(1)
proof cases
  case step_host
  then show ?thesis
    using assms(3) by (auto simp: sim_ok_def net_ok_def create_host_def routes_ok_def tx_except_def clock_ok_def addrs_ok_def
        polls_of_def)
next
  case (step_device h name rate)
  then show ?thesis using create_device_ok assms(2,3) by blast
next
  case (step_route h a m d)
  then show ?thesis using add_route_ok assms(3) by blast
next
  case (step_connect a b)
  then show ?thesis using connect_ok assms(3) by blast
next
  case (step_send dev buf attr res st1)
  then show ?thesis using kernel_enqueue_ok kernel_poll_ok assms(2,3) by blast
next
  case (step_fire t ts st1)
  then show ?thesis using dev_do_poll_ok kernel_poll_ok assms(2,3) by blast
next
  case (step_time j)
  then show ?thesis using assms(3) tx_ok_time [of st j] by (simp add: sim_ok_def net_ok_def)
qed

definition empty_sim :: "attributes \<Rightarrow> 'z \<Rightarrow> ('q, 'z) sim_scheme" where
  "empty_sim attrs z = \<lparr>now = \<lparr>jiffies = 0, ujiffies = 0\<rparr>, jiffies_now = 0, timers = [], dev_base = [], hosts = [],
     generation = 0, next_addr = 0, dev_polls = (\<lambda>_. None), default_attributes = attrs, verbose = 0,
     preserve = False, out = [], \<dots> = z\<rparr>"

lemma empty_sim_ok: "sim_ok (empty_sim attrs z)"
  by (simp add: empty_sim_def sim_ok_def tx_except_def net_ok_def devs_ok_def peers_ok_def clock_ok_def addrs_ok_def
      polls_of_def)

lemma reachable_sim_ok:
  "(sim_step HZ k)\<^sup>*\<^sup>* st st' \<Longrightarrow> kernel_frame k \<Longrightarrow> sim_ok st \<Longrightarrow> sim_ok st'"
  by (induction rule: rtranclp_induct) (auto intro: sim_step_ok)

section \<open>No null packet is followed\<close>

lemma incoming_error: "incoming k d skb st \<noteq> Inl (E_undef ''null packet'')"
  by (auto simp: incoming_def ingress_def kernel_enqueue'_def rbind_Inl_iff get_dev_def Let_def
      split: option.splits prod.splits if_splits)

lemma deliver_error:
  assumes "d < length (dev_base st)" "txing (dev_base st ! d) \<noteq> Tx_none"
  shows "deliver k d st \<noteq> Inl (E_undef ''null packet'')"
  using assms incoming_error
  by (auto simp: deliver_def rbind_Inl_iff get_dev_def split: txing.splits option.splits if_splits)

lemma fire_deliver_error:
  assumes "sim_ok st" "timers st = t # ts" "tfunction t = dev_do_poll_fun" "dev_polls st (tdata t) = Some d"
  shows "deliver k d (fire_state t ts st) \<noteq> Inl (E_undef ''null packet'')"
proof -
  have "tx_ok st" using assms(1) by (simp add: sim_ok_def)
  from fired_device [OF this assms(2,3)] assms(4)
  have "d < length (dev_base st)" "txing (dev_base st ! d) \<noteq> Tx_none" by (metis option.inject)+
  moreover have "dev_base (fire_state t ts st) = dev_base st" by (simp add: fire_state_def start_timer_def)
  ultimately show ?thesis by (intro deliver_error) simp_all
qed

end
