(* ===== verification/Tcsim_Cmd.thy ===== *)
theory Tcsim_Cmd
  imports Tcsim_Tx U128
begin

text \<open>
  Commands of the simulator (\<^verbatim>\<open>tcsim/command.c\<close>), in particular periodic ones, and the variables
  of a configuration (\<^verbatim>\<open>tcsim/var.c\<close>). A command is a value, so its reference count has no
  counterpart. What the program \<^verbatim>\<open>tc\<close> does is an argument.
\<close>

section \<open>Commands\<close>

datatype command =
    Cmd_tc "string list"
  | Cmd_send "nat option" "u8 list" attributes
  | Cmd_poll "nat option"
  | Cmd_every jiffval jiffval command
  | Cmd_echo "string option"

record every =
  interval :: jiffval
  until :: jiffval
  ecmd :: command

datatype var = Var_unum u128 | Var_cmd command

record 'q world = "'q sim" +
  everys :: "nat \<Rightarrow> every option"
  terminating :: bool
  vars :: "(string \<times> var) list"

definition do_every_fun :: nat where "do_every_fun = 1"

text \<open>The next expiry of a periodic command, with the carry the code does.\<close>

definition every_timer :: "nat \<Rightarrow> jiffval \<Rightarrow> jiffval \<Rightarrow> timer" where
  "every_timer a j i =
     (let e = jiffies j + jiffies i; u = ujiffies j + ujiffies i;
          (e, u) = (if 999999 < u then (e + 1, u - 1000000) else (e, u))
      in \<lparr>tid = a, expires = e, expires_ujiffies = u, tfunction = do_every_fun, tdata = a\<rparr>)"

text \<open>
  The body of \<open>do_every\<close> for the description at address \<open>a\<close>; \<open>run\<close> executes its command.
\<close>

definition every_step ::
  "('q world \<Rightarrow> 'q world result) \<Rightarrow> every \<Rightarrow> nat \<Rightarrow> 'q world \<Rightarrow> 'q world result" where
  "every_step run dsc a st =
     (let stop = 0 < jiffval_cmp (now st) (until dsc)
      in rbind (if stop then Inr st else run st) (\<lambda>st.
        if stop \<or> terminating st then Inr (st\<lparr>everys := (everys st)(a := None)\<rparr>)
        else add_hires_timer (every_timer a (now st) (interval dsc)) st))"

fun cmd_run ::
  "f64 \<Rightarrow> 'q kernel \<Rightarrow> (string list \<Rightarrow> 'q world \<Rightarrow> 'q world result) \<Rightarrow> command \<Rightarrow> 'q world \<Rightarrow> 'q world result" where
  "cmd_run HZ k tc (Cmd_tc argv) st =
     tc argv (if 0 < verbose st then log_event (Ev_tc (now st) (tl argv)) st else st)"
| "cmd_run HZ k tc (Cmd_send dev buf attr) st =
     rbind (kernel_enqueue k dev buf attr st) (\<lambda>(res, st). kernel_poll HZ k dev False st)"
| "cmd_run HZ k tc (Cmd_poll dev) st = kernel_poll HZ k dev True st"
| "cmd_run HZ k tc (Cmd_every i u c) st =
     (let a = next_addr st; dsc = \<lparr>interval = i, until = u, ecmd = c\<rparr>
      in every_step (cmd_run HZ k tc c) dsc a (st\<lparr>next_addr := a + 1, everys := (everys st)(a \<mapsto> dsc)\<rparr>))"
| "cmd_run HZ k tc (Cmd_echo msg) st =
     Inr (if 0 \<le> verbose st then log_event (Ev_echo (now st) msg) st else st)"

definition do_every ::
  "f64 \<Rightarrow> 'q kernel \<Rightarrow> (string list \<Rightarrow> 'q world \<Rightarrow> 'q world result) \<Rightarrow> nat \<Rightarrow> 'q world \<Rightarrow> 'q world result" where
  "do_every HZ k tc data st =
     (case everys st data of
        None \<Rightarrow> Inl (E_undef ''freed every'')
      | Some dsc \<Rightarrow> every_step (cmd_run HZ k tc (ecmd dsc)) dsc data st)"

text \<open>The functions timers call; a timer of the kernel is an argument.\<close>

definition call_timer ::
  "f64 \<Rightarrow> 'q kernel \<Rightarrow> (string list \<Rightarrow> 'q world \<Rightarrow> 'q world result) \<Rightarrow> (timer \<Rightarrow> 'q world \<Rightarrow> 'q world result) \<Rightarrow>
   timer \<Rightarrow> 'q world \<Rightarrow> 'q world result" where
  "call_timer HZ k tc ktimer t st =
     (if tfunction t = dev_do_poll_fun then dev_do_poll HZ k (tdata t) st
      else if tfunction t = do_every_fun then do_every HZ k tc (tdata t) st
      else ktimer t st)"

definition sim_advance ::
  "f64 \<Rightarrow> 'q kernel \<Rightarrow> (string list \<Rightarrow> 'q world \<Rightarrow> 'q world result) \<Rightarrow> (timer \<Rightarrow> 'q world \<Rightarrow> 'q world result) \<Rightarrow>
   jiffval \<Rightarrow> 'q world \<Rightarrow> 'q world option result option" where
  "sim_advance HZ k tc ktimer = advance_time (call_timer HZ k tc ktimer) (kernel_poll HZ k None False)"

section \<open>Variables\<close>

fun set_var :: "string \<Rightarrow> var \<Rightarrow> (string \<times> var) list \<Rightarrow> (string \<times> var) list" where
  "set_var name v [] = [(name, v)]"
| "set_var name v ((n, w) # vs) = (if n = name then (n, v) # vs else (n, w) # set_var name v vs)"

definition set_var_unum :: "string \<Rightarrow> u128 \<Rightarrow> 'q world \<Rightarrow> 'q world" where
  "set_var_unum name x st = st\<lparr>vars := set_var name (Var_unum x) (vars st)\<rparr>"

definition set_var_cmd :: "string \<Rightarrow> command \<Rightarrow> 'q world \<Rightarrow> 'q world" where
  "set_var_cmd name c st = st\<lparr>vars := set_var name (Var_cmd c) (vars st)\<rparr>"

definition get_var :: "string \<Rightarrow> (string \<times> var) list \<Rightarrow> var result" where
  "get_var name vs =
     (case find (\<lambda>(n, v). n = name) vs of
        None \<Rightarrow> Inl (E_yyerror ''unknown variable'')
      | Some (n, v) \<Rightarrow> Inr v)"

definition get_var_unum :: "string \<Rightarrow> 'q world \<Rightarrow> u128 result" where
  "get_var_unum name st =
     rbind (get_var name (vars st)) (\<lambda>v.
       case v of Var_unum x \<Rightarrow> Inr x | _ \<Rightarrow> Inl (E_yyerror ''invalid variable type''))"

definition get_var_cmd :: "string \<Rightarrow> 'q world \<Rightarrow> command result" where
  "get_var_cmd name st =
     rbind (get_var name (vars st)) (\<lambda>v.
       case v of Var_cmd c \<Rightarrow> Inr c | _ \<Rightarrow> Inl (E_yyerror ''invalid variable type''))"

section \<open>Variables\<close>

lemma get_set_var: "get_var n (set_var m v vs) = (if n = m then Inr v else get_var n vs)"
  by (induction m v vs rule: set_var.induct) (auto simp: get_var_def)

lemma set_var_names: "map fst (set_var n v vs) = map fst vs @ (if n \<in> fst ` set vs then [] else [n])"
  by (induction n v vs rule: set_var.induct) auto

section \<open>Periodic commands end\<close>

text \<open>
  The simulations for which the advance of time is shown to return: no device has a rate, so
  packets are sent when polled only, and every interval is positive and normalized. The program
  \<^verbatim>\<open>tc\<close> and timers of the kernel change the queues of devices only.
\<close>

definition positive :: "jiffval \<Rightarrow> bool" where
  "positive i \<longleftrightarrow> ujiffies i \<le> 999999 \<and> (jiffies i \<noteq> 0 \<or> ujiffies i \<noteq> 0)"

fun periodic :: "command \<Rightarrow> bool" where
  "periodic (Cmd_every i u c) \<longleftrightarrow> positive i \<and> periodic c"
| "periodic _ \<longleftrightarrow> True"

definition world_ok :: "'q world \<Rightarrow> bool" where
  "world_ok st \<longleftrightarrow> clock_ok st \<and> (\<forall>d \<in> set (dev_base st). kbps d \<le> 0) \<and>
     (\<forall>a dsc. everys st a = Some dsc \<longrightarrow> positive (interval dsc) \<and> periodic (ecmd dsc))"

definition quiet :: "'q world \<Rightarrow> 'q world \<Rightarrow> bool" where
  "quiet st st' \<longleftrightarrow> now st' = now st \<and> world_ok st' \<and>
     (\<exists>new. mset (timers st') \<subseteq># mset (timers st) + mset new \<and> (\<forall>n \<in> set new. jkey (now st) < tkey n))"

definition tc_frame :: "('a \<Rightarrow> 'q world \<Rightarrow> 'q world result) \<Rightarrow> bool" where
  "tc_frame tc \<longleftrightarrow> (\<forall>x st st'. tc x st = Inr st' \<longrightarrow> frame topo st st')"

lemma quiet_trans: "quiet st st1 \<Longrightarrow> quiet st1 st2 \<Longrightarrow> quiet st st2"
proof -
  assume a: "quiet st st1" "quiet st1 st2"
  then obtain n1 n2 where "mset (timers st1) \<subseteq># mset (timers st) + mset n1" "\<forall>n \<in> set n1. jkey (now st) < tkey n"
    "mset (timers st2) \<subseteq># mset (timers st1) + mset n2" "\<forall>n \<in> set n2. jkey (now st) < tkey n"
    by (auto simp: quiet_def)
  then have "mset (timers st2) \<subseteq># mset (timers st) + mset (n1 @ n2)" "\<forall>n \<in> set (n1 @ n2). jkey (now st) < tkey n"
    by (auto simp: add.assoc [symmetric] intro: subset_mset.order_trans subset_mset.add_right_mono)
  then have "\<exists>new. mset (timers st2) \<subseteq># mset (timers st) + mset new \<and> (\<forall>n \<in> set new. jkey (now st) < tkey n)"
    by blast
  then show ?thesis using a unfolding quiet_def by simp
qed

lemma frame_everys: "frame f st st' \<Longrightarrow> everys st' = everys st \<and> terminating st' = terminating st"
  unfolding frame_def by (cases st; cases st') simp

lemma quiet_frame:
  assumes "world_ok st" "frame topo st st'"
  shows "quiet st st'"
proof -
  have "map kbps ds = map (\<lambda>(n, i, r, h, p). r) (map topo ds)" for ds :: "'a net_device list"
    by (simp add: topo_def)
  then have "map kbps (dev_base st') = map kbps (dev_base st)" using frame_map [OF assms(2)] by metis
  then have "kbps ` set (dev_base st') = kbps ` set (dev_base st)" by (metis set_map)
  then have "\<forall>d \<in> set (dev_base st'). kbps d \<le> 0"
    using assms(1) unfolding world_ok_def by (metis image_eqI image_iff)
  then show ?thesis
    using assms(1) frame_fields [OF assms(2)] frame_everys [OF assms(2)]
    by (auto simp: quiet_def world_ok_def clock_ok_def intro: exI [of _ "[]"])
qed

lemma rate_0: "world_ok st \<Longrightarrow> d < length (dev_base st) \<Longrightarrow> kbps (dev_base st ! d) \<le> 0"
  by (simp add: world_ok_def)

lemma start_tx_quiet:
  assumes "world_ok st" "start_tx HZ d skb st = Inr st'"
  shows "quiet st st'"
proof -
  have d: "d < length (dev_base st)" using assms(2) by (auto simp: start_tx_def rbind_Inr_iff get_dev_Inr)
  then have "st' = put_dev d ((dev_base st ! d)\<lparr>txing := Tx_skb skb\<rparr>) st"
    using assms(2) rate_0 [OF assms(1)] by (simp add: start_tx_def get_dev_def Let_def)
  then show ?thesis using quiet_frame [OF assms(1) frame_put [OF d]] by simp
qed

lemma poll_device_False_quiet:
  assumes "world_ok st" "kernel_poll_device HZ k d False st = Inr st'"
  shows "quiet st st'"
  using assms(2)
proof (cases rule: poll_device_cases)
  case 1
  then show ?thesis using quiet_frame [OF assms(1)] by simp
next
  case (2 q)
  then show ?thesis using quiet_frame [OF assms(1) frame_weaken [OF frame_put [OF 2(1)]]] by simp
next
  case (3 skb q st1)
  have f: "frame topo_tx st (put_dev d ((dev_base st ! d)\<lparr>qdisc := Some q\<rparr>) st)" by (rule frame_put [OF 3(1)]) simp
  then have "frame topo_tx st st1" using 3(4) frame_trans [OF f frame_log] by blast
  then have "quiet st st1" by (rule quiet_frame [OF assms(1) frame_weaken])
  with start_tx_quiet [OF _ 3(3)] quiet_trans show ?thesis by (metis quiet_def)
qed

lemma poll_device_unbusy:
  "kernel_poll_device HZ k d unbusy st =
     rbind (get_dev d st) (\<lambda>dev.
       rbind (if unbusy \<and> txing dev \<noteq> Tx_none then deliver k d st else Inr st) (kernel_poll_device HZ k d False))"
proof -
  have "rbind (get_dev d st) (\<lambda>dev. rbind (get_dev d st) f) = rbind (get_dev d st) f" for f :: "'q net_device \<Rightarrow> 'c result" and st :: "('q, 'b) sim_scheme"
    by (cases "get_dev d st") simp_all
  then show ?thesis unfolding kernel_poll_device_def by (simp cong: rbind_cong)
qed

lemma poll_device_quiet:
  assumes "kernel_frame k" "world_ok st" "kernel_poll_device HZ k d unbusy st = Inr st'"
  shows "quiet st st'"
proof -
  obtain st1 where 1: "st1 = st \<or> deliver k d st = Inr st1" "kernel_poll_device HZ k d False st1 = Inr st'"
    using assms(3) by (subst (asm) poll_device_unbusy) (auto simp: rbind_Inr_iff split: if_splits)
  then have "quiet st st1" using quiet_frame [OF assms(2)] deliver_frame(1) [OF assms(1)] by auto
  with poll_device_False_quiet [OF _ 1(2)] quiet_trans show ?thesis by (metis quiet_def)
qed

lemma poll_devices_quiet:
  "kernel_frame k \<Longrightarrow> world_ok st \<Longrightarrow> poll_devices HZ k ds unbusy st = Inr st' \<Longrightarrow> quiet st st'"
proof (induction ds arbitrary: st)
  case (Cons d ds)
  then obtain st1 where "kernel_poll_device HZ k d unbusy st = Inr st1" "poll_devices HZ k ds unbusy st1 = Inr st'"
    by (auto simp: rbind_Inr_iff)
  with Cons poll_device_quiet quiet_trans show ?case by (metis quiet_def)
qed (simp add: quiet_frame)

lemma kernel_poll_quiet:
  "kernel_frame k \<Longrightarrow> world_ok st \<Longrightarrow> kernel_poll HZ k dev unbusy st = Inr st' \<Longrightarrow> quiet st st'"
  by (auto simp: kernel_poll_def intro: poll_device_quiet poll_devices_quiet split: option.splits)

lemma enqueue_quiet:
  assumes "kernel_frame k" "world_ok st" "kernel_enqueue k dev buf attr st = Inr (res, st')"
  shows "quiet st st'"
  by (rule quiet_frame [OF assms(2) frame_weaken [OF kernel_enqueue_frame [OF assms(1,3)]]])

lemma lexnum_inj: "lexnum a b = lexnum c d \<longleftrightarrow> a = c \<and> b = d"
  using lexnum_less [of a b c d] lexnum_less [of c d a b] by (metis less_irrefl not_less_iff_gr_or_eq)

lemma every_timer_later:
  assumes "positive i" "\<not> timer_lt (every_timer a j i) (tmp_at j)"
  shows "jkey j < tkey (every_timer a j i)"
proof -
  have "tkey (every_timer a j i) \<noteq> jkey j"
  proof
    assume "tkey (every_timer a j i) = jkey j"
    then consider "jiffies j + jiffies i = jiffies j" "ujiffies j + ujiffies i = ujiffies j"
      | "ujiffies j + ujiffies i - 1000000 = ujiffies j"
      by (auto simp: every_timer_def Let_def tkey_def jkey_def lexnum_inj split: if_splits)
    then show False
    proof cases
      case 2
      then have "ujiffies i = 1000000" by (simp add: algebra_simps)
      then show False using assms(1) by (simp add: positive_def)
    qed (use assms(1) in \<open>simp add: positive_def\<close>)
  qed
  with assms(2) show ?thesis by (simp add: timer_lt_key)
qed

lemma every_step_quiet:
  assumes "world_ok st" "positive (interval dsc)" "every_step run dsc a st = Inr st'"
    "\<And>st1. run st = Inr st1 \<Longrightarrow> quiet st st1"
  shows "quiet st st'"
proof -
  let ?stop = "0 < jiffval_cmp (now st) (until dsc)"
  obtain st1 where 1: "(if ?stop then Inr st else run st) = Inr st1"
    and 2: "(if ?stop \<or> terminating st1 then Inr (st1\<lparr>everys := (everys st1)(a := None)\<rparr>)
        else add_hires_timer (every_timer a (now st1) (interval dsc)) st1) = Inr st'"
    using assms(3) by (auto simp: every_step_def Let_def rbind_Inr_iff)
  have q: "quiet st st1" using 1 assms(1,4) by (auto simp: quiet_frame split: if_splits)
  then have w: "world_ok st1" by (simp add: quiet_def)
  have "quiet st1 st'"
  proof (cases "?stop \<or> terminating st1")
    case True
    then show ?thesis
      using 2 w by (auto simp: quiet_def world_ok_def clock_ok_def intro!: exI [of _ "[]"] split: if_splits)
  next
    case False
    let ?t = "every_timer a (now st1) (interval dsc)"
    have add: "add_hires_timer ?t st1 = Inr st'" using 2 False by auto
    then have "\<not> timer_lt ?t (tmp_at (now st1))" and st': "st' = st1\<lparr>timers := insert_timer ?t (timers st1)\<rparr>"
      by (auto simp: add_hires_timer_def split: if_splits)
    then have "jkey (now st1) < tkey ?t" by (intro every_timer_later assms(2))
    moreover have "clock_ok st'" using add_hires_timer_ok(1) [OF _ add] w by (simp add: world_ok_def)
    ultimately show ?thesis
      using w by (auto simp: quiet_def world_ok_def st' intro!: exI [of _ "[?t]"])
  qed
  with q show ?thesis by (rule quiet_trans)
qed

lemma cmd_run_quiet:
  assumes "kernel_frame k" "tc_frame tc"
  shows "periodic c \<Longrightarrow> world_ok st \<Longrightarrow> cmd_run HZ k tc c st = Inr st' \<Longrightarrow> quiet st st'"
proof (induction c arbitrary: st st')
  case (Cmd_tc argv)
  let ?st = "if 0 < verbose st then log_event (Ev_tc (now st) (tl argv)) st else st"
  have "frame topo st ?st" by simp
  moreover have "frame topo ?st st'" using Cmd_tc assms(2) by (simp add: tc_frame_def)
  ultimately show ?case using quiet_frame [OF Cmd_tc.prems(2)] frame_trans by blast
next
  case (Cmd_send dev buf attr)
  then obtain res st1 where 1: "kernel_enqueue k dev buf attr st = Inr (res, st1)" "kernel_poll HZ k dev False st1 = Inr st'"
    by (auto simp: rbind_Inr_iff)
  have "quiet st st1" by (rule enqueue_quiet [OF assms(1) Cmd_send.prems(2) 1(1)])
  with kernel_poll_quiet [OF assms(1) _ 1(2)] quiet_trans show ?case by (metis quiet_def)
next
  case (Cmd_poll dev)
  then show ?case using kernel_poll_quiet [OF assms(1)] by simp
next
  case (Cmd_every i u c)
  let ?a = "next_addr st" and ?dsc = "\<lparr>interval = i, until = u, ecmd = c\<rparr>"
  let ?st = "st\<lparr>next_addr := ?a + 1, everys := (everys st)(?a \<mapsto> ?dsc)\<rparr>"
  have w: "world_ok ?st" using Cmd_every.prems(1,2) by (auto simp: world_ok_def clock_ok_def)
  have "quiet st ?st" using w by (auto simp: quiet_def intro!: exI [of _ "[]"])
  moreover have "quiet ?st st'"
    by (rule every_step_quiet [OF w, of ?dsc "cmd_run HZ k tc c" ?a]) (use Cmd_every w in \<open>auto simp: Let_def\<close>)
  ultimately show ?case by (rule quiet_trans)
next
  case (Cmd_echo msg)
  then show ?case using quiet_frame [OF Cmd_echo.prems(2)] by auto
qed

definition polled :: "'q kernel \<Rightarrow> (string list \<Rightarrow> 'q world \<Rightarrow> 'q world result) \<Rightarrow>
    (timer \<Rightarrow> 'q world \<Rightarrow> 'q world result) \<Rightarrow> 'q world \<Rightarrow> bool" where
  "polled k tc ktimer st \<longleftrightarrow> kernel_frame k \<and> tc_frame tc \<and> tc_frame ktimer \<and> world_ok st"

lemma call_timer_quiet:
  assumes "polled k tc ktimer st" "call_timer HZ k tc ktimer t st = Inr st'"
  shows "quiet st st'"
proof -
  have p: "kernel_frame k" "tc_frame tc" "tc_frame ktimer" "world_ok st" using assms(1) by (auto simp: polled_def)
  consider "ktimer t st = Inr st'" | dsc where "everys st (tdata t) = Some dsc"
      "every_step (cmd_run HZ k tc (ecmd dsc)) dsc (tdata t) st = Inr st'"
    | d st1 where "deliver k d (st\<lparr>dev_polls := (dev_polls st)(tdata t := None)\<rparr>) = Inr st1"
        "kernel_poll HZ k (Some d) False st1 = Inr st'"
    using assms(2) by (auto simp: call_timer_def dev_do_poll_def do_every_def rbind_Inr_iff split: if_splits option.splits)
  then show ?thesis
  proof cases
    case 1
    then show ?thesis using p(3) quiet_frame [OF p(4)] by (simp add: tc_frame_def)
  next
    case (2 dsc)
    have dsc: "positive (interval dsc)" "periodic (ecmd dsc)" using p(4) 2(1) by (auto simp: world_ok_def)
    show ?thesis
      by (rule every_step_quiet [OF p(4) dsc(1) 2(2)]) (rule cmd_run_quiet [OF p(1,2) dsc(2) p(4)])
  next
    case (3 d st1)
    let ?st = "st\<lparr>dev_polls := (dev_polls st)(tdata t := None)\<rparr>"
    have w: "world_ok ?st" using p(4) by (simp add: world_ok_def clock_ok_def)
    have "quiet st ?st" using w by (auto simp: quiet_def intro!: exI [of _ "[]"])
    moreover have "quiet ?st st1" by (rule quiet_frame [OF w deliver_frame(1) [OF p(1) 3(1)]])
    moreover from this have "quiet st1 st'" using kernel_poll_quiet [OF p(1) _ 3(2)] by (simp add: quiet_def)
    ultimately show ?thesis using quiet_trans by blast
  qed
qed

interpretation polled_sim: timer_client "call_timer HZ k tc ktimer" "kernel_poll HZ k None False" "polled k tc ktimer"
  for HZ and k :: "'q kernel" and tc ktimer
proof
  fix t ts and st st' :: "'q world"
  assume ok: "clock_ok st" and inv: "polled k tc ktimer st" and ts: "timers st = t # ts"
    and run: "rbind (call_timer HZ k tc ktimer t (start_timer t ts st)) (kernel_poll HZ k None False) = Inr st'"
  let ?st = "start_timer t ts st"
  have start: "polled k tc ktimer ?st"
    using inv ok ts by (auto simp: polled_def world_ok_def clock_ok_def start_timer_def tkey_def jkey_def)
  obtain st1 where 1: "call_timer HZ k tc ktimer t ?st = Inr st1" "kernel_poll HZ k None False st1 = Inr st'"
    using run by (auto simp: rbind_Inr_iff)
  have "quiet ?st st1" by (rule call_timer_quiet [OF start 1(1)])
  moreover from this have "quiet st1 st'"
    using kernel_poll_quiet [OF _ _ 1(2)] inv by (simp add: quiet_def polled_def)
  ultimately have "quiet ?st st'" by (rule quiet_trans)
  then show "clock_ok st' \<and> polled k tc ktimer st' \<and> now st' = now ?st \<and>
      (\<exists>new. mset (timers st') \<subseteq># mset ts + mset new \<and> (\<forall>n \<in> set new. tkey t < tkey n))"
    using inv by (simp add: quiet_def polled_def world_ok_def start_timer_def jkey_def tkey_def)
qed (simp add: polled_def world_ok_def)

end
