(* ===== verification/Spec2Isabelle.thy ===== *)
theory Spec2Isabelle
  imports Op_Fold Iflib_Act Iflib_Comb Field Iflib_Off Iflib_Arith_Bits Registry Tcc_Var Ext_Interface Tcsim_Cmd
begin

text \<open>
  tcng translates a traffic control configuration (programs \<^verbatim>\<open>tcc\<close>, \<^verbatim>\<open>tcng\<close>) into commands for the Linux
  kernel, and simulates the result (\<^verbatim>\<open>tcsim\<close>). The core of the translator is the treatment of
  classification rules: a condition on the packet, built by the parser with the operators of
  \<^verbatim>\<open>tcc/op.c\<close>, is a tree of \<^verbatim>\<open>DATA\<close> (\<^verbatim>\<open>tcc/data.h\<close>); all conditions of a qdisc are combined into one, and
  passes (\<^verbatim>\<open>tcc/iflib_*.c\<close>) rewrite it step by step until a back end can print it. The simulator runs
  a configuration in virtual time: timers, devices that transmit packets, hosts that forward them,
  and commands that are executed at given times. Both share 128-bit integers (\<^verbatim>\<open>shared/u128.c\<close>).

  \<^bold>\<open>Translator.\<close> Theories and the sources they model, all under \<^verbatim>\<open>src/\<close>:
  \<^item> \<open>Prelude\<close>: machine words, errors as values (\<open>'a result\<close>, \<open>rbind\<close>), collections of simplification rules;
  \<^item> \<open>U128\<close>: \<^verbatim>\<open>shared/u128.c\<close>, every operation on four 32-bit words, refining 128-bit words through \<open>u128_word\<close>;
  \<^item> \<open>Float64\<close>: the C type \<^verbatim>\<open>double\<close>, exact results rounded to 53 bits;
  \<^item> \<open>Data\<close>: \<^verbatim>\<open>tcc/data.h\<close> and \<^verbatim>\<open>tcc/data.c\<close>, the tagged union, conversions, units, equality;
  \<^item> \<open>Op\<close>, \<open>Op_Fold\<close>: \<^verbatim>\<open>tcc/op.c\<close>, construction and constant folding of operator nodes; folding agrees with evaluation
    at run time, and result types are functions of operand types;
  \<^item> \<open>Expr_Sem\<close>: what a condition means, \<open>run\<close>: a verdict (true, false, a decision) and the state of the
    policers, for every packet. All passes are judged by it. The locales \<open>sem_pass\<close> and \<open>two_passes\<close> state that a
    pass returns, keeps a class of conditions and keeps their meaning, and that passes compose;
  \<^item> \<open>Iflib_Base\<close>, \<open>Iflib_Red\<close>, \<open>Iflib_Prune\<close>, \<open>Iflib_Bundle\<close>: \<^verbatim>\<open>tcc/iflib_red.c\<close>, normal form, dead branches, common
    subexpressions, bundling of common prefixes, \<open>iflib_reduce\<close>; the interpretations of \<open>sem_pass\<close> are in \<open>Iflib_Bundle\<close>;
  \<^item> \<open>Iflib_Not\<close>: \<^verbatim>\<open>tcc/iflib_not.c\<close>, elimination of negation;
  \<^item> \<open>Iflib_Act\<close>: \<^verbatim>\<open>tcc/iflib_act.c\<close> and \<^verbatim>\<open>tcc/iflib_cheap.c\<close>, actions at the end of chains, expensive operators and policing;
  \<^item> \<open>Iflib_Comb\<close>: \<^verbatim>\<open>tcc/iflib_comb.c\<close>, one condition per qdisc, refining the first match;
  \<^item> \<open>Field\<close>: \<^verbatim>\<open>tcc/field.c\<close>, the table of fields with its scopes, and reduction of nested accesses;
  \<^item> \<open>Iflib_Off\<close>: \<^verbatim>\<open>tcc/iflib_off.c\<close>, offsets and field roots;
  \<^item> \<open>Iflib_Arith\<close>, \<open>Iflib_Arith_Bits\<close>: \<^verbatim>\<open>tcc/iflib_arith.c\<close>, arithmetic and comparisons become tests of bits or prefixes; the
    locale \<open>comparison_pass\<close> is what its last two passes have in common;
  \<^item> \<open>Registry\<close>: \<^verbatim>\<open>tcc/registry.c\<close>, the named switches, and their use by \<^verbatim>\<open>tcc/error.c\<close>;
  \<^item> \<open>Tcc_Var\<close>: \<^verbatim>\<open>tcc/var.c\<close>, variables with nested scopes on a store of linked objects.

  \<^bold>\<open>External interface.\<close> The back end \<^verbatim>\<open>tcc/if_ext.c\<close> prints an expression as lines; the library
  \<^verbatim>\<open>tcc/ext/tccext.c\<close> reads them in another program, and \<^verbatim>\<open>tcc/ext/match.c\<close> classifies packets by them.
  \<^item> \<open>Text\<close>: the conversions \<^verbatim>\<open>%d\<close> and \<^verbatim>\<open>%x\<close>, reading of numbers, and their round trip;
  \<^item> \<open>If_Ext_Groups\<close>, \<open>If_Ext_Rules\<close>, \<open>If_Ext_Scan\<close>: \<^verbatim>\<open>tcc/if_ext.c\<close>, the table of offset groups, the rules with
    their bits and their text, and that \<open>dump_rules\<close> finds every group it needs in the table;
  \<^item> \<open>Tccext\<close>: \<^verbatim>\<open>tcc/ext/tccext.c\<close>, \<^verbatim>\<open>tccext.h\<close>, the parser of every line, with its errors;
  \<^item> \<open>Match\<close>: \<^verbatim>\<open>tcc/ext/match.c\<close>, extraction of bits, the buffers of a packet, the first rule that matches;
  \<^item> \<open>Ext_Lines\<close>: printed groups and rules, parsed and matched, decide like the expression;
  \<^item> \<open>Actdb\<close>, \<open>Actdb_Store\<close>, \<open>Actdb_Lines\<close>, \<open>Actdb_Text\<close>: \<^verbatim>\<open>tcc/iflib_actdb.c\<close>, actions as trees of policer tests,
    the store that shares equal trees, the numbers of its nodes, and the lines of the actions read back.
    The locale \<open>action_evaluator\<close> states what an evaluator of conditions must do for the tree of an action
    to agree with it; it is interpreted with the two evaluators of \<open>Expr_Sem\<close>;
  \<^item> \<open>Ext_Interface\<close>: the whole output of \<open>dump_if_ext\<close>, with policers as buckets, read and matched.

  \<^bold>\<open>Simulator.\<close>
  \<^item> \<open>Tcsim_Time\<close>: \<^verbatim>\<open>tcsim/jiffies.c\<close>, \<^verbatim>\<open>tcsim/timer.c\<close>, the clock, ordered timers and \<open>advance_time\<close>; the locale \<open>timer_client\<close>
    states what callbacks must promise for the loop to end;
  \<^item> \<open>Tcsim_Net\<close>: \<^verbatim>\<open>tcsim/attr.c\<close>, \<^verbatim>\<open>host.c\<close>, \<^verbatim>\<open>klink.c\<close>, \<^verbatim>\<open>ksvc.c\<close>, packet attributes, routes, devices, forwarding, transmission;
  \<^item> \<open>Tcsim_Tx\<close>: the step relation of the simulation and its invariant, every device that sends has exactly one timer;
  \<^item> \<open>Tcsim_Cmd\<close>: \<^verbatim>\<open>tcsim/command.c\<close>, \<^verbatim>\<open>tcsim/var.c\<close>, commands, periodic commands, variables, and the clock with all callbacks.

  \<^bold>\<open>Correspondence.\<close> A C function that updates its argument in place is a function from the old to the
  new value. \<^verbatim>\<open>data_clone\<close> and \<^verbatim>\<open>data_destroy\<close> have no counterpart. A call that does not return (\<^verbatim>\<open>yyerror\<close>, \<^verbatim>\<open>errorf\<close>,
  \<^verbatim>\<open>dump_failed\<close>, a failed \<^verbatim>\<open>assert\<close>) is an error value; \<open>E_undef\<close> stands for executions that C leaves undefined, such as
  a null pointer that is followed. Warnings and debugging output are left out, except the lines that the
  simulator prints, which are part of its state. Global switches are arguments. The queuing disciplines
  of the kernel and the program \<^verbatim>\<open>tc\<close> are arguments (\<open>kernel\<close>, \<open>tc\<close>).

  \<^bold>\<open>Loops and fuel.\<close> Loops are structural recursion or have a termination proof. \<open>lowest_bit\<close> does not end
  on zero and is a partial function; it is shown to return on all other numbers. \<open>iflib_offset\<close> repeats its
  passes while they change something and takes fuel. \<open>advance_time\<close> takes fuel for the timers it runs; how much is
  enough is proved for callbacks that obey \<open>timer_client\<close>. The walks over the store of actions stop with an
  error where a child does not have a smaller index than its parent; the stores that are built have
  no such node (\<open>db_ok\<close>), so that the error does not occur.

  \<^bold>\<open>What is shown.\<close> The theorems below are numbered by importance. Passes keep the verdict and the state
  for every packet (reduction, bundling, negation, actions, offsets, comparisons); they establish their
  normal forms and return; folding is exact or wraps as stated; classifications keep their promises; scopes
  restore the table of fields; the simulation keeps its invariant, time advances, transmissions end safely,
  routing finds the longest match; values survive conversions. The output of the external interface is
  accepted by its parser, and the matcher that reads it decides on every packet what the expression
  decides; two rules share a node exactly when their actions are equal. Some theorems state faults of the code: a
  poll during a transmission, constants cut to 8 bits, conflicting tests of a bit that are printed as a
  rule, actions with opposite branches that are taken for one, repeated tests of a policer
  that are removed where the bucket may have changed, chains of overflow buckets that the parser rejects.

  \<^bold>\<open>Not modelled.\<close> The parsers and lexers (input of generators), the bit tree optimizers
  (\<^verbatim>\<open>tcc/iflib_bit.c\<close>, \<^verbatim>\<open>iflib_newbit.c\<close>, \<^verbatim>\<open>iflib_fastbit.c\<close>), the back ends \<^verbatim>\<open>tcc/if_u32.c\<close> and \<^verbatim>\<open>if_c.c\<close>, and of
  \<^verbatim>\<open>tcc/if_ext.c\<close> pragmas, the lines of blocks, the option that leaves filters uncombined and the modes that
  use the bit trees. The start of the external program (\<^verbatim>\<open>tcc/ext.c\<close>, \<^verbatim>\<open>ext_all.c\<close>), the
  queuing disciplines and classifiers of \<^verbatim>\<open>tcc/q_*.c\<close> and \<^verbatim>\<open>f_*.c\<close>, parameters, policers except for the numbers that
  the lines of buckets print, the tree of the configuration, locations and messages, memory, tracing
  and loading of modules in \<^verbatim>\<open>tcsim\<close>. Of \<^verbatim>\<open>tcc/field.c\<close> the expansion of fields is not modelled.
\<close>

section \<open>Properties\<close>

text \<open>
  C2: \<open>iflib_reduce\<close> (without the \<^verbatim>\<open>cse\<close> switch) returns on every well-formed condition
  whose \<^verbatim>\<open>&&\<close> nodes have a left operand without side effect and which consumes no tokens.
  The reduced condition is again one of these, and for every packet and every state of the
  policers it gives the verdict and the state the original condition gives.
\<close>

theorem iflib_reduce_keeps_meaning:
  assumes "static_logic d"
  shows "\<exists>d'. iflib_reduce False d = Inr d' \<and> static_logic d' \<and> (\<forall>x s. run E x d' s = run E x d s)"
proof -
  have "iflib_reduce False d = rbind (rbind (Inr (linearize d)) (\<lambda>d. Inr (prune_shortcuts d))) iflib_normalize"
    by (simp add: iflib_reduce_def)
  with reduce_passes.both.pass_ok [OF assms, of E] show ?thesis by simp
qed

text \<open>
  A packet test on one byte of the packet, and an environment for witnesses: packet bytes equal
  their offset, policers always conform, counting increments a counter.
\<close>

definition demo_env :: "nat env" where
  "demo_env = \<lparr> packet = (\<lambda>r off n. off), conforms = (\<lambda>s d. True), counts = (\<lambda>s d. s + 1) \<rparr>"

definition byte_test :: "u32 \<Rightarrow> u32 \<Rightarrow> data" where
  "byte_test off v = D_op dt_unum op_eq
     (D_op dt_unum op_access D_none (D_unum off) (D_unum 8)) (D_unum v) D_none"

definition demo_cond :: data where
  "demo_cond = D_op dt_unum op_logical_or
     (D_op dt_unum op_logical_and (D_op dt_unum op_logical_or (byte_test 1 6) (byte_test 2 17) D_none)
        (D_decision dr_class (Some (Class 1))) D_none)
     (D_decision dr_drop None) D_none"

theorem iflib_reduce_keeps_meaning_witness:
  "\<exists>d'. iflib_reduce False demo_cond = Inr d' \<and> static_logic d' \<and>
     (\<forall>x s. run demo_env x d' s = run demo_env x demo_cond s)"
  by (rule iflib_reduce_keeps_meaning)
    (simp add: demo_cond_def byte_test_def static_logic_def integer_number_def)


subsection \<open>Numbers\<close>

text \<open>
  C10: every operation of \<open>u128.c\<close> on four 32-bit words, carries and borrows included, is the
  operation on 128-bit machine words: addition, subtraction and negation modulo \<open>2 ^ 128\<close>, the
  bitwise operations, shifts by any 32-bit count, and the test for zero.
\<close>

theorem u128_refines_word:
  "u128_word (u128_add a b) = u128_word a + u128_word b \<and>
   u128_word (u128_sub a b) = u128_word a - u128_word b \<and>
   u128_word (u128_minus a) = - u128_word a \<and>
   u128_word (u128_and a b) = u128_word a AND u128_word b \<and>
   u128_word (u128_or a b) = u128_word a OR u128_word b \<and>
   u128_word (u128_xor a b) = u128_word a XOR u128_word b \<and>
   u128_word (u128_not a) = NOT (u128_word a) \<and>
   u128_word (u128_shift_left a n) = push_bit (unat n) (u128_word a) \<and>
   u128_word (u128_shift_right a n) = drop_bit (unat n) (u128_word a) \<and>
   (u128_is_zero a \<longleftrightarrow> u128_word a = 0)"
  by (simp only: u128_add_word u128_sub_word u128_minus_word u128_and_word u128_or_word u128_xor_word
      u128_not_word u128_shift_left_word u128_shift_right_word u128_is_zero_word)

text \<open>
  A 32-bit number converted to 128 bits is recovered by \<open>u128_to_32\<close>, which fails its
  assertion on every other 128-bit number.
\<close>

theorem u128_to_32_roundtrip:
  "u128_to_32 a = Inr n \<longleftrightarrow> a = u128_from_32 n"
  by (rule u128_to_32_Inr)

text \<open>
  A \<open>dt_unum\<close> value survives the conversion to a floating point number, and to an IPv6
  address, and back.
\<close>

theorem data_convert_roundtrip:
  "t \<in> {dt_fnum, dt_ipv6} \<Longrightarrow>
   rbind (data_convert (D_unum n) t) (\<lambda>d. data_convert d dt_unum) = Inr (D_unum n)"
  using data_convert_unum_fnum data_convert_unum_ipv6 by auto

theorem data_convert_roundtrip_witness:
  "rbind (data_convert (D_unum 0xffffffff) dt_fnum) (\<lambda>d. data_convert d dt_unum) = Inr (D_unum 0xffffffff)"
  using data_convert_roundtrip [of dt_fnum "0xffffffff"] by simp

subsection \<open>Constant folding\<close>

text \<open>
  C25: when folding of a multiplication, division, remainder, bit operation, shift or comparison
  of two \<open>dt_unum\<close> constants returns, the value is the one the operator has without any bound of 32
  bits; an overflow is reported and not wrapped.
\<close>

theorem folding_is_exact:
  assumes "exact_op dsc" "op_binary dsc (D_unum m) (D_unum n) = Inr d"
  shows "neval E x d = num_op dsc (neval E x (D_unum m)) (neval E x (D_unum n))"
  by (rule fold_unum_exact [OF assms])

theorem folding_is_exact_witness:
  "neval demo_env (0, 0) (D_unum 5) = num_op op_div (neval demo_env (0, 0) (D_unum 37)) (neval demo_env (0, 0) (D_unum 7))"
  by (rule folding_is_exact) (simp_all add: exact_op_def fold_defs div_eval_def anynum_op_def all_u32_def unum_op_def
      u32_div_def)

text \<open>
  C26: folding of sums and differences of \<open>dt_unum\<close> constants always returns and wraps modulo
  \<open>2 ^ 32\<close>.
\<close>

theorem folding_wraps:
  "\<exists>s d. op_binary op_plus (D_unum m) (D_unum n) = Inr s \<and> op_binary op_minus (D_unum m) (D_unum n) = Inr d \<and>
     neval E x s = take_bit 32 (neval E x (D_unum m) + neval E x (D_unum n)) \<and>
     neval E x d = take_bit 32 (neval E x (D_unum m) - neval E x (D_unum n))"
  by (simp add: fold_plus fold_minus neval_unum up_add_sub del: neval.simps)

text \<open>
  C27: the type of the result of a binary operator is a function of the types of its operands,
  whether the operands are constants that are folded or expressions that are kept.
\<close>

theorem operators_well_typed:
  assumes "arith_op2 dsc" "op_binary dsc a b = Inr d"
  shows "binary_type dsc (type_of a) (type_of b) = Some (type_of d)"
  by (rule op_binary_type [OF assms])

theorem operators_well_typed_witness:
  "binary_type op_plus dt_unum dt_unum = Some (type_of (D_unum 5))"
  using operators_well_typed [of op_plus "D_unum 2" "D_unum 3" "D_unum 5"] by (simp add: arith_op2_def fold_plus)

subsection \<open>Expressions\<close>

text \<open>
  C16: what \<open>self_contained\<close> promises of an expression holds at run time, for every packet and
  every state: \<open>sc_yes\<close> always reaches a decision, \<open>sc_no_true\<close> decides or is true,
  never false, and \<open>sc_no_false\<close> decides or is false, never true.
\<close>

theorem self_contained_promise:
  "case self_contained d of
     sc_yes \<Rightarrow> \<exists>r k. fst (run E x d s) = V_decided r k
   | sc_no_true \<Rightarrow> fst (run E x d s) \<noteq> V_false
   | sc_no_false \<Rightarrow> fst (run E x d s) \<noteq> V_true
   | sc_no \<Rightarrow> True"
  using self_contained_sound [of d E x s] by (cases "self_contained d"; cases "fst (run E x d s)") auto

text \<open>
  C13: \<open>bubble_or\<close> returns, keeps the meaning, and afterwards no \<^verbatim>\<open>||\<close> is left below an
  \<^verbatim>\<open>&&\<close>, except on the right in the form of an action that always decides.
\<close>

theorem bubble_or_normal_form:
  assumes "static_logic d"
  shows "\<exists>d'. bubble_or d = Inr d' \<and> or_above_and d' \<and> (\<forall>x s. run E x d' s = run E x d s)"
  using bubble_or_static [OF assms, of E] bubble_or_bubbled bubbled_or_above_and by blast

theorem bubble_or_normal_form_witness:
  "\<exists>d'. bubble_or demo_cond = Inr d' \<and> or_above_and d' \<and> (\<forall>x s. run demo_env x d' s = run demo_env x demo_cond s)"
  by (rule bubble_or_normal_form)
    (simp add: demo_cond_def byte_test_def static_logic_def integer_number_def)

text \<open>
  \<open>linearize\<close> turns \<^verbatim>\<open>&&\<close> and \<^verbatim>\<open>||\<close> chains into right-recursive ones and keeps the
  verdict and the order of side effects.
\<close>

theorem linearize_chains:
  assumes "logic d"
  shows "right_linear (linearize d) \<and> (\<forall>x s. run E x (linearize d) s = run E x d s)"
  using linearize_right_linear [OF assms] linearize_run [OF assms, of E] by blast

theorem linearize_chains_witness:
  "right_linear (linearize demo_cond) \<and> (\<forall>x s. run demo_env x (linearize demo_cond) s = run demo_env x demo_cond s)"
  by (rule linearize_chains) (simp add: demo_cond_def byte_test_def integer_number_def)

text \<open>
  \<open>prune_shortcuts\<close> leaves no constant operand of \<^verbatim>\<open>&&\<close> and \<^verbatim>\<open>||\<close> behind that
  decides or is neutral, and keeps the meaning.
\<close>

theorem prune_shortcuts_complete:
  assumes "logic d"
  shows "pruned (prune_shortcuts d) \<and> (\<forall>x s. run E x (prune_shortcuts d) s = run E x d s)"
  using prune_pruned prune_run [OF assms, of E] by blast

theorem prune_shortcuts_complete_witness:
  "pruned (prune_shortcuts demo_cond) \<and> (\<forall>x s. run demo_env x (prune_shortcuts demo_cond) s = run demo_env x demo_cond s)"
  by (rule prune_shortcuts_complete) (simp add: demo_cond_def byte_test_def integer_number_def)

text \<open>
  C40: the elimination of common subexpressions returns on an expression of comparable constants
  that consumes no tokens, and its result gives the same verdicts.
\<close>

theorem common_subexpressions_correct:
  assumes "logic d" "no_count d" "comparable_leaves d"
  shows "\<exists>d'. common_subexpressions d = Inr d' \<and> (\<forall>x s. run E x d' s = run E x d s)"
proof -
  obtain d' where d': "common_subexpressions d = Inr d'" using cse_returns [OF assms(3)] by blast
  have "run E x d' s = run E x d s" for x s using cse_run [OF assms d', of E x] by blast
  with d' show ?thesis by blast
qed

theorem common_subexpressions_correct_witness:
  "\<exists>d'. common_subexpressions demo_cond = Inr d' \<and> (\<forall>x s. run demo_env x d' s = run demo_env x demo_cond s)"
  by (rule common_subexpressions_correct) (simp_all add: demo_cond_def byte_test_def integer_number_def)

text \<open>
  C11: rewriting \<^verbatim>\<open>(a && b) || (a && c)\<close> to \<^verbatim>\<open>a && (b || c)\<close>. The block of the matrix that
  \<open>bundle_find_best\<close> picks has the same leading conditions in all its rows; \<open>bundle_rebuild\<close>
  makes of it an expression with fewer nodes that means the same as the matrix, if no row of the
  block consists of the common conditions alone.
\<close>

theorem bundle_correct:
  assumes "bundle_find_best (bundle_make_matrix d) = Inr (first, ors, ands)" "(first, ors, ands) \<noteq> (0, 0, 0)"
    "logic d" "no_count d" "\<forall>r \<in> set (bundle_make_matrix d). r \<noteq> []"
    "\<forall>r \<in> set (take ors (drop first (bundle_make_matrix d))). ands < length r"
  shows "\<exists>d'. bundle_rebuild (bundle_make_matrix d) first ors ands = Inr d' \<and>
    nodes d' < row_nodes (bundle_make_matrix d) \<and> (\<forall>s. run E x d' s = run E x d s)"
proof -
  have block: "common_block (bundle_make_matrix d) (first, ors, ands)"
    using bundle_find_best_common [OF assms(1)] assms(2) by (auto simp: no_block_def)
  have cells: "\<forall>r \<in> set (bundle_make_matrix d). ok_cells r \<and> r \<noteq> []"
    using make_matrix_ok [OF assms(3,4)] assms(5) by blast
  from bundle_rebuild_run [OF block cells assms(6), of E x] show ?thesis
    using bundle_rebuild_nodes [OF block] make_matrix_run by metis
qed

definition bundle_cond :: data where
  "bundle_cond = D_op dt_unum op_logical_or
     (D_op dt_unum op_logical_and (byte_test 9 6) (byte_test 2 1) D_none)
     (D_op dt_unum op_logical_and (byte_test 9 6) (byte_test 2 3) D_none) D_none"

lemma bundle_cond_matrix:
  "bundle_make_matrix bundle_cond = [[byte_test 9 6, byte_test 2 1], [byte_test 9 6, byte_test 2 3]]"
  by code_simp

lemma bundle_cond_best: "bundle_find_best (bundle_make_matrix bundle_cond) = Inr (0, 2, 1)"
  by code_simp

theorem bundle_correct_witness:
  "\<exists>d'. bundle_rebuild (bundle_make_matrix bundle_cond) 0 2 1 = Inr d' \<and>
    nodes d' < row_nodes (bundle_make_matrix bundle_cond) \<and>
    (\<forall>s. run demo_env (0, 0) d' s = run demo_env (0, 0) bundle_cond s)"
  by (rule bundle_correct [OF bundle_cond_best])
    (simp_all add: bundle_cond_matrix, simp_all add: bundle_cond_def byte_test_def integer_number_def)

subsection \<open>Negation\<close>

text \<open>
  C8: \<open>bubble_not\<close> returns on a chain of rules \<^verbatim>\<open>condition && decision\<close> that ends with a
  default decision, for conditions of \<^verbatim>\<open>!\<close>, \<^verbatim>\<open>&&\<close>, \<^verbatim>\<open>||\<close>, policers and comparisons. No
  \<^verbatim>\<open>!\<close> and no \<^verbatim>\<open>!=\<close> is left in the result, and it decides as the original chain does.
\<close>

theorem bubble_not_eliminates:
  assumes "rules d"
  shows "\<exists>d'. bubble_not d (D_unum 1) (D_unum 0) = Inr d' \<and> no_negation d' \<and> (\<forall>s. run E x d' s = run E x d s)"
  using bubble_not_rules [OF assms logic_one(2) logic_one(3), of E x] by auto

definition not_rules :: data where
  "not_rules = D_op dt_unum op_logical_or
     (D_op dt_unum op_logical_and (D_op dt_unum op_logical_not (byte_test 9 6) D_none D_none)
        (D_decision dr_class (Some (Class 1))) D_none)
     (D_decision dr_drop None) D_none"

theorem bubble_not_eliminates_witness:
  "\<exists>d'. bubble_not not_rules (D_unum 1) (D_unum 0) = Inr d' \<and> no_negation d' \<and>
    (\<forall>s. run demo_env (0, 0) d' s = run demo_env (0, 0) not_rules s)"
  by (rule bubble_not_eliminates) (simp add: not_rules_def byte_test_def integer_number_def)

text \<open>
  the test for a single bit. When \<open>single_bit_test\<close> succeeds on \<^verbatim>\<open>a != b\<close>, the constant it
  stores makes \<^verbatim>\<open>a == b'\<close> equivalent to \<^verbatim>\<open>a != b\<close> on every packet.
\<close>

theorem single_bit_test_flips:
  assumes "single_bit_test a b = Inr (Some b')"
  shows "neval E x a = neval E x b' \<longleftrightarrow> neval E x a \<noteq> neval E x b"
  by (rule single_bit_test_neval(1) [OF assms])

definition bit_operand :: data where
  "bit_operand = D_op dt_unum op_and (D_op dt_unum op_access D_none (D_unum 6) (D_unum 8)) (D_unum 0x20) D_none"

lemma single_bit_demo: "single_bit_test bit_operand (D_unum 0x20) = Inr (Some (D_unum 0))"
  by code_simp

theorem single_bit_test_flips_witness:
  "neval demo_env (0, 0) bit_operand = neval demo_env (0, 0) (D_unum 0) \<longleftrightarrow>
   neval demo_env (0, 0) bit_operand \<noteq> neval demo_env (0, 0) (D_unum 0x20)"
  by (rule single_bit_test_flips [OF single_bit_demo])

text \<open>
  The loop of \<open>single_bit_test\<close> that shifts a mask right while its bit 0 is clear ends
  for every mask other than zero, and no set bit of the mask is shifted out.
\<close>

theorem lowest_bit_terminates:
  assumes "\<not> u128_is_zero m"
  shows "\<exists>t. lowest_bit m = Some t \<and> (\<exists>k. u128_word m = push_bit k (u128_word t))"
  by (rule lowest_bit_returns [OF assms])

theorem lowest_bit_terminates_witness:
  "\<exists>t. lowest_bit (u128_from_32 0x20) = Some t \<and> (\<exists>k. u128_word (u128_from_32 0x20) = push_bit k (u128_word t))"
  by (rule lowest_bit_terminates) (simp add: u128_from_32_def)

subsection \<open>Arithmetic\<close>


definition access_byte :: "u32 \<Rightarrow> data" where
  "access_byte off = D_op dt_unum op_access D_none (D_unum off) (D_unum 8)"

definition port_range :: data where
  "port_range = D_op dt_unum op_logical_and
     (D_op dt_unum op_ge (access_byte 2) (D_unum 20) D_none) (D_op dt_unum op_lt (access_byte 2) (D_unum 90) D_none) D_none"


text \<open>
  C15: \<open>ne_to_eq\<close> returns and leaves no \<^verbatim>\<open>!=\<close>, with single bits as with prefixes, and the condition
  is true of the same packets, if the constants lie inside the masks of their operands.
\<close>

theorem inequalities_become_tests:
  assumes "comparisons d"
  shows "\<exists>d'. ne_to_eq prefix d = Inr d' \<and> nesting {op_ne} d' = 0 \<and> (\<forall>s. run E x d' s = run E x d s)"
  using ne_pass.pass_correct [OF assms, where prefix = prefix and E = E and x = x]
  by (cases "ne_to_eq prefix d") (simp_all del: run.simps)

definition flag_test :: data where
  "flag_test = D_op dt_unum op_ne
     (D_op dt_unum op_and (access_byte 13) (D_unum 0x12) D_none) (D_unum 0x10) D_none"

lemma flag_covered: "ne_covered (D_op dt_unum op_and (access_byte 13) (D_unum 0x12) D_none) (D_unum 0x10)"
  by code_simp

theorem inequalities_become_tests_witness:
  "\<exists>d'. ne_to_eq True flag_test = Inr d' \<and> nesting {op_ne} d' = 0 \<and>
     (\<forall>s. run demo_env (0, 0) d' s = run demo_env (0, 0) flag_test s)"
proof (rule inequalities_become_tests)
  show "comparisons flag_test"
    using flag_covered by (simp add: flag_test_def comparable_def) (simp add: access_byte_def)
qed



text \<open>
  C37: larger constants lose their upper bits on the way into \<open>mul_opt\<close> and \<open>mod_opt\<close>, whose
  parameter is a \<^verbatim>\<open>uint8_t\<close>: a product with a multiple of 256 becomes 0, and so does a remainder
  of a division by a number that is 1 modulo 256.
\<close>

theorem large_factors_truncated:
  assumes "is_op a"
  shows "(256 dvd unat n \<longrightarrow> mul_div_mod_node t op_mult a (D_unum n) c = Inr (True, D_unum 0)) \<and>
    (unat n mod 256 = 1 \<longrightarrow> mul_div_mod_node t op_mod a (D_unum n) c = Inr (True, D_unum 0))"
proof -
  have "unat (as_u8 n) = unat n mod 256" by (simp add: as_u8_def take_bit_eq_mod unat_mod)
  moreover have "unum_const a = None" using assms by (cases a) auto
  moreover have "v = 0 \<longleftrightarrow> unat v = 0" "v = 1 \<longleftrightarrow> unat v = 1" for v :: u32 by (simp_all add: word_unat_eq_iff)
  ultimately show ?thesis
    by (simp add: mul_div_mod_node_def mul_opt_def mod_opt_def opt_result_def dvd_eq_mod_eq_0)
qed

theorem large_factors_truncated_witness:
  "mul_div_mod_node dt_unum op_mult (access_byte 3) (D_unum 0x100) D_none = Inr (True, D_unum 0) \<and>
   mul_div_mod_node dt_unum op_mod (access_byte 3) (D_unum 0x101) D_none = Inr (True, D_unum 0)"
  using large_factors_truncated [of "access_byte 3" "0x100" dt_unum D_none]
    large_factors_truncated [of "access_byte 3" "0x101" dt_unum D_none] by (simp add: access_byte_def)

subsection \<open>Actions\<close>

text \<open>
  An expression that passes the check for expensive policing with the answer that it is
  decided always reaches a decision, whatever the policers answer.
\<close>

theorem cheap_policing_decides:
  assumes "refuse_static_after_policing exp_error d False False rep = Inr (True, rep')"
  shows "\<exists>r k. fst (run E x d s) = V_decided r k"
  using refuse_static_sound [OF assms, of "\<lambda>s. (V_true, s)" "\<lambda>s. (V_false, s)" E x s] by simp

definition policed :: data where
  "policed = D_op dt_unum op_logical_or
     (D_op dt_unum op_logical_and (D_op dt_unum op_conform (D_police 0) D_none D_none)
        (D_decision dr_class (Some (Class 2))) D_none)
     (D_decision dr_drop None) D_none"

theorem cheap_policing_decides_witness:
  "\<exists>r k. fst (run demo_env (0, 0) policed 0) = V_decided r k"
  by (rule cheap_policing_decides [of True _ True True]) (simp add: policed_def)

text \<open>
  \<open>trim_self_contained\<close> removes exactly what is never reached: nothing follows an operand
  that always decides, and verdicts and states are unchanged.
\<close>

theorem trim_self_contained_correct:
  assumes "logic d"
  shows "trimmed (trim_self_contained d) \<and> (\<forall>x s. run E x (trim_self_contained d) s = run E x d s)"
  using trim_trimmed trim_logic_run [OF assms, of E] by blast

theorem trim_self_contained_correct_witness:
  "trimmed (trim_self_contained demo_cond) \<and> (\<forall>x s. run demo_env x (trim_self_contained demo_cond) s = run demo_env x demo_cond s)"
  by (rule trim_self_contained_correct) (simp add: demo_cond_def byte_test_def integer_number_def)

text \<open>
  \<open>bubble_and\<close>, which moves an action to the right of a test, keeps verdict and state when
  it returns, and never uses the expression it has freed.
\<close>

theorem bubble_and_swaps:
  assumes "logic a" "logic b"
  shows "case bubble_and t a b c of
      Inr d \<Rightarrow> \<forall>x s. run E x d s = run E x (D_op t op_logical_and a b c) s
    | Inl e \<Rightarrow> e = E_errorf ''too many side effects''"
proof (cases "bubble_and t a b c")
  case (Inl e)
  then show ?thesis using bubble_and_defined [of t a b c] by (auto simp: bubble_and_def split: if_splits)
next
  case (Inr d)
  then show ?thesis using bubble_and_run [OF Inr assms, of E] by (simp del: run.simps)
qed

theorem bubble_and_swaps_witness:
  "case bubble_and dt_unum (D_unum 1) (byte_test 9 6) D_none of
      Inr d \<Rightarrow> \<forall>x s. run demo_env x d s = run demo_env x (D_op dt_unum op_logical_and (D_unum 1) (byte_test 9 6) D_none) s
    | Inl e \<Rightarrow> e = E_errorf ''too many side effects''"
  by (rule bubble_and_swaps) (simp_all add: byte_test_def integer_number_def)

subsection \<open>Combination of the filters of a qdisc\<close>


definition demo_qdisc :: qdisc_rec where
  "demo_qdisc = \<lparr> qdisc_filters = [],
     qdisc_classes =
       [Class_rec [\<lparr> is_if = True, elements = [\<lparr> if_expr = byte_test 9 6, parent_class = Class 1 \<rparr>] \<rparr>] [],
        Class_rec [\<lparr> is_if = True, elements = [\<lparr> if_expr = D_unum 1, parent_class = class_is_drop \<rparr>] \<rparr>] []] \<rparr>"


subsection \<open>Fields\<close>

text \<open>
  C23: a scope that is opened and closed leaves every field with the definition it had before,
  and no field that was defined inside, whatever was defined, redefined and nested in it.
\<close>

theorem field_scope_restores:
  assumes "levels_ok st" "scope_run (field_begin_scope st) st'"
  shows "field_list (field_end_scope st') = field_list st \<and> level (field_end_scope st') = level st"
  by (rule scope_restores [OF assms])

definition demo_fields :: field_state where
  "demo_fields = \<lparr> field_list = [], level = 0, next_fid = 0, field_roots = [] \<rparr>"

lemma demo_scope:
  "\<exists>st. field_set ''proto'' (D_unum 1) D_none (field_begin_scope demo_fields) = Inr st \<and>
     scope_run (field_begin_scope demo_fields) st"
  by (auto simp: field_set_def field_find_def demo_fields_def field_begin_scope_def
      intro!: scope_set [OF scope_refl])

theorem field_scope_restores_witness:
  "\<exists>st. field_set ''proto'' (D_unum 1) D_none (field_begin_scope demo_fields) = Inr st \<and>
     field_list (field_end_scope st) = [] \<and> level (field_end_scope st) = 0"
proof -
  have "levels_ok demo_fields" by (simp add: demo_fields_def levels_ok_def)
  with demo_scope field_scope_restores show ?thesis by (fastforce simp: demo_fields_def)
qed



subsection \<open>Offsets and roots\<close>


definition rooted_test :: data where
  "rooted_test = D_op dt_unum op_eq
     (D_op dt_unum op_access (D_field_root 1)
        (D_op dt_unum op_plus (D_op dt_unum op_access (D_field_root 0) (D_unum 0) (D_unum 8)) (D_unum 4) D_none) (D_unum 16))
     (D_unum 80) D_none"


subsection \<open>Variables and switches\<close>


definition no_vars :: var_state where
  "no_vars = \<lparr>hash_table = (\<lambda>_. []), vars_mem = (\<lambda>_. None), scopes_mem = (\<lambda>_. None), refs_mem = (\<lambda>_. None), fresh = 0,
     curr_scope = None, saved_scope = None, current_access = None, access_stack = []\<rparr>"

definition global_scope :: var_state where
  "global_scope = (case var_begin_scope no_vars of Inr st \<Rightarrow> st | Inl e \<Rightarrow> no_vars)"

definition one_var :: "(nat \<times> var_state)" where
  "one_var = (case var_find ''a'' global_scope of Inr r \<Rightarrow> r | Inl e \<Rightarrow> (0, no_vars))"

lemma begin_global: "var_begin_scope no_vars = Inr global_scope"
  by (simp add: global_scope_def var_begin_scope_def no_vars_def)

lemma find_one: "var_find ''a'' global_scope = Inr one_var"
  by (simp add: one_var_def global_scope_def var_begin_scope_def no_vars_def var_find_def var_new_def hash_lookup_def hash_vars_def
      get_scope_def shadowed_scope_def store_var_def load_var_def Let_def)


text \<open>
  What an assignment to a variable or to an entry of a structure has stored is what an access to
  the same entry of the variable that received it returns.
\<close>

theorem variable_set_get:
  assumes "var_set d st = Inr st'" "current_access st = Some a" "vars_mem st (acc_var a) = Some v"
    "vusage v = vu_new \<Longrightarrow> vdata v = D_none"
  shows "\<exists>b st1 st2 st3. current_access st' = Some b \<and> var_begin_access (acc_var b) st' = Inr st1 \<and>
    var_path (acc_path a) st1 = Inr st2 \<and> var_get st2 = Inr (d, st3)"
  by (rule var_set_get [OF assms(1) _ assms(3)]) (use assms in \<open>auto simp: get_access_def\<close>)

text \<open>The variable \<open>a\<close> of the global scope, in the middle of an assignment to \<^verbatim>\<open>$a.b\<close>.\<close>

definition entry_access :: var_access where
  "entry_access = \<lparr>acc_var = 1, new_entry = Some ''b'', clone = D_assoc [(''b'', D_none)], acc_path = [''b''], orig_path = None\<rparr>"

definition global_a :: variable where
  "global_a = \<lparr>vdata = D_none, data_ref = None, vusage = vu_new, vhash = ''a'', vscope = 0, next_with_name = None\<rparr>"

definition entry_state :: var_state where
  "entry_state = no_vars\<lparr>vars_mem := [1 \<mapsto> global_a], curr_scope := Some 0, fresh := 2, current_access := Some entry_access\<rparr>"

definition entry_set :: var_state where
  "entry_set = (case var_set (D_unum 5) entry_state of Inr st \<Rightarrow> st | Inl e \<Rightarrow> no_vars)"

lemma entry_set: "var_set (D_unum 5) entry_state = Inr entry_set"
  by (simp add: entry_set_def entry_state_def entry_access_def global_a_def no_vars_def var_set_def get_access_def load_var_def
      is_assoc_def own_var_def use_var_def set_access_def store_var_def Let_def)

theorem variable_set_get_witness:
  "\<exists>b st1 st2 st3. current_access entry_set = Some b \<and> var_begin_access (acc_var b) entry_set = Inr st1 \<and>
    var_path [''b''] st1 = Inr st2 \<and> var_get st2 = Inr (D_unum 5, st3)"
  using variable_set_get [OF entry_set, of entry_access global_a]
  by (simp add: entry_state_def entry_access_def global_a_def)

text \<open>
  C39: a registry is a map from names to switches. Setting or clearing a known switch changes that
  switch only, and not even that one when it is locked; for unknown names nothing changes and the
  result is an error; an operation on a name with the prefix \<^verbatim>\<open>no\<close> clears.
\<close>

theorem registry_refines_map:
  assumes "reg_ok reg" "known_switch reg k"
  shows "registry_probe reg k (snd (registry_set_no reg n mem)) =
      (if no_prefix n then if k = drop 2 n \<and> \<not> locked_switch reg k then Inr 0 else registry_probe reg k mem
       else if k = n \<and> \<not> locked_switch reg k then Inr 1 else registry_probe reg k mem) \<and>
    fst (registry_set_no reg n mem) = (if known_switch reg (if no_prefix n then drop 2 n else n) then 0 else -1)"
proof -
  have set: "registry_probe reg k (snd (registry_set reg m mem)) =
      (if k = m \<and> \<not> locked_switch reg k then Inr 1 else registry_probe reg k mem)" for m
    by (rule registry_set_probe [OF assms])
  have clear: "registry_probe reg k (snd (registry_clear reg m mem)) =
      (if k = m \<and> \<not> locked_switch reg k then Inr 0 else registry_probe reg k mem)" for m
    by (rule registry_clear_probe [OF assms])
  show ?thesis unfolding registry_set_no_def
    by (simp only: if_distrib [of fst] if_distrib [of snd] if_distrib [of "registry_probe reg k"] set clear
        registry_switches.set_result) simp
qed

definition demo_registry :: registry where
  "demo_registry = \<lparr>reg_names = [''cse'', ''prefix'', ''ne''], reg_flags = [10, 11, 12], reg_locked = [False, False, False]\<rparr>"

theorem registry_refines_map_witness:
  "registry_probe demo_registry ''cse'' (snd (registry_set_no demo_registry ''nocse'' (\<lambda>_. 1))) = Inr 0 \<and>
   fst (registry_set_no demo_registry ''nocse'' (\<lambda>_. 1)) = 0"
  using registry_refines_map [of demo_registry "''cse''" "''nocse''" "\<lambda>_. 1"]
  by (simp add: demo_registry_def reg_ok_def known_switch_def no_prefix_def locked_switch_def registry_find_def)

subsection \<open>The simulator: time\<close>

text \<open>
  The order \<open>jiffval_cmp\<close> is a linear order on points in time, with result zero for equal
  ones only, and swapping the arguments flips the sign.
\<close>

theorem jiffval_cmp_linear:
  "(jiffval_cmp a b = 0 \<longleftrightarrow> a = (b :: jiffval)) \<and> jiffval_cmp b a = - jiffval_cmp a b \<and>
   (jiffval_cmp a b < 0 \<and> jiffval_cmp b c < 0 \<longrightarrow> jiffval_cmp a c < 0)"
proof -
  have "jiffval_cmp b a = - jiffval_cmp a b" using less_asym by (auto simp: jiffval_cmp_def)
  then show ?thesis by (auto simp: jiffval_cmp_0 jiffval_cmp_key)
qed

theorem jiffval_cmp_linear_witness:
  "jiffval_cmp \<lparr>jiffies = 1, ujiffies = 2\<rparr> \<lparr>jiffies = 1, ujiffies = 3\<rparr> < 0 \<and>
   jiffval_cmp \<lparr>jiffies = 1, ujiffies = 3\<rparr> \<lparr>jiffies = 2, ujiffies = 0\<rparr> < 0 \<and>
   jiffval_cmp \<lparr>jiffies = 1, ujiffies = 2\<rparr> \<lparr>jiffies = 2, ujiffies = 0\<rparr> < 0"
  using jiffval_cmp_linear [of "\<lparr>jiffies = 1, ujiffies = 2\<rparr>" "\<lparr>jiffies = 1, ujiffies = 3\<rparr>" "\<lparr>jiffies = 2, ujiffies = 0\<rparr>"]
  by (simp add: jiffval_cmp_def)

text \<open>
  \<open>jv_add\<close> adds the times exactly when no 64-bit counter overflows.
\<close>

theorem jv_add_exact:
  assumes "unat (ujiffies a) + unat (ujiffies b) < 2 ^ 64" "micros a + micros b < 1000000 * 2 ^ 64"
  shows "micros (jv_add a b) = micros a + micros b"
  by (rule jv_add_micros(1) [OF assms])

theorem jv_add_exact_witness:
  "micros (jv_add \<lparr>jiffies = 3, ujiffies = 700000\<rparr> \<lparr>jiffies = 4, ujiffies = 600000\<rparr>) = 8300000"
  using jv_add_exact [of "\<lparr>jiffies = 3, ujiffies = 700000\<rparr>" "\<lparr>jiffies = 4, ujiffies = 600000\<rparr>"]
  by (simp add: micros_def)

text \<open>
  The sum \<open>jv_add\<close> returns need not be normalized. Half a jiffy and half a jiffy are one
  jiffy, but the result is 0 jiffies and 1000000 millionths, which \<open>jiffval_cmp\<close> takes to be earlier.
\<close>

theorem jv_add_not_normalized:
  "jv_add \<lparr>jiffies = 0, ujiffies = 500000\<rparr> \<lparr>jiffies = 0, ujiffies = 500000\<rparr> = \<lparr>jiffies = 0, ujiffies = 1000000\<rparr> \<and>
   normalize_jiffval \<lparr>jiffies = 0, ujiffies = 1000000\<rparr> = \<lparr>jiffies = 1, ujiffies = 0\<rparr> \<and>
   jiffval_cmp \<lparr>jiffies = 0, ujiffies = 1000000\<rparr> \<lparr>jiffies = 1, ujiffies = 0\<rparr> < 0"
  by (simp add: jv_add_def normalize_jiffval_def jiffval_cmp_def carry.simps)

text \<open>
  a whole number of jiffies below \<open>2 ^ 53\<close> survives the way through \<^verbatim>\<open>double\<close>, and whatever
  \<open>dtojiffval\<close> returns has less than a million millionths.
\<close>

theorem jiffval_double_roundtrip:
  assumes "uint n < 2 ^ 53"
  shows "dtojiffval (jiffvaltod \<lparr>jiffies = n, ujiffies = 0\<rparr>) = Inr \<lparr>jiffies = n, ujiffies = 0\<rparr>"
  by (rule jiffval_roundtrip [OF assms])

theorem jiffval_double_roundtrip_witness:
  "dtojiffval (jiffvaltod \<lparr>jiffies = 12345, ujiffies = 0\<rparr>) = Inr \<lparr>jiffies = 12345, ujiffies = 0\<rparr>"
  by (rule jiffval_double_roundtrip) simp

text \<open>
  C32: adding a timer keeps the list of timers in the order of expiry with no timer in the past,
  and puts the timer behind those that expire at the same time, so that timers fire in the order in
  which they were added.
\<close>

theorem add_timer_fifo:
  assumes "clock_ok st" "add_hires_timer t st = Inr st'"
  shows "clock_ok st' \<and> mset (timers st') = add_mset t (mset (timers st)) \<and>
    filter (\<lambda>w. tkey w = tkey t) (timers st') = filter (\<lambda>w. tkey w = tkey t) (timers st) @ [t]"
  using add_hires_timer_ok [OF assms] assms(1) insert_timer_fifo [of "timers st" "tkey t" t]
  by (simp add: clock_ok_def)

definition demo_timer :: "nat \<Rightarrow> u64 \<Rightarrow> timer" where
  "demo_timer i e = \<lparr>tid = i, expires = e, expires_ujiffies = 0, tfunction = 2, tdata = 0\<rparr>"

definition demo_clock :: clock where
  "demo_clock = \<lparr>now = \<lparr>jiffies = 5, ujiffies = 0\<rparr>, jiffies_now = 5, timers = [demo_timer 1 7, demo_timer 2 9]\<rparr>"

lemma demo_clock_ok: "clock_ok demo_clock"
  by (simp add: demo_clock_def demo_timer_def clock_ok_def tkey_def jkey_def lexnum_le)

theorem add_timer_fifo_witness:
  "clock_ok (demo_clock\<lparr>timers := [demo_timer 1 7, demo_timer 3 7, demo_timer 2 9]\<rparr>)"
proof -
  have "add_hires_timer (demo_timer 3 7) demo_clock =
      Inr (demo_clock\<lparr>timers := [demo_timer 1 7, demo_timer 3 7, demo_timer 2 9]\<rparr>)"
    by (simp add: add_hires_timer_def demo_clock_def demo_timer_def timer_lt_def timer_le_def tmp_at_def)
  from add_timer_fifo [OF demo_clock_ok this] show ?thesis by simp
qed



text \<open>
  C30: the advance of the simulated time returns: the loop that fires timers ends, and afterwards
  the clock shows the requested time and no timer up to it is pending, in every simulation whose
  devices send when polled only and whose periodic commands have positive intervals, for every
  kernel and every \<^verbatim>\<open>tc\<close> that change queues only. (The result can be an error a command reports.)
\<close>

theorem advance_time_terminates:
  assumes "polled k tc ktimer st" "jkey (now st) \<le> jkey next_time"
  shows "\<exists>r. sim_advance HZ k tc ktimer next_time st = Some r \<and> r \<noteq> Inr None \<and>
    (\<forall>st'. r = Inr (Some st') \<longrightarrow> polled k tc ktimer st' \<and> now st' = next_time \<and>
       (\<forall>t \<in> set (timers st'). jkey next_time < tkey t))"
proof -
  have "clock_ok st" using assms(1) by (simp add: polled_def world_ok_def)
  from polled_sim.advance_time_returns [OF this assms, of HZ] show ?thesis unfolding sim_advance_def by blast
qed

definition no_tc :: "'a \<Rightarrow> 'q world \<Rightarrow> 'q world result" where
  "no_tc x st = Inr st"

definition demo_attributes :: attributes where
  "demo_attributes = \<lparr>present = 15, dflt = 15, nfmark = 0, priority = 0, protocol = 0x800, tc_index = 0\<rparr>"

definition demo_world :: "packet list world" where
  "demo_world = empty_sim demo_attributes \<lparr>everys = (\<lambda>_. None), terminating = False, vars = []\<rparr>"

lemma fifo_frame: "kernel_frame fifo_kernel"
  by (simp add: kernel_frame_def fifo_kernel_def topo_tx_def topo_def)

lemma no_tc_frame: "tc_frame no_tc"
  by (simp add: tc_frame_def no_tc_def)

theorem advance_time_terminates_witness:
  "\<exists>st. cmd_run (F_num 100) fifo_kernel no_tc
       (Cmd_every \<lparr>jiffies = 1, ujiffies = 500000\<rparr> \<lparr>jiffies = 9, ujiffies = 0\<rparr> (Cmd_echo None)) demo_world = Inr st \<and>
     (\<exists>r. sim_advance (F_num 100) fifo_kernel no_tc no_tc \<lparr>jiffies = 20, ujiffies = 0\<rparr> st = Some r \<and> r \<noteq> Inr None)"
proof -
  let ?c = "Cmd_every \<lparr>jiffies = 1, ujiffies = 500000\<rparr> \<lparr>jiffies = 9, ujiffies = 0\<rparr> (Cmd_echo None)"
  have "\<exists>st. cmd_run (F_num 100) fifo_kernel no_tc ?c demo_world = Inr st"
    by (simp add: demo_world_def empty_sim_def every_step_def jiffval_cmp_def log_event_def add_hires_timer_def
        every_timer_def timer_lt_def tmp_at_def)
  then obtain st where st: "cmd_run (F_num 100) fifo_kernel no_tc ?c demo_world = Inr st" by blast
  have "world_ok demo_world" by (simp add: world_ok_def clock_ok_def demo_world_def empty_sim_def)
  from cmd_run_quiet [OF fifo_frame no_tc_frame _ this st] have "quiet demo_world st" by (simp add: positive_def)
  then have "polled fifo_kernel no_tc no_tc st" "now st = \<lparr>jiffies = 0, ujiffies = 0\<rparr>"
    by (simp_all add: polled_def quiet_def fifo_frame no_tc_frame demo_world_def empty_sim_def)
  with advance_time_terminates [of fifo_kernel no_tc no_tc st "\<lparr>jiffies = 20, ujiffies = 0\<rparr>" "F_num 100"] st
  show ?thesis by (auto simp: jkey_def lexnum_le)
qed

subsection \<open>The simulator: network\<close>

text \<open>
  C31: the first route that matches an address is the longest match, for a table built by
  \<open>add_route\<close> from prefix masks: the route that \<open>incoming\<close> finds is the only matching one whose mask
  contains the mask of every other matching route.
\<close>

theorem first_route_is_longest:
  assumes "routes_ok rts" "\<forall>r \<in> set rts. prefix_mask (rmask r)"
  shows "find_route a rts = Some rt \<longleftrightarrow> longest_match a rts rt"
  using find_route_longest [OF assms] longest_match_found [OF assms(1)] by blast

lemma prefix_24_16: "prefix_mask 0xffffff00" "prefix_mask 0xffff0000"
proof -
  have "(0xffffff00 :: u32) = NOT (mask 8)" "(0xffff0000 :: u32) = NOT (mask 16)" by (simp_all add: mask_numeral)
  then show "prefix_mask 0xffffff00" "prefix_mask 0xffff0000" unfolding prefix_mask_def by blast+
qed

theorem first_route_is_longest_witness:
  "longest_match 0x0a000105
     [\<lparr>addr = 0x0a000100, rmask = 0xffffff00, rdev = 0\<rparr>, \<lparr>addr = 0x0a000000, rmask = 0xffff0000, rdev = 1\<rparr>]
     \<lparr>addr = 0x0a000100, rmask = 0xffffff00, rdev = 0\<rparr>"
  by (rule first_route_is_longest [THEN iffD1])
    (simp_all add: routes_ok_def route_clash_def find_route_def route_matches_def prefix_24_16)

text \<open>
  C34: what is merged into a set of packet attributes: for each attribute, a value that was given
  wins over a default, a default over an absent one, and the newer over the older of the same kind.
\<close>

theorem merge_attributes_refines:
  "setting_of attr_nfmark nfmark (merge_attributes old new) =
     pick (setting_of attr_nfmark nfmark old) (setting_of attr_nfmark nfmark new) \<and>
   setting_of attr_priority priority (merge_attributes old new) =
     pick (setting_of attr_priority priority old) (setting_of attr_priority priority new) \<and>
   setting_of attr_protocol protocol (merge_attributes old new) =
     pick (setting_of attr_protocol protocol old) (setting_of attr_protocol protocol new) \<and>
   setting_of attr_tc_index tc_index (merge_attributes old new) =
     pick (setting_of attr_tc_index tc_index old) (setting_of attr_tc_index tc_index new)"
  by (simp add: merge_attributes_picks)



definition demo_skb :: packet where
  "demo_skb = \<lparr>skb_gen = 0, skb_data = [0], skb_protocol = 0, skb_nfmark = 0, skb_priority = 0, skb_tc_index = 0\<rparr>"

text \<open>A device of 8 kbit/s that transmits a packet of one byte, with the timer that ends it.\<close>

definition demo_sending :: "packet list world" where
  "demo_sending = demo_world\<lparr>
     dev_base := [\<lparr>dev_name = ''eth0'', mtu = 1500, ifindex = 1, up = True, tx_queue_len = 100, kbps = 8,
       txing = Tx_skb demo_skb, host = 0, peer = None, qdisc = Some [], qdisc_ingress = None, scheduled = True\<rparr>],
     timers := [\<lparr>tid = 0, expires = 0, expires_ujiffies = 100000, tfunction = dev_do_poll_fun, tdata = 0\<rparr>],
     dev_polls := [0 \<mapsto> 0], next_addr := 1\<rparr>"

text \<open>
  C29: in these states, the timer that ends a transmission finds its description and a packet: its
  function neither uses a freed description nor follows a null packet pointer.
\<close>

theorem transmission_end_safe:
  assumes "sim_ok st" "timers st = t # ts" "tfunction t = dev_do_poll_fun"
  shows "\<exists>d. dev_polls st (tdata t) = Some d \<and>
    dev_do_poll HZ k (tdata t) (start_timer t ts st) =
      rbind (deliver k d (fire_state t ts st)) (kernel_poll HZ k (Some d) False) \<and>
    deliver k d (fire_state t ts st) \<noteq> Inl (E_undef ''null packet'')"
proof -
  have "tx_ok st" using assms(1) by (simp add: sim_ok_def)
  then obtain d where d: "dev_polls st (tdata t) = Some d" using fired_device [OF _ assms(2,3)] by blast
  with fire_deliver_error [OF assms d, of k] show ?thesis
    by (auto simp: dev_do_poll_def fire_state_def start_timer_def)
qed

theorem transmission_end_safe_witness:
  "deliver fifo_kernel 0 (fire_state (hd (timers demo_sending)) [] demo_sending) \<noteq> Inl (E_undef ''null packet'')"
proof -
  have "sim_ok demo_sending"
    by (simp add: demo_sending_def demo_world_def empty_sim_def sim_ok_def tx_except_def net_ok_def devs_ok_def peers_ok_def
        clock_ok_def addrs_ok_def polls_of_def sending_def jkey_def tkey_def lexnum_le topo_def topo_index_def topo_peer_def)
  from transmission_end_safe [OF this, where t = "hd (timers demo_sending)" and ts = "[]" and k = fifo_kernel]
  show ?thesis by (auto simp: demo_sending_def)
qed

text \<open>
  C35: with the \<^verbatim>\<open>poll\<close> command the promise fails. Polling a device while it transmits delivers the
  packet and leaves the timer pending; when nothing more is queued and that timer expires, \<open>deliver\<close>
  follows the null pointer.
\<close>

theorem poll_during_transmission_crashes:
  assumes "timers st = t # ts" "tfunction t = dev_do_poll_fun" "dev_polls st (tdata t) = Some d"
    "d < length (dev_base st)" "txing (dev_base st ! d) = Tx_skb skb" "peer (dev_base st ! d) = None"
    "qdisc (dev_base st ! d) = Some q" "k_dequeue k q = Some (None, q')"
  shows "\<exists>st'. kernel_poll HZ k (Some d) True st = Inr st' \<and> timers st' = t # ts \<and>
    dev_do_poll HZ k (tdata t) (start_timer t ts st') = Inl (E_undef ''null packet'')"
proof (cases "scheduled (dev_base st ! d)")
  case True
  with assms show ?thesis
    by (simp add: kernel_poll_def kernel_poll_device_def deliver_def get_dev_def dev_do_poll_def start_timer_def)
next
  case False
  with assms show ?thesis
    by (simp add: kernel_poll_def kernel_poll_device_def deliver_def get_dev_def dev_do_poll_def start_timer_def)
qed

theorem poll_during_transmission_crashes_witness:
  "\<exists>st'. kernel_poll (F_num 100) fifo_kernel (Some 0) True demo_sending = Inr st' \<and>
     dev_do_poll (F_num 100) fifo_kernel 0 (start_timer (hd (timers demo_sending)) [] st') = Inl (E_undef ''null packet'')"
  using poll_during_transmission_crashes [where st = demo_sending and t = "hd (timers demo_sending)" and ts = "[]"
      and d = 0 and skb = demo_skb and q = "[]" and k = fifo_kernel and q' = "[]" and HZ = "F_num 100"]
  by (auto simp: demo_sending_def fifo_kernel_def)

text \<open>
  a variable that was set is read back with its value and type, and setting it changes no
  other variable.
\<close>

theorem variable_roundtrip:
  "get_var_unum n (set_var_unum n x st) = Inr x \<and> get_var_cmd n (set_var_cmd n c st) = Inr c \<and>
   get_var_unum n (set_var_cmd n c st) = Inl (E_yyerror ''invalid variable type'') \<and>
   (m \<noteq> n \<longrightarrow> get_var_unum m (set_var_cmd n c st) = get_var_unum m st)"
  by (simp add: get_var_unum_def get_var_cmd_def set_var_unum_def set_var_cmd_def get_set_var)

theorem variable_roundtrip_witness:
  "get_var_unum ''a'' (set_var_cmd ''c'' (Cmd_echo None) demo_world) = get_var_unum ''a'' demo_world"
  using variable_roundtrip [of "''c''" "u128_from_32 0" demo_world "Cmd_echo None" "''a''"] by simp

end
